(* ===== verification/Prelude.thy ===== *)
theory Prelude
  imports Main "HOL-Library.Word"
begin

text \<open>
  The shared base of the development: names for the C integer types, the splitting of a
  word into little-endian bytes, and the generic lemmas on words and lists that several
  components use. Every fact that the simplifier should use is declared here once, either
  globally or in one of the collections \<open>byte_simps\<close> and \<open>c_int_simps\<close>.
\<close>

unbundle bit_operations_syntax

section \<open>C integer types\<close>

type_synonym u8 = "8 word"
type_synonym u16 = "16 word"
type_synonym u32 = "32 word"
type_synonym u64 = "64 word"

named_theorems byte_simps \<open>splitting words into bytes and putting them together\<close>
named_theorems c_int_simps \<open>reading C integer expressions as numbers\<close>

section \<open>Little-endian bytes\<close>

definition byte_of :: "nat \<Rightarrow> 'a::len word \<Rightarrow> u8" where
  "byte_of i w = ucast (drop_bit (8 * i) w)"

definition le16 :: "u8 \<Rightarrow> u8 \<Rightarrow> u16" where
  "le16 b0 b1 = ucast b0 OR push_bit 8 (ucast b1)"

definition le32 :: "u8 \<Rightarrow> u8 \<Rightarrow> u8 \<Rightarrow> u8 \<Rightarrow> u32" where
  "le32 b0 b1 b2 b3 =
     ucast b0 OR push_bit 8 (ucast b1) OR push_bit 16 (ucast b2) OR push_bit 24 (ucast b3)"

definition be32 :: "u8 \<Rightarrow> u8 \<Rightarrow> u8 \<Rightarrow> u8 \<Rightarrow> u32" where
  "be32 b0 b1 b2 b3 = le32 b3 b2 b1 b0"

definition le64 :: "u32 \<Rightarrow> u32 \<Rightarrow> u64" where
  "le64 lo hi = ucast lo OR push_bit 32 (ucast hi)"

lemma bit_byte_of [bit_simps]:
  "bit (byte_of i (w :: 'a::len word)) n \<longleftrightarrow> n < 8 \<and> bit w (8 * i + n)"
  by (auto simp: byte_of_def bit_simps dest: bit_imp_le_length)

lemma le16_byte_of [byte_simps]: "le16 (byte_of 0 w) (byte_of (Suc 0) w) = w"
  by (rule bit_word_eqI) (auto simp: le16_def bit_simps)

lemma byte_of_le16 [byte_simps]:
  "byte_of 0 (le16 b0 b1) = b0" "byte_of (Suc 0) (le16 b0 b1) = b1"
  by (rule bit_word_eqI; auto simp: le16_def bit_simps dest: bit_imp_le_length)+

lemma le32_byte_of [byte_simps]:
  "le32 (byte_of 0 w) (byte_of (Suc 0) w) (byte_of 2 w) (byte_of 3 w) = w"
proof (rule bit_word_eqI)
  fix n assume "n < LENGTH(32)"
  then consider "n < 8" | "8 \<le> n" "n < 16" | "16 \<le> n" "n < 24" | "24 \<le> n" "n < 32"
    by fastforce
  then show "bit (le32 (byte_of 0 w) (byte_of (Suc 0) w) (byte_of 2 w) (byte_of 3 w)) n = bit w n"
    by cases (auto simp: le32_def bit_simps)
qed

lemma byte_of_le32 [byte_simps]:
  "byte_of 0 (le32 b0 b1 b2 b3) = b0" "byte_of (Suc 0) (le32 b0 b1 b2 b3) = b1"
  "byte_of 2 (le32 b0 b1 b2 b3) = b2" "byte_of 3 (le32 b0 b1 b2 b3) = b3"
  by (rule bit_word_eqI; auto simp: le32_def bit_simps dest: bit_imp_le_length)+

section \<open>Mask literals\<close>

named_theorems mask_simps \<open>hexadecimal masks as bit ranges\<close>

lemma mask_literals [mask_simps]:
  "(0xFF :: u32) = mask 8" "(0xFFFF :: u32) = mask 16" "(0xFFFFFFFF :: u32) = mask 32"
  "(0xFF00 :: u32) = push_bit 8 (mask 8)" "(0xFF0000 :: u32) = push_bit 16 (mask 8)"
  "(0xFF000000 :: u32) = push_bit 24 (mask 8)"
  "(0xFFFFFF00 :: u32) = NOT (mask 8)" "(0xFFFF0000 :: u32) = NOT (mask 16)"
  "(0xFFFF00FF :: u32) = NOT (push_bit 8 (mask 8))"
  by (simp_all add: mask_eq_exp_minus_1)

section \<open>Words as numbers\<close>

lemma unat_ucast_up [c_int_simps]:
  "LENGTH('a::len) \<le> LENGTH('b::len) \<Longrightarrow> unat (ucast (w :: 'a word) :: 'b word) = unat w"
  by (simp add: unsigned_ucast_eq take_bit_nat_eq_self_iff)
     (meson order.strict_trans2 unsigned_less power_increasing one_le_numeral)

lemma uint_ucast_up [c_int_simps]:
  "LENGTH('a::len) \<le> LENGTH('b::len) \<Longrightarrow> uint (ucast (w :: 'a word) :: 'b word) = uint w"
  by (metis uint_nat unat_ucast_up)

lemma unat_u32_lt: "unat (w :: u32) < 4294967296"
  using unsigned_less [of w, where 'a = nat] by simp

lemma word_eq_zero_bits: "(w :: 'a::len word) = 0 \<longleftrightarrow> (\<forall>n < LENGTH('a). \<not> bit w n)"
  by (metis bit_0_eq bit_word_eqI bot_apply bot_bool_def)

lemma word_nz_single_bit:
  "(w :: 'a::len word) AND push_bit k 1 \<noteq> 0 \<longleftrightarrow> bit w k"
  by (metis and.commute bit_iff_and_push_bit_not_eq_0)

lemma bit_times_2: "bit (x * 2) i \<longleftrightarrow> 0 < i \<and> i < 32 \<and> bit x (i - 1)" for x :: u32
  using bit_push_bit_iff [of 1 x i] by (auto simp: push_bit_eq_mult ac_simps)

section \<open>Rotations as pairs of shifts\<close>

lemma rotl_parts:
  "push_bit n w OR drop_bit (LENGTH('a) - n) w = word_rotl n w"
  if "0 < n" "n < LENGTH('a)" for w :: "'a::len word"
  using that by (intro bit_word_eqI) (auto simp: bit_simps mod_if ac_simps dest: bit_imp_le_length)

lemma rotr_parts:
  "drop_bit n w OR push_bit (LENGTH('a) - n) w = word_rotr n w"
  if "0 < n" "n < LENGTH('a)" for w :: "'a::len word"
  using that by (intro bit_word_eqI) (auto simp: bit_simps mod_if ac_simps dest: bit_imp_le_length)

section \<open>Lists as C arrays\<close>

text \<open>\<open>memcpy\<close> of a whole array into another at an offset.\<close>

definition memcpy_at :: "'a list \<Rightarrow> nat \<Rightarrow> 'a list \<Rightarrow> 'a list" where
  "memcpy_at dst at src = take at dst @ src @ drop (at + length src) dst"

lemma memcpy_at_0:
  assumes "length src \<le> length dst"
  shows "length (memcpy_at dst 0 src) = length dst" "take (length src) (memcpy_at dst 0 src) = src"
  using assms by (simp_all add: memcpy_at_def)

lemma length_memcpy_at: "at + length src \<le> length dst \<Longrightarrow> length (memcpy_at dst at src) = length dst"
  by (simp add: memcpy_at_def)

lemma map_nth_upt: "n = length xs \<Longrightarrow> map ((!) xs) [0..<n] = xs"
  by (simp add: map_nth)

lemma nth_list_update_if: "i < length xs \<Longrightarrow> xs[i := v] ! j = (if i = j then v else xs ! j)"
  by (auto simp: nth_list_update)

lemma all_nat_less_Suc [c_int_simps]: "(\<forall>i < Suc n. P i) \<longleftrightarrow> (\<forall>i < n. P i) \<and> P n"
  by (auto simp: less_Suc_eq)

section \<open>The interface of an addressable part of a state\<close>

text \<open>
  A register part, a lane, a memory cell: something that can be read out of a state and
  written back. Its three laws are what clients rely on; the components interpret the locale
  on their own accessors.
\<close>

locale cell =
  fixes get :: "'s \<Rightarrow> 'v" and put :: "'s \<Rightarrow> 'v \<Rightarrow> 's"
  assumes get_put: "get (put s v) = v"
    and put_get: "put s (get s) = s"
    and put_put: "put (put s v) w = put s w"
begin

lemma put_inject: "put s v = put s w \<longleftrightarrow> v = w"
  by (metis get_put)

lemma put_same_iff: "put s v = s \<longleftrightarrow> get s = v"
  by (metis get_put put_get)

lemma agree_except: "put s v = put t v \<Longrightarrow> put s w = put t w"
  by (metis put_put)

lemma restore: "put (put s v) (get s) = s"
  by (simp add: put_put put_get)

end

end
