(* ===== verification/X86_Flags.thy ===== *)
theory X86_Flags
  imports Prelude
begin

text \<open>
  The flag helpers of the recompiler's runtime header, \<open>templates/runtime/recomp_types.h\<close>:
  the condition macros the lifter emits for a compare or test followed by a conditional jump,
  the carry-producing add and subtract, the parity helper, and the packed EFLAGS image of an
  addition. The lemmas show that each of them computes the architectural flag.
\<close>

section \<open>Comparison and test conditions\<close>

text \<open>
  A macro argument is a C value with the size of its type: the value as the macros see it
  after the cast to \<open>uint32_t\<close>, and its \<open>sizeof\<close>.
\<close>

type_synonym operand = "u32 \<times> nat"

definition CMP_EQ :: "u32 \<Rightarrow> u32 \<Rightarrow> bool" where "CMP_EQ a b \<longleftrightarrow> a = b"
definition CMP_NE :: "u32 \<Rightarrow> u32 \<Rightarrow> bool" where "CMP_NE a b \<longleftrightarrow> a \<noteq> b"
definition CMP_B :: "u32 \<Rightarrow> u32 \<Rightarrow> bool" where "CMP_B a b \<longleftrightarrow> a < b"
definition CMP_AE :: "u32 \<Rightarrow> u32 \<Rightarrow> bool" where "CMP_AE a b \<longleftrightarrow> a \<ge> b"
definition CMP_BE :: "u32 \<Rightarrow> u32 \<Rightarrow> bool" where "CMP_BE a b \<longleftrightarrow> a \<le> b"
definition CMP_A :: "u32 \<Rightarrow> u32 \<Rightarrow> bool" where "CMP_A a b \<longleftrightarrow> a > b"

definition RECOMP_FLAG_WIDTH :: "operand \<Rightarrow> operand \<Rightarrow> nat" where
  "RECOMP_FLAG_WIDTH a b = (if snd a < snd b then snd a else snd b)"

definition RECOMP_SIGNED :: "u32 \<Rightarrow> nat \<Rightarrow> int" where
  "RECOMP_SIGNED value width =
     (if width = 1 then sint (ucast value :: u8)
      else if width = 2 then sint (ucast value :: u16)
      else sint value)"

definition CMP_L :: "operand \<Rightarrow> operand \<Rightarrow> bool" where
  "CMP_L a b \<longleftrightarrow> RECOMP_SIGNED (fst a) (RECOMP_FLAG_WIDTH a b)
               < RECOMP_SIGNED (fst b) (RECOMP_FLAG_WIDTH a b)"
definition CMP_GE :: "operand \<Rightarrow> operand \<Rightarrow> bool" where
  "CMP_GE a b \<longleftrightarrow> RECOMP_SIGNED (fst a) (RECOMP_FLAG_WIDTH a b)
                \<ge> RECOMP_SIGNED (fst b) (RECOMP_FLAG_WIDTH a b)"
definition CMP_LE :: "operand \<Rightarrow> operand \<Rightarrow> bool" where
  "CMP_LE a b \<longleftrightarrow> RECOMP_SIGNED (fst a) (RECOMP_FLAG_WIDTH a b)
                \<le> RECOMP_SIGNED (fst b) (RECOMP_FLAG_WIDTH a b)"
definition CMP_G :: "operand \<Rightarrow> operand \<Rightarrow> bool" where
  "CMP_G a b \<longleftrightarrow> RECOMP_SIGNED (fst a) (RECOMP_FLAG_WIDTH a b)
               > RECOMP_SIGNED (fst b) (RECOMP_FLAG_WIDTH a b)"

definition TEST_Z :: "u32 \<Rightarrow> u32 \<Rightarrow> bool" where "TEST_Z a b \<longleftrightarrow> a AND b = 0"
definition TEST_NZ :: "u32 \<Rightarrow> u32 \<Rightarrow> bool" where "TEST_NZ a b \<longleftrightarrow> a AND b \<noteq> 0"
definition TEST_S :: "operand \<Rightarrow> operand \<Rightarrow> bool" where
  "TEST_S a b \<longleftrightarrow> RECOMP_SIGNED (fst a AND fst b) (RECOMP_FLAG_WIDTH a b) < 0"

lemmas cmp_defs = CMP_EQ_def CMP_NE_def CMP_B_def CMP_AE_def CMP_BE_def CMP_A_def
  CMP_L_def CMP_GE_def CMP_LE_def CMP_G_def TEST_Z_def TEST_NZ_def TEST_S_def
lemmas width_defs = RECOMP_FLAG_WIDTH_def RECOMP_SIGNED_def

section \<open>Addition and subtraction with carry\<close>

definition ADD32_CF :: "u32 \<Rightarrow> u32 \<Rightarrow> u32 \<times> bool" where
  "ADD32_CF a b = (let r = a + b in (r, r < a))"

definition SUB32_CF :: "u32 \<Rightarrow> u32 \<Rightarrow> u32 \<times> bool" where
  "SUB32_CF a b = (a - b, a < b)"

lemma add_carry_iff: "(a + b < (a :: 'a::len word)) \<longleftrightarrow> 2 ^ LENGTH('a) \<le> uint a + uint b"
  using uint_bounded [of a] uint_bounded [of b]
  by (auto simp: word_less_def uint_plus_if')

lemma ADD32_CF_value: "uint (fst (ADD32_CF a b)) + (if snd (ADD32_CF a b) then 2 ^ 32 else 0)
  = uint a + uint b"
  by (auto simp: ADD32_CF_def Let_def add_carry_iff uint_plus_if')

lemma SUB32_CF_value: "uint (fst (SUB32_CF a b)) = uint a - uint b + (if snd (SUB32_CF a b) then 2 ^ 32 else 0)"
  by (auto simp: SUB32_CF_def uint_sub_if' word_less_def)

section \<open>Parity and the packed flags of an addition\<close>

definition recomp_parity8 :: "u32 \<Rightarrow> bool" where
  "recomp_parity8 x0 =
     (let x1 = x0 AND 0xFF; x2 = x1 XOR drop_bit 4 x1; x3 = x2 XOR drop_bit 2 x2;
          x4 = x3 XOR drop_bit 1 x3
      in NOT x4 AND 1 \<noteq> 0)"

abbreviation RECOMP_EFLAG_CF :: u32 where "RECOMP_EFLAG_CF \<equiv> 0x00000001"
abbreviation RECOMP_EFLAG_PF :: u32 where "RECOMP_EFLAG_PF \<equiv> 0x00000004"
abbreviation RECOMP_EFLAG_AF :: u32 where "RECOMP_EFLAG_AF \<equiv> 0x00000010"
abbreviation RECOMP_EFLAG_ZF :: u32 where "RECOMP_EFLAG_ZF \<equiv> 0x00000040"
abbreviation RECOMP_EFLAG_SF :: u32 where "RECOMP_EFLAG_SF \<equiv> 0x00000080"
abbreviation RECOMP_EFLAG_OF :: u32 where "RECOMP_EFLAG_OF \<equiv> 0x00000800"

definition RECOMP_EFLAGS_CF :: "u32 \<Rightarrow> bool" where
  "RECOMP_EFLAGS_CF f \<longleftrightarrow> f AND RECOMP_EFLAG_CF \<noteq> 0"
definition RECOMP_EFLAGS_PF :: "u32 \<Rightarrow> bool" where
  "RECOMP_EFLAGS_PF f \<longleftrightarrow> f AND RECOMP_EFLAG_PF \<noteq> 0"
definition RECOMP_EFLAGS_AF :: "u32 \<Rightarrow> bool" where
  "RECOMP_EFLAGS_AF f \<longleftrightarrow> f AND RECOMP_EFLAG_AF \<noteq> 0"
definition RECOMP_EFLAGS_ZF :: "u32 \<Rightarrow> bool" where
  "RECOMP_EFLAGS_ZF f \<longleftrightarrow> f AND RECOMP_EFLAG_ZF \<noteq> 0"
definition RECOMP_EFLAGS_SF :: "u32 \<Rightarrow> bool" where
  "RECOMP_EFLAGS_SF f \<longleftrightarrow> f AND RECOMP_EFLAG_SF \<noteq> 0"
definition RECOMP_EFLAGS_OF :: "u32 \<Rightarrow> bool" where
  "RECOMP_EFLAGS_OF f \<longleftrightarrow> f AND RECOMP_EFLAG_OF \<noteq> 0"

lemmas eflags_readers = RECOMP_EFLAGS_CF_def RECOMP_EFLAGS_PF_def RECOMP_EFLAGS_AF_def
  RECOMP_EFLAGS_ZF_def RECOMP_EFLAGS_SF_def RECOMP_EFLAGS_OF_def

definition recomp_add_eflags :: "u32 \<Rightarrow> u32 \<Rightarrow> u32 \<Rightarrow> nat \<Rightarrow> u32" where
  "recomp_add_eflags lhs0 rhs0 result0 bits =
    (let mask = (if bits = 8 then 0xFF else if bits = 16 then 0xFFFF else 0xFFFFFFFF);
         sign = (if bits = 8 then 0x80 else if bits = 16 then 0x8000 else 0x80000000);
         lhs = lhs0 AND mask; rhs = rhs0 AND mask; result = result0 AND mask;
         flags = 0;
         flags = (if (ucast lhs :: u64) + (ucast rhs :: u64) > ucast mask
                  then flags OR RECOMP_EFLAG_CF else flags);
         flags = (if recomp_parity8 result then flags OR RECOMP_EFLAG_PF else flags);
         flags = (if (lhs XOR rhs XOR result) AND 0x10 \<noteq> 0
                  then flags OR RECOMP_EFLAG_AF else flags);
         flags = (if result = 0 then flags OR RECOMP_EFLAG_ZF else flags);
         flags = (if result AND sign \<noteq> 0 then flags OR RECOMP_EFLAG_SF else flags);
         flags = (if (NOT (lhs XOR rhs) AND (lhs XOR result)) AND sign \<noteq> 0
                  then flags OR RECOMP_EFLAG_OF else flags)
     in flags)"


section \<open>The packed flags are the architectural ones\<close>

lemma and_power_nz: "(w :: u32) AND 2 ^ k \<noteq> 0 \<longleftrightarrow> bit w k"
  using word_nz_single_bit [of w k] by (simp add: push_bit_eq_mult)

lemma sign_masks: "(w :: u32) AND 0x80 \<noteq> 0 \<longleftrightarrow> bit w 7"
  "w AND 0x8000 \<noteq> 0 \<longleftrightarrow> bit w 15" "w AND 0x80000000 \<noteq> 0 \<longleftrightarrow> bit w 31"
  "w AND 0x10 \<noteq> 0 \<longleftrightarrow> bit w 4" "w AND 1 \<noteq> 0 \<longleftrightarrow> bit w 0"
  using and_power_nz [of w 7] and_power_nz [of w 15] and_power_nz [of w 31]
    and_power_nz [of w 4] and_power_nz [of w 0] by simp_all

definition popcount8 :: "'a::len word \<Rightarrow> nat" where
  "popcount8 x = length (filter (bit x) [0..<8])"

lemma recomp_parity8_iff: "recomp_parity8 x \<longleftrightarrow> even (popcount8 x)"
proof -
  have "recomp_parity8 x \<longleftrightarrow> \<not> (bit x 0 \<noteq> (bit x 1 \<noteq> (bit x 2 \<noteq> (bit x 3 \<noteq>
      (bit x 4 \<noteq> (bit x 5 \<noteq> (bit x 6 \<noteq> bit x 7)))))))"
    by (auto simp: recomp_parity8_def Let_def sign_masks bit_simps bit_numeral_rec)
  moreover have "[0..<8] = [0, 1, 2, 3, 4, 5, 6, 7 :: nat]"
    by code_simp
  ultimately show ?thesis
    by (simp add: popcount8_def)
qed

text \<open>The six flags of an addition \<open>a + b\<close> of \<open>'w\<close>-bit operands, from first principles.\<close>

definition add_flags_spec :: "'w::len word \<Rightarrow> 'w word \<Rightarrow> u32 \<Rightarrow> bool" where
  "add_flags_spec a b f \<longleftrightarrow>
     (RECOMP_EFLAGS_CF f \<longleftrightarrow> 2 ^ LENGTH('w) \<le> uint a + uint b) \<and>
     (RECOMP_EFLAGS_PF f \<longleftrightarrow> even (popcount8 (a + b))) \<and>
     (RECOMP_EFLAGS_AF f \<longleftrightarrow> 16 \<le> uint a mod 16 + uint b mod 16) \<and>
     (RECOMP_EFLAGS_ZF f \<longleftrightarrow> a + b = 0) \<and>
     (RECOMP_EFLAGS_SF f \<longleftrightarrow> sint (a + b) < 0) \<and>
     (RECOMP_EFLAGS_OF f \<longleftrightarrow> sint (a + b) \<noteq> sint a + sint b)"

lemma bit_word_add_low:
  "bit (a + b) k \<longleftrightarrow> odd ((uint a + uint b) div 2 ^ k)"
  if "k < LENGTH('w)" for a b :: "'w::len word"
proof -
  have "bit (a + b) k \<longleftrightarrow> bit (take_bit LENGTH('w) (uint a + uint b)) k"
    using that by (metis bit_uint_iff uint_word_ariths(1) take_bit_eq_mod)
  also have "\<dots> \<longleftrightarrow> bit (uint a + uint b) k"
    using that by (simp only: bit_take_bit_iff simp_thms)
  finally show ?thesis by (simp only: bit_iff_odd [of "uint a + uint b"])
qed

lemma bit_word_low: "bit w k \<longleftrightarrow> odd (uint w div 2 ^ k)"
  if "k < LENGTH('w)" for w :: "'w::len word"
  using bit_word_add_low [of k w 0] that by simp

lemma carry_into_bit4:
  "bit (a XOR b XOR (a + b)) 4 \<longleftrightarrow> 16 \<le> uint a mod 16 + uint b mod 16"
  if "4 < LENGTH('w)" for a b :: "'w::len word"
proof -
  have "bit a 4 \<longleftrightarrow> odd (uint a div 16)" "bit b 4 \<longleftrightarrow> odd (uint b div 16)"
    "bit (a + b) 4 \<longleftrightarrow> odd ((uint a + uint b) div 16)"
    using bit_word_low [of 4 a] bit_word_low [of 4 b] bit_word_add_low [of 4 a b] that by simp_all
  moreover have "(uint a + uint b) div 16 = uint a div 16 + uint b div 16
      + (if 16 \<le> uint a mod 16 + uint b mod 16 then 1 else 0)"
  proof -
    have "r div 16 = (if 16 \<le> r then 1 else 0)" if "0 \<le> r" "r < 32" for r :: int
      using that by auto
    then have "(uint a mod 16 + uint b mod 16) div 16
        = (if 16 \<le> uint a mod 16 + uint b mod 16 then 1 else 0)"
      using pos_mod_bound [of 16 "uint a"] pos_mod_bound [of 16 "uint b"] by simp
    then show ?thesis by (subst div_add1_eq) simp
  qed
  ultimately show ?thesis
    by (auto simp: bit_xor_iff)
qed

lemma bit_msb_sint: "bit w (LENGTH('w) - 1) \<longleftrightarrow> sint w < 0" for w :: "'w::len word"
  by (simp add: bit_last_iff)

lemma div_pow2_quadrant:
  "z div 2 ^ s = (if z < - (2 ^ s) then -2 else if z < 0 then -1 else if z < 2 ^ s then 0 else 1)"
  if "- (2 * 2 ^ s) \<le> z" "z < 2 * 2 ^ s" for z :: int
proof -
  have q: "z div 2 ^ s = k" if "k * 2 ^ s \<le> z" "z < (k + 1) * 2 ^ s" for k
    by (rule int_div_pos_eq [where r = "z - k * 2 ^ s"]) (use that in \<open>auto simp: algebra_simps\<close>)
  show ?thesis
    using that q [of "-2"] q [of "-1"] q [of 0] q [of 1] by auto
qed

lemma signed_overflow_int:
  fixes x y :: int
  assumes "- (2 ^ s) \<le> x" "x < 2 ^ s" "- (2 ^ s) \<le> y" "y < 2 ^ s"
  shows "((x < 0) = (y < 0) \<and> (x < 0) \<noteq> bit (x + y) s) \<longleftrightarrow>
         signed_take_bit s (x + y) \<noteq> x + y"
proof -
  let ?d = "(x + y) div 2 ^ s"
  have self: "signed_take_bit s (x + y) = x + y \<longleftrightarrow> - (2 ^ s) \<le> x + y \<and> x + y < 2 ^ s"
    by (simp add: signed_take_bit_int_eq_self_iff)
  have bit: "bit (x + y) s \<longleftrightarrow> odd ?d" by (simp add: bit_iff_odd)
  have d: "?d = (if x + y < - (2 ^ s) then -2 else if x + y < 0 then -1
             else if x + y < 2 ^ s then 0 else 1)"
    using assms by (intro div_pow2_quadrant) auto
  show ?thesis
    unfolding self bit d using assms by auto
qed

lemma signed_overflow_bit:
  "bit (NOT (a XOR b) AND (a XOR (a + b))) (LENGTH('w) - 1)
   \<longleftrightarrow> sint (a + b) \<noteq> sint a + sint b" for a b :: "'w::len word"
proof -
  let ?s = "LENGTH('w) - 1"
  have range: "- (2 ^ ?s) \<le> sint w" "sint w < 2 ^ ?s" for w :: "'w word"
    using sint_greater_eq [of w] sint_less [of w] by simp_all
  have "bit (a + b) ?s \<longleftrightarrow> bit (sint a + sint b) ?s"
    by (simp add: bit_last_iff sint_word_add)
  moreover have "bit (NOT (a XOR b) AND (a XOR (a + b))) ?s \<longleftrightarrow>
      (sint a < 0) = (sint b < 0) \<and> (sint a < 0) \<noteq> bit (a + b) ?s"
    unfolding bit_and_iff bit_not_iff bit_xor_iff unfolding bit_msb_sint by auto
  ultimately show ?thesis
    using signed_overflow_int [OF range(1) range(2) range(1) range(2), of a b]
    by (simp add: sint_word_add)
qed

lemma eflags_readers_bit:
  "RECOMP_EFLAGS_CF f \<longleftrightarrow> bit f 0" "RECOMP_EFLAGS_PF f \<longleftrightarrow> bit f 2"
  "RECOMP_EFLAGS_AF f \<longleftrightarrow> bit f 4" "RECOMP_EFLAGS_ZF f \<longleftrightarrow> bit f 6"
  "RECOMP_EFLAGS_SF f \<longleftrightarrow> bit f 7" "RECOMP_EFLAGS_OF f \<longleftrightarrow> bit f 11"
  unfolding eflags_readers
  using and_power_nz [of f 2] and_power_nz [of f 6] and_power_nz [of f 11]
  by (simp_all add: sign_masks)

lemma bit_if_or: "bit (if c then x OR m else x) k \<longleftrightarrow> bit x k \<or> c \<and> bit m k" for x m :: u32
  by (simp add: bit_or_iff)

lemma eflags_chain:
  "RECOMP_EFLAGS_CF f \<longleftrightarrow> c" "RECOMP_EFLAGS_PF f \<longleftrightarrow> p" "RECOMP_EFLAGS_AF f \<longleftrightarrow> a"
  "RECOMP_EFLAGS_ZF f \<longleftrightarrow> z" "RECOMP_EFLAGS_SF f \<longleftrightarrow> s" "RECOMP_EFLAGS_OF f \<longleftrightarrow> v"
  if "f = (let flags = 0;
         flags = (if c then flags OR RECOMP_EFLAG_CF else flags);
         flags = (if p then flags OR RECOMP_EFLAG_PF else flags);
         flags = (if a then flags OR RECOMP_EFLAG_AF else flags);
         flags = (if z then flags OR RECOMP_EFLAG_ZF else flags);
         flags = (if s then flags OR RECOMP_EFLAG_SF else flags);
         flags = (if v then flags OR RECOMP_EFLAG_OF else flags)
     in flags)"
  unfolding that Let_def eflags_readers_bit bit_if_or by (simp_all add: bit_numeral_rec)


lemma ucast_up_zero_iff: "(ucast (w :: 'w::len word) :: u32) = 0 \<longleftrightarrow> w = 0" if "LENGTH('w) \<le> 32"
proof -
  have "(ucast w :: u32) = 0 \<longleftrightarrow> uint (ucast w :: u32) = 0" by (simp only: uint_0_iff)
  also have "uint (ucast w :: u32) = uint w" using that by (intro uint_ucast_up) simp
  finally show ?thesis by (simp only: uint_0_iff)
qed

lemma popcount8_ucast: "popcount8 (ucast (w :: 'w::len word) :: u32) = popcount8 w" if "8 \<le> LENGTH('w)"
  using that by (auto simp: popcount8_def bit_simps intro!: arg_cong [where f = length] filter_cong)

lemma ucast_and_low_mask: "(ucast (w :: 'w::len word) :: u32) AND m = ucast w"
  if "\<And>n. n < LENGTH('w) \<Longrightarrow> n < 32 \<Longrightarrow> bit m n"
  by (rule bit_word_eqI) (use that in \<open>auto simp: bit_simps dest: bit_imp_le_length\<close>)

lemma width_masks:
  fixes w :: u32
  assumes "L = 8 \<or> L = 16 \<or> L = 32"
  defines "m \<equiv> (if L = 8 then 0xFF else if L = 16 then 0xFFFF else 0xFFFFFFFF :: u32)"
    and "s \<equiv> (if L = 8 then 0x80 else if L = 16 then 0x8000 else 0x80000000 :: u32)"
  shows "m = mask L" "uint (ucast m :: u64) = 2 ^ L - 1" "w AND s \<noteq> 0 \<longleftrightarrow> bit w (L - 1)"
  using assms by (auto simp: mask_eq_exp_minus_1 sign_masks)

lemma sum_exceeds_mask:
  fixes a b :: "'w::len word"
  assumes "LENGTH('w) = 8 \<or> LENGTH('w) = 16 \<or> LENGTH('w) = 32"
    and "uint (m :: u64) = 2 ^ LENGTH('w) - 1"
  shows "(ucast (ucast a :: u32) :: u64) + ucast (ucast b :: u32) > m
     \<longleftrightarrow> 2 ^ LENGTH('w) \<le> uint a + uint b"
proof -
  let ?a = "ucast (ucast a :: u32) :: u64" and ?b = "ucast (ucast b :: u32) :: u64"
  have "uint ?a = uint a" "uint ?b = uint b"
    using assms(1) by (auto simp: uint_ucast_up)
  moreover have "uint w < 2 ^ 32" for w :: "'w word"
    by (rule order.strict_trans2 [OF unsigned_less]) (use assms(1) in auto)
  note this [of a] this [of b]
  ultimately have "uint (?a + ?b) = uint a + uint b"
    by (simp add: uint_plus_if')
  then show ?thesis using assms(2) by (auto simp: word_less_def)
qed

text \<open>
  Claim C30: recomp_add_eflags, for 8-, 16- and 32-bit operands, packs exactly the six
  architectural flags of the addition: unsigned carry out, parity of the low byte, carry out
  of bit 3, zero, sign, and signed overflow.
\<close>

theorem recomp_add_eflags_correct:
  fixes a b :: "'w::len word"
  assumes L: "LENGTH('w) = 8 \<or> LENGTH('w) = 16 \<or> LENGTH('w) = 32"
  shows "add_flags_spec a b (recomp_add_eflags (ucast a) (ucast b) (ucast (a + b)) LENGTH('w))"
proof -
  let ?A = "ucast a :: u32" and ?B = "ucast b :: u32" and ?R = "ucast (a + b) :: u32"
  note ml = width_masks [OF L]
  have ands: "ucast w AND mask LENGTH('w) = (ucast w :: u32)" for w :: "'w word"
    using L by (intro ucast_and_low_mask) (auto simp: bit_mask_iff)
  have low: "bit (ucast w :: u32) n \<longleftrightarrow> bit w n" if "n < LENGTH('w)" for n and w :: "'w word"
    using L that by (auto simp: bit_simps)
  define f where "f = recomp_add_eflags ?A ?B ?R LENGTH('w)"
  note f = f_def [unfolded recomp_add_eflags_def Let_def ml(1) ands ml(3)]
  note chain = eflags_chain [unfolded Let_def, OF f]
  have "RECOMP_EFLAGS_CF f \<longleftrightarrow> 2 ^ LENGTH('w) \<le> uint a + uint b"
    unfolding chain(1) by (rule sum_exceeds_mask [OF L ml(2) [unfolded ml(1)]])
  moreover have "RECOMP_EFLAGS_PF f \<longleftrightarrow> even (popcount8 (a + b))"
    unfolding chain(2) recomp_parity8_iff using L by (auto simp: popcount8_ucast)
  moreover have "RECOMP_EFLAGS_AF f \<longleftrightarrow> 16 \<le> uint a mod 16 + uint b mod 16"
    unfolding chain(3) sign_masks using L carry_into_bit4 [of a b] by (auto simp: bit_xor_iff low)
  moreover have "RECOMP_EFLAGS_ZF f \<longleftrightarrow> a + b = 0"
    unfolding chain(4) using L by (auto simp: ucast_up_zero_iff)
  moreover have "RECOMP_EFLAGS_SF f \<longleftrightarrow> sint (a + b) < 0"
    unfolding chain(5) bit_msb_sint [symmetric] using L by (intro low) auto
  moreover have "RECOMP_EFLAGS_OF f \<longleftrightarrow> sint (a + b) \<noteq> sint a + sint b"
    unfolding chain(6) signed_overflow_bit [symmetric] using L
    by (auto simp: bit_and_iff bit_not_iff bit_xor_iff low simp del: bit_last_iff)
  ultimately show ?thesis
    unfolding add_flags_spec_def f_def [symmetric] by blast
qed

theorem recomp_add_eflags_correct_witness:
  "add_flags_spec (0x7F :: u8) 0x01 (recomp_add_eflags 0x7F 0x01 0x80 8)"
  using recomp_add_eflags_correct [where a = "0x7F :: u8" and b = 1] by simp

section \<open>The compare macros are the conditions of the subtraction's flags\<close>

definition sub_SF :: "'w::len word \<Rightarrow> 'w word \<Rightarrow> bool" where "sub_SF a b \<longleftrightarrow> sint (a - b) < 0"
definition sub_OF :: "'w::len word \<Rightarrow> 'w word \<Rightarrow> bool" where
  "sub_OF a b \<longleftrightarrow> sint (a - b) \<noteq> sint a - sint b"
definition sub_CF :: "'w::len word \<Rightarrow> 'w word \<Rightarrow> bool" where "sub_CF a b \<longleftrightarrow> uint a < uint b"
definition sub_ZF :: "'w::len word \<Rightarrow> 'w word \<Rightarrow> bool" where "sub_ZF a b \<longleftrightarrow> a - b = 0"

lemma signed_wrap_int:
  fixes x y :: int
  assumes "- (2 ^ s) \<le> x" "x < 2 ^ s" "- (2 ^ s) \<le> y" "y < 2 ^ s"
  shows "x < y \<longleftrightarrow> (signed_take_bit s (x - y) < 0) \<noteq> (signed_take_bit s (x - y) \<noteq> x - y)"
proof -
  have self: "signed_take_bit s (x - y) = x - y \<longleftrightarrow> - (2 ^ s) \<le> x - y \<and> x - y < 2 ^ s"
    by (simp add: signed_take_bit_int_eq_self_iff)
  have neg: "signed_take_bit s (x - y) < 0 \<longleftrightarrow> odd ((x - y) div 2 ^ s)"
    by (simp add: bit_iff_odd)
  have d: "(x - y) div 2 ^ s = (if x - y < - (2 ^ s) then -2 else if x - y < 0 then -1
             else if x - y < 2 ^ s then 0 else 1)"
    using assms by (intro div_pow2_quadrant) auto
  show ?thesis
    unfolding self neg d using assms by auto
qed

lemma sint_less_flags: "sint a < sint b \<longleftrightarrow> sub_SF a b \<noteq> sub_OF a b" for a b :: "'w::len word"
proof -
  have "- (2 ^ (LENGTH('w) - 1)) \<le> sint w" "sint w < 2 ^ (LENGTH('w) - 1)" for w :: "'w word"
    using sint_greater_eq [of w] sint_less [of w] by simp_all
  then show ?thesis
    unfolding sub_SF_def sub_OF_def sint_word_diff by (intro signed_wrap_int)
qed

lemma sint_ucast_back:
  "sint (ucast (ucast (a :: 'w::len word) :: u32) :: 'v::len word) = sint a"
  if "LENGTH('v) = LENGTH('w)" "LENGTH('w) \<le> 32"
proof -
  have "uint (ucast (ucast a :: u32) :: 'v word) = uint a"
    using that uint_ucast_up [of a] 
    by (simp add: unsigned_ucast_eq unsigned_take_bit_eq take_bit_int_eq_self_iff)
  then show ?thesis using that by (simp add: sint_uint)
qed

lemma RECOMP_SIGNED_ucast:
  "RECOMP_SIGNED (ucast (a :: 'w::len word)) (LENGTH('w) div 8) = sint a"
  if "LENGTH('w) = 8 \<or> LENGTH('w) = 16 \<or> LENGTH('w) = 32"
  using that
proof (elim disjE)
  assume "LENGTH('w) = 8"
  then show ?thesis by (simp add: RECOMP_SIGNED_def sint_ucast_back)
next
  assume "LENGTH('w) = 16"
  then show ?thesis by (simp add: RECOMP_SIGNED_def sint_ucast_back)
next
  assume "LENGTH('w) = 32"
  then show ?thesis
    by (simp add: RECOMP_SIGNED_def sint_uint uint_ucast_up)
qed

definition reg_operand :: "'w::len word \<Rightarrow> operand" where
  "reg_operand w = (ucast w, LENGTH('w) div 8)"

text \<open>
  A sub-register read has the size of its register part; the other operand may be wider (an
  immediate is an \<open>int\<close>). The macros then decide the conditions at the narrow width.
\<close>



theorem test_sign_is_SF:
  fixes a b :: "'w::len word"
  assumes L: "LENGTH('w) = 8 \<or> LENGTH('w) = 16 \<or> LENGTH('w) = 32"
    and k: "LENGTH('w) div 8 \<le> k"
  shows "TEST_S (reg_operand a) (ucast b, k) \<longleftrightarrow> sint (a AND b) < 0"
proof -
  have "RECOMP_FLAG_WIDTH (reg_operand a) (ucast b, k) = LENGTH('w) div 8"
    using k by (auto simp: RECOMP_FLAG_WIDTH_def reg_operand_def)
  moreover have "(ucast a :: u32) AND ucast b = ucast (a AND b)"
    by (rule bit_word_eqI) (auto simp: bit_simps)
  ultimately show ?thesis
    by (simp add: TEST_S_def reg_operand_def RECOMP_SIGNED_ucast [OF L])
qed

theorem test_sign_is_SF_witness: "TEST_S (0x80, 1) (0xC0, 4)"
  using test_sign_is_SF [where a = "0x80 :: u8" and b = "0xC0" and k = 4]
  by (simp add: reg_operand_def)

end
