(* ===== verification/X86_Rotates.thy ===== *)
theory X86_Rotates
  imports Prelude
begin

text \<open>
  The rotate, byte-swap, bit-scan, extension and sub-register helpers of
  \<open>templates/runtime/recomp_types.h\<close>. A C \<open>int\<close> count is a \<open>u32\<close> read through its low five
  bits, as the code masks it; the shifts by \<open>width - n\<close> are written out as in the source.
\<close>

section \<open>Rotates at the operand's own width\<close>

definition rot_count :: "u32 \<Rightarrow> nat" where "rot_count n = unat (n AND 31)"

definition ROL32 :: "u32 \<Rightarrow> u32 \<Rightarrow> u32" where
  "ROL32 val n0 = (let n = rot_count n0 in
     if n \<noteq> 0 then push_bit n val OR drop_bit (32 - n) val else val)"

definition ROR32 :: "u32 \<Rightarrow> u32 \<Rightarrow> u32" where
  "ROR32 val n0 = (let n = rot_count n0 in
     if n \<noteq> 0 then drop_bit n val OR push_bit (32 - n) val else val)"

text \<open>
  The narrow forms promote the operand to \<open>int\<close>, shift there, and truncate: \<open>ucast\<close> up
  to 32 bits, the two shifts, and \<open>ucast\<close> down.
\<close>

definition ROL8 :: "u8 \<Rightarrow> u32 \<Rightarrow> u8" where
  "ROL8 val n0 = (let n = rot_count n0 mod 8 in
     if n \<noteq> 0 then ucast (push_bit n (ucast val :: u32) OR drop_bit (8 - n) (ucast val :: u32)) else val)"

definition ROR8 :: "u8 \<Rightarrow> u32 \<Rightarrow> u8" where
  "ROR8 val n0 = (let n = rot_count n0 mod 8 in
     if n \<noteq> 0 then ucast (drop_bit n (ucast val :: u32) OR push_bit (8 - n) (ucast val :: u32)) else val)"

definition ROL16 :: "u16 \<Rightarrow> u32 \<Rightarrow> u16" where
  "ROL16 val n0 = (let n = rot_count n0 mod 16 in
     if n \<noteq> 0 then ucast (push_bit n (ucast val :: u32) OR drop_bit (16 - n) (ucast val :: u32)) else val)"

definition ROR16 :: "u16 \<Rightarrow> u32 \<Rightarrow> u16" where
  "ROR16 val n0 = (let n = rot_count n0 mod 16 in
     if n \<noteq> 0 then ucast (drop_bit n (ucast val :: u32) OR push_bit (16 - n) (ucast val :: u32)) else val)"

lemma rot_count_less: "rot_count n < 32"
proof -
  have "n AND 31 \<le> 31" by (rule word_and_le1)
  then show ?thesis by (simp add: rot_count_def word_le_nat_alt)
qed

lemma narrow_rotl:
  "ucast (push_bit n (ucast w :: u32) OR drop_bit (LENGTH('a) - n) (ucast w :: u32)) = word_rotl n w"
  if "0 < n" "n < LENGTH('a)" "2 * LENGTH('a) \<le> 32" for w :: "'a::len word"
  using that by (intro bit_word_eqI) (auto simp: bit_simps mod_if ac_simps dest: bit_imp_le_length)

lemma narrow_rotr:
  "ucast (drop_bit n (ucast w :: u32) OR push_bit (LENGTH('a) - n) (ucast w :: u32)) = word_rotr n w"
  if "0 < n" "n < LENGTH('a)" "2 * LENGTH('a) \<le> 32" for w :: "'a::len word"
  using that by (intro bit_word_eqI) (auto simp: bit_simps mod_if ac_simps dest: bit_imp_le_length)

lemma word_rotl_mod: "word_rotl (n mod LENGTH('a)) w = word_rotl n (w :: 'a::len word)"
  by (rule bit_word_eqI) (simp add: bit_word_rotl_iff)

lemma word_rotr_mod: "word_rotr (n mod LENGTH('a)) w = word_rotr n (w :: 'a::len word)"
  by (rule bit_word_eqI) (simp add: bit_word_rotr_iff mod_add_right_eq)

lemma rotl_0: "word_rotl 0 w = w" and rotr_0: "word_rotr 0 w = w" for w :: "'a::len word"
  by (rule bit_word_eqI; simp add: bit_simps)+

section \<open>Rotate through carry\<close>

text \<open>
  One turn of the loop body and the loop, over the pair of value and carry; \<open>cf\<close> is the C
  \<open>int\<close> whose low bit is used. The count is masked to five bits and then reduced modulo
  \<open>bits + 1\<close>.
\<close>

definition rc_mask :: "nat \<Rightarrow> u32" where
  "rc_mask bits = (if bits = 32 then 0xFFFFFFFF else push_bit bits 1 - 1)"

definition rcr_step :: "nat \<Rightarrow> u32 \<times> u32 \<Rightarrow> u32 \<times> u32" where
  "rcr_step bits = (\<lambda>(val, cf). let lsb = val AND 1 in
     ((drop_bit 1 val OR push_bit (bits - 1) (cf AND 1)) AND rc_mask bits, lsb))"

definition rcl_step :: "nat \<Rightarrow> u32 \<times> u32 \<Rightarrow> u32 \<times> u32" where
  "rcl_step bits = (\<lambda>(val, cf). let msb = drop_bit (bits - 1) val AND 1 in
     ((push_bit 1 val OR (cf AND 1)) AND rc_mask bits, msb))"

definition RECOMP_RCR :: "u32 \<Rightarrow> u32 \<Rightarrow> u32 \<Rightarrow> nat \<Rightarrow> u32 \<times> u32" where
  "RECOMP_RCR val n cf bits =
     (rcr_step bits ^^ (rot_count n mod (bits + 1))) (val AND rc_mask bits, cf)"

definition RECOMP_RCL :: "u32 \<Rightarrow> u32 \<Rightarrow> u32 \<Rightarrow> nat \<Rightarrow> u32 \<times> u32" where
  "RECOMP_RCL val n cf bits =
     (rcl_step bits ^^ (rot_count n mod (bits + 1))) (val AND rc_mask bits, cf)"

section \<open>Extension and sub-registers\<close>

definition ZX8 :: "u32 \<Rightarrow> u32" where "ZX8 v = ucast (ucast v :: u8)"
definition ZX16 :: "u32 \<Rightarrow> u32" where "ZX16 v = ucast (ucast v :: u16)"
definition SX8 :: "u32 \<Rightarrow> u32" where "SX8 v = scast (ucast v :: u8)"
definition SX16 :: "u32 \<Rightarrow> u32" where "SX16 v = scast (ucast v :: u16)"

definition LO8 :: "u32 \<Rightarrow> u8" where "LO8 r = ucast (r AND 0xFF)"
definition HI8 :: "u32 \<Rightarrow> u8" where "HI8 r = ucast (drop_bit 8 r AND 0xFF)"
definition LO16 :: "u32 \<Rightarrow> u16" where "LO16 r = ucast (r AND 0xFFFF)"

definition SET_LO8 :: "u32 \<Rightarrow> u32 \<Rightarrow> u32" where
  "SET_LO8 r v = (r AND 0xFFFFFF00) OR ucast (ucast v :: u8)"
definition SET_HI8 :: "u32 \<Rightarrow> u32 \<Rightarrow> u32" where
  "SET_HI8 r v = (r AND 0xFFFF00FF) OR push_bit 8 (ucast (ucast v :: u8))"
definition SET_LO16 :: "u32 \<Rightarrow> u32 \<Rightarrow> u32" where
  "SET_LO16 r v = (r AND 0xFFFF0000) OR ucast (ucast v :: u16)"

section \<open>Byte swap and bit scan\<close>

definition BSWAP32 :: "u32 \<Rightarrow> u32" where
  "BSWAP32 v = (drop_bit 24 v AND 0xFF) OR (drop_bit 8 v AND 0xFF00) OR
               (push_bit 8 v AND 0xFF0000) OR (push_bit 24 v AND 0xFF000000)"

definition BSWAP16 :: "u16 \<Rightarrow> u16" where
  "BSWAP16 v = ucast (drop_bit 8 (ucast v :: u32) OR push_bit 8 (ucast v :: u32))"

text \<open>
  The scan loops do not stop on a zero operand (the callers guard it), so they are partial:
  \<open>None\<close> is the loop that runs past the word.
\<close>

function BSF32_loop :: "u32 \<Rightarrow> nat \<Rightarrow> nat option" where
  "BSF32_loop v i = (if i < 32 then (if drop_bit i v AND 1 = 0 then BSF32_loop v (Suc i) else Some i)
     else None)"
  by pat_completeness auto
termination
  by (relation "measure (\<lambda>(v, i). 32 - i)") auto

definition BSF32 :: "u32 \<Rightarrow> nat option" where "BSF32 v = BSF32_loop v 0"

fun BSR32_loop :: "u32 \<Rightarrow> nat \<Rightarrow> nat option" where
  "BSR32_loop v 0 = (if v AND 1 = 0 then None else Some 0)"
| "BSR32_loop v (Suc i) = (if drop_bit (Suc i) v AND 1 = 0 then BSR32_loop v i else Some (Suc i))"

definition BSR32 :: "u32 \<Rightarrow> nat option" where "BSR32 v = BSR32_loop v 31"

declare BSF32_loop.simps [simp del]

section \<open>Rotates are rotations\<close>

lemma rot_count_mod_less: "rot_count n mod 8 < 8" "rot_count n mod 16 < 16"
  by simp_all

text \<open>
  Claim C39: ROL/ROR at 8, 16 and 32 bits are rotations of the operand at its own width by
  the count masked to five bits, including counts that are multiples of the width.
\<close>

theorem rotates_are_rotations:
  "ROL32 v n = word_rotl (rot_count n) v \<and> ROR32 v n = word_rotr (rot_count n) v \<and>
   ROL16 w n = word_rotl (rot_count n) w \<and> ROR16 w n = word_rotr (rot_count n) w \<and>
   ROL8 b n = word_rotl (rot_count n) b \<and> ROR8 b n = word_rotr (rot_count n) b"
proof -
  have "ROL32 v n = word_rotl (rot_count n) v" "ROR32 v n = word_rotr (rot_count n) v"
    using rot_count_less [of n] rotl_parts [of "rot_count n" v] rotr_parts [of "rot_count n" v]
    by (cases "rot_count n = 0"; simp add: ROL32_def ROR32_def Let_def rotl_0 rotr_0)+
  moreover have "ROL16 w n = word_rotl (rot_count n) w" "ROR16 w n = word_rotr (rot_count n) w"
    using rotl_0 [of w] rotr_0 [of w] narrow_rotl [of "rot_count n mod 16" w] narrow_rotr [of "rot_count n mod 16" w]
      word_rotl_mod [of "rot_count n" w] word_rotr_mod [of "rot_count n" w]
    by (cases "rot_count n mod 16 = 0"; simp add: ROL16_def ROR16_def Let_def)+
  moreover have "ROL8 b n = word_rotl (rot_count n) b" "ROR8 b n = word_rotr (rot_count n) b"
    using rotl_0 [of b] rotr_0 [of b] narrow_rotl [of "rot_count n mod 8" b] narrow_rotr [of "rot_count n mod 8" b]
      word_rotl_mod [of "rot_count n" b] word_rotr_mod [of "rot_count n" b]
    by (cases "rot_count n mod 8 = 0"; simp add: ROL8_def ROR8_def Let_def)+
  ultimately show ?thesis by blast
qed

section \<open>Rotate through carry turns a ring of one bit more\<close>

definition rc_ring :: "nat \<Rightarrow> u32 \<times> u32 \<Rightarrow> bool list" where
  "rc_ring bits vc = map (bit (fst vc)) [0..<bits] @ [bit (snd vc) 0]"

lemma length_rc_ring [simp]: "length (rc_ring bits vc) = bits + 1"
  by (simp add: rc_ring_def)

lemma rc_mask_eq: "0 < bits \<Longrightarrow> bits \<le> 32 \<Longrightarrow> rc_mask bits = mask bits"
  by (auto simp: rc_mask_def mask_eq_exp_minus_1 push_bit_eq_mult)

lemma nth_rc_ring:
  "i \<le> bits \<Longrightarrow> rc_ring bits vc ! i = (if i < bits then bit (fst vc) i else bit (snd vc) 0)"
  by (auto simp: rc_ring_def nth_append)

definition rc_narrow :: "nat \<Rightarrow> u32 \<times> u32 \<Rightarrow> bool" where
  "rc_narrow bits vc \<longleftrightarrow> take_bit bits (fst vc) = fst vc"

lemma rc_narrow_bit: "rc_narrow bits vc \<Longrightarrow> bits \<le> i \<Longrightarrow> \<not> bit (fst vc) i"
  by (metis rc_narrow_def bit_take_bit_iff not_le)

lemma rc_narrow_masked [simp]: "0 < bits \<Longrightarrow> bits \<le> 32 \<Longrightarrow> rc_narrow bits (v AND rc_mask bits, cf)"
  by (simp add: rc_narrow_def rc_mask_eq take_bit_eq_mask ac_simps)

lemma rc_narrow_rcr_step: "0 < bits \<Longrightarrow> bits \<le> 32 \<Longrightarrow> rc_narrow bits (rcr_step bits vc)"
  by (simp add: rcr_step_def Let_def split: prod.splits)

lemma rc_narrow_rcr_pow:
  "0 < bits \<Longrightarrow> bits \<le> 32 \<Longrightarrow> rc_narrow bits vc \<Longrightarrow> rc_narrow bits ((rcr_step bits ^^ k) vc)"
  by (cases k) (simp_all add: rc_narrow_rcr_step)

lemma rcr_ring:
  assumes "0 < bits" "bits \<le> 32" "rc_narrow bits vc"
  shows "rc_ring bits (rcr_step bits vc) = rotate1 (rc_ring bits vc)"
proof (rule nth_equalityI)
  fix i assume "i < length (rc_ring bits (rcr_step bits vc))"
  then have i: "i \<le> bits" by simp
  have "rotate1 (rc_ring bits vc) ! i = rc_ring bits vc ! (Suc i mod (bits + 1))"
    using i nth_rotate1 [of i "rc_ring bits vc"] by simp
  also have "\<dots> = (if Suc i < bits then bit (fst vc) (Suc i) else if Suc i = bits then bit (snd vc) 0
      else bit (fst vc) 0)"
    using i assms(1) by (auto simp: nth_rc_ring mod_if)
  also have "\<dots> = rc_ring bits (rcr_step bits vc) ! i"
  proof -
    consider "i = bits" | "Suc i = bits" | "Suc i < bits" using i by linarith
    then show ?thesis
      using assms(1,2) rc_narrow_bit [OF assms(3), of bits]
      by cases (auto simp: nth_rc_ring rcr_step_def rc_mask_eq Let_def bit_simps split: prod.splits)
  qed
  finally show "rc_ring bits (rcr_step bits vc) ! i = rotate1 (rc_ring bits vc) ! i" ..
qed simp

lemma rcl_ring:
  assumes "0 < bits" "bits \<le> 32"
  shows "rotate1 (rc_ring bits (rcl_step bits vc)) = rc_ring bits vc"
proof (rule nth_equalityI)
  fix i assume "i < length (rotate1 (rc_ring bits (rcl_step bits vc)))"
  then have i: "i \<le> bits" by simp
  have "rotate1 (rc_ring bits (rcl_step bits vc)) ! i
      = rc_ring bits (rcl_step bits vc) ! (Suc i mod (bits + 1))"
    using i nth_rotate1 [of i "rc_ring bits (rcl_step bits vc)"] by simp
  also have "\<dots> = rc_ring bits vc ! i"
  proof -
    consider "i = bits" | "Suc i = bits" | "Suc i < bits" using i by linarith
    then show ?thesis
      using assms by cases (auto simp: nth_rc_ring rcl_step_def rc_mask_eq Let_def bit_simps
          bit_times_2 split: prod.splits)
  qed
  finally show "rotate1 (rc_ring bits (rcl_step bits vc)) ! i = rc_ring bits vc ! i" .
qed simp

lemma rcr_ring_pow:
  "0 < bits \<Longrightarrow> bits \<le> 32 \<Longrightarrow> rc_narrow bits vc \<Longrightarrow>
   rc_ring bits ((rcr_step bits ^^ k) vc) = rotate k (rc_ring bits vc)"
  by (induction k) (simp_all add: rcr_ring rc_narrow_rcr_pow rotate_def)

lemma rcl_ring_pow:
  "0 < bits \<Longrightarrow> bits \<le> 32 \<Longrightarrow>
   rotate k (rc_ring bits ((rcl_step bits ^^ k) vc)) = rc_ring bits vc"
proof (induction k)
  case (Suc k)
  have "rotate (Suc k) (rc_ring bits ((rcl_step bits ^^ Suc k) vc))
      = rotate k (rotate1 (rc_ring bits (rcl_step bits ((rcl_step bits ^^ k) vc))))"
    by (simp add: rotate1_rotate_swap)
  also have "\<dots> = rc_ring bits vc"
    using Suc by (simp only: rcl_ring)
  finally show ?case .
qed simp

text \<open>
  Claim C37: RECOMP_RCR rotates the ring formed by the operand's bits and the carry flag,
  width + 1 bits long, by the count masked to five bits, and RECOMP_RCL is the inverse
  rotation, for every width from 1 to 32.
\<close>

theorem rotate_through_carry_is_ring_rotation:
  assumes "0 < bits" "bits \<le> 32"
  shows "rc_ring bits (RECOMP_RCR val n cf bits)
           = rotate (rot_count n) (rc_ring bits (val, cf)) \<and>
         rotate (rot_count n) (rc_ring bits (RECOMP_RCL val n cf bits)) = rc_ring bits (val, cf)"
proof -
  have m: "rc_ring bits (val AND rc_mask bits, cf) = rc_ring bits (val, cf)"
    using assms by (intro nth_equalityI) (auto simp: nth_rc_ring rc_mask_eq bit_simps less_Suc_eq_le)
  have r: "rotate (k mod (bits + 1)) (rc_ring bits vc) = rotate k (rc_ring bits vc)" for k vc
    using rotate_conv_mod [of k "rc_ring bits vc"] by simp
  show ?thesis
    using rcr_ring_pow [OF assms rc_narrow_masked [OF assms], of "rot_count n mod (bits + 1)" val cf]
      rcl_ring_pow [OF assms, of "rot_count n mod (bits + 1)" "(val AND rc_mask bits, cf)"]
    unfolding RECOMP_RCR_def RECOMP_RCL_def m r by blast
qed

theorem rotate_through_carry_witness:
  "rc_ring 8 (RECOMP_RCR 0x81 9 1 8) = rc_ring 8 (0x81, 1)"
proof -
  have "rot_count 9 = 9" by (simp add: rot_count_def)
  then show ?thesis
    using rotate_through_carry_is_ring_rotation [where bits = 8 and val = "0x81" and n = 9 and cf = 1]
      rotate_conv_mod [of 9 "rc_ring 8 (0x81, 1)"] by simp
qed

text \<open>
  How the compiler shifts a 64-bit value right by one: \<open>shr high, 1\<close>, which leaves the low
  bit of the high word in the carry, then \<open>rcr low, 1\<close>.
\<close>

text \<open>
  Claim C38: The compiler's 64-bit shift, shr on the high word followed by rcr on the low
  word with the bit shifted out as carry, is a one-bit right shift of the 64-bit value.
\<close>

theorem shr_rcr_shifts_64:
  "le64 (fst (RECOMP_RCR lo 1 (hi AND 1) 32)) (drop_bit 1 hi) = drop_bit 1 (le64 lo hi)"
proof -
  have "rot_count 1 = 1" by (simp add: rot_count_def)
  then have "fst (RECOMP_RCR lo 1 (hi AND 1) 32)
      = (drop_bit 1 (lo AND mask 32) OR push_bit 31 ((hi AND 1) AND 1)) AND mask 32"
    by (simp add: RECOMP_RCR_def rcr_step_def rc_mask_eq Let_def)
  then have low: "bit (fst (RECOMP_RCR lo 1 (hi AND 1) 32)) n
      \<longleftrightarrow> (if n < 31 then bit lo (Suc n) else n = 31 \<and> bit hi 0)" for n
    by (auto simp: bit_and_iff bit_or_iff bit_mask_iff bit_drop_bit_eq bit_push_bit_iff bit_1_iff
        simp del: push_bit_and drop_bit_and dest: bit_imp_le_length)
  show ?thesis
  proof (rule bit_word_eqI)
    fix n assume "n < LENGTH(64)"
    then consider "n < 31" | "n = 31" | "32 \<le> n" "n < 64" "Suc n - 32 = Suc (n - 32)" by fastforce
    then show "bit (le64 (fst (RECOMP_RCR lo 1 (hi AND 1) 32)) (drop_bit 1 hi)) n
        \<longleftrightarrow> bit (drop_bit 1 (le64 lo hi)) n"
      by cases (auto simp: le64_def low bit_simps dest: bit_imp_le_length)
  qed
qed

section \<open>Sub-registers are cells of the register\<close>

interpretation lo8: cell LO8 "\<lambda>r (v :: u8). SET_LO8 r (ucast v)"
  by unfold_locales
    (rule bit_word_eqI; auto simp: LO8_def SET_LO8_def mask_simps bit_simps dest: bit_imp_le_length)+

interpretation hi8: cell HI8 "\<lambda>r (v :: u8). SET_HI8 r (ucast v)"
  by unfold_locales
    (rule bit_word_eqI; auto simp: HI8_def SET_HI8_def mask_simps bit_simps dest: bit_imp_le_length)+

interpretation lo16: cell LO16 "\<lambda>r (v :: u16). SET_LO16 r (ucast v)"
  by unfold_locales
    (rule bit_word_eqI; auto simp: LO16_def SET_LO16_def mask_simps bit_simps dest: bit_imp_le_length)+

lemma subregister_frames:
  "HI8 (SET_LO8 r v) = HI8 r" "LO8 (SET_HI8 r v) = LO8 r"
  "drop_bit 16 (SET_LO8 r v) = drop_bit 16 r" "drop_bit 16 (SET_HI8 r v) = drop_bit 16 r"
  "drop_bit 16 (SET_LO16 r v) = drop_bit 16 r"
  by (rule bit_word_eqI; auto simp: HI8_def LO8_def SET_LO8_def SET_HI8_def SET_LO16_def mask_simps
      bit_simps dest: bit_imp_le_length)+

text \<open>
  Writing AL, AH or AX stores the value in exactly that part of the register: the
  part reads back, its sibling part and the upper half are unchanged, and rewriting what was
  read restores the register.
\<close>

theorem subregister_writes:
  fixes v :: u8 and w :: u16
  shows "LO8 (SET_LO8 r (ucast v)) = v \<and> HI8 (SET_LO8 r (ucast v)) = HI8 r \<and>
         HI8 (SET_HI8 r (ucast v)) = v \<and> LO8 (SET_HI8 r (ucast v)) = LO8 r \<and>
         LO16 (SET_LO16 r (ucast w)) = w \<and> SET_LO16 r (ucast (LO16 r)) = r \<and>
         drop_bit 16 (SET_LO8 r (ucast v)) = drop_bit 16 r \<and>
         drop_bit 16 (SET_HI8 r (ucast v)) = drop_bit 16 r \<and>
         drop_bit 16 (SET_LO16 r (ucast w)) = drop_bit 16 r"
  by (simp only: lo8.get_put hi8.get_put lo16.get_put lo16.put_get subregister_frames simp_thms)

section \<open>Byte swap and bit scan\<close>

lemma BSWAP32_bytes: "BSWAP32 v = be32 (byte_of 0 v) (byte_of (Suc 0) v) (byte_of 2 v) (byte_of 3 v)"
proof (rule bit_word_eqI)
  fix n assume "n < LENGTH(32)"
  then consider "n < 8" | "8 \<le> n" "n < 16" | "16 \<le> n" "n < 24" | "24 \<le> n" "n < 32" by fastforce
  then show "bit (BSWAP32 v) n
      = bit (be32 (byte_of 0 v) (byte_of (Suc 0) v) (byte_of 2 v) (byte_of 3 v)) n"
    by cases (auto simp: BSWAP32_def be32_def le32_def mask_simps bit_simps ac_simps)
qed

lemma BSWAP16_bytes: "BSWAP16 v = le16 (byte_of (Suc 0) v) (byte_of 0 v)"
proof (rule bit_word_eqI)
  fix n assume "n < LENGTH(16)"
  then consider "n < 8" | "8 \<le> n" "n < 16" by fastforce
  then show "bit (BSWAP16 v) n = bit (le16 (byte_of (Suc 0) v) (byte_of 0 v)) n"
    by cases (auto simp: BSWAP16_def le16_def bit_simps ac_simps dest: bit_imp_le_length)
qed

text \<open>
  BSWAP32 and BSWAP16 reverse the bytes of the operand and are their own
  inverses.
\<close>

theorem byte_swap_reverses_and_is_involutive:
  "BSWAP32 (le32 a b c d) = le32 d c b a \<and> BSWAP32 (BSWAP32 v) = v \<and>
   BSWAP16 (le16 a b) = le16 b a \<and> BSWAP16 (BSWAP16 w) = w"
  by (simp add: BSWAP32_bytes BSWAP16_bytes be32_def byte_simps)

lemma scan_test: "drop_bit i v AND 1 = (0 :: u32) \<longleftrightarrow> \<not> bit v i"
  by (simp add: bit_iff_odd_drop_bit and_one_eq mod_2_eq_odd)

lemma BSF32_loop_Some:
  "BSF32_loop v i = Some k \<longleftrightarrow> i \<le> k \<and> bit v k \<and> (\<forall>j. i \<le> j \<longrightarrow> j < k \<longrightarrow> \<not> bit v j)"
proof (induction v i rule: BSF32_loop.induct)
  case (1 v i)
  have far: "\<not> bit v k" if "32 \<le> k" for k
    using that bit_imp_le_length [of v k] by auto
  consider "32 \<le> i" | "i < 32" "bit v i" | "i < 32" "\<not> bit v i" by linarith
  then show ?case
  proof cases
    case 1
    then show ?thesis using far by (subst BSF32_loop.simps) auto
  next
    case 2
    then have "BSF32_loop v i = Some i" by (subst BSF32_loop.simps) (simp add: scan_test)
    then show ?thesis using 2 by auto
  next
    case 3
    then have e: "BSF32_loop v i = BSF32_loop v (Suc i)"
      by (subst BSF32_loop.simps) (simp add: scan_test)
    have split: "i \<le> j \<longleftrightarrow> j = i \<or> Suc i \<le> j" for j by auto
    show ?thesis
      unfolding e using "1.IH" 3 by (simp add: scan_test) (metis split)
  qed
qed

lemma BSR32_loop_Some:
  "BSR32_loop v i = Some k \<longleftrightarrow> k \<le> i \<and> bit v k \<and> (\<forall>j. k < j \<longrightarrow> j \<le> i \<longrightarrow> \<not> bit v j)"
proof (induction v i rule: BSR32_loop.induct)
  case (1 v)
  then show ?case using scan_test [of 0 v] by auto
next
  case (2 v i)
  show ?case
  proof (cases "bit v (Suc i)")
    case True
    then show ?thesis by (auto simp: scan_test) (metis le_neq_implies_less order_refl)
  next
    case False
    then show ?thesis using 2 by (auto simp: scan_test le_Suc_eq)
  qed
qed

lemma BSF32_loop_None: "BSF32_loop v i = None \<longleftrightarrow> (\<forall>j. i \<le> j \<longrightarrow> \<not> bit v j)"
proof (induction v i rule: BSF32_loop.induct)
  case (1 v i)
  have far: "\<not> bit v k" if "32 \<le> k" for k
    using that bit_imp_le_length [of v k] by auto
  show ?case
  proof (cases "i < 32 \<and> \<not> bit v i")
    case True
    then have "BSF32_loop v i = BSF32_loop v (Suc i)"
      by (subst BSF32_loop.simps) (simp add: scan_test)
    then show ?thesis
      using True 1 by (simp add: scan_test) (metis Suc_leD le_antisym not_less_eq_eq)
  next
    case False
    then show ?thesis
      using far by (subst BSF32_loop.simps) (auto simp: scan_test)
  qed
qed

lemma BSR32_loop_None: "BSR32_loop v i = None \<longleftrightarrow> (\<forall>j. j \<le> i \<longrightarrow> \<not> bit v j)"
proof (induction v i rule: BSR32_loop.induct)
  case (1 v)
  then show ?case using scan_test [of 0 v] by auto
next
  case (2 v i)
  then show ?case by (auto simp: scan_test le_Suc_eq)
qed

text \<open>
  Claim C40: BSF32 returns the index of the lowest and BSR32 of the highest set bit, and
  each loop stops inside the word exactly when the operand is not zero.
\<close>

theorem bit_scans_find_extreme_bits:
  "(BSF32 v = Some k \<longleftrightarrow> bit v k \<and> (\<forall>j. bit v j \<longrightarrow> k \<le> j)) \<and>
   (BSR32 v = Some k \<longleftrightarrow> bit v k \<and> (\<forall>j. bit v j \<longrightarrow> j \<le> k)) \<and>
   (BSF32 v = None \<longleftrightarrow> v = 0) \<and> (BSR32 v = None \<longleftrightarrow> v = 0)"
proof -
  have in_range: "bit v j \<Longrightarrow> j \<le> 31" for j
    using bit_imp_le_length [of v j] by simp
  have zero: "v = 0 \<longleftrightarrow> (\<forall>j. \<not> bit v j)"
    using word_eq_zero_bits [of v] bit_imp_le_length by blast
  have "BSF32 v = Some k \<longleftrightarrow> bit v k \<and> (\<forall>j. bit v j \<longrightarrow> k \<le> j)"
    unfolding BSF32_def BSF32_loop_Some by (meson not_le le0)
  moreover have "BSR32 v = Some k \<longleftrightarrow> bit v k \<and> (\<forall>j. bit v j \<longrightarrow> j \<le> k)"
    unfolding BSR32_def BSR32_loop_Some using in_range by (meson not_le)
  moreover have "BSF32 v = None \<longleftrightarrow> v = 0" "BSR32 v = None \<longleftrightarrow> v = 0"
    unfolding BSF32_def BSR32_def BSF32_loop_None BSR32_loop_None zero using in_range by auto
  ultimately show ?thesis by blast
qed

theorem bit_scans_witness: "BSF32 0x50 \<noteq> None \<and> BSR32 0x50 \<noteq> None \<and> BSF32 0 = None"
proof -
  have "BSF32 0x50 = None \<longleftrightarrow> (0x50 :: u32) = 0" "BSR32 0x50 = None \<longleftrightarrow> (0x50 :: u32) = 0"
    "BSF32 0 = None \<longleftrightarrow> (0 :: u32) = 0"
    using bit_scans_find_extreme_bits [where v = "0x50" and k = 0]
      bit_scans_find_extreme_bits [where v = 0 and k = 0] by blast+
  then show ?thesis by simp
qed

end
