(* ===== verification/Guest_Memory.thy ===== *)
theory Guest_Memory
  imports Prelude
begin

text \<open>
  Guest memory and the guest stack, after \<open>templates/runtime/recomp_types.h\<close>. A guest address is
  32 bits; the host address of an access is the mapping's base plus that number, so a multi-byte
  access at the top of the address space runs on past 4 GB and does not wrap. Memory is a
  function from the offset in the mapping to a byte. Store helpers are modelled in the build
  without the store tracer, where they are the plain store.
\<close>

section \<open>Accessors\<close>

type_synonym memory = "nat \<Rightarrow> u8"

definition XBOX_PTR :: "u32 \<Rightarrow> nat" where
  "XBOX_PTR addr = unat addr"

definition MEM8 :: "memory \<Rightarrow> u32 \<Rightarrow> u8" where
  "MEM8 m addr = m (XBOX_PTR addr)"

definition MEM16 :: "memory \<Rightarrow> u32 \<Rightarrow> u16" where
  "MEM16 m addr = (let p = XBOX_PTR addr in le16 (m p) (m (p + 1)))"

definition MEM32 :: "memory \<Rightarrow> u32 \<Rightarrow> u32" where
  "MEM32 m addr = (let p = XBOX_PTR addr in le32 (m p) (m (p + 1)) (m (p + 2)) (m (p + 3)))"

definition RECOMP_MEM_WRITE8 :: "memory \<Rightarrow> u32 \<Rightarrow> u8 \<Rightarrow> memory" where
  "RECOMP_MEM_WRITE8 m addr v = m(XBOX_PTR addr := v)"

definition RECOMP_MEM_WRITE16 :: "memory \<Rightarrow> u32 \<Rightarrow> u16 \<Rightarrow> memory" where
  "RECOMP_MEM_WRITE16 m addr v = (let p = XBOX_PTR addr in m(p := byte_of 0 v, p + 1 := byte_of 1 v))"

definition RECOMP_MEM_WRITE32 :: "memory \<Rightarrow> u32 \<Rightarrow> u32 \<Rightarrow> memory" where
  "RECOMP_MEM_WRITE32 m addr v = (let p = XBOX_PTR addr in
     m(p := byte_of 0 v, p + 1 := byte_of 1 v, p + 2 := byte_of 2 v, p + 3 := byte_of 3 v))"

definition RECOMP_MEM_WRITE64 :: "memory \<Rightarrow> u32 \<Rightarrow> u64 \<Rightarrow> memory" where
  "RECOMP_MEM_WRITE64 m addr v = (let p = XBOX_PTR addr in
     m(p := byte_of 0 v, p + 1 := byte_of 1 v, p + 2 := byte_of 2 v, p + 3 := byte_of 3 v,
       p + 4 := byte_of 4 v, p + 5 := byte_of 5 v, p + 6 := byte_of 6 v, p + 7 := byte_of 7 v))"

text \<open>Signed reads are the same bits read as a signed number.\<close>

definition SMEM8 :: "memory \<Rightarrow> u32 \<Rightarrow> int" where "SMEM8 m addr = sint (MEM8 m addr)"
definition SMEM16 :: "memory \<Rightarrow> u32 \<Rightarrow> int" where "SMEM16 m addr = sint (MEM16 m addr)"
definition SMEM32 :: "memory \<Rightarrow> u32 \<Rightarrow> int" where "SMEM32 m addr = sint (MEM32 m addr)"

text \<open>Accesses through the FS segment add the thread's base first, in 32 bits.\<close>

definition FS_MEM8 :: "u32 \<Rightarrow> memory \<Rightarrow> u32 \<Rightarrow> u8" where "FS_MEM8 g_fs_base m addr = MEM8 m (g_fs_base + addr)"
definition FS_MEM16 :: "u32 \<Rightarrow> memory \<Rightarrow> u32 \<Rightarrow> u16" where "FS_MEM16 g_fs_base m addr = MEM16 m (g_fs_base + addr)"
definition FS_MEM32 :: "u32 \<Rightarrow> memory \<Rightarrow> u32 \<Rightarrow> u32" where "FS_MEM32 g_fs_base m addr = MEM32 m (g_fs_base + addr)"

section \<open>The stack\<close>

definition PUSH32 :: "u32 \<Rightarrow> u32 \<times> memory \<Rightarrow> u32 \<times> memory" where
  "PUSH32 val = (\<lambda>(sp, m). let sp = sp - 4 in (sp, RECOMP_MEM_WRITE32 m sp val))"

definition POP32 :: "u32 \<times> memory \<Rightarrow> u32 \<times> (u32 \<times> memory)" where
  "POP32 = (\<lambda>(sp, m). (MEM32 m sp, (sp + 4, m)))"

section \<open>Locked read-modify-write\<close>

definition RECOMP_ATOMIC_XADD8 :: "memory \<Rightarrow> u32 \<Rightarrow> u8 \<Rightarrow> u8 \<times> memory" where
  "RECOMP_ATOMIC_XADD8 m addr value = (let old = MEM8 m addr in (old, RECOMP_MEM_WRITE8 m addr (old + value)))"

definition RECOMP_ATOMIC_XADD16 :: "memory \<Rightarrow> u32 \<Rightarrow> u16 \<Rightarrow> u16 \<times> memory" where
  "RECOMP_ATOMIC_XADD16 m addr value = (let old = MEM16 m addr in (old, RECOMP_MEM_WRITE16 m addr (old + value)))"

definition RECOMP_ATOMIC_XADD32 :: "memory \<Rightarrow> u32 \<Rightarrow> u32 \<Rightarrow> u32 \<times> memory" where
  "RECOMP_ATOMIC_XADD32 m addr value = (let old = MEM32 m addr in (old, RECOMP_MEM_WRITE32 m addr (old + value)))"

definition RECOMP_ATOMIC_CMPXCHG8 :: "memory \<Rightarrow> u32 \<Rightarrow> u8 \<Rightarrow> u8 \<Rightarrow> u8 \<times> bool \<times> memory" where
  "RECOMP_ATOMIC_CMPXCHG8 m addr expected desired = (let old = MEM8 m addr in
     (old, old = expected, if old = expected then RECOMP_MEM_WRITE8 m addr desired else m))"

definition RECOMP_ATOMIC_CMPXCHG16 :: "memory \<Rightarrow> u32 \<Rightarrow> u16 \<Rightarrow> u16 \<Rightarrow> u16 \<times> bool \<times> memory" where
  "RECOMP_ATOMIC_CMPXCHG16 m addr expected desired = (let old = MEM16 m addr in
     (old, old = expected, if old = expected then RECOMP_MEM_WRITE16 m addr desired else m))"

definition RECOMP_ATOMIC_CMPXCHG32 :: "memory \<Rightarrow> u32 \<Rightarrow> u32 \<Rightarrow> u32 \<Rightarrow> u32 \<times> bool \<times> memory" where
  "RECOMP_ATOMIC_CMPXCHG32 m addr expected desired = (let old = MEM32 m addr in
     (old, old = expected, if old = expected then RECOMP_MEM_WRITE32 m addr desired else m))"

section \<open>Cells\<close>

lemma MEM32_byte_of: "MEM32 m a = v \<longleftrightarrow> (\<forall>i < 4. m (XBOX_PTR a + i) = byte_of i v)"
proof -
  have four: "(\<forall>i < 4. P i) \<longleftrightarrow> P 0 \<and> P (Suc 0) \<and> P 2 \<and> P (3 :: nat)" for P
    by (auto simp: numeral_eq_Suc all_nat_less_Suc)
  show ?thesis
    unfolding four by (auto simp: MEM32_def Let_def byte_simps)
qed

interpretation mem8: cell "\<lambda>m. MEM8 m a" "\<lambda>m v. RECOMP_MEM_WRITE8 m a v" for a
  by unfold_locales (simp_all add: MEM8_def RECOMP_MEM_WRITE8_def)

interpretation mem16: cell "\<lambda>m. MEM16 m a" "\<lambda>m v. RECOMP_MEM_WRITE16 m a v" for a
  by unfold_locales (auto simp: MEM16_def RECOMP_MEM_WRITE16_def Let_def byte_simps fun_eq_iff)

interpretation mem32: cell "\<lambda>m. MEM32 m a" "\<lambda>m v. RECOMP_MEM_WRITE32 m a v" for a
  by unfold_locales (auto simp: MEM32_def RECOMP_MEM_WRITE32_def Let_def byte_simps fun_eq_iff)

definition apart :: "u32 \<Rightarrow> u32 \<Rightarrow> bool" where
  "apart a b \<longleftrightarrow> unat a + 4 \<le> unat b \<or> unat b + 4 \<le> unat a"

lemma MEM32_other: "apart a b \<Longrightarrow> MEM32 (RECOMP_MEM_WRITE32 m b v) a = MEM32 m a"
  by (auto simp: MEM32_def RECOMP_MEM_WRITE32_def Let_def XBOX_PTR_def apart_def)

lemma apart_commute: "apart a b \<longleftrightarrow> apart b a"
  by (auto simp: apart_def)

section \<open>Pushes and pops are a stack\<close>

definition push_all :: "u32 list \<Rightarrow> u32 \<times> memory \<Rightarrow> u32 \<times> memory" where
  "push_all xs st = fold PUSH32 xs st"

fun pop_all :: "nat \<Rightarrow> u32 \<times> memory \<Rightarrow> u32 list \<times> (u32 \<times> memory)" where
  "pop_all 0 st = ([], st)"
| "pop_all (Suc n) st = (let (v, st) = POP32 st; (vs, st) = pop_all n st in (v # vs, st))"

lemma unat_step:
  assumes "4 * k < 2 ^ 32"
  shows "unat (a - 4 * word_of_nat k :: u32) = (if 4 * k \<le> unat a then unat a - 4 * k else unat a + 2 ^ 32 - 4 * k)"
proof -
  have k: "unat (4 * word_of_nat k :: u32) = 4 * k"
  proof -
    have "4 * word_of_nat k = (word_of_nat (4 * k) :: u32)" by simp
    then show ?thesis using assms by (simp only: unat_of_nat) simp
  qed
  show ?thesis using unat_u32_lt [of a] assms unfolding unat_sub_if_size k by (simp add: word_size)
qed

lemma apart_step: "0 < k \<Longrightarrow> 4 * k < 2 ^ 32 \<Longrightarrow> apart a (a - 4 * word_of_nat k)"
  using unat_u32_lt [of a] by (auto simp: apart_def unat_step)

lemma push_all_sp: "fst (push_all xs (sp, m)) = sp - 4 * word_of_nat (length xs)"
  by (induction xs arbitrary: sp m)
     (simp_all add: push_all_def PUSH32_def Let_def diff_diff_eq distrib_left)

lemma push_all_other:
  "\<forall>k \<in> {1..length xs}. apart a (sp - 4 * word_of_nat k) \<Longrightarrow> MEM32 (snd (push_all xs (sp, m))) a = MEM32 m a"
proof (induction xs arbitrary: sp m)
  case (Cons x xs)
  have "\<forall>k \<in> {1..length xs}. apart a (sp - 4 - 4 * word_of_nat k)"
  proof
    fix k assume "k \<in> {1..length xs}"
    then have "apart a (sp - 4 * word_of_nat (Suc k))" using Cons.prems by force
    then show "apart a (sp - 4 - 4 * word_of_nat k)" by (simp add: algebra_simps)
  qed
  moreover have "apart a (sp - 4)" using Cons.prems by (auto dest: bspec [of _ _ 1])
  ultimately show ?case using Cons.IH [of "sp - 4"]
    by (simp add: push_all_def PUSH32_def Let_def MEM32_other)
qed (simp add: push_all_def)

lemma pop_all_reads: "pop_all n (sp, m) =
    (map (\<lambda>i. MEM32 m (sp + 4 * word_of_nat i)) [0..<n], (sp + 4 * word_of_nat n, m))"
proof (induction n arbitrary: sp)
  case (Suc n)
  have "[0..<Suc n] = 0 # map Suc [0..<n]" by (simp add: upt_conv_Cons map_Suc_upt del: upt_Suc)
  then show ?case by (simp add: Suc POP32_def Let_def add.assoc distrib_left del: upt_Suc)
qed simp

lemma pop_all_Suc: "pop_all (n + 1) st = (let (vs, st) = pop_all n st; (v, st) = POP32 st in (vs @ [v], st))"
  by (cases st) (simp add: pop_all_reads POP32_def Let_def add.assoc distrib_left del: pop_all.simps)

text \<open>
  After pushing any list of values that fits the 32-bit address space, the same
  number of pops returns them in reverse and restores the stack pointer, even when the
  pointer wraps around.
\<close>

theorem stack_is_lifo:
  assumes "4 * length xs \<le> 2 ^ 32"
  shows "\<exists>m'. push_all xs (sp, m) = (sp - 4 * word_of_nat (length xs), m') \<and>
    pop_all (length xs) (push_all xs (sp, m)) = (rev xs, (sp, m'))"
  using assms
proof (induction xs arbitrary: sp m)
  case (Cons x xs)
  let ?m = "RECOMP_MEM_WRITE32 m (sp - 4) x"
  have push: "push_all (x # xs) (sp, m) = push_all xs (sp - 4, ?m)"
    by (simp add: push_all_def PUSH32_def Let_def)
  obtain m' where m': "push_all xs (sp - 4, ?m) = (sp - 4 - 4 * word_of_nat (length xs), m')"
    "pop_all (length xs) (push_all xs (sp - 4, ?m)) = (rev xs, (sp - 4, m'))"
    using Cons by fastforce
  have "\<forall>k \<in> {1..length xs}. apart (sp - 4) (sp - 4 - 4 * word_of_nat k)"
    using Cons.prems by (auto intro!: apart_step)
  then have "MEM32 m' (sp - 4) = x"
    using push_all_other [of xs "sp - 4" "sp - 4" ?m] m'(1) by (simp add: mem32.get_put)
  then have "pop_all (length xs + 1) (push_all xs (sp - 4, ?m)) = (rev xs @ [x], (sp, m'))"
    unfolding pop_all_Suc m'(2) by (simp add: POP32_def)
  moreover have "sp - 4 - 4 * word_of_nat (length xs) = sp - 4 * word_of_nat (length (x # xs))"
    by (simp add: diff_diff_eq distrib_left)
  ultimately show ?case
    using m'(1) unfolding push by (auto simp: diff_diff_eq simp del: pop_all.simps)
qed (simp add: push_all_def)

section \<open>Locked operations taken in any order\<close>

fun xadd_run :: "u32 \<Rightarrow> u32 list \<Rightarrow> memory \<Rightarrow> u32 list \<times> memory" where
  "xadd_run a [] m = ([], m)"
| "xadd_run a (v # vs) m = (let (old, m) = RECOMP_ATOMIC_XADD32 m a v; (olds, m) = xadd_run a vs m
     in (old # olds, m))"

text \<open>
  A sequence of locked XADDs on one cell returns the running sums and leaves the
  cell at the total, wrapping at 32 bits: no increment is lost.
\<close>

theorem xadd_hands_out_prefix_sums:
  "xadd_run a vs m = (map (\<lambda>i. MEM32 m a + sum_list (take i vs)) [0..<length vs],
     RECOMP_MEM_WRITE32 m a (MEM32 m a + sum_list vs))"
proof (induction vs arbitrary: m)
  case (Cons v vs)
  have "[0..<length (v # vs)] = 0 # map Suc [0..<length vs]"
    by (simp add: upt_conv_Cons map_Suc_upt del: upt_Suc)
  then show ?case
    by (simp add: RECOMP_ATOMIC_XADD32_def Cons mem32.get_put mem32.put_put Let_def add.assoc del: upt_Suc)
qed (simp add: mem32.put_get)

fun cmpxchg_run :: "u32 \<Rightarrow> u32 \<Rightarrow> u32 list \<Rightarrow> memory \<Rightarrow> bool list \<times> memory" where
  "cmpxchg_run a e [] m = ([], m)"
| "cmpxchg_run a e (d # ds) m = (let (old, ok, m) = RECOMP_ATOMIC_CMPXCHG32 m a e d;
     (oks, m) = cmpxchg_run a e ds m in (ok # oks, m))"

lemma cmpxchg_run_lost: "MEM32 m a \<noteq> e \<Longrightarrow> cmpxchg_run a e ds m = (replicate (length ds) False, m)"
  by (induction ds arbitrary: m) (simp_all add: RECOMP_ATOMIC_CMPXCHG32_def Let_def)

text \<open>
  Of several locked compare-exchanges that expect the same value and store
  another, exactly the first one succeeds, and none does when the cell holds something else.
\<close>

theorem cmpxchg_first_wins:
  assumes "e \<noteq> d"
  shows "cmpxchg_run a e (d # ds) m =
    (if MEM32 m a = e then (True # replicate (length ds) False, RECOMP_MEM_WRITE32 m a d)
     else (replicate (Suc (length ds)) False, m))"
  using assms by (simp add: RECOMP_ATOMIC_CMPXCHG32_def cmpxchg_run_lost mem32.get_put Let_def)

theorem stack_is_lifo_witness:
  "\<exists>m'. push_all [1, 2, 3] (4, \<lambda>_. 0) = (4 - 4 * word_of_nat (length [1 :: u32, 2, 3]), m') \<and>
    pop_all (length [1 :: u32, 2, 3]) (push_all [1, 2, 3] (4, \<lambda>_. 0)) = (rev [1, 2, 3], (4, m'))"
  by (rule stack_is_lifo) simp

theorem cmpxchg_first_wins_witness:
  "cmpxchg_run 0 0 [1, 2] (\<lambda>_. 0) = ([True, False], RECOMP_MEM_WRITE32 (\<lambda>_. 0) 0 1)"
  using cmpxchg_first_wins [of 0 1 0 "[2]" "\<lambda>_. 0"] by (simp add: MEM32_def le32_def)

end
