(* ===== verification/X86_Mmx.thy ===== *)
theory X86_Mmx
  imports Prelude Guest_Memory
begin

text \<open>
  The MMX register file of \<open>templates/runtime/recomp_types.h\<close>. \<open>RecompMmx\<close> is a union of lane
  views over 64 bits; here it is the 64-bit word, with the views as accessors and each packed
  operation building its result from the lanes, lowest first. The signed views are the same
  lanes read with \<open>sint\<close>.
\<close>

section \<open>Lane views\<close>

type_synonym RecompMmx = u64

definition ub :: "RecompMmx \<Rightarrow> nat \<Rightarrow> u8" where "ub r i = ucast (drop_bit (8 * i) r)"
definition uw :: "RecompMmx \<Rightarrow> nat \<Rightarrow> u16" where "uw r i = ucast (drop_bit (16 * i) r)"
definition ud :: "RecompMmx \<Rightarrow> nat \<Rightarrow> u32" where "ud r i = ucast (drop_bit (32 * i) r)"

fun of_lanes :: "'a::len word list \<Rightarrow> RecompMmx" where
  "of_lanes [] = 0"
| "of_lanes (x # xs) = ucast x OR push_bit LENGTH('a) (of_lanes xs)"

definition lanes8 :: "(nat \<Rightarrow> u8) \<Rightarrow> RecompMmx" where "lanes8 f = of_lanes (map f [0..<8])"
definition lanes16 :: "(nat \<Rightarrow> u16) \<Rightarrow> RecompMmx" where "lanes16 f = of_lanes (map f [0..<4])"
definition lanes32 :: "(nat \<Rightarrow> u32) \<Rightarrow> RecompMmx" where "lanes32 f = of_lanes (map f [0..<2])"

definition MMX_ZERO :: RecompMmx where "MMX_ZERO = 0"

definition MMX_MEM :: "memory \<Rightarrow> u32 \<Rightarrow> RecompMmx" where
  "MMX_MEM m addr = lanes8 (\<lambda>i. m (XBOX_PTR addr + i))"

definition MMX_STORE :: "memory \<Rightarrow> u32 \<Rightarrow> RecompMmx \<Rightarrow> memory" where
  "MMX_STORE m addr v = (\<lambda>p. if XBOX_PTR addr \<le> p \<and> p < XBOX_PTR addr + 8 then ub v (p - XBOX_PTR addr) else m p)"

definition MMX_FROM32 :: "u32 \<Rightarrow> RecompMmx" where "MMX_FROM32 v = ucast v"

section \<open>Saturation\<close>

text \<open>The argument is a C \<open>int32_t\<close>; the callers never pass more than a 17-bit sum.\<close>

definition recomp_sat_i16 :: "int \<Rightarrow> u16" where
  "recomp_sat_i16 v = word_of_int (if v > 32767 then 32767 else if v < -32768 then -32768 else v)"

definition recomp_sat_i8 :: "int \<Rightarrow> u8" where
  "recomp_sat_i8 v = word_of_int (if v > 127 then 127 else if v < -128 then -128 else v)"

definition recomp_sat_u8 :: "int \<Rightarrow> u8" where
  "recomp_sat_u8 v = word_of_int (if v > 255 then 255 else if v < 0 then 0 else v)"

definition recomp_sat_u16 :: "int \<Rightarrow> u16" where
  "recomp_sat_u16 v = word_of_int (if v > 65535 then 65535 else if v < 0 then 0 else v)"

section \<open>Lane-wise arithmetic\<close>

definition MMX_PADDB where "MMX_PADDB a b = lanes8 (\<lambda>i. ub a i + ub b i)"
definition MMX_PADDW where "MMX_PADDW a b = lanes16 (\<lambda>i. uw a i + uw b i)"
definition MMX_PADDD where "MMX_PADDD a b = lanes32 (\<lambda>i. ud a i + ud b i)"
definition MMX_PSUBB where "MMX_PSUBB a b = lanes8 (\<lambda>i. ub a i - ub b i)"
definition MMX_PSUBW where "MMX_PSUBW a b = lanes16 (\<lambda>i. uw a i - uw b i)"
definition MMX_PSUBD where "MMX_PSUBD a b = lanes32 (\<lambda>i. ud a i - ud b i)"
definition MMX_PADDSB where "MMX_PADDSB a b = lanes8 (\<lambda>i. recomp_sat_i8 (sint (ub a i) + sint (ub b i)))"
definition MMX_PADDSW where "MMX_PADDSW a b = lanes16 (\<lambda>i. recomp_sat_i16 (sint (uw a i) + sint (uw b i)))"
definition MMX_PSUBSB where "MMX_PSUBSB a b = lanes8 (\<lambda>i. recomp_sat_i8 (sint (ub a i) - sint (ub b i)))"
definition MMX_PSUBSW where "MMX_PSUBSW a b = lanes16 (\<lambda>i. recomp_sat_i16 (sint (uw a i) - sint (uw b i)))"
definition MMX_PADDUSB where "MMX_PADDUSB a b = lanes8 (\<lambda>i. recomp_sat_u8 (uint (ub a i) + uint (ub b i)))"
definition MMX_PSUBUSB where "MMX_PSUBUSB a b = lanes8 (\<lambda>i. recomp_sat_u8 (uint (ub a i) - uint (ub b i)))"
definition MMX_PADDUSW where "MMX_PADDUSW a b = lanes16 (\<lambda>i. recomp_sat_u16 (uint (uw a i) + uint (uw b i)))"
definition MMX_PSUBUSW where "MMX_PSUBUSW a b = lanes16 (\<lambda>i. recomp_sat_u16 (uint (uw a i) - uint (uw b i)))"
definition MMX_PMULLW where "MMX_PMULLW a b = lanes16 (\<lambda>i. word_of_int (sint (uw a i) * sint (uw b i)))"
definition MMX_PMULHW where "MMX_PMULHW a b = lanes16 (\<lambda>i. word_of_int (drop_bit 16 (sint (uw a i) * sint (uw b i))))"
definition MMX_PAVGB where "MMX_PAVGB a b = lanes8 (\<lambda>i. word_of_int (drop_bit 1 (uint (ub a i) + uint (ub b i) + 1)))"
definition MMX_PAVGW where "MMX_PAVGW a b = lanes16 (\<lambda>i. word_of_int (drop_bit 1 (uint (uw a i) + uint (uw b i) + 1)))"
definition MMX_PMINSW where "MMX_PMINSW a b = lanes16 (\<lambda>i. if sint (uw a i) < sint (uw b i) then uw a i else uw b i)"
definition MMX_PMAXSW where "MMX_PMAXSW a b = lanes16 (\<lambda>i. if sint (uw a i) > sint (uw b i) then uw a i else uw b i)"
definition MMX_PCMPEQB where "MMX_PCMPEQB a b = lanes8 (\<lambda>i. if ub a i = ub b i then - 1 else 0)"
definition MMX_PCMPEQW where "MMX_PCMPEQW a b = lanes16 (\<lambda>i. if uw a i = uw b i then - 1 else 0)"
definition MMX_PCMPEQD where "MMX_PCMPEQD a b = lanes32 (\<lambda>i. if ud a i = ud b i then - 1 else 0)"
definition MMX_PCMPGTB where "MMX_PCMPGTB a b = lanes8 (\<lambda>i. if sint (ub a i) > sint (ub b i) then - 1 else 0)"
definition MMX_PCMPGTW where "MMX_PCMPGTW a b = lanes16 (\<lambda>i. if sint (uw a i) > sint (uw b i) then - 1 else 0)"
definition MMX_PCMPGTD where "MMX_PCMPGTD a b = lanes32 (\<lambda>i. if sint (ud a i) > sint (ud b i) then - 1 else 0)"

text \<open>
  In C the sum of products is an \<open>int\<close> expression. It leaves the range of \<open>int32_t\<close> only for
  four factors of -32768; there it is written as wrapping, as the instruction and the
  compilers' code for it do.
\<close>

definition MMX_PMADDWD where
  "MMX_PMADDWD a b = lanes32 (\<lambda>i. word_of_int
     (sint (uw a (2 * i)) * sint (uw b (2 * i)) + sint (uw a (2 * i + 1)) * sint (uw b (2 * i + 1))))"

section \<open>Bitwise operations and shifts\<close>

definition MMX_PAND :: "RecompMmx \<Rightarrow> RecompMmx \<Rightarrow> RecompMmx" where "MMX_PAND a b = a AND b"
definition MMX_PANDN :: "RecompMmx \<Rightarrow> RecompMmx \<Rightarrow> RecompMmx" where "MMX_PANDN a b = NOT a AND b"
definition MMX_POR :: "RecompMmx \<Rightarrow> RecompMmx \<Rightarrow> RecompMmx" where "MMX_POR a b = a OR b"
definition MMX_PXOR :: "RecompMmx \<Rightarrow> RecompMmx \<Rightarrow> RecompMmx" where "MMX_PXOR a b = a XOR b"

definition MMX_PSLLW where
  "MMX_PSLLW a (cnt :: u64) = lanes16 (\<lambda>i. if cnt \<ge> 16 then 0 else push_bit (unat cnt) (uw a i))"
definition MMX_PSRLW where
  "MMX_PSRLW a (cnt :: u64) = lanes16 (\<lambda>i. if cnt \<ge> 16 then 0 else drop_bit (unat cnt) (uw a i))"
definition MMX_PSLLD where
  "MMX_PSLLD a (cnt :: u64) = lanes32 (\<lambda>i. if cnt \<ge> 32 then 0 else push_bit (unat cnt) (ud a i))"
definition MMX_PSRLD where
  "MMX_PSRLD a (cnt :: u64) = lanes32 (\<lambda>i. if cnt \<ge> 32 then 0 else drop_bit (unat cnt) (ud a i))"
definition MMX_PSLLQ :: "RecompMmx \<Rightarrow> u64 \<Rightarrow> RecompMmx" where
  "MMX_PSLLQ a cnt = (if cnt \<ge> 64 then 0 else push_bit (unat cnt) a)"
definition MMX_PSRLQ :: "RecompMmx \<Rightarrow> u64 \<Rightarrow> RecompMmx" where
  "MMX_PSRLQ a cnt = (if cnt \<ge> 64 then 0 else drop_bit (unat cnt) a)"
definition MMX_PSRAW where
  "MMX_PSRAW a (cnt :: u64) = (let c = (if cnt \<ge> 16 then 15 else cnt) in
     lanes16 (\<lambda>i. word_of_int (drop_bit (unat c) (sint (uw a i)))))"
definition MMX_PSRAD where
  "MMX_PSRAD a (cnt :: u64) = (let c = (if cnt \<ge> 32 then 31 else cnt) in
     lanes32 (\<lambda>i. word_of_int (drop_bit (unat c) (sint (ud a i)))))"

section \<open>Unpack, pack and word moves\<close>

definition MMX_PUNPCKLBW where
  "MMX_PUNPCKLBW a b = lanes8 (\<lambda>j. if even j then ub a (j div 2) else ub b (j div 2))"
definition MMX_PUNPCKHBW where
  "MMX_PUNPCKHBW a b = lanes8 (\<lambda>j. if even j then ub a (j div 2 + 4) else ub b (j div 2 + 4))"
definition MMX_PUNPCKLWD where
  "MMX_PUNPCKLWD a b = lanes16 (\<lambda>j. if even j then uw a (j div 2) else uw b (j div 2))"
definition MMX_PUNPCKHWD where
  "MMX_PUNPCKHWD a b = lanes16 (\<lambda>j. if even j then uw a (j div 2 + 2) else uw b (j div 2 + 2))"
definition MMX_PUNPCKLDQ where "MMX_PUNPCKLDQ a b = lanes32 (\<lambda>j. if j = 0 then ud a 0 else ud b 0)"
definition MMX_PUNPCKHDQ where "MMX_PUNPCKHDQ a b = lanes32 (\<lambda>j. if j = 0 then ud a 1 else ud b 1)"

definition MMX_PACKSSWB where
  "MMX_PACKSSWB a b = lanes8 (\<lambda>i. recomp_sat_i8 (sint (if i < 4 then uw a i else uw b (i - 4))))"
definition MMX_PACKUSWB where
  "MMX_PACKUSWB a b = lanes8 (\<lambda>i. recomp_sat_u8 (sint (if i < 4 then uw a i else uw b (i - 4))))"
definition MMX_PACKSSDW where
  "MMX_PACKSSDW a b = lanes16 (\<lambda>i. recomp_sat_i16 (sint (if i < 2 then ud a i else ud b (i - 2))))"

definition MMX_PSHUFW where
  "MMX_PSHUFW a (imm :: u32) = lanes16 (\<lambda>i. uw a (unat (drop_bit (i * 2) imm AND 3)))"
definition MMX_PINSRW where
  "MMX_PINSRW a (v :: u32) (imm :: u32) = lanes16 (\<lambda>i. if i = unat (imm AND 3) then ucast v else uw a i)"
definition MMX_PEXTRW :: "RecompMmx \<Rightarrow> u32 \<Rightarrow> u32" where
  "MMX_PEXTRW a imm = ucast (uw a (unat (imm AND 3)))"
definition MMX_PMOVMSKB :: "RecompMmx \<Rightarrow> u32" where
  "MMX_PMOVMSKB a = fold (\<lambda>i m. if ub a i AND 0x80 \<noteq> 0 then m OR push_bit i 1 else m) [0..<8] 0"
definition MMX_PSADBW where
  "MMX_PSADBW a b = (let s = fold (\<lambda>i s. s + (word_of_int
       (if ub a i > ub b i then uint (ub a i) - uint (ub b i) else uint (ub b i) - uint (ub a i)) :: u32)) [0..<8] 0
     in lanes16 (\<lambda>i. if i = 0 then ucast s else 0))"

section \<open>Reading lanes back\<close>

lemma bit_of_lanes:
  "bit (of_lanes (xs :: 'a::len word list)) n \<longleftrightarrow>
    n < 64 \<and> n div LENGTH('a) < length xs \<and> bit (xs ! (n div LENGTH('a))) (n mod LENGTH('a))"
proof (induction xs arbitrary: n)
  case (Cons x xs)
  show ?case
  proof (cases "n < LENGTH('a)")
    case True
    then show ?thesis by (auto simp: bit_simps)
  next
    case False
    then have "n div LENGTH('a) = Suc ((n - LENGTH('a)) div LENGTH('a))"
      "n mod LENGTH('a) = (n - LENGTH('a)) mod LENGTH('a)"
      by (simp_all add: le_div_geq le_mod_geq)
    then show ?thesis using False by (auto simp: bit_simps Cons dest: bit_imp_le_length)
  qed
qed simp

lemma ub_lanes8 [simp]: "i < 8 \<Longrightarrow> ub (lanes8 f) i = f i"
  by (rule bit_word_eqI) (auto simp: ub_def lanes8_def bit_simps bit_of_lanes simp del: of_lanes.simps upt_rec_numeral)

lemma uw_lanes16 [simp]: "i < 4 \<Longrightarrow> uw (lanes16 f) i = f i"
  by (rule bit_word_eqI) (auto simp: uw_def lanes16_def bit_simps bit_of_lanes simp del: of_lanes.simps upt_rec_numeral)

lemma ud_lanes32 [simp]: "i < 2 \<Longrightarrow> ud (lanes32 f) i = f i"
  by (rule bit_word_eqI) (auto simp: ud_def lanes32_def bit_simps bit_of_lanes simp del: of_lanes.simps upt_rec_numeral)

lemma mmx_eqI_b:
  assumes "\<And>i. i < 8 \<Longrightarrow> ub a i = ub b i"
  shows "a = b"
proof (rule bit_word_eqI)
  fix n assume "n < LENGTH(64)"
  then have "ub a (n div 8) = ub b (n div 8)" using assms by simp
  then have "bit (ub a (n div 8)) (n mod 8) = bit (ub b (n div 8)) (n mod 8)" by simp
  then show "bit a n = bit b n" by (simp add: ub_def bit_simps)
qed

lemma mmx_eqI_w:
  assumes "\<And>i. i < 4 \<Longrightarrow> uw a i = uw b i"
  shows "a = b"
proof (rule bit_word_eqI)
  fix n assume "n < LENGTH(64)"
  then have "uw a (n div 16) = uw b (n div 16)" using assms by simp
  then have "bit (uw a (n div 16)) (n mod 16) = bit (uw b (n div 16)) (n mod 16)" by simp
  then show "bit a n = bit b n" by (simp add: uw_def bit_simps)
qed

lemma uw_of_ub: "i < 4 \<Longrightarrow> uw r i = le16 (ub r (2 * i)) (ub r (2 * i + 1))"
  by (rule bit_word_eqI) (auto simp: uw_def ub_def le16_def bit_simps)

lemma ud_of_uw: "i < 2 \<Longrightarrow> ud r i = ucast (uw r (2 * i)) OR push_bit 16 (ucast (uw r (2 * i + 1)))"
  by (rule bit_word_eqI) (auto simp: uw_def ud_def bit_simps)

lemma ub_of_uw: "i < 8 \<Longrightarrow> ub r i = byte_of (i mod 2) (uw r (i div 2))"
proof (rule bit_word_eqI)
  fix n assume "i < 8" "n < LENGTH(8)"
  moreover have "bit r (16 * (i div 2) + (8 * (i mod 2) + n)) = bit r (8 * i + n)"
    by (rule arg_cong [of _ _ "bit r"]) presburger
  moreover have "8 * (i mod 2) + n < 16" if "n < 8"
    using that by presburger
  ultimately show "bit (ub r i) n = bit (byte_of (i mod 2) (uw r (i div 2))) n"
    by (simp add: uw_def ub_def bit_simps)
qed

section \<open>Memory\<close>

lemma mmx_mem: "i < 8 \<Longrightarrow> ub (MMX_MEM m a) i = m (XBOX_PTR a + i)"
  by (simp add: MMX_MEM_def)

interpretation mmx: cell "\<lambda>m. MMX_MEM m a" "\<lambda>m v. MMX_STORE m a v" for a
proof
  show "MMX_MEM (MMX_STORE m a v) a = v" for m v
    by (rule mmx_eqI_b) (simp add: mmx_mem MMX_STORE_def)
  show "MMX_STORE m a (MMX_MEM m a) = m" for m
    by (auto simp: MMX_STORE_def fun_eq_iff mmx_mem)
  show "MMX_STORE (MMX_STORE m a v) a w = MMX_STORE m a w" for m v w
    by (auto simp: MMX_STORE_def)
qed

section \<open>Saturating, averaging and multiplying lanes\<close>

definition clamp :: "int \<Rightarrow> int \<Rightarrow> int \<Rightarrow> int" where
  "clamp lo hi v = max lo (min hi v)"

lemma sint_sat:
  "sint (recomp_sat_i8 v) = clamp (-128) 127 v"
  "sint (recomp_sat_i16 v) = clamp (-32768) 32767 v"
  "uint (recomp_sat_u8 v) = clamp 0 255 v"
  "uint (recomp_sat_u16 v) = clamp 0 65535 v"
  by (auto simp: recomp_sat_i8_def recomp_sat_i16_def recomp_sat_u8_def recomp_sat_u16_def clamp_def
      sint_sbintrunc' signed_take_bit_int_eq_self take_bit_int_eq_self uint_word_of_int_eq)

lemma uint_u8_less: "uint (x :: u8) < 256" and uint_u16_less: "uint (y :: u16) < 65536"
  using uint_bounded [of x] uint_bounded [of y] by simp_all

lemma uint_u8_diff: "uint x - uint y \<le> 255" for x y :: u8
  using uint_u8_less [of x] uint_ge_0 [of y] by linarith

lemma uint_u16_diff: "uint x - uint y \<le> 65535" for x y :: u16
  using uint_u16_less [of x] uint_ge_0 [of y] by linarith

text \<open>
  Each lane of the saturating adds and subtracts is the exact sum or difference
  clamped to the lane's signed or unsigned range.
\<close>

theorem saturating_lanes:
  "i < 8 \<Longrightarrow> j < 4 \<Longrightarrow>
    sint (ub (MMX_PADDSB a b) i) = clamp (-128) 127 (sint (ub a i) + sint (ub b i)) \<and>
    sint (ub (MMX_PSUBSB a b) i) = clamp (-128) 127 (sint (ub a i) - sint (ub b i)) \<and>
    uint (ub (MMX_PADDUSB a b) i) = min 255 (uint (ub a i) + uint (ub b i)) \<and>
    uint (ub (MMX_PSUBUSB a b) i) = max 0 (uint (ub a i) - uint (ub b i)) \<and>
    sint (uw (MMX_PADDSW a b) j) = clamp (-32768) 32767 (sint (uw a j) + sint (uw b j)) \<and>
    sint (uw (MMX_PSUBSW a b) j) = clamp (-32768) 32767 (sint (uw a j) - sint (uw b j)) \<and>
    uint (uw (MMX_PADDUSW a b) j) = min 65535 (uint (uw a j) + uint (uw b j)) \<and>
    uint (uw (MMX_PSUBUSW a b) j) = max 0 (uint (uw a j) - uint (uw b j))"
  using uint_u8_diff [of "ub a i" "ub b i"] uint_u16_diff [of "uw a j" "uw b j"]
  by (simp add: MMX_PADDSB_def MMX_PSUBSB_def MMX_PADDUSB_def MMX_PSUBUSB_def MMX_PADDSW_def
      MMX_PSUBSW_def MMX_PADDUSW_def MMX_PSUBUSW_def sint_sat clamp_def min.absorb2)

text \<open>
  The saturating-subtract idiom yields the absolute difference of each byte, and
  PAVGB/PAVGW the rounded average without overflow.
\<close>

theorem absolute_difference_and_average:
  "i < 8 \<Longrightarrow> j < 4 \<Longrightarrow>
    uint (ub (MMX_POR (MMX_PSUBUSB a b) (MMX_PSUBUSB b a)) i) = \<bar>uint (ub a i) - uint (ub b i)\<bar> \<and>
    uint (ub (MMX_PAVGB a b) i) = (uint (ub a i) + uint (ub b i) + 1) div 2 \<and>
    uint (uw (MMX_PAVGW a b) j) = (uint (uw a j) + uint (uw b j) + 1) div 2"
proof -
  assume ij: "i < 8" "j < 4"
  have u: "ub (MMX_PSUBUSB a b) i = recomp_sat_u8 (uint (ub a i) - uint (ub b i))" for a b
    using ij by (simp add: MMX_PSUBUSB_def)
  have "ub (MMX_POR x y) i = ub x i OR ub y i" for x y
    by (rule bit_word_eqI) (simp add: ub_def MMX_POR_def bit_simps)
  moreover have "recomp_sat_u8 v = 0" if "v \<le> 0" for v
    using that by (simp add: recomp_sat_u8_def)
  ultimately have "uint (ub (MMX_POR (MMX_PSUBUSB a b) (MMX_PSUBUSB b a)) i) = \<bar>uint (ub a i) - uint (ub b i)\<bar>"
    using uint_u8_diff [of "ub a i" "ub b i"] uint_u8_diff [of "ub b i" "ub a i"]
    by (cases "uint (ub a i) \<le> uint (ub b i)") (auto simp: u sint_sat clamp_def min.absorb2)
  moreover have "uint (ub (MMX_PAVGB a b) i) = (uint (ub a i) + uint (ub b i) + 1) div 2"
    using ij uint_u8_less [of "ub a i"] uint_u8_less [of "ub b i"]
    by (simp add: MMX_PAVGB_def uint_word_of_int_eq drop_bit_eq_div take_bit_int_eq_self)
  moreover have "uint (uw (MMX_PAVGW a b) j) = (uint (uw a j) + uint (uw b j) + 1) div 2"
    using ij uint_u16_less [of "uw a j"] uint_u16_less [of "uw b j"]
    by (simp add: MMX_PAVGW_def uint_word_of_int_eq drop_bit_eq_div take_bit_int_eq_self)
  ultimately show ?thesis by blast
qed

text \<open>
  The high and low halves that PMULHW and PMULLW return make up the exact signed
  product of the lanes.
\<close>

theorem products_recombine:
  "j < 4 \<Longrightarrow> sint (uw (MMX_PMULHW a b) j) * 65536 + uint (uw (MMX_PMULLW a b) j) = sint (uw a j) * sint (uw b j)"
proof -
  assume j: "j < 4"
  let ?p = "sint (uw a j) * sint (uw b j)"
  have "-32768 \<le> sint (uw a j)" "sint (uw a j) \<le> 32767" "-32768 \<le> sint (uw b j)" "sint (uw b j) \<le> 32767"
    using sint_ge [of "uw a j"] sint_lt [of "uw a j"] sint_ge [of "uw b j"] sint_lt [of "uw b j"] by simp_all
  then have "\<bar>sint (uw a j)\<bar> * \<bar>sint (uw b j)\<bar> \<le> 32768 * 32768"
    by (intro mult_mono) auto
  then have p: "\<bar>?p\<bar> \<le> 1073741824" by (simp add: abs_mult)
  have "- 32768 \<le> q div 65536 \<and> q div 65536 < 32768" if "\<bar>q\<bar> \<le> 1073741824" for q :: int
    using that zdiv_mono1 [of "- 1073741824" q 65536] zdiv_mono1 [of q 1073741824 65536]
    by (simp add: abs_le_iff)
  from this [OF p] have "- 32768 \<le> ?p div 65536" "?p div 65536 < 32768" by simp_all
  then have "sint (uw (MMX_PMULHW a b) j) = ?p div 65536"
    using j by (simp add: MMX_PMULHW_def sint_sbintrunc' signed_take_bit_int_eq_self drop_bit_eq_div)
  moreover have "uint (uw (MMX_PMULLW a b) j) = ?p mod 65536"
    using j by (simp add: MMX_PMULLW_def uint_word_of_int_eq take_bit_eq_mod del: of_int_mult)
  ultimately show ?thesis by simp
qed

text \<open>
  Selecting by the PCMPGTW mask with PAND, PANDN and POR computes PMAXSW.
\<close>

theorem blend_by_compare_is_max:
  "MMX_POR (MMX_PAND (MMX_PCMPGTW a b) a) (MMX_PANDN (MMX_PCMPGTW a b) b) = MMX_PMAXSW a b"
proof (rule mmx_eqI_w)
  fix i :: nat assume i: "i < 4"
  have "uw (MMX_POR (MMX_PAND m x) (MMX_PANDN m y)) i = (uw m i AND uw x i) OR (NOT (uw m i) AND uw y i)" for m x y
    using i by (intro bit_word_eqI) (auto simp: uw_def MMX_POR_def MMX_PAND_def MMX_PANDN_def bit_simps)
  then show "uw (MMX_POR (MMX_PAND (MMX_PCMPGTW a b) a) (MMX_PANDN (MMX_PCMPGTW a b) b)) i = uw (MMX_PMAXSW a b) i"
    using i by (simp add: MMX_PCMPGTW_def MMX_PMAXSW_def)
qed

lemma zero_extended_byte: "sint (le16 b 0) = uint b"
  by (rule bit_eqI) (auto simp: le16_def bit_simps bit_sint_iff min_def bit_uint_iff dest: bit_imp_le_length)

lemma sign_extended_byte: "drop_bit 8 (sint (le16 0 b)) = sint b"
  by (rule bit_eqI) (auto simp: le16_def bit_simps bit_sint_iff min_def not_le)

lemma sign_extended_word: "drop_bit 16 (sint (push_bit 16 (ucast w) :: u32)) = sint (w :: u16)"
  by (rule bit_eqI) (auto simp: bit_simps bit_sint_iff min_def not_le)

lemma sat_of_byte: "recomp_sat_u8 (uint b) = b" "recomp_sat_i8 (sint (scast b :: u16)) = b"
  "recomp_sat_i16 (sint (scast w :: u32)) = w"
proof -
  have "- 128 \<le> sint b" "sint b < 128" "- 32768 \<le> sint w" "sint w < 32768"
    using sint_ge [of b] sint_lt [of b] sint_ge [of w] sint_lt [of w] by simp_all
  then show "recomp_sat_i8 (sint (scast b :: u16)) = b"
    "recomp_sat_i16 (sint (scast w :: u32)) = w"
    by (simp_all add: sint_up_scast is_up recomp_sat_i8_def recomp_sat_i16_def)
  show "recomp_sat_u8 (uint b) = b"
    using uint_u8_less [of b] uint_ge_0 [of b] by (simp add: recomp_sat_u8_def)
qed

text \<open>
  Unpacking bytes or words against zero and packing them again with saturation
  restores the register: zero-extended bytes with PACKUSWB, sign-extended bytes with
  PACKSSWB, sign-extended words with PACKSSDW.
\<close>

theorem pack_undoes_unpack:
  "MMX_PACKUSWB (MMX_PUNPCKLBW a MMX_ZERO) (MMX_PUNPCKHBW a MMX_ZERO) = a \<and>
   MMX_PACKSSWB (MMX_PSRAW (MMX_PUNPCKLBW MMX_ZERO a) 8) (MMX_PSRAW (MMX_PUNPCKHBW MMX_ZERO a) 8) = a \<and>
   MMX_PACKSSDW (MMX_PSRAD (MMX_PUNPCKLWD MMX_ZERO a) 16) (MMX_PSRAD (MMX_PUNPCKHWD MMX_ZERO a) 16) = a"
proof (intro conjI)
  have z: "ub MMX_ZERO i = 0" "uw MMX_ZERO i = 0" for i by (simp_all add: ub_def uw_def MMX_ZERO_def)
  have lo: "uw (MMX_PUNPCKLBW x y) i = le16 (ub x i) (ub y i)" if "i < 4" for x y i
    using that by (simp add: uw_of_ub MMX_PUNPCKLBW_def)
  have hi: "uw (MMX_PUNPCKHBW x y) i = le16 (ub x (i + 4)) (ub y (i + 4))" if "i < 4" for x y i
    using that by (simp add: uw_of_ub MMX_PUNPCKHBW_def)
  have lo2: "ud (MMX_PUNPCKLWD x y) i = ucast (uw x i) OR push_bit 16 (ucast (uw y i))" if "i < 2" for x y i
    using that by (simp add: ud_of_uw MMX_PUNPCKLWD_def)
  have hi2: "ud (MMX_PUNPCKHWD x y) i = ucast (uw x (i + 2)) OR push_bit 16 (ucast (uw y (i + 2)))" if "i < 2" for x y i
    using that by (simp add: ud_of_uw MMX_PUNPCKHWD_def)
  show "MMX_PACKUSWB (MMX_PUNPCKLBW a MMX_ZERO) (MMX_PUNPCKHBW a MMX_ZERO) = a"
  proof (rule mmx_eqI_b)
    fix i :: nat assume i: "i < 8"
    show "ub (MMX_PACKUSWB (MMX_PUNPCKLBW a MMX_ZERO) (MMX_PUNPCKHBW a MMX_ZERO)) i = ub a i"
      using i lo [of i a MMX_ZERO] hi [of "i - 4" a MMX_ZERO]
      by (simp add: MMX_PACKUSWB_def z zero_extended_byte sat_of_byte)
  qed
  show "MMX_PACKSSWB (MMX_PSRAW (MMX_PUNPCKLBW MMX_ZERO a) 8) (MMX_PSRAW (MMX_PUNPCKHBW MMX_ZERO a) 8) = a"
  proof (rule mmx_eqI_b)
    fix i :: nat assume i: "i < 8"
    show "ub (MMX_PACKSSWB (MMX_PSRAW (MMX_PUNPCKLBW MMX_ZERO a) 8) (MMX_PSRAW (MMX_PUNPCKHBW MMX_ZERO a) 8)) i = ub a i"
      using i lo [of i MMX_ZERO a] hi [of "i - 4" MMX_ZERO a] less_diff_conv2 [of 4 i 4]
      by (cases "i < 4") (simp_all add: MMX_PACKSSWB_def MMX_PSRAW_def z sign_extended_byte sat_of_byte)
  qed
  show "MMX_PACKSSDW (MMX_PSRAD (MMX_PUNPCKLWD MMX_ZERO a) 16) (MMX_PSRAD (MMX_PUNPCKHWD MMX_ZERO a) 16) = a"
  proof (rule mmx_eqI_w)
    fix i :: nat assume i: "i < 4"
    show "uw (MMX_PACKSSDW (MMX_PSRAD (MMX_PUNPCKLWD MMX_ZERO a) 16) (MMX_PSRAD (MMX_PUNPCKHWD MMX_ZERO a) 16)) i = uw a i"
      using i lo2 [of i MMX_ZERO a] hi2 [of "i - 2" MMX_ZERO a] less_diff_conv2 [of 2 i 2]
        le_add_diff_inverse2 [of 2 i] by (cases "i < 2") (simp_all add: MMX_PACKSSDW_def MMX_PSRAD_def z sign_extended_word sat_of_byte)
  qed
qed

theorem saturating_lanes_witness:
  "sint (ub (MMX_PADDSB 0x7F 0x01) 0) = 127 \<and> uint (ub (MMX_PSUBUSB 0x05 0x09) 0) = 0"
  using saturating_lanes [of 0 0 "0x7F" "0x01"] saturating_lanes [of 0 0 "0x05" "0x09"]
  by (simp add: ub_def clamp_def)

theorem absolute_difference_and_average_witness:
  "uint (ub (MMX_POR (MMX_PSUBUSB 5 9) (MMX_PSUBUSB 9 5)) 0) = 4 \<and> uint (ub (MMX_PAVGB 5 8) 0) = 7"
  using absolute_difference_and_average [of 0 0 5 9] absolute_difference_and_average [of 0 0 5 8]
  by (simp add: ub_def)

theorem products_recombine_witness:
  "sint (uw (MMX_PMULHW 0xFFFF 3) 0) * 65536 + uint (uw (MMX_PMULLW 0xFFFF 3) 0) = - 3"
  using products_recombine [of 0 "0xFFFF" 3] by (simp add: uw_def)

end
