(* ===== verification/X86_Xmm.thy ===== *)
theory X86_Xmm
  imports Prelude Guest_Memory
begin

text \<open>
  The XMM register file of \<open>templates/runtime/recomp_types.h\<close>: four 32-bit lanes, lowest first.
  The data-movement, bitwise and compare operations are modelled on the bit patterns; a lane
  compares as an IEEE single, whose order is defined below. Packed add, subtract, multiply and
  divide are the host's and are not modelled.
\<close>

datatype RecompXmm = Xmm (u0: u32) (u1: u32) (u2: u32) (u3: u32)

definition xmm_u :: "RecompXmm \<Rightarrow> nat \<Rightarrow> u32" where
  "xmm_u r i = [u0 r, u1 r, u2 r, u3 r] ! i"

definition xmm_q :: "RecompXmm \<Rightarrow> nat \<Rightarrow> u64" where
  "xmm_q r i = (if i = 0 then le64 (u0 r) (u1 r) else le64 (u2 r) (u3 r))"

definition of_q :: "u64 \<Rightarrow> u64 \<Rightarrow> RecompXmm" where
  "of_q lo hi = Xmm (ucast lo) (ucast (drop_bit 32 lo)) (ucast hi) (ucast (drop_bit 32 hi))"

definition XMM_ZERO :: RecompXmm where "XMM_ZERO = of_q 0 0"

definition XMM_SCALAR_BITS :: "u32 \<Rightarrow> RecompXmm" where
  "XMM_SCALAR_BITS bits = (let r = XMM_ZERO in Xmm bits (u1 r) (u2 r) (u3 r))"

section \<open>Guest memory\<close>

definition XMM_MEM :: "memory \<Rightarrow> u32 \<Rightarrow> RecompXmm" where
  "XMM_MEM m addr = Xmm (MEM32 m addr) (MEM32 m (addr + 4)) (MEM32 m (addr + 8)) (MEM32 m (addr + 12))"

definition XMM_STORE :: "memory \<Rightarrow> u32 \<Rightarrow> RecompXmm \<Rightarrow> memory" where
  "XMM_STORE m addr v =
     (let m = RECOMP_MEM_WRITE32 m addr (u0 v); m = RECOMP_MEM_WRITE32 m (addr + 4) (u1 v);
          m = RECOMP_MEM_WRITE32 m (addr + 8) (u2 v)
      in RECOMP_MEM_WRITE32 m (addr + 12) (u3 v))"

definition recomp_xmm_load_half :: "memory \<Rightarrow> RecompXmm \<Rightarrow> u32 \<Rightarrow> nat \<Rightarrow> RecompXmm" where
  "recomp_xmm_load_half m dst addr high =
     (let a = MEM32 m addr; b = MEM32 m (addr + 4)
      in if high = 0 then Xmm a b (u2 dst) (u3 dst) else Xmm (u0 dst) (u1 dst) a b)"

definition recomp_xmm_store_half :: "memory \<Rightarrow> u32 \<Rightarrow> RecompXmm \<Rightarrow> nat \<Rightarrow> memory" where
  "recomp_xmm_store_half m addr src high =
     RECOMP_MEM_WRITE32 (RECOMP_MEM_WRITE32 m addr (xmm_u src (high * 2))) (addr + 4) (xmm_u src (high * 2 + 1))"

definition XMM_MOVE_LOW_TO_HIGH :: "RecompXmm \<Rightarrow> RecompXmm \<Rightarrow> RecompXmm" where
  "XMM_MOVE_LOW_TO_HIGH a b = of_q (xmm_q a 0) (xmm_q b 0)"

definition XMM_MOVE_HIGH_TO_LOW :: "RecompXmm \<Rightarrow> RecompXmm \<Rightarrow> RecompXmm" where
  "XMM_MOVE_HIGH_TO_LOW a b = of_q (xmm_q b 1) (xmm_q a 1)"

section \<open>IEEE single precision order on bit patterns\<close>

definition f32_isnan :: "u32 \<Rightarrow> bool" where
  "f32_isnan w \<longleftrightarrow> w AND 0x7FFFFFFF > 0x7F800000"

definition f32_key :: "u32 \<Rightarrow> int" where
  "f32_key w = (if bit w 31 then - uint (w AND 0x7FFFFFFF) else uint (w AND 0x7FFFFFFF))"

definition f32_lt :: "u32 \<Rightarrow> u32 \<Rightarrow> bool" where
  "f32_lt a b \<longleftrightarrow> \<not> f32_isnan a \<and> \<not> f32_isnan b \<and> f32_key a < f32_key b"

definition f32_le :: "u32 \<Rightarrow> u32 \<Rightarrow> bool" where
  "f32_le a b \<longleftrightarrow> \<not> f32_isnan a \<and> \<not> f32_isnan b \<and> f32_key a \<le> f32_key b"

definition f32_eq :: "u32 \<Rightarrow> u32 \<Rightarrow> bool" where
  "f32_eq a b \<longleftrightarrow> \<not> f32_isnan a \<and> \<not> f32_isnan b \<and> f32_key a = f32_key b"

section \<open>Lane-wise operations\<close>

definition xmm_lanewise :: "(u32 \<Rightarrow> u32 \<Rightarrow> u32) \<Rightarrow> RecompXmm \<Rightarrow> RecompXmm \<Rightarrow> RecompXmm" where
  "xmm_lanewise f a b = Xmm (f (u0 a) (u0 b)) (f (u1 a) (u1 b)) (f (u2 a) (u2 b)) (f (u3 a) (u3 b))"

definition XMM_MIN where "XMM_MIN = xmm_lanewise (\<lambda>a b. if f32_lt a b then a else b)"
definition XMM_MAX where "XMM_MAX = xmm_lanewise (\<lambda>a b. if f32_lt b a then a else b)"
definition XMM_AND where "XMM_AND = xmm_lanewise (\<lambda>a b. a AND b)"
definition XMM_OR where "XMM_OR = xmm_lanewise (\<lambda>a b. a OR b)"
definition XMM_XOR where "XMM_XOR = xmm_lanewise (\<lambda>a b. a XOR b)"
definition XMM_ANDN where "XMM_ANDN = xmm_lanewise (\<lambda>a b. NOT a AND b)"
definition XMM_CMP_EQ where "XMM_CMP_EQ = xmm_lanewise (\<lambda>a b. if f32_eq a b then 0xFFFFFFFF else 0)"
definition XMM_CMP_LT where "XMM_CMP_LT = xmm_lanewise (\<lambda>a b. if f32_lt a b then 0xFFFFFFFF else 0)"
definition XMM_CMP_LE where "XMM_CMP_LE = xmm_lanewise (\<lambda>a b. if f32_le a b then 0xFFFFFFFF else 0)"
definition XMM_CMP_NEQ where "XMM_CMP_NEQ = xmm_lanewise (\<lambda>a b. if f32_eq a b then 0 else 0xFFFFFFFF)"

definition XMM_MOVEMASK :: "RecompXmm \<Rightarrow> u32" where
  "XMM_MOVEMASK a =
     (((drop_bit 31 (u0 a) AND 1) OR push_bit 1 (drop_bit 31 (u1 a) AND 1))
       OR push_bit 2 (drop_bit 31 (u2 a) AND 1)) OR push_bit 3 (drop_bit 31 (u3 a) AND 1)"

definition XMM_SHUFFLE :: "RecompXmm \<Rightarrow> RecompXmm \<Rightarrow> u32 \<Rightarrow> RecompXmm" where
  "XMM_SHUFFLE a b imm =
     Xmm (xmm_u a (unat (drop_bit 0 imm AND 3))) (xmm_u a (unat (drop_bit 2 imm AND 3)))
       (xmm_u b (unat (drop_bit 4 imm AND 3))) (xmm_u b (unat (drop_bit 6 imm AND 3)))"

definition XMM_UNPACK_LOW :: "RecompXmm \<Rightarrow> RecompXmm \<Rightarrow> RecompXmm" where
  "XMM_UNPACK_LOW a b = Xmm (u0 a) (u0 b) (u1 a) (u1 b)"

definition XMM_UNPACK_HIGH :: "RecompXmm \<Rightarrow> RecompXmm \<Rightarrow> RecompXmm" where
  "XMM_UNPACK_HIGH a b = Xmm (u2 a) (u2 b) (u3 a) (u3 b)"

section \<open>Compares and selections\<close>

lemma f32_total: "\<not> f32_isnan a \<Longrightarrow> \<not> f32_isnan b \<Longrightarrow> f32_lt a b \<or> f32_eq a b \<or> f32_lt b a"
  by (auto simp: f32_lt_def f32_eq_def)

lemma f32_le_lt_eq: "f32_le a b \<longleftrightarrow> f32_lt a b \<or> f32_eq a b"
  by (auto simp: f32_lt_def f32_eq_def f32_le_def)

lemma all_ones: "(0xFFFFFFFF :: u32) = - 1"
  by simp

text \<open>
  MINPS and MAXPS are the compare-and-select of their operands, returning the
  second operand for equal or unordered lanes; the not-equal compare is the complement of
  the equal one and less-or-equal the union of less and equal, NaNs included.
\<close>

theorem minmax_are_compare_and_select:
  "XMM_MIN a b = XMM_OR (XMM_AND (XMM_CMP_LT a b) a) (XMM_ANDN (XMM_CMP_LT a b) b) \<and>
   XMM_MAX a b = XMM_OR (XMM_AND (XMM_CMP_LT b a) a) (XMM_ANDN (XMM_CMP_LT b a) b) \<and>
   XMM_CMP_NEQ a b = XMM_XOR (XMM_CMP_EQ a b) (Xmm (- 1) (- 1) (- 1) (- 1)) \<and>
   XMM_CMP_LE a b = XMM_OR (XMM_CMP_LT a b) (XMM_CMP_EQ a b)"
proof -
  have sel: "(if P then x else y) = ((if P then 0xFFFFFFFF else 0) AND x) OR (NOT (if P then 0xFFFFFFFF else 0) AND y)"
    for P and x y :: u32 unfolding all_ones by simp
  have neg: "(if P then 0 else 0xFFFFFFFF) = (if P then 0xFFFFFFFF else 0) XOR (- 1 :: u32)" for P
    unfolding all_ones by simp
  have le: "(if P \<or> Q then 0xFFFFFFFF else 0) = (if P then 0xFFFFFFFF else 0) OR (if Q then 0xFFFFFFFF else 0 :: u32)" for P Q
    unfolding all_ones by simp
  show ?thesis
    unfolding XMM_MIN_def XMM_MAX_def XMM_OR_def XMM_AND_def XMM_ANDN_def XMM_XOR_def XMM_CMP_LT_def
      XMM_CMP_EQ_def XMM_CMP_NEQ_def XMM_CMP_LE_def xmm_lanewise_def f32_le_lt_eq RecompXmm.sel le
    by (simp only: sel [symmetric] neg [symmetric])
qed

section \<open>Data movement\<close>

lemma of_q_xmm_q: "of_q (xmm_q a i) (xmm_q b j) =
    (let x = (if i = 0 then (u0 a, u1 a) else (u2 a, u3 a)); y = (if j = 0 then (u0 b, u1 b) else (u2 b, u3 b))
     in Xmm (fst x) (snd x) (fst y) (snd y))"
proof -
  have "ucast (le64 x y) = x" "ucast (drop_bit 32 (le64 x y)) = y" for x y :: u32
    by (rule bit_word_eqI; auto simp: le64_def bit_simps dest: bit_imp_le_length)+
  then show ?thesis by (simp add: of_q_def xmm_q_def)
qed

text \<open>
  Loading or storing the two halves is loading or storing the register; MOVLHPS,
  MOVHLPS are the shuffles 0x44 and 0xEE, and shuffles 0x88 and 0xDD undo the low and high
  unpack.
\<close>

theorem halves_make_the_whole:
  "recomp_xmm_load_half m (recomp_xmm_load_half m dst addr 0) (addr + 8) 1 = XMM_MEM m addr \<and>
   recomp_xmm_store_half (recomp_xmm_store_half m addr src 0) (addr + 8) src 1 = XMM_STORE m addr src \<and>
   XMM_MOVE_LOW_TO_HIGH a b = XMM_SHUFFLE a b 0x44 \<and>
   XMM_MOVE_HIGH_TO_LOW a b = XMM_SHUFFLE b a 0xEE \<and>
   XMM_SHUFFLE (XMM_UNPACK_LOW a b) (XMM_UNPACK_HIGH a b) 0x88 = a \<and>
   XMM_SHUFFLE (XMM_UNPACK_LOW a b) (XMM_UNPACK_HIGH a b) 0xDD = b"
proof -
  have "XMM_SHUFFLE a b 0x44 = Xmm (u0 a) (u1 a) (u0 b) (u1 b)" "XMM_SHUFFLE b a 0xEE = Xmm (u2 b) (u3 b) (u2 a) (u3 a)"
    "XMM_SHUFFLE x y 0x88 = Xmm (u0 x) (u2 x) (u0 y) (u2 y)" "XMM_SHUFFLE x y 0xDD = Xmm (u1 x) (u3 x) (u1 y) (u3 y)"
    for x y by (simp_all add: XMM_SHUFFLE_def xmm_u_def)
  then show ?thesis
    by (cases a; cases b)
       (simp add: recomp_xmm_load_half_def XMM_MEM_def recomp_xmm_store_half_def XMM_STORE_def Let_def xmm_u_def
        XMM_MOVE_LOW_TO_HIGH_def XMM_MOVE_HIGH_TO_LOW_def of_q_xmm_q XMM_UNPACK_LOW_def XMM_UNPACK_HIGH_def add.assoc)
qed

lemma bit_movemask: "i < 4 \<Longrightarrow> bit (XMM_MOVEMASK a) i \<longleftrightarrow> bit (xmm_u a i) 31"
proof -
  assume "i < 4"
  then consider "i = 0" | "i = 1" | "i = 2" | "i = 3" by linarith
  then show ?thesis by cases (auto simp: XMM_MOVEMASK_def xmm_u_def bit_simps bit_times_2)
qed

end
