(* ===== verification/Digest_Interface.thy ===== *)
theory Digest_Interface
  imports Main
begin

text \<open>
  The contract of a streaming message digest, as the kernel's HMAC and the titles use it: a
  context that stands for the message absorbed so far, an update that extends the message and
  a final step that yields the digest of it. Both operations may fail to return (\<open>None\<close>); the
  contract says when they do return.
\<close>

primrec absorb :: "('c \<Rightarrow> 'b list \<Rightarrow> 'c option) \<Rightarrow> 'c \<Rightarrow> 'b list list \<Rightarrow> 'c option" where
  "absorb upd c [] = Some c"
| "absorb upd c (x # xs) = Option.bind (upd c x) (\<lambda>c. absorb upd c xs)"

locale message_digest =
  fixes stands_for :: "'c \<Rightarrow> 'b list \<Rightarrow> bool"
    and admissible :: "'b list \<Rightarrow> bool"
    and update :: "'c \<Rightarrow> 'b list \<Rightarrow> 'c option"
    and final :: "'c \<Rightarrow> ('c \<times> 'b list) option"
    and digest :: "'b list \<Rightarrow> 'b list"
  assumes update_returns:
      "stands_for c m \<Longrightarrow> admissible x \<Longrightarrow> \<exists>c'. update c x = Some c' \<and> stands_for c' (m @ x)"
    and final_returns: "stands_for c m \<Longrightarrow> \<exists>c'. final c = Some (c', digest m)"
begin

lemma absorb_returns:
  "stands_for c m \<Longrightarrow> list_all admissible xs \<Longrightarrow>
    \<exists>c'. absorb update c xs = Some c' \<and> stands_for c' (m @ concat xs)"
proof (induction xs arbitrary: c m)
  case (Cons x xs)
  then obtain c1 where "update c x = Some c1" "stands_for c1 (m @ x)"
    using update_returns by fastforce
  with Cons.IH [of c1 "m @ x"] Cons.prems(2) show ?case by simp
qed simp

lemma digest_of_chunks:
  "stands_for c m \<Longrightarrow> list_all admissible xs \<Longrightarrow>
    \<exists>c'. Option.bind (absorb update c xs) final = Some (c', digest (m @ concat xs))"
  using absorb_returns [of c m xs] final_returns by fastforce

lemma chunking_is_irrelevant:
  assumes "stands_for c m" "list_all admissible xs" "list_all admissible ys" "concat xs = concat ys"
  shows "map_option snd (Option.bind (absorb update c xs) final) =
    map_option snd (Option.bind (absorb update c ys) final)"
  using digest_of_chunks [OF assms(1,2)] digest_of_chunks [OF assms(1,3)] assms(4) by auto

end

end
