(* ===== verification/Kernel_Sha1.thy ===== *)
theory Kernel_Sha1
  imports Prelude Digest_Interface
begin

text \<open>
  SHA-1 as \<open>src/kernel/kernel_crypto.c\<close> implements it for the Xbox kernel's \<open>XcSHA*\<close>
  exports: the compression function, the streaming context with its bit count and block
  buffer, and the padding at the end. A call that can run forever returns an option, \<open>None\<close>
  standing for not returning; a pointer that the code tests against NULL is an option.
\<close>

section \<open>The compression function\<close>

definition sha1_rotate_left :: "u32 \<Rightarrow> nat \<Rightarrow> u32" where
  "sha1_rotate_left value bits = push_bit bits value OR drop_bit (32 - bits) value"

definition sha1_schedule :: "u8 list \<Rightarrow> u32 list" where
  "sha1_schedule buffer =
     fold (\<lambda>i w. w @ [sha1_rotate_left (w ! (i - 3) XOR w ! (i - 8) XOR w ! (i - 14) XOR w ! (i - 16)) 1])
       [16..<80]
       (map (\<lambda>i. be32 (buffer ! (i * 4)) (buffer ! (i * 4 + 1)) (buffer ! (i * 4 + 2)) (buffer ! (i * 4 + 3)))
         [0..<16])"

type_synonym sha_regs = "u32 \<times> u32 \<times> u32 \<times> u32 \<times> u32"

definition sha1_round :: "u32 list \<Rightarrow> nat \<Rightarrow> sha_regs \<Rightarrow> sha_regs" where
  "sha1_round w i = (\<lambda>(a, b, c, d, e).
     let (f, k) = (if i < 20 then ((b AND c) OR (NOT b AND d), 0x5A827999)
                   else if i < 40 then (b XOR c XOR d, 0x6ED9EBA1)
                   else if i < 60 then ((b AND c) OR (b AND d) OR (c AND d), 0x8F1BBCDC)
                   else (b XOR c XOR d, 0xCA62C1D6));
         temp = sha1_rotate_left a 5 + f + e + k + w ! i
     in (temp, a, sha1_rotate_left b 30, c, d))"

definition sha1_transform :: "sha_regs \<Rightarrow> u8 list \<Rightarrow> sha_regs" where
  "sha1_transform state buffer =
     (let w = sha1_schedule buffer;
          (a, b, c, d, e) = fold (sha1_round w) [0..<80] state;
          (s0, s1, s2, s3, s4) = state
      in (s0 + a, s1 + b, s2 + c, s3 + d, s4 + e))"

section \<open>The context and its operations\<close>

record XBOX_SHA_CONTEXT =
  State :: sha_regs
  Count0 :: u32
  Count1 :: u32
  Buffer :: "u8 list"

definition sha_iv :: sha_regs where
  "sha_iv = (0x67452301, 0xEFCDAB89, 0x98BADCFE, 0x10325476, 0xC3D2E1F0)"

definition sha_init :: "XBOX_SHA_CONTEXT \<Rightarrow> XBOX_SHA_CONTEXT" where
  "sha_init c = c\<lparr>State := sha_iv, Count0 := 0, Count1 := 0, Buffer := replicate 64 0\<rparr>"

definition xbox_XcSHAInit :: "XBOX_SHA_CONTEXT option \<Rightarrow> XBOX_SHA_CONTEXT option" where
  "xbox_XcSHAInit ShaContext = map_option sha_init ShaContext"

text \<open>
  \<open>memcpy(dst + at, src, n)\<close> on lists, and the loop over whole blocks, whose 32-bit test
  \<open>i + 63 < InputLength\<close> wraps as the C does.
\<close>

partial_function (option) sha_block_loop ::
    "u8 list \<Rightarrow> u32 \<Rightarrow> sha_regs \<Rightarrow> u32 \<Rightarrow> (sha_regs \<times> u32) option" where
  "sha_block_loop Input InputLength st i =
     (if i + 63 < InputLength
      then sha_block_loop Input InputLength (sha1_transform st (take 64 (drop (unat i) Input))) (i + 64)
      else Some (st, i))"

definition sha_update :: "XBOX_SHA_CONTEXT \<Rightarrow> u8 list \<Rightarrow> u32 \<Rightarrow> XBOX_SHA_CONTEXT option" where
  "sha_update ctx Input InputLength =
    (let index = drop_bit 3 (Count0 ctx) AND 0x3F;
         c0 = Count0 ctx + push_bit 3 InputLength;
         c1 = (if c0 < push_bit 3 InputLength then Count1 ctx + 1 else Count1 ctx);
         c1 = c1 + drop_bit 29 InputLength;
         ctx = ctx\<lparr>Count0 := c0, Count1 := c1\<rparr>;
         part_len = 64 - index
     in if InputLength \<ge> part_len
        then let buf = memcpy_at (Buffer ctx) (unat index) (take (unat part_len) Input);
                 st = sha1_transform (State ctx) buf
             in Option.bind (sha_block_loop Input InputLength st part_len) (\<lambda>(st, i).
                  Some (ctx\<lparr>State := st,
                        Buffer := memcpy_at buf 0 (take (unat (InputLength - i)) (drop (unat i) Input))\<rparr>))
        else Some (ctx\<lparr>Buffer := memcpy_at (Buffer ctx) (unat index) (take (unat InputLength) Input)\<rparr>))"

definition xbox_XcSHAUpdate ::
    "XBOX_SHA_CONTEXT option \<Rightarrow> u8 list option \<Rightarrow> u32 \<Rightarrow> XBOX_SHA_CONTEXT option option" where
  "xbox_XcSHAUpdate ShaContext Input InputLength =
     (case (ShaContext, Input) of
        (Some ctx, Some inp) \<Rightarrow>
          (if InputLength = 0 then Some (Some ctx) else map_option Some (sha_update ctx inp InputLength))
      | _ \<Rightarrow> Some ShaContext)"

section \<open>Padding and the digest\<close>

definition sha_finalcount :: "XBOX_SHA_CONTEXT \<Rightarrow> u8 list" where
  "sha_finalcount ctx =
     map (\<lambda>i. ucast (drop_bit ((3 - i) * 8) (Count1 ctx) AND 0xFF)) [0..<4] @
     map (\<lambda>i. ucast (drop_bit ((3 - i) * 8) (Count0 ctx) AND 0xFF)) [0..<4]"

partial_function (option) sha_pad_loop :: "XBOX_SHA_CONTEXT \<Rightarrow> XBOX_SHA_CONTEXT option" where
  "sha_pad_loop ctx =
     (if drop_bit 3 (Count0 ctx) mod 64 \<noteq> 56
      then Option.bind (sha_update ctx [0x00] 1) sha_pad_loop
      else Some ctx)"

definition sha_digest :: "sha_regs \<Rightarrow> u8 list" where
  "sha_digest = (\<lambda>(s0, s1, s2, s3, s4). concat (map (\<lambda>s.
     [ucast (drop_bit 24 s AND 0xFF), ucast (drop_bit 16 s AND 0xFF), ucast (drop_bit 8 s AND 0xFF),
      ucast (s AND 0xFF)]) [s0, s1, s2, s3, s4]))"

definition sha_final :: "XBOX_SHA_CONTEXT \<Rightarrow> (XBOX_SHA_CONTEXT \<times> u8 list) option" where
  "sha_final ctx =
     (let finalcount = sha_finalcount ctx
      in Option.bind (sha_update ctx [0x80] 1) (\<lambda>ctx.
         Option.bind (sha_pad_loop ctx) (\<lambda>ctx.
         Option.bind (sha_update ctx finalcount 8) (\<lambda>ctx.
         Some (ctx, sha_digest (State ctx))))))"

text \<open>\<open>Digest\<close> is a pointer to twenty bytes or NULL; with NULL nothing is done.\<close>

definition xbox_XcSHAFinal ::
    "XBOX_SHA_CONTEXT option \<Rightarrow> u8 list option \<Rightarrow> (XBOX_SHA_CONTEXT option \<times> u8 list option) option" where
  "xbox_XcSHAFinal ShaContext Digest =
     (case (ShaContext, Digest) of
        (Some ctx, Some out) \<Rightarrow>
          map_option (\<lambda>(ctx, d). (Some ctx, Some (memcpy_at out 0 d))) (sha_final ctx)
      | _ \<Rightarrow> Some (ShaContext, Digest))"

declare sha_block_loop.simps [code] sha_pad_loop.simps [code]

section \<open>The compression function is the one of FIPS 180-1\<close>

fun fips_W :: "u8 list \<Rightarrow> nat \<Rightarrow> u32" where
  "fips_W M t =
     (if t < 16 then be32 (M ! (4 * t)) (M ! (4 * t + 1)) (M ! (4 * t + 2)) (M ! (4 * t + 3))
      else word_rotl 1 (fips_W M (t - 3) XOR fips_W M (t - 8) XOR fips_W M (t - 14) XOR fips_W M (t - 16)))"

declare fips_W.simps [simp del]

definition fips_f :: "nat \<Rightarrow> u32 \<Rightarrow> u32 \<Rightarrow> u32 \<Rightarrow> u32" where
  "fips_f t x y z = (if t < 20 then (x AND y) XOR (NOT x AND z)
     else if 40 \<le> t \<and> t < 60 then (x AND y) XOR (x AND z) XOR (y AND z) else x XOR y XOR z)"

definition fips_K :: "nat \<Rightarrow> u32" where
  "fips_K t = (if t < 20 then 0x5A827999 else if t < 40 then 0x6ED9EBA1
     else if t < 60 then 0x8F1BBCDC else 0xCA62C1D6)"

definition fips_round :: "u8 list \<Rightarrow> nat \<Rightarrow> sha_regs \<Rightarrow> sha_regs" where
  "fips_round M t = (\<lambda>(a, b, c, d, e).
     (word_rotl 5 a + fips_f t b c d + e + fips_K t + fips_W M t, a, word_rotl 30 b, c, d))"

definition fips_compress :: "sha_regs \<Rightarrow> u8 list \<Rightarrow> sha_regs" where
  "fips_compress H M = (let (h0, h1, h2, h3, h4) = H; (a, b, c, d, e) = fold (fips_round M) [0..<80] H
     in (h0 + a, h1 + b, h2 + c, h3 + d, h4 + e))"

lemma sha1_rotate_left_eq: "0 < n \<Longrightarrow> n < 32 \<Longrightarrow> sha1_rotate_left v n = word_rotl n v"
  using rotl_parts [of n v] by (simp add: sha1_rotate_left_def)

lemma fips_W_low: "t < 16 \<Longrightarrow>
    fips_W M t = be32 (M ! (4 * t)) (M ! (4 * t + 1)) (M ! (4 * t + 2)) (M ! (4 * t + 3))"
  by (subst fips_W.simps) simp

lemma fips_W_high: "16 \<le> t \<Longrightarrow> fips_W M t = word_rotl 1
    (fips_W M (t - 3) XOR fips_W M (t - 8) XOR fips_W M (t - 14) XOR fips_W M (t - 16))"
  by (subst fips_W.simps) simp

lemma sha1_schedule_prefix:
  assumes "16 \<le> n"
  shows "let w = fold (\<lambda>i w. w @ [sha1_rotate_left (w ! (i - 3) XOR w ! (i - 8) XOR w ! (i - 14) XOR w ! (i - 16)) 1])
       [16..<n] (map (\<lambda>i. be32 (M ! (i * 4)) (M ! (i * 4 + 1)) (M ! (i * 4 + 2)) (M ! (i * 4 + 3))) [0..<16])
     in length w = n \<and> (\<forall>t < n. w ! t = fips_W M t)"
  using assms
proof (induction n rule: dec_induct)
  case base
  show ?case
    by (simp add: Let_def fips_W_low mult.commute del: upt_rec_numeral)
next
  case (step n)
  then show ?case
    by (simp add: Let_def nth_append sha1_rotate_left_eq fips_W_high less_Suc_eq)
qed

lemma sha1_schedule_nth: "t < 80 \<Longrightarrow> sha1_schedule M ! t = fips_W M t"
  using sha1_schedule_prefix [of 80 M] by (simp add: sha1_schedule_def Let_def del: upt_rec_numeral)

lemma choose_eq: "(x AND y) OR (NOT x AND z) = (x AND y) XOR (NOT x AND z)" for x y z :: u32
  by (rule bit_word_eqI) (auto simp: bit_simps)

lemma majority_eq:
  "(x AND y) OR (x AND z) OR (y AND z) = (x AND y) XOR (x AND z) XOR (y AND z)" for x y z :: u32
  by (rule bit_word_eqI) (auto simp: bit_simps)

lemma sha1_round_eq: "t < 80 \<Longrightarrow> sha1_round (sha1_schedule M) t r = fips_round M t r"
  by (cases r) (simp add: sha1_round_def fips_round_def fips_f_def fips_K_def Let_def
      sha1_rotate_left_eq sha1_schedule_nth choose_eq majority_eq)

lemma sha1_transform_fips: "sha1_transform = fips_compress"
proof (intro ext)
  fix st M
  have "fold (sha1_round (sha1_schedule M)) [0..<80] st = fold (fips_round M) [0..<80] st"
    by (rule List.fold_cong) (simp_all add: sha1_round_eq fun_eq_iff del: upt_rec_numeral)
  then show "sha1_transform st M = fips_compress st M"
    by (cases st) (simp add: sha1_transform_def fips_compress_def Let_def del: upt_rec_numeral)
qed

section \<open>Whole blocks of a message\<close>

function sha_process :: "sha_regs \<Rightarrow> u8 list \<Rightarrow> sha_regs" where
  "sha_process st bs =
     (if length bs < 64 then st else sha_process (fips_compress st (take 64 bs)) (drop 64 bs))"
  by pat_completeness auto
termination
  by (relation "measure (\<lambda>(st, bs). length bs)") auto

declare sha_process.simps [simp del]

definition sha_tail :: "'a list \<Rightarrow> 'a list" where
  "sha_tail bs = drop (64 * (length bs div 64)) bs"

lemma sha_process_short: "length bs < 64 \<Longrightarrow> sha_process st bs = st"
  by (simp add: sha_process.simps)

lemma sha_process_block: "64 \<le> length bs \<Longrightarrow>
    sha_process st bs = sha_process (fips_compress st (take 64 bs)) (drop 64 bs)"
  by (subst sha_process.simps) simp

lemma sha_process_append:
  "64 dvd length a \<Longrightarrow> sha_process st (a @ b) = sha_process (sha_process st a) b"
proof (induction st a rule: sha_process.induct)
  case (1 st a)
  show ?case
  proof (cases "length a < 64")
    case True
    with 1 have "a = []" by (metis dvd_imp_le length_0_conv not_le neq0_conv)
    then show ?thesis by (simp add: sha_process_short)
  next
    case False
    then show ?thesis using 1 sha_process_block [of "a @ b" st] sha_process_block [of a st]
      by (simp add: dvd_diff_nat)
  qed
qed

lemma length_sha_tail [simp]: "length (sha_tail bs) = length bs mod 64"
  by (simp add: sha_tail_def minus_mult_div_eq_mod)

lemma sha_tail_short: "length bs < 64 \<Longrightarrow> sha_tail bs = bs"
  by (simp add: sha_tail_def)

lemma sha_tail_append: "64 dvd length a \<Longrightarrow> sha_tail (a @ b) = sha_tail b"
  by (auto simp: sha_tail_def div_plus_div_distrib_dvd_left)

lemma sha_tail_block: "64 \<le> length bs \<Longrightarrow> sha_tail bs = sha_tail (drop 64 bs)"
  using sha_tail_append [of "take 64 bs" "drop 64 bs"] by simp

lemma sha_split:
  obtains full where "bs = full @ sha_tail bs" "64 dvd length full"
  by (metis append_take_drop_id dvd_triv_left length_take min.absorb2 sha_tail_def
      times_div_less_eq_dividend)

lemma sha_process_tail: "sha_process st (bs @ x) = sha_process (sha_process st bs) (sha_tail bs @ x)"
proof -
  obtain full where f: "bs = full @ sha_tail bs" "64 dvd length full" by (rule sha_split)
  have "sha_process st bs = sha_process st full"
    using sha_process_append [OF f(2), of st "sha_tail bs"] f(1) by (simp add: sha_process_short)
  moreover have "sha_process st (full @ (sha_tail bs @ x)) = sha_process (sha_process st full) (sha_tail bs @ x)"
    by (rule sha_process_append [OF f(2)])
  ultimately show ?thesis using f(1) by (metis append.assoc)
qed

lemma sha_tail_tail: "sha_tail (bs @ x) = sha_tail (sha_tail bs @ x)"
  by (metis append.assoc sha_split sha_tail_append)


lemma sha_tail_drop: "\<exists>k. sha_tail bs = drop (64 * k) bs \<and> 64 * k \<le> length bs"
  by (auto simp: sha_tail_def intro!: exI [of _ "length bs div 64"])

section \<open>One update of the context\<close>

definition sha_abs :: "XBOX_SHA_CONTEXT \<Rightarrow> u8 list \<Rightarrow> bool" where
  "sha_abs ctx msg \<longleftrightarrow> length (Buffer ctx) = 64 \<and> State ctx = sha_process sha_iv msg \<and>
     take (length msg mod 64) (Buffer ctx) = sha_tail msg \<and>
     unat (Count1 ctx) * 2 ^ 32 + unat (Count0 ctx) = 8 * length msg mod 2 ^ 64"

lemma sha_abs_init: "sha_abs (sha_init c) []"
  by (simp add: sha_abs_def sha_init_def sha_process_short sha_tail_def)

lemma count_parts:
  "unat (push_bit 3 n :: u32) = 8 * unat n mod 2 ^ 32"
  "unat (drop_bit 29 n :: u32) = unat n div 2 ^ 29"
proof -
  have "unat (push_bit 3 n) = take_bit 32 (push_bit 3 (unat n))"
    using unsigned_push_bit_eq [of 3 n, where 'a = nat] by simp
  then show "unat (push_bit 3 n :: u32) = 8 * unat n mod 2 ^ 32"
    by (simp add: take_bit_eq_mod push_bit_eq_mult mult.commute)
  show "unat (drop_bit 29 n :: u32) = unat n div 2 ^ 29"
    by (metis drop_bit_eq_div unat_drop_bit_eq)
qed

lemma count_add:
  fixes c0 c1 n :: u32
  assumes "unat c1 * 2 ^ 32 + unat c0 = T mod 2 ^ 64"
  defines "d0 \<equiv> c0 + push_bit 3 n"
  defines "d1 \<equiv> (if d0 < push_bit 3 n then c1 + 1 else c1) + drop_bit 29 n"
  shows "unat d1 * 2 ^ 32 + unat d0 = (T + 8 * unat n) mod 2 ^ 64"
proof -
  let ?a = "unat (push_bit 3 n :: u32)" and ?b = "unat n div 2 ^ 29"
  have m: "8 * unat n mod 2 ^ 32 = 8 * (unat n mod 2 ^ 29)"
    using mult_mod_right [of 8 "unat n" "2 ^ 29"] by simp
  have "8 * (q * 2 ^ 29 + r) = q * 2 ^ 32 + 8 * r" for q r :: nat
    by simp
  from this [of ?b "unat n mod 2 ^ 29"] have n: "8 * unat n = ?b * 2 ^ 32 + ?a"
    unfolding count_parts m div_mult_mod_eq .
  have a: "?a < 2 ^ 32" and c: "unat c0 < 2 ^ 32"
    using unat_u32_lt [of "push_bit 3 n"] unat_u32_lt [of c0] by simp_all
  have d0: "unat d0 = (unat c0 + ?a) mod 2 ^ 32"
    by (simp add: d0_def unat_word_ariths)
  define carry where "carry = (if unat c0 + ?a < 2 ^ 32 then 0 else 1 :: nat)"
  have cy: "unat c0 + ?a = carry * 2 ^ 32 + unat d0"
    using a c unfolding d0 carry_def by (auto simp: mod_if)
  have lt: "d0 < push_bit 3 n \<longleftrightarrow> carry = 1"
    using a c unfolding word_less_nat_alt d0 carry_def by (auto simp: mod_if)
  have d1: "unat d1 = (unat c1 + carry + ?b) mod 2 ^ 32"
    unfolding d1_def lt unat_word_ariths using lt
    by (auto simp: carry_def unat_word_ariths count_parts mod_simps)
  have "unat d1 * 2 ^ 32 + unat d0 = ((unat c1 + carry + ?b) * 2 ^ 32 + unat d0) mod 2 ^ 64"
  proof -
    have "x mod 2 ^ 32 * 2 ^ 32 + unat d0 = (x * 2 ^ 32 + unat d0) mod 2 ^ 64" for x :: nat
      using unat_u32_lt [of d0] mod_mult2_eq [of "x * 2 ^ 32 + unat d0" "2 ^ 32" "2 ^ 32"] by simp
    then show ?thesis unfolding d1 .
  qed
  also have "(unat c1 + carry + ?b) * 2 ^ 32 + unat d0 = (unat c1 * 2 ^ 32 + unat c0) + 8 * unat n"
    using cy n by (simp add: algebra_simps)
  finally show ?thesis using assms(1) by (simp add: mod_simps)
qed

lemma sha_index: "unat c1 * 2 ^ 32 + unat c0 = 8 * k mod 2 ^ 64 \<Longrightarrow>
    unat (drop_bit 3 c0 AND 0x3F :: u32) = k mod 64"
  "unat c1 * 2 ^ 32 + unat c0 = 8 * k mod 2 ^ 64 \<Longrightarrow> unat (drop_bit 3 c0 mod 64 :: u32) = k mod 64"
proof -
  assume a: "unat c1 * 2 ^ 32 + unat c0 = 8 * k mod 2 ^ 64"
  have "unat c0 = (unat c1 * 2 ^ 32 + unat c0) mod 2 ^ 32"
    using unat_u32_lt [of c0] by simp
  also have "\<dots> = 8 * k mod 2 ^ 32"
    unfolding a by (rule mod_mod_cancel) simp
  also have "\<dots> = 8 * (k mod 2 ^ 29)"
    using mult_mod_right [of 8 k "2 ^ 29"] by simp
  finally have "unat c0 div 8 mod 64 = k mod 2 ^ 29 mod 64" by simp
  also have "\<dots> = k mod 64" by (rule mod_mod_cancel) simp
  finally have "unat c0 div 8 mod 64 = k mod 64" .
  then show "unat (drop_bit 3 c0 mod 64 :: u32) = k mod 64"
    by (simp only: unat_mod_distrib unat_drop_bit_eq) (simp add: drop_bit_eq_div)
  moreover have "drop_bit 3 c0 AND 0x3F = drop_bit 3 c0 mod 64"
    using take_bit_eq_mod [of 6 "drop_bit 3 c0"] by (simp add: take_bit_eq_mask mask_eq_exp_minus_1)
  ultimately show "unat (drop_bit 3 c0 AND 0x3F :: u32) = k mod 64" by simp
qed

lemma unat_plus_small:
  fixes i k :: u32
  assumes "unat i + unat k < 2 ^ 32"
  shows "unat (i + k) = unat i + unat k"
  using assms by (simp add: unat_word_ariths)

lemma sha_block_loop_returns:
  assumes "unat len \<le> 2 ^ 32 - 64" "unat i \<le> unat len" "unat len \<le> length inp"
  defines "m \<equiv> take (unat len) inp"
  shows "\<exists>j. sha_block_loop inp len st i = Some (sha_process st (drop (unat i) m), j) \<and>
    unat j \<le> unat len \<and> drop (unat j) m = sha_tail (drop (unat i) m)"
  using assms(2)
proof (induction "unat len - unat i" arbitrary: i st rule: less_induct)
  case less
  have m: "length m = unat len" using assms(3) by (simp add: m_def)
  have i63: "unat (i + 63) = unat i + 63"
    using less.prems assms(1) by (subst unat_plus_small) simp_all
  show ?case
  proof (cases "unat i + 63 < unat len")
    case True
    then have i64: "unat (i + 64) = unat i + 64"
      using assms(1) by (subst unat_plus_small) simp_all
    have blk: "take 64 (drop (unat i) inp) = take 64 (drop (unat i) m)"
      using True by (simp add: m_def drop_take min.absorb1)
    have run: "sha_block_loop inp len st i =
        sha_block_loop inp len (fips_compress st (take 64 (drop (unat i) m))) (i + 64)"
      using True i63 by (subst sha_block_loop.simps) (simp add: word_less_nat_alt blk sha1_transform_fips)
    have tl: "sha_tail (drop (unat i) m) = sha_tail (drop (unat (i + 64)) m)"
      using True m i64 by (subst sha_tail_block) (simp_all add: add.commute)
    have pr: "sha_process st (drop (unat i) m) =
        sha_process (fips_compress st (take 64 (drop (unat i) m))) (drop (unat (i + 64)) m)"
      using True m i64 by (subst sha_process_block) (simp_all add: add.commute)
    show ?thesis unfolding run tl pr
      using True i64 by (intro less.hyps) simp_all
  next
    case False
    then show ?thesis using m i63 less.prems
      by (subst sha_block_loop.simps)
         (simp add: word_less_nat_alt sha_process_short sha_tail_short)
  qed
qed

lemma sha_abs_update:
  assumes "sha_abs ctx msg" "unat len \<le> 2 ^ 32 - 64" "unat len \<le> length inp"
  shows "\<exists>ctx'. sha_update ctx inp len = Some ctx' \<and> sha_abs ctx' (msg @ take (unat len) inp)"
proof -
  define m where "m = take (unat len) inp"
  let ?idx = "drop_bit 3 (Count0 ctx) AND 0x3F :: u32"
  define r where "r = length msg mod 64"
  define c0 where "c0 = Count0 ctx + push_bit 3 len"
  define c1 where "c1 = (if c0 < push_bit 3 len then Count1 ctx + 1 else Count1 ctx) + drop_bit 29 len"
  have lm: "length m = unat len" using assms(3) by (simp add: m_def)
  have r: "r < 64" by (simp add: r_def)
  have abs: "length (Buffer ctx) = 64" "State ctx = sha_process sha_iv msg"
    "take r (Buffer ctx) = sha_tail msg"
    "unat (Count1 ctx) * 2 ^ 32 + unat (Count0 ctx) = 8 * length msg mod 2 ^ 64"
    using assms(1) by (simp_all add: sha_abs_def r_def)
  have idx: "unat ?idx = r" unfolding r_def by (rule sha_index(1) [OF abs(4)])
  have part: "unat (64 - ?idx) = 64 - r"
    using idx r by (subst unat_sub) (simp_all add: word_le_nat_alt)
  have cnt: "unat c1 * 2 ^ 32 + unat c0 = 8 * length (msg @ m) mod 2 ^ 64"
    using count_add [OF abs(4), of len] lm by (simp add: c0_def c1_def distrib_left)
  have lt: "length (sha_tail msg) = r" by (simp add: r_def)
  show ?thesis
  proof (cases "64 - r \<le> unat len")
    case True
    define buf where "buf = memcpy_at (Buffer ctx) r (take (64 - r) inp)"
    have "take (64 - r) inp = take (64 - r) m" using True by (simp add: m_def min.absorb1)
    moreover have "length (take (64 - r) m) = 64 - r" using True lm by simp
    ultimately have buf: "buf = sha_tail msg @ take (64 - r) m"
      using abs(1,3) r by (simp add: buf_def memcpy_at_def)
    have lb: "length buf = 64" using True lm lt r unfolding buf by simp
    have blk: "sha_process (sha_process sha_iv msg) (sha_tail msg @ m) =
        sha_process (fips_compress (sha_process sha_iv msg) buf) (drop (64 - r) m)"
      using True lm lt r unfolding buf by (subst sha_process_block) simp_all
    have tl: "sha_tail (msg @ m) = sha_tail (drop (64 - r) m)"
      using True lm lt r by (subst sha_tail_tail, subst sha_tail_block) simp_all
    obtain j where j: "sha_block_loop inp len (fips_compress (sha_process sha_iv msg) buf) (64 - ?idx) =
        Some (sha_process sha_iv (msg @ m), j)" "unat j \<le> unat len" "drop (unat j) m = sha_tail (msg @ m)"
      using sha_block_loop_returns [of len "64 - ?idx" inp "fips_compress (sha_process sha_iv msg) buf"]
        True assms(2,3)
      unfolding part m_def [symmetric] tl [symmetric] blk [symmetric] sha_process_tail [symmetric]
      by blast
    have cp: "take (unat (len - j)) (drop (unat j) inp) = sha_tail (msg @ m)"
      using j(2) unfolding j(3) [symmetric]
      by (simp add: m_def drop_take unat_sub word_le_nat_alt)
    let ?ctx = "ctx\<lparr>State := sha_process sha_iv (msg @ m), Count0 := c0, Count1 := c1,
        Buffer := memcpy_at buf 0 (sha_tail (msg @ m))\<rparr>"
    have "\<not> len < 64 - ?idx" using True part by (simp add: word_less_nat_alt)
    then have "sha_update ctx inp len = Some ?ctx"
      using part idx abs(2) j(1) cp
      by (simp add: sha_update_def Let_def sha1_transform_fips buf_def c0_def c1_def)
    moreover have "sha_abs ?ctx (msg @ m)"
      using cnt lb memcpy_at_0 [of "sha_tail (msg @ m)" buf]
      by (simp add: sha_abs_def)
    ultimately show ?thesis by (auto simp: m_def)
  next
    case False
    let ?ctx = "ctx\<lparr>Count0 := c0, Count1 := c1, Buffer := memcpy_at (Buffer ctx) r m\<rparr>"
    have short: "length (sha_tail msg @ m) < 64" using False lm lt by simp
    have pr: "sha_process sha_iv (msg @ m) = sha_process sha_iv msg"
      using short by (simp add: sha_process_tail [of _ msg] sha_process_short)
    have tl: "sha_tail (msg @ m) = sha_tail msg @ m"
      using short by (simp add: sha_tail_tail [of msg] sha_tail_short)
    have "(length msg + length m) mod 64 = r + length m"
      using arg_cong [OF tl, of length] lt by simp
    moreover have "length (memcpy_at (Buffer ctx) r m) = 64"
      "take (r + length m) (memcpy_at (Buffer ctx) r m) = sha_tail msg @ m"
      using abs(1,3) short lt by (simp_all add: memcpy_at_def)
    ultimately have "sha_abs ?ctx (msg @ m)"
      using cnt abs(2) by (simp add: sha_abs_def pr tl)
    moreover have "\<not> 64 - ?idx \<le> len" using False part by (simp add: word_le_nat_alt)
    then have "sha_update ctx inp len = Some ?ctx"
      using idx by (simp add: sha_update_def Let_def m_def c0_def c1_def)
    ultimately show ?thesis by (auto simp: m_def)
  qed
qed

section \<open>Padding and the digest are those of the standard\<close>

definition sha_length_field :: "nat \<Rightarrow> u8 list" where
  "sha_length_field n = map (\<lambda>i. word_of_nat (8 * n div 256 ^ (7 - i))) [0..<8]"

definition sha_pad_zeros :: "nat \<Rightarrow> nat" where
  "sha_pad_zeros n = (119 - n mod 64) mod 64"

definition sha_pad :: "u8 list \<Rightarrow> u8 list" where
  "sha_pad msg = msg @ [0x80] @ replicate (sha_pad_zeros (length msg)) 0 @ sha_length_field (length msg)"

definition sha1_of :: "u8 list \<Rightarrow> u8 list" where
  "sha1_of msg = sha_digest (sha_process sha_iv (sha_pad msg))"

lemma sha_abs_one: "sha_abs ctx msg \<Longrightarrow>
    \<exists>ctx'. sha_update ctx [b] 1 = Some ctx' \<and> sha_abs ctx' (msg @ [b])"
  using sha_abs_update [of ctx msg 1 "[b]"] by simp

lemma sha_pad_test:
  assumes "sha_abs ctx msg"
  shows "drop_bit 3 (Count0 ctx) mod 64 = (56 :: u32) \<longleftrightarrow> length msg mod 64 = 56"
proof -
  have "unat (drop_bit 3 (Count0 ctx) mod 64 :: u32) = length msg mod 64"
    using assms by (intro sha_index(2) [of "Count1 ctx"]) (simp add: sha_abs_def)
  moreover have "unat (56 :: u32) = 56" by simp
  ultimately show ?thesis by (metis word_unat_eq_iff)
qed

lemma sha_pad_loop_returns:
  "sha_abs ctx msg \<Longrightarrow> (length msg + k) mod 64 = 56 \<Longrightarrow> k < 64 \<Longrightarrow>
    \<exists>ctx'. sha_pad_loop ctx = Some ctx' \<and> sha_abs ctx' (msg @ replicate k 0)"
proof (induction k arbitrary: ctx msg)
  case 0
  then show ?case by (subst sha_pad_loop.simps) (simp add: sha_pad_test)
next
  case (Suc k)
  have "length msg mod 64 \<noteq> 56"
  proof
    assume "length msg mod 64 = 56"
    then have "(length msg + Suc k) mod 64 = (56 + Suc k) mod 64" by (metis mod_add_left_eq)
    then have "(56 + Suc k) mod 64 = 56" using Suc.prems(2) by simp
    then show False using Suc.prems(3) by presburger
  qed
  moreover obtain ctx1 where c: "sha_update ctx [0] 1 = Some ctx1" "sha_abs ctx1 (msg @ [0])"
    using sha_abs_one Suc.prems(1) by blast
  moreover have "\<exists>ctx'. sha_pad_loop ctx1 = Some ctx' \<and> sha_abs ctx' ((msg @ [0]) @ replicate k 0)"
  proof (rule Suc.IH [OF c(2)])
    show "(length (msg @ [0]) + k) mod 64 = 56" using Suc.prems(2) by simp
    show "k < 64" using Suc.prems(3) by simp
  qed
  ultimately show ?case
    by (subst sha_pad_loop.simps) (simp add: sha_pad_test [OF Suc.prems(1)])
qed

lemma sha_pad_zeros_ok: "(Suc n + sha_pad_zeros n) mod 64 = 56" "sha_pad_zeros n < 64"
proof -
  obtain q r where n: "n = 64 * q + r" "r < 64"
    by (metis mod_less_divisor mult_div_mod_eq zero_less_numeral)
  have r: "n mod 64 = r" using n by simp
  have z: "sha_pad_zeros n = (if r \<le> 55 then 55 - r else 119 - r)"
  proof (cases "r \<le> 55")
    case True
    then have "119 - r = 64 + (55 - r)" by simp
    with True show ?thesis unfolding sha_pad_zeros_def r by (simp only: mod_add_self1) simp
  qed (simp add: sha_pad_zeros_def r)
  have "Suc n + sha_pad_zeros n = 56 + 64 * (if r \<le> 55 then q else Suc q)"
    unfolding z using n by simp
  then show "(Suc n + sha_pad_zeros n) mod 64 = 56"
    by (simp only: mod_mult_self2) simp
  show "sha_pad_zeros n < 64" by (simp add: sha_pad_zeros_def)
qed

lemma count_byte:
  fixes c :: u32
  shows "ucast (drop_bit (k * 8) c AND 0xFF) = (word_of_nat (unat c div 256 ^ k) :: u8)"
proof -
  have "ucast (drop_bit (k * 8) c AND 0xFF) = (ucast (drop_bit (k * 8) c) :: u8)"
    by (rule bit_word_eqI) (simp add: bit_simps mask_simps)
  also have "\<dots> = word_of_nat (unat (drop_bit (k * 8) c))" by (simp add: unsigned_of_nat)
  also have "unat (drop_bit (k * 8) c) = unat c div 256 ^ k"
    using power_mult [of "2 :: nat" 8 k]
    by (simp only: unat_drop_bit_eq) (simp add: drop_bit_eq_div mult.commute)
  finally show ?thesis .
qed

lemma word8_mod: "(word_of_nat (a mod 256) :: u8) = word_of_nat a"
  by (simp add: word_unat_eq_iff unat_of_nat)

lemma byte_of_mod: "0 < d \<Longrightarrow> T mod (d * (256 * e)) div d mod 256 = T div d mod 256" for d e T :: nat
  by (simp add: mod_mult2_eq mod_mod_cancel)

lemma word8_byte_of_mod:
  assumes "k < n"
  shows "(word_of_nat (T mod 256 ^ n div 256 ^ k) :: u8) = word_of_nat (T div 256 ^ k)"
proof -
  have e: "(256 :: nat) ^ n = 256 ^ k * (256 * 256 ^ (n - Suc k))"
    using assms by (simp flip: power_Suc power_add)
  have "T mod 256 ^ n div 256 ^ k mod 256 = T div 256 ^ k mod 256"
    unfolding e by (rule byte_of_mod) simp
  then show ?thesis by (metis word8_mod)
qed

lemma sha_finalcount_eq:
  assumes "sha_abs ctx msg"
  shows "sha_finalcount ctx = sha_length_field (length msg)"
proof -
  define c0 c1 T where "c0 = unat (Count0 ctx)" and "c1 = unat (Count1 ctx)" and "T = 8 * length msg"
  have t: "c1 * 256 ^ 4 + c0 = T mod 256 ^ 8"
    using assms by (simp add: sha_abs_def c0_def c1_def T_def)
  have c0: "c0 < 256 ^ 4" using unat_u32_lt [of "Count0 ctx"] by (simp add: c0_def)
  have lo: "(word_of_nat (c0 div 256 ^ k) :: u8) = word_of_nat (T div 256 ^ k)" if "k < 4" for k
  proof -
    have "c0 = T mod 256 ^ 8 mod 256 ^ 4" using c0 unfolding t [symmetric] by simp
    then have "c0 = T mod 256 ^ 4" by (simp add: mod_mod_cancel)
    then show ?thesis using word8_byte_of_mod [OF that] by simp
  qed
  have hi: "(word_of_nat (c1 div 256 ^ k) :: u8) = word_of_nat (T div 256 ^ (4 + k))" if "k < 4" for k
  proof -
    have "c1 = T mod 256 ^ 8 div 256 ^ 4" using c0 unfolding t [symmetric] by simp
    then have "c1 div 256 ^ k = T mod 256 ^ 8 div 256 ^ (4 + k)"
      by (simp only: power_add div_mult2_eq)
    then show ?thesis using word8_byte_of_mod [of "4 + k" 8 T] that by simp
  qed
  have "sha_finalcount ctx = map (\<lambda>i. word_of_nat (c1 div 256 ^ (3 - i))) [0..<4] @
      map (\<lambda>i. word_of_nat (c0 div 256 ^ (3 - i))) [0..<4]"
    unfolding sha_finalcount_def count_byte c0_def c1_def ..
  also have "\<dots> = map (\<lambda>i. word_of_nat (T div 256 ^ (4 + (3 - i)))) [0..<4] @
      map (\<lambda>i. word_of_nat (T div 256 ^ (3 - i))) [0..<4]"
    using hi lo by simp
  also have "\<dots> = sha_length_field (length msg)"
    by (simp add: sha_length_field_def T_def upt_rec)
  finally show ?thesis .
qed

lemma length_sha_length_field [simp]: "length (sha_length_field n) = 8"
  by (simp add: sha_length_field_def del: upt_rec_numeral)

lemma sha_abs_State: "sha_abs ctx msg \<Longrightarrow> State ctx = sha_process sha_iv msg"
  by (simp add: sha_abs_def)

lemma sha_final_returns:
  assumes "sha_abs ctx msg"
  shows "\<exists>ctx'. sha_final ctx = Some (ctx', sha1_of msg)"
proof -
  let ?z = "replicate (sha_pad_zeros (length msg)) 0" and ?f = "sha_length_field (length msg)"
  have u8: "unat (8 :: u32) = 8" by simp
  obtain c1 where c1: "sha_update ctx [0x80] 1 = Some c1" "sha_abs c1 (msg @ [0x80])"
    using sha_abs_one [OF assms] by blast
  obtain c2 where c2: "sha_pad_loop c1 = Some c2" "sha_abs c2 ((msg @ [0x80]) @ ?z)"
    using sha_pad_loop_returns [OF c1(2), of "sha_pad_zeros (length msg)"]
      sha_pad_zeros_ok [of "length msg"] by auto
  obtain c3 where c3: "sha_update c2 ?f 8 = Some c3" "sha_abs c3 (((msg @ [0x80]) @ ?z) @ ?f)"
    using sha_abs_update [OF c2(2), of 8 ?f] by (auto simp: u8)
  have "sha_final ctx = Some (c3, sha1_of msg)"
    using c1(1) c2(1) c3(1) sha_abs_State [OF c3(2)]
    by (simp add: sha_final_def Let_def sha_finalcount_eq [OF assms] sha1_of_def sha_pad_def)
  then show ?thesis by blast
qed

section \<open>Overlong inputs\<close>

lemma block_step_keeps_phase: "(i + 64) AND 63 = i AND 63" for i :: u32
proof -
  have m: "x AND 63 = x mod 64" for x :: u32
    using take_bit_eq_mod [of 6 x] by (simp add: take_bit_eq_mask mask_eq_exp_minus_1)
  have "(unat i + 64) mod 2 ^ 32 mod 64 = (unat i + 64) mod 64" by (rule mod_mod_cancel) simp
  then show ?thesis unfolding m by (simp add: word_unat_eq_iff unat_mod_distrib unat_word_ariths)
qed

lemma last_block_index: "i + 63 = - 1 \<Longrightarrow> i AND 63 = 0" for i :: u32
  by (subgoal_tac "i = - 64") (simp, simp add: eq_neg_iff_add_eq_0 add.assoc)

lemma sha_block_loop_diverges:
  "sha_block_loop inp len st i = Some r \<Longrightarrow> len = - 1 \<longrightarrow> i AND 63 = 63 \<longrightarrow> False"
proof (erule sha_block_loop.raw_induct [rotated], intro impI)
  fix loop inp and len :: u32 and st and i :: u32 and r
  assume ih: "\<And>inp len st i r. loop inp len st i = Some r \<Longrightarrow> len = - 1 \<longrightarrow> i AND 63 = 63 \<longrightarrow> False"
    and body: "(if i + 63 < len then loop inp len (sha1_transform st (take 64 (drop (unat i) inp))) (i + 64)
         else Some (st, i)) = Some r"
    and *: "len = - 1" "i AND 63 = 63"
  have "i + 63 \<noteq> - 1" using last_block_index [of i] *(2) by auto
  then have "i + 63 < - 1"
    using word_order.not_eq_extremum [of "i + 63"] by blast
  then have "loop inp len (sha1_transform st (take 64 (drop (unat i) inp))) (i + 64) = Some r"
    using body * by simp
  then show False using ih * block_step_keeps_phase by metis
qed

text \<open>
  Claim C36: With one byte buffered, XcSHAUpdate with a length of 2^32 - 1 never returns:
  the 32-bit test i + 63 < InputLength wraps before the loop index passes the end.
\<close>

theorem sha_update_overlong_never_returns:
  assumes "drop_bit 3 (Count0 ctx) AND 0x3F = (1 :: u32)"
  shows "sha_update ctx inp (- 1) = None"
proof -
  have n: "sha_block_loop inp (- 1) st 63 = None" for st
    using sha_block_loop_diverges [of inp "- 1" st 63] by (cases "sha_block_loop inp (- 1) st 63") auto
  have "64 - (drop_bit 3 (Count0 ctx) AND 0x3F) = (63 :: u32)" "(63 :: u32) \<le> - 1"
    using assms by simp_all
  then show ?thesis using n by (simp add: sha_update_def Let_def)
qed

section \<open>The exported calls keep the contract of a message digest\<close>

definition sha_feed :: "XBOX_SHA_CONTEXT \<Rightarrow> u8 list option \<Rightarrow> u32 \<Rightarrow> XBOX_SHA_CONTEXT option" where
  "sha_feed c x n = Option.bind (xbox_XcSHAUpdate (Some c) x n) id"

definition sha_finish :: "u8 list \<Rightarrow> XBOX_SHA_CONTEXT \<Rightarrow> (XBOX_SHA_CONTEXT \<times> u8 list) option" where
  "sha_finish out c = Option.bind (xbox_XcSHAFinal (Some c) (Some out))
     (\<lambda>(c, d). case (c, d) of (Some c, Some d) \<Rightarrow> Some (c, d) | _ \<Rightarrow> None)"

abbreviation sha_absorb :: "XBOX_SHA_CONTEXT \<Rightarrow> u8 list \<Rightarrow> XBOX_SHA_CONTEXT option" where
  "sha_absorb c x \<equiv> sha_feed c (Some x) (word_of_nat (length x))"

lemma sha_feed_returns:
  assumes "sha_abs c m" "unat n \<le> 2 ^ 32 - 64" "unat n \<le> length x"
  shows "\<exists>c'. sha_feed c (Some x) n = Some c' \<and> sha_abs c' (m @ take (unat n) x)"
  using assms sha_abs_update [OF assms]
  by (cases "n = 0") (auto simp: sha_feed_def xbox_XcSHAUpdate_def)

lemma length_sha_digest [simp]: "length (sha_digest s) = 20"
  by (cases s) (simp add: sha_digest_def)

lemma length_sha1_of [simp]: "length (sha1_of m) = 20"
  by (simp add: sha1_of_def)

lemma sha_finish_returns:
  assumes "sha_abs c m"
  shows "\<exists>c'. sha_finish out c = Some (c', sha1_of m @ drop 20 out)"
  using sha_final_returns [OF assms]
  by (auto simp: sha_finish_def xbox_XcSHAFinal_def memcpy_at_def)

interpretation sha: message_digest sha_abs "\<lambda>x. length x \<le> 2 ^ 32 - 64" sha_absorb "sha_finish out"
    "\<lambda>m. sha1_of m @ drop 20 out" for out
proof
  fix c m and x :: "u8 list"
  assume c: "sha_abs c m" and x: "length x \<le> 2 ^ 32 - 64"
  have "unat (word_of_nat (length x) :: u32) = length x"
    using x by (simp add: unat_of_nat)
  then show "\<exists>c'. sha_absorb c x = Some c' \<and> sha_abs c' (m @ x)"
    using sha_feed_returns [OF c, of "word_of_nat (length x)" x] x by simp
qed (rule sha_finish_returns)

text \<open>
  Claim C1: XcSHAInit, any sequence of XcSHAUpdate calls and XcSHAFinal return, and the
  digest is the FIPS 180-1 SHA-1 of the concatenated inputs, however the message was cut
  into chunks (each below 2^32 - 64 bytes).
\<close>

theorem sha_stream_is_sha1:
  assumes "list_all (\<lambda>x. length x \<le> 2 ^ 32 - 64) chunks" "length out = 20"
  shows "\<exists>c. Option.bind (absorb sha_absorb (sha_init c0) chunks) (sha_finish out) =
    Some (c, sha1_of (concat chunks))"
  using sha.digest_of_chunks [OF sha_abs_init assms(1), of c0 out] assms(2) by simp

theorem sha_stream_is_sha1_witness:
  "\<exists>c. Option.bind (absorb sha_absorb (sha_init \<lparr>State = sha_iv, Count0 = 5, Count1 = 6, Buffer = []\<rparr>)
     [[0x61], [], [0x62, 0x63]]) (sha_finish (replicate 20 0)) = Some (c, sha1_of [0x61, 0x62, 0x63])"
  using sha_stream_is_sha1 [of "[[0x61], [], [0x62, 0x63]]" "replicate 20 0"] by simp

theorem sha_update_overlong_witness:
  "sha_update \<lparr>State = sha_iv, Count0 = 8, Count1 = 0, Buffer = replicate 64 0\<rparr> [] (- 1) = None"
  using sha_update_overlong_never_returns [of "\<lparr>State = sha_iv, Count0 = 8, Count1 = 0, Buffer = replicate 64 0\<rparr>" "[]"]
  by simp


end
