(* ===== verification/Kernel_Crypto.thy ===== *)
theory Kernel_Crypto
  imports Kernel_Sha1 "HOL-Library.Monad_Syntax"
begin

text \<open>
  The rest of \<open>src/kernel/kernel_crypto.c\<close>: the RC4 stream cipher, HMAC over the SHA-1
  context of \<open>Kernel_Sha1\<close>, and the exports that do nothing or return a constant.
\<close>

section \<open>RC4\<close>

record XBOX_RC4_CONTEXT =
  S :: "u8 list"
  RI :: u8
  RJ :: u8

definition swap_at :: "'a list \<Rightarrow> nat \<Rightarrow> nat \<Rightarrow> 'a list" where
  "swap_at xs i j = xs[i := xs ! j, j := xs ! i]"

definition rc4_ksa_step :: "u8 list \<Rightarrow> u32 \<Rightarrow> nat \<Rightarrow> u8 list \<times> u8 \<Rightarrow> u8 list \<times> u8" where
  "rc4_ksa_step Key KeyLength i = (\<lambda>(s, j).
     let j = j + s ! i + Key ! (i mod unat KeyLength) in (swap_at s i (unat j), j))"

definition rc4_ksa :: "u8 list \<Rightarrow> u32 \<Rightarrow> u8 list \<times> u8" where
  "rc4_ksa Key KeyLength = fold (rc4_ksa_step Key KeyLength) [0..<256] (map word_of_nat [0..<256], 0)"

definition xbox_XcRC4Key ::
    "XBOX_RC4_CONTEXT option \<Rightarrow> u32 \<Rightarrow> u8 list option \<Rightarrow> XBOX_RC4_CONTEXT option" where
  "xbox_XcRC4Key Rc4Context KeyLength Key =
     (case (Rc4Context, Key) of
        (Some c, Some key) \<Rightarrow>
          Some (if KeyLength = 0 then c
                else c\<lparr>S := fst (rc4_ksa key KeyLength), RI := 0, RJ := 0\<rparr>)
      | _ \<Rightarrow> Rc4Context)"

definition rc4_step :: "XBOX_RC4_CONTEXT \<Rightarrow> XBOX_RC4_CONTEXT \<times> u8" where
  "rc4_step c =
     (let i = RI c + 1;
          j = RJ c + S c ! unat i;
          s = swap_at (S c) (unat i) (unat j)
      in (c\<lparr>S := s, RI := i, RJ := j\<rparr>, s ! unat (s ! unat i + s ! unat j)))"

fun rc4_crypt :: "XBOX_RC4_CONTEXT \<Rightarrow> u8 list \<Rightarrow> XBOX_RC4_CONTEXT \<times> u8 list" where
  "rc4_crypt c [] = (c, [])"
| "rc4_crypt c (d # ds) =
     (let (c, k) = rc4_step c; (c, out) = rc4_crypt c ds in (c, (d XOR k) # out))"

text \<open>\<open>Data\<close> is changed in place: its first \<open>Length\<close> bytes.\<close>

definition xbox_XcRC4Crypt ::
    "XBOX_RC4_CONTEXT option \<Rightarrow> u32 \<Rightarrow> u8 list option \<Rightarrow> XBOX_RC4_CONTEXT option \<times> u8 list option" where
  "xbox_XcRC4Crypt Rc4Context Length Data =
     (case (Rc4Context, Data) of
        (Some c, Some d) \<Rightarrow>
          if Length = 0 then (Some c, Some d)
          else let (c, out) = rc4_crypt c (take (unat Length) d) in (Some c, Some (memcpy_at d 0 out))
      | _ \<Rightarrow> (Rc4Context, Data))"

section \<open>HMAC\<close>

text \<open>
  The context on the C stack holds anything at first (\<open>sha\<close>); every hash starts with
  \<open>XcSHAInit\<close>. The result is the caller's buffer \<open>Digest\<close> afterwards. The data length goes with
  each pointer, and a NULL pointer or a length of zero skips that part.
\<close>

definition hmac_feed :: "XBOX_SHA_CONTEXT \<Rightarrow> u8 list option \<Rightarrow> u32 \<Rightarrow> XBOX_SHA_CONTEXT option" where
  "hmac_feed sha Data DataLength =
     (if Data \<noteq> None \<and> DataLength > 0 then sha_feed sha Data DataLength else Some sha)"

definition xbox_XcHMAC ::
    "XBOX_SHA_CONTEXT \<Rightarrow> u8 list option \<Rightarrow> u32 \<Rightarrow> u8 list option \<Rightarrow> u32 \<Rightarrow> u8 list option \<Rightarrow> u32 \<Rightarrow>
     u8 list option \<Rightarrow> u8 list option option" where
  "xbox_XcHMAC sha Key KeyLength Data1 Data1Length Data2 Data2Length Digest =
     (case (Key, Digest) of
        (Some key, Some out) \<Rightarrow> do {
          (sha, key_block) \<leftarrow>
            (if KeyLength > 64
             then do { sha \<leftarrow> sha_feed (sha_init sha) (Some key) KeyLength;
                       sha_finish (replicate 64 0) sha }
             else Some (sha, memcpy_at (replicate 64 0) 0 (take (unat KeyLength) key)));
          let ipad = map (\<lambda>i. key_block ! i XOR 0x36) [0..<64];
          let opad = map (\<lambda>i. key_block ! i XOR 0x5C) [0..<64];
          sha \<leftarrow> sha_feed (sha_init sha) (Some ipad) 64;
          sha \<leftarrow> hmac_feed sha Data1 Data1Length;
          sha \<leftarrow> hmac_feed sha Data2 Data2Length;
          (sha, inner_digest) \<leftarrow> sha_finish (replicate 20 0) sha;
          sha \<leftarrow> sha_feed (sha_init sha) (Some opad) 64;
          sha \<leftarrow> sha_feed sha (Some inner_digest) 20;
          (sha, out) \<leftarrow> sha_finish out sha;
          Some (Some out) }
      | _ \<Rightarrow> Some Digest)"

section \<open>Exports without an effect\<close>

definition xbox_XcPKGetKeyLen :: "'k \<Rightarrow> u32" where "xbox_XcPKGetKeyLen PublicKey = 0"

definition xbox_XcPKDecPrivate :: "'k \<Rightarrow> 'i \<Rightarrow> 'o \<Rightarrow> u32" where
  "xbox_XcPKDecPrivate PrivateKey Input Output = 0"

definition xbox_XcPKEncPublic :: "'k \<Rightarrow> 'i \<Rightarrow> 'o \<Rightarrow> u32" where
  "xbox_XcPKEncPublic PublicKey Input Output = 0"

definition xbox_XcVerifyPKCS1Signature :: "'h \<Rightarrow> 'k \<Rightarrow> 's \<Rightarrow> bool" where
  "xbox_XcVerifyPKCS1Signature Hash PublicKey Signature = True"

definition xbox_XcModExp :: "'r \<Rightarrow> 'b \<Rightarrow> 'e \<Rightarrow> 'm \<Rightarrow> u32 \<Rightarrow> u32" where
  "xbox_XcModExp Result Base Exponent Modulus ModulusLength = 0"

section \<open>RC4: the state stays a permutation and the cipher is its own inverse\<close>

definition rc4_ok :: "u8 list \<Rightarrow> bool" where
  "rc4_ok s \<longleftrightarrow> length s = 256 \<and> distinct s"

lemma swap_at_perm:
  assumes "i < length xs" "j < length xs"
  shows "length (swap_at xs i j) = length xs" "set (swap_at xs i j) = set xs"
    "distinct (swap_at xs i j) = distinct xs"
  using assms by (auto simp: swap_at_def distinct_swap set_swap)

lemma unat_u8_lt: "unat (w :: u8) < 256"
  using unsigned_less [of w, where 'a = nat] by simp

lemma rc4_ok_swap: "rc4_ok s \<Longrightarrow> i < 256 \<Longrightarrow> j < 256 \<Longrightarrow> rc4_ok (swap_at s i j)"
  by (simp add: rc4_ok_def swap_at_perm)

lemma rc4_ksa_ok: "rc4_ok (fst (rc4_ksa key n))"
proof -
  have "rc4_ok (fst (fold (rc4_ksa_step key n) is st))"
    if "rc4_ok (fst st)" "\<forall>i \<in> set is. i < 256" for st "is"
    using that
    by (induction "is" arbitrary: st)
       (auto simp: rc4_ksa_step_def Let_def rc4_ok_swap unat_u8_lt split: prod.splits)
  moreover have "rc4_ok (map word_of_nat [0..<256])"
    by (auto simp: rc4_ok_def distinct_map inj_on_def word_unat_eq_iff unat_of_nat simp del: upt_rec_numeral)
  ultimately show ?thesis by (simp add: rc4_ksa_def del: upt_rec_numeral)
qed

lemma rc4_step_ok: "rc4_ok (S c) \<Longrightarrow> rc4_ok (S (fst (rc4_step c)))"
  by (simp add: rc4_step_def Let_def rc4_ok_swap unat_u8_lt)

primrec rc4_keystream :: "XBOX_RC4_CONTEXT \<Rightarrow> nat \<Rightarrow> u8 list" where
  "rc4_keystream c 0 = []"
| "rc4_keystream c (Suc n) = snd (rc4_step c) # rc4_keystream (fst (rc4_step c)) n"

primrec rc4_after :: "XBOX_RC4_CONTEXT \<Rightarrow> nat \<Rightarrow> XBOX_RC4_CONTEXT" where
  "rc4_after c 0 = c"
| "rc4_after c (Suc n) = rc4_after (fst (rc4_step c)) n"

lemma rc4_crypt_keystream:
  "rc4_crypt c ds = (rc4_after c (length ds), map2 (XOR) ds (rc4_keystream c (length ds)))"
  by (induction c ds rule: rc4_crypt.induct) (auto simp: Let_def split: prod.splits)

lemma rc4_after_ok: "rc4_ok (S c) \<Longrightarrow> rc4_ok (S (rc4_after c n))"
  by (induction n arbitrary: c) (auto simp: rc4_step_ok)

lemma length_rc4_keystream [simp]: "length (rc4_keystream c n) = n"
  by (induction n arbitrary: c) auto

lemma xor_twice: "map2 (XOR) (map2 (XOR) xs ys) ys = (xs :: u8 list)" if "length xs = length ys"
  using that by (induction rule: list_induct2) (auto simp: xor.assoc)

lemma rc4_crypt_append:
  "rc4_crypt c (a @ b) = (let (c, x) = rc4_crypt c a; (c, y) = rc4_crypt c b in (c, x @ y))"
  by (induction c a rule: rc4_crypt.induct) (auto simp: Let_def split: prod.splits)

section \<open>RC4 as it is published\<close>

text \<open>
  The cipher over numbers: a permutation of 0 to 255 as a function, key scheduling by 256 swaps,
  and an output byte for each further swap. The key is a list of numbers below 256.
\<close>

definition arc4_swap :: "(nat \<Rightarrow> nat) \<Rightarrow> nat \<Rightarrow> nat \<Rightarrow> nat \<Rightarrow> nat" where
  "arc4_swap p i j = p(i := p j, j := p i)"

fun arc4_schedule :: "nat list \<Rightarrow> nat \<Rightarrow> (nat \<Rightarrow> nat) \<times> nat" where
  "arc4_schedule key 0 = (\<lambda>k. k, 0)"
| "arc4_schedule key (Suc i) =
     (case arc4_schedule key i of (p, j) \<Rightarrow>
        let j' = (j + p i + key ! (i mod length key)) mod 256 in (arc4_swap p i j', j'))"

fun arc4_output :: "(nat \<Rightarrow> nat) \<Rightarrow> nat \<Rightarrow> nat \<Rightarrow> nat \<Rightarrow> nat list" where
  "arc4_output p i j 0 = []"
| "arc4_output p i j (Suc n) =
     (let i' = (i + 1) mod 256; j' = (j + p i') mod 256; q = arc4_swap p i' j'
      in q ((q i' + q j') mod 256) # arc4_output q i' j' n)"

definition arc4_stream :: "nat list \<Rightarrow> nat \<Rightarrow> nat list" where
  "arc4_stream key n = arc4_output (fst (arc4_schedule key 256)) 0 0 n"

definition reads_as :: "u8 list \<Rightarrow> (nat \<Rightarrow> nat) \<Rightarrow> bool" where
  "reads_as s p \<longleftrightarrow> length s = 256 \<and> (\<forall>k < 256. unat (s ! k) = p k)"

lemma unat_add_u8: "unat (a + b :: u8) = (unat a + unat b) mod 256"
  by (simp add: unat_word_ariths)

lemma reads_as_swap:
  assumes "reads_as s p" "i < 256" "j < 256"
  shows "reads_as (swap_at s i j) (arc4_swap p i j)"
  using assms by (auto simp: reads_as_def swap_at_def arc4_swap_def nth_list_update)

lemma rc4_ksa_reads:
  assumes "KeyLength \<noteq> 0" "unat KeyLength \<le> length key" "m \<le> 256"
  shows "case (fold (rc4_ksa_step key KeyLength) [0..<m] (map word_of_nat [0..<256], 0),
      arc4_schedule (map unat (take (unat KeyLength) key)) m) of ((s, j), (p, j')) \<Rightarrow> reads_as s p \<and> unat j = j'"
  using assms(3)
proof (induction m)
  case 0
  then show ?case by (simp add: reads_as_def unat_of_nat del: upt_rec_numeral)
next
  case (Suc m)
  obtain s j where sj: "fold (rc4_ksa_step key KeyLength) [0..<m] (map word_of_nat [0..<256], 0) = (s, j)"
    by (cases "fold (rc4_ksa_step key KeyLength) [0..<m] (map word_of_nat [0..<256], 0)")
  obtain p j' where pj: "arc4_schedule (map unat (take (unat KeyLength) key)) m = (p, j')"
    by (cases "arc4_schedule (map unat (take (unat KeyLength) key)) m")
  have ih: "reads_as s p" "unat j = j'" using Suc sj pj by auto
  have pos: "0 < unat KeyLength" using assms(1) by (simp add: unat_gt_0)
  have len: "length (take (unat KeyLength) key) = unat KeyLength" using assms(2) by simp
  have k: "m mod unat KeyLength < unat KeyLength" using pos by simp
  have key: "map unat (take (unat KeyLength) key) ! (m mod unat KeyLength) = unat (key ! (m mod unat KeyLength))"
    using k len by (simp add: nth_take)
  have "unat (s ! m) = p m" using ih Suc.prems by (simp add: reads_as_def)
  then have j: "unat (j + s ! m + key ! (m mod unat KeyLength)) = (j' + p m + unat (key ! (m mod unat KeyLength))) mod 256"
    using ih by (simp add: unat_add_u8 mod_simps)
  have "reads_as (swap_at s m (unat (j + s ! m + key ! (m mod unat KeyLength))))
      (arc4_swap p m ((j' + p m + unat (key ! (m mod unat KeyLength))) mod 256))"
    unfolding j by (rule reads_as_swap [OF ih(1)]) (use Suc.prems in simp_all)
  moreover have "fold (rc4_ksa_step key KeyLength) [0..<Suc m] (map word_of_nat [0..<256], 0) =
      (swap_at s m (unat (j + s ! m + key ! (m mod unat KeyLength))), j + s ! m + key ! (m mod unat KeyLength))"
    by (simp add: sj del: upt_rec_numeral) (simp add: rc4_ksa_step_def Let_def)
  ultimately show ?case using pj key len j by (simp add: Let_def del: upt_rec_numeral upt_Suc)
qed

lemma rc4_keystream_reads:
  assumes "reads_as (S c) p" "unat (RI c) = i" "unat (RJ c) = j"
  shows "map unat (rc4_keystream c n) = arc4_output p i j n"
  using assms
proof (induction n arbitrary: c p i j)
  case (Suc n)
  let ?i = "RI c + 1" and ?j = "RJ c + S c ! unat (RI c + 1)"
  let ?q = "arc4_swap p (unat ?i) (unat ?j)"
  have i: "unat ?i = (i + 1) mod 256" using Suc.prems by (simp add: unat_add_u8)
  then have "S c ! unat ?i = S c ! ((i + 1) mod 256)" "unat (S c ! ((i + 1) mod 256)) = p ((i + 1) mod 256)"
    using Suc.prems by (simp_all add: reads_as_def)
  then have j: "unat ?j = (j + p ((i + 1) mod 256)) mod 256" using Suc.prems by (simp add: unat_add_u8)
  have q: "reads_as (swap_at (S c) (unat ?i) (unat ?j)) ?q"
    using Suc.prems(1) unat_u8_lt by (intro reads_as_swap) auto
  then have at: "unat (swap_at (S c) (unat ?i) (unat ?j) ! unat w) = ?q (unat w)" for w :: u8
    using unat_u8_lt [of w] by (simp add: reads_as_def)
  have "unat (snd (rc4_step c)) = ?q (unat (swap_at (S c) (unat ?i) (unat ?j) ! unat ?i + swap_at (S c) (unat ?i) (unat ?j) ! unat ?j))"
    by (simp only: rc4_step_def Let_def snd_conv at)
  then have out: "unat (snd (rc4_step c)) = ?q ((?q (unat ?i) + ?q (unat ?j)) mod 256)"
    by (simp only: unat_add_u8 [of "_ ! _" "_ ! _"] at)
  have "map unat (rc4_keystream (fst (rc4_step c)) n) = arc4_output ?q (unat ?i) (unat ?j) n"
    by (rule Suc.IH) (use q in \<open>simp_all add: rc4_step_def Let_def\<close>)
  then show ?case by (simp only: rc4_keystream.simps list.map out arc4_output.simps Let_def i j [unfolded i])
qed simp

text \<open>
  Claim C10: placeholder
\<close>

theorem rc4_key_then_crypt_twice:
  assumes "KeyLength \<noteq> 0" "unat KeyLength \<le> length key" "unat n = length d"
  shows "\<exists>c c'. xbox_XcRC4Key (Some c0) KeyLength (Some key) = Some c \<and> rc4_ok (S c) \<and>
    xbox_XcRC4Crypt (Some c) n (Some d) = (Some c', Some (map2 (XOR) d
      (map word_of_nat (arc4_stream (map unat (take (unat KeyLength) key)) (length d))))) \<and> rc4_ok (S c') \<and>
    snd (xbox_XcRC4Crypt (Some c) n (Some (map2 (XOR) d
      (map word_of_nat (arc4_stream (map unat (take (unat KeyLength) key)) (length d)))))) = Some d"
proof -
  let ?k = "map word_of_nat (arc4_stream (map unat (take (unat KeyLength) key)) (length d)) :: u8 list"
  define c where "c = c0\<lparr>S := fst (rc4_ksa key KeyLength), RI := 0, RJ := 0\<rparr>"
  have c: "xbox_XcRC4Key (Some c0) KeyLength (Some key) = Some c" "rc4_ok (S c)"
    using assms(1) rc4_ksa_ok by (simp_all add: xbox_XcRC4Key_def c_def)
  have crypt: "xbox_XcRC4Crypt (Some c) n (Some x) =
      (Some (rc4_after c (length d)), Some (map2 (XOR) x (rc4_keystream c (length d))))"
    if "length x = length d" for x
    using that assms(3)
    by (cases "n = 0") (auto simp: xbox_XcRC4Crypt_def rc4_crypt_keystream memcpy_at_def Let_def)
  have "reads_as (S c) (fst (arc4_schedule (map unat (take (unat KeyLength) key)) 256))"
    using rc4_ksa_reads [OF assms(1,2) order_refl] by (auto simp: c_def rc4_ksa_def split: prod.splits)
  then have "map unat (rc4_keystream c (length d)) = arc4_stream (map unat (take (unat KeyLength) key)) (length d)"
    unfolding arc4_stream_def by (rule rc4_keystream_reads) (simp_all add: c_def)
  from arg_cong [OF this, of "map (word_of_nat :: nat \<Rightarrow> u8)"] have k: "rc4_keystream c (length d) = ?k"
    by (simp add: comp_def)
  have len: "length (arc4_stream (map unat (take (unat KeyLength) key)) (length d)) = length d"
    using arg_cong [OF k, of length] by simp
  show ?thesis
    using c crypt [of d] crypt [of "map2 (XOR) d ?k"] rc4_after_ok [OF c(2)]
    by - (rule exI [of _ c], rule exI [of _ "rc4_after c (length d)"],
        simp add: k xor_twice len)
qed

text \<open>
  Encrypting a buffer in one XcRC4Crypt call or in two consecutive parts gives
  the same bytes and the same final state.
\<close>

theorem rc4_stream_splits:
  assumes "length a < 2 ^ 32" "length b < 2 ^ 32" "length (a @ b) < 2 ^ 32"
  shows "xbox_XcRC4Crypt (Some c) (word_of_nat (length (a @ b))) (Some (a @ b)) =
    (let (c1, x) = xbox_XcRC4Crypt (Some c) (word_of_nat (length a)) (Some a);
         (c2, y) = xbox_XcRC4Crypt c1 (word_of_nat (length b)) (Some b)
     in (c2, Some (the x @ the y)))"
proof -
  have run: "xbox_XcRC4Crypt (Some c) (word_of_nat (length d)) (Some d) =
      (Some (fst (rc4_crypt c d)), Some (snd (rc4_crypt c d)))" if "length d < 2 ^ 32" for c d
  proof -
    have u: "unat (word_of_nat (length d) :: u32) = length d" using that by (simp add: unat_of_nat)
    show ?thesis
    proof (cases "length d = 0")
      case False
      then have "(word_of_nat (length d) :: u32) \<noteq> 0" using u by force
      then show ?thesis
        by (simp add: xbox_XcRC4Crypt_def u memcpy_at_def Let_def rc4_crypt_keystream)
    qed (simp add: xbox_XcRC4Crypt_def)
  qed
  show ?thesis using assms(1,2)
    unfolding run [OF assms(3)] run [OF assms(1)] by (simp add: run rc4_crypt_append Let_def split: prod.splits)
qed

theorem rc4_key_then_crypt_twice_witness:
  "\<exists>c c'. xbox_XcRC4Key (Some \<lparr>S = [], RI = 3, RJ = 4\<rparr>) 2 (Some [0x4B, 0x79]) = Some c \<and> rc4_ok (S c) \<and>
    xbox_XcRC4Crypt (Some c) 3 (Some [1, 2, 3]) = (Some c', Some (map2 (XOR) [1, 2, 3]
      (map word_of_nat (arc4_stream (map unat (take (unat (2 :: u32)) [0x4B, 0x79 :: u8])) (length [1 :: u8, 2, 3]))))) \<and>
    rc4_ok (S c') \<and>
    snd (xbox_XcRC4Crypt (Some c) 3 (Some (map2 (XOR) [1, 2, 3]
      (map word_of_nat (arc4_stream (map unat (take (unat (2 :: u32)) [0x4B, 0x79 :: u8])) (length [1 :: u8, 2, 3])))))) = Some [1, 2, 3]"
  by (rule rc4_key_then_crypt_twice) simp_all

theorem rc4_stream_splits_witness:
  "let c = \<lparr>S = map word_of_nat [0..<256], RI = 0, RJ = 0\<rparr> in
    xbox_XcRC4Crypt (Some c) (word_of_nat (length ([1, 2] @ [3 :: u8]))) (Some ([1, 2] @ [3])) =
    (let (c1, x) = xbox_XcRC4Crypt (Some c) (word_of_nat (length [1 :: u8, 2])) (Some [1, 2]);
         (c2, y) = xbox_XcRC4Crypt c1 (word_of_nat (length [3 :: u8])) (Some [3])
     in (c2, Some (the x @ the y)))"
  unfolding Let_def [of "\<lparr>S = map word_of_nat [0..<256], RI = 0, RJ = 0\<rparr>"]
  by (rule rc4_stream_splits) simp_all

section \<open>HMAC is the one of RFC 2104\<close>

definition hmac_key_block :: "u8 list \<Rightarrow> u8 list" where
  "hmac_key_block key =
     (let k = (if length key > 64 then sha1_of key else key) in k @ replicate (64 - length k) 0)"

definition hmac_sha1 :: "u8 list \<Rightarrow> u8 list \<Rightarrow> u8 list" where
  "hmac_sha1 key msg =
     sha1_of (map (\<lambda>b. b XOR 0x5C) (hmac_key_block key) @
       sha1_of (map (\<lambda>b. b XOR 0x36) (hmac_key_block key) @ msg))"

definition input_ok :: "u8 list option \<Rightarrow> u32 \<Rightarrow> bool" where
  "input_ok x n \<longleftrightarrow> (case x of None \<Rightarrow> True | Some d \<Rightarrow> unat n \<le> length d \<and> unat n \<le> 2 ^ 32 - 64)"

definition input_bytes :: "u8 list option \<Rightarrow> u32 \<Rightarrow> u8 list" where
  "input_bytes x n = (case x of None \<Rightarrow> [] | Some d \<Rightarrow> take (unat n) d)"

lemma hmac_feed_returns:
  assumes "sha_abs c m" "input_ok x n"
  shows "\<exists>c'. hmac_feed c x n = Some c' \<and> sha_abs c' (m @ input_bytes x n)"
  using assms sha_feed_returns [OF assms(1), of n]
  by (cases x) (auto simp: hmac_feed_def input_ok_def input_bytes_def word_gt_0)

lemma hash_whole_block:
  assumes "length x = 64"
  shows "\<exists>c'. sha_feed (sha_init c) (Some x) 64 = Some c' \<and> sha_abs c' x"
  using sha_feed_returns [OF sha_abs_init, of 64 x c] assms by simp

lemma map_index_64: "length k = 64 \<Longrightarrow> map (\<lambda>i. f (k ! i)) [0..<64] = map f k"
  by (metis (no_types, lifting) map_nth_upt map_map comp_apply map_cong)

lemma length_hmac_key_block [simp]: "length (hmac_key_block key) = 64"
  by (simp add: hmac_key_block_def Let_def)

text \<open>
  Claim C2: XcHMAC returns and leaves in Digest the RFC 2104 HMAC-SHA1 of Data1 followed by
  Data2, with keys longer than a block hashed first and NULL or empty parts skipped.
\<close>

theorem hmac_is_rfc2104:
  assumes "unat KeyLength \<le> length key" "unat KeyLength \<le> 2 ^ 32 - 64"
    "input_ok Data1 Data1Length" "input_ok Data2 Data2Length" "length out = 20"
  shows "xbox_XcHMAC sha (Some key) KeyLength Data1 Data1Length Data2 Data2Length (Some out) =
    Some (Some (hmac_sha1 (take (unat KeyLength) key)
      (input_bytes Data1 Data1Length @ input_bytes Data2 Data2Length)))"
proof -
  let ?key = "take (unat KeyLength) key" and ?kb = "hmac_key_block (take (unat KeyLength) key)"
  let ?ipad = "map (\<lambda>b. b XOR 0x36) ?kb" and ?opad = "map (\<lambda>b. b XOR 0x5C) ?kb"
  let ?d1 = "input_bytes Data1 Data1Length" and ?d2 = "input_bytes Data2 Data2Length"
  have lk: "length ?key = unat KeyLength" using assms(1) by simp
  have u: "unat (64 :: u32) = 64" "unat (20 :: u32) = 20" by simp_all
  have "\<exists>sha'. (if KeyLength > 64
        then do { sha \<leftarrow> sha_feed (sha_init sha) (Some key) KeyLength; sha_finish (replicate 64 0) sha }
        else Some (sha, memcpy_at (replicate 64 0) 0 ?key)) = Some (sha', ?kb)"
  proof (cases "KeyLength > 64")
    case True
    obtain c where c: "sha_feed (sha_init sha) (Some key) KeyLength = Some c" "sha_abs c ?key"
      using sha_feed_returns [OF sha_abs_init assms(2,1), of sha] by auto
    from True have "unat KeyLength > 64" by (simp add: word_less_nat_alt)
    then show ?thesis using True c sha_finish_returns [OF c(2), of "replicate 64 0"] assms(1)
      by (auto simp: hmac_key_block_def Let_def)
  next
    case False
    then have "\<not> 64 < unat KeyLength" by (simp add: word_less_nat_alt)
    with False lk show ?thesis
      by (simp add: memcpy_at_def hmac_key_block_def Let_def)
  qed
  then obtain sha0 where s0: "(if KeyLength > 64
        then do { sha \<leftarrow> sha_feed (sha_init sha) (Some key) KeyLength; sha_finish (replicate 64 0) sha }
        else Some (sha, memcpy_at (replicate 64 0) 0 ?key)) = Some (sha0, ?kb)" by blast
  obtain c1 where c1: "sha_feed (sha_init sha0) (Some ?ipad) 64 = Some c1" "sha_abs c1 ?ipad"
    using hash_whole_block [of ?ipad sha0] by auto
  obtain c2 where c2: "hmac_feed c1 Data1 Data1Length = Some c2" "sha_abs c2 (?ipad @ ?d1)"
    using hmac_feed_returns [OF c1(2) assms(3)] by blast
  obtain c3 where c3: "hmac_feed c2 Data2 Data2Length = Some c3" "sha_abs c3 ((?ipad @ ?d1) @ ?d2)"
    using hmac_feed_returns [OF c2(2) assms(4)] by blast
  let ?inner = "sha1_of ((?ipad @ ?d1) @ ?d2)"
  obtain c4 where c4: "sha_finish (replicate 20 0) c3 = Some (c4, ?inner)"
    using sha_finish_returns [OF c3(2), of "replicate 20 0"] by auto
  obtain c5 where c5: "sha_feed (sha_init c4) (Some ?opad) 64 = Some c5" "sha_abs c5 ?opad"
    using hash_whole_block [of ?opad c4] by auto
  obtain c6 where c6: "sha_feed c5 (Some ?inner) 20 = Some c6" "sha_abs c6 (?opad @ ?inner)"
    using sha_feed_returns [OF c5(2), of 20 ?inner] by (auto simp: u)
  obtain c7 where c7: "sha_finish out c6 = Some (c7, sha1_of (?opad @ ?inner))"
    using sha_finish_returns [OF c6(2), of out] assms(5) by auto
  note pads = map_index_64 [of ?kb "\<lambda>b. b XOR 0x36"] map_index_64 [of ?kb "\<lambda>b. b XOR 0x5C"]
  show ?thesis
    unfolding xbox_XcHMAC_def option.case prod.case s0
    using pads c1(1) c2(1) c3(1) c4 c5(1) c6(1) c7
    by (simp add: hmac_sha1_def Let_def del: upt_rec_numeral)
qed

theorem hmac_is_rfc2104_witness:
  "xbox_XcHMAC \<lparr>State = sha_iv, Count0 = 5, Count1 = 6, Buffer = []\<rparr> (Some [1, 2, 3]) 3 (Some [4, 5]) 2 None 7
     (Some (replicate 20 0)) = Some (Some (hmac_sha1 [1, 2, 3] [4, 5]))"
  using hmac_is_rfc2104 [of 3 "[1, 2, 3]" "Some [4, 5]" 2 None 7 "replicate 20 0"]
  by (simp add: input_ok_def input_bytes_def)

end
