(* ===== verification/Nv2a_Pusher.thy ===== *)
theory Nv2a_Pusher
  imports Prelude
begin

text \<open>
  The push-buffer parser of \<open>src/nv2a/nv2a_pusher.c\<close>. It walks a window of dwords, splits it
  into methods and hands each to the graphics sinks, and stops at control flow, at a packet
  that the window cuts, or at a word that is no header.

  The sinks are other parts of the system and are parameters here: the PGRAPH translator, the
  CPU executor, the driver's software-method trap, the host-token handler (which may call the
  dispatcher again, so it acts on the whole parser state) and the bulk index handler. Windows
  are shorter than \<open>2 ^ 32 - 2048\<close> dwords (guest memory holds \<open>2 ^ 25\<close>), so positions are
  natural numbers. The counters are \<open>unsigned long\<close> of 64 bits. Trace output is left out.
\<close>

section \<open>State and sinks\<close>

record NV2APusherStats =
  runs :: u64
  dwords :: u64
  methods :: u64
  unhandled :: u64
  bad_headers :: u64
  host_tokens :: u64
  subch7_other :: u64

definition UNHANDLED_SLOTS :: nat where "UNHANDLED_SLOTS = 0x2000 div 4"
definition RECENT_SLOTS :: nat where "RECENT_SLOTS = 64"

record 'w pusher =
  g_stats :: NV2APusherStats
  g_unhandled :: "u32 list"
  g_recent :: "(u32 \<times> u32) list"
  g_recent_idx :: u64
  world :: 'w

record 'w sinks =
  g_software_method :: "(u32 \<Rightarrow> u32 \<Rightarrow> 'w \<Rightarrow> 'w) option"
  g_host_token :: "(u32 \<Rightarrow> 'w pusher \<Rightarrow> 'w pusher) option"
  g_elem16_run :: "(u32 list \<Rightarrow> 'w \<Rightarrow> bool \<times> 'w) option"
  pb_exec_method :: "(u32 \<Rightarrow> u32 \<Rightarrow> u32 \<Rightarrow> 'w \<Rightarrow> 'w) option"
  pgraph_method :: "u32 \<Rightarrow> u32 \<Rightarrow> u32 \<Rightarrow> 'w \<Rightarrow> bool \<times> 'w"

definition NV2A_HOST_TOKEN_SUBCHANNEL :: u32 where "NV2A_HOST_TOKEN_SUBCHANNEL = 7"
definition NV2A_HOST_TOKEN_METHOD :: u32 where "NV2A_HOST_TOKEN_METHOD = 0x1FFC"

definition nv2a_pusher_set_software_method_handler where
  "nv2a_pusher_set_software_method_handler handler k = k\<lparr>g_software_method := handler\<rparr>"
definition nv2a_pusher_set_host_token_handler where
  "nv2a_pusher_set_host_token_handler handler k = k\<lparr>g_host_token := handler\<rparr>"
definition nv2a_pusher_set_elem16_run_handler where
  "nv2a_pusher_set_elem16_run_handler handler k = k\<lparr>g_elem16_run := handler\<rparr>"

section \<open>Dispatch of one method\<close>

definition run_opt :: "('w \<Rightarrow> 'w) option \<Rightarrow> 'w \<Rightarrow> 'w" where
  "run_opt h w = (case h of None \<Rightarrow> w | Some f \<Rightarrow> f w)"

definition note_recent :: "u32 \<Rightarrow> u32 \<Rightarrow> 'w pusher \<Rightarrow> 'w pusher" where
  "note_recent method param s =
     s\<lparr>g_recent := (g_recent s)[unat (g_recent_idx s) mod RECENT_SLOTS := (method, param)],
       g_recent_idx := g_recent_idx s + 1\<rparr>"

definition count_unhandled :: "u32 \<Rightarrow> u32 \<Rightarrow> 'w pusher \<Rightarrow> 'w pusher" where
  "count_unhandled method n s =
     s\<lparr>g_unhandled := (g_unhandled s)[unat (method div 4) := g_unhandled s ! unat (method div 4) + n]\<rparr>"

definition dispatch :: "'w sinks \<Rightarrow> u32 \<Rightarrow> u32 \<Rightarrow> u32 \<Rightarrow> 'w pusher \<Rightarrow> 'w pusher" where
  "dispatch k subchannel method param s =
    (if subchannel = NV2A_HOST_TOKEN_SUBCHANNEL
     then if method = NV2A_HOST_TOKEN_METHOD
          then let s = s\<lparr>g_stats := (g_stats s)\<lparr>host_tokens := host_tokens (g_stats s) + 1\<rparr>\<rparr>
               in (case g_host_token k of None \<Rightarrow> s | Some h \<Rightarrow> h param s)
          else s\<lparr>g_stats := (g_stats s)\<lparr>subch7_other := subch7_other (g_stats s) + 1\<rparr>\<rparr>
     else
       let s = (if method = 0x100 \<and> param \<noteq> 0
                then s\<lparr>world := run_opt (map_option (\<lambda>h. h subchannel param) (g_software_method k)) (world s)\<rparr> else s);
           s = s\<lparr>g_stats := (g_stats s)\<lparr>methods := methods (g_stats s) + 1\<rparr>\<rparr>;
           s = note_recent method param s;
           s = s\<lparr>world := run_opt (map_option (\<lambda>h. h subchannel method param) (pb_exec_method k)) (world s)\<rparr>;
           (known, w) = pgraph_method k subchannel method param (world s);
           s = s\<lparr>world := w\<rparr>
       in if known then s
          else let s = s\<lparr>g_stats := (g_stats s)\<lparr>unhandled := unhandled (g_stats s) + 1\<rparr>\<rparr>
               in if unat (method div 4) < UNHANDLED_SLOTS then count_unhandled method 1 s else s)"

definition nv2a_pusher_dispatch_host :: "'w sinks \<Rightarrow> u32 \<Rightarrow> u32 \<Rightarrow> u32 \<Rightarrow> 'w pusher \<Rightarrow> 'w pusher" where
  "nv2a_pusher_dispatch_host k subchannel method param s =
     (if subchannel = NV2A_HOST_TOKEN_SUBCHANNEL then s else dispatch k subchannel method param s)"

section \<open>Headers\<close>

definition PB_COUNT :: "u32 \<Rightarrow> nat" where "PB_COUNT h = unat (drop_bit 18 h AND 0x7FF)"
definition PB_SUBCHANNEL :: "u32 \<Rightarrow> u32" where "PB_SUBCHANNEL h = drop_bit 13 h AND 7"
definition PB_METHOD :: "u32 \<Rightarrow> u32" where "PB_METHOD h = h AND 0x1FFC"

datatype NV2APusherStop =
  NV2A_PUSHER_END | NV2A_PUSHER_PARTIAL | NV2A_PUSHER_JUMP | NV2A_PUSHER_INVALID | NV2A_PUSHER_CALL | NV2A_PUSHER_RETURN

text \<open>The word at the cursor: padding, a stop with its jump address, a method header, or none of these.\<close>

datatype pb_word = Padding | Control NV2APusherStop u32 | Header bool | Bad

definition pb_decode :: "u32 \<Rightarrow> pb_word" where
  "pb_decode header =
     (if header = 0 then Padding
      else if header = 0x00020000 then Control NV2A_PUSHER_RETURN 0
      else if header AND 3 = 2 then Control NV2A_PUSHER_CALL (header AND 0xFFFFFFFC)
      else if header AND 3 = 1 \<or> header AND 0xE0000003 = 0x20000000
        then Control NV2A_PUSHER_JUMP (if header AND 3 = 1 then header AND 0xFFFFFFFC else header AND 0x1FFFFFFC)
      else if header AND 0xE0030003 = 0 then Header True
      else if header AND 0xE0030003 = 0x40000000 then Header False
      else Bad)"

section \<open>The walk over a segment\<close>

record NV2APusherResult =
  r_methods :: nat
  consumed :: nat
  jump_address :: u32
  stop :: NV2APusherStop

definition bump_dwords :: "nat \<Rightarrow> 'w pusher \<Rightarrow> 'w pusher" where
  "bump_dwords n s = s\<lparr>g_stats := (g_stats s)\<lparr>dwords := dwords (g_stats s) + word_of_nat n\<rparr>\<rparr>"

definition bump_bad :: "'w pusher \<Rightarrow> 'w pusher" where
  "bump_bad s = s\<lparr>g_stats := (g_stats s)\<lparr>bad_headers := bad_headers (g_stats s) + 1\<rparr>\<rparr>"

definition elem16_bulk :: "u32 \<Rightarrow> u32 list \<Rightarrow> 'w pusher \<Rightarrow> 'w pusher" where
  "elem16_bulk method ps s =
     (let count = length ps;
          k0 = (if count > RECENT_SLOTS then count - RECENT_SLOTS else 0);
          s = s\<lparr>g_recent_idx := g_recent_idx s + word_of_nat k0\<rparr>;
          s = fold (note_recent method) (drop k0 ps) s;
          s = s\<lparr>g_stats := (g_stats s)\<lparr>methods := methods (g_stats s) + word_of_nat count,
                unhandled := unhandled (g_stats s) + word_of_nat count\<rparr>\<rparr>
      in count_unhandled method (word_of_nat count) s)"

definition dispatch_all :: "'w sinks \<Rightarrow> bool \<Rightarrow> u32 \<Rightarrow> u32 \<Rightarrow> u32 list \<Rightarrow> 'w pusher \<Rightarrow> 'w pusher" where
  "dispatch_all k increasing subchannel method ps s =
     fold (\<lambda>(i, p). dispatch k subchannel (if increasing then method + word_of_nat i * 4 else method) p)
       (zip [0..<length ps] ps) s"

definition run_packet ::
    "'w sinks \<Rightarrow> bool \<Rightarrow> bool \<Rightarrow> u32 \<Rightarrow> u32 \<Rightarrow> u32 list \<Rightarrow> 'w pusher \<Rightarrow> nat \<times> 'w pusher" where
  "run_packet k g_scan_only increasing subchannel method ps s =
     (let slow = (if g_scan_only then (0, s) else (length ps, dispatch_all k increasing subchannel method ps s))
      in case g_elem16_run k of
           Some h \<Rightarrow>
             if \<not> g_scan_only \<and> \<not> increasing \<and> method = 0x1800 \<and> subchannel = 0 \<and> length ps > 1
             then let (taken, w) = h ps (world s); s = s\<lparr>world := w\<rparr>
                  in if taken then (length ps, elem16_bulk method ps s)
                     else (length ps, dispatch_all k increasing subchannel method ps s)
             else slow
         | None \<Rightarrow> slow)"

text \<open>
  \<open>ws\<close> is what is left of the window, \<open>pos\<close> the dwords consumed and \<open>n\<close> the methods
  dispatched so far.
\<close>

function segment_loop ::
    "'w sinks \<Rightarrow> bool \<Rightarrow> u32 list \<Rightarrow> nat \<Rightarrow> nat \<Rightarrow> 'w pusher \<Rightarrow> NV2APusherResult \<times> 'w pusher" where
  "segment_loop k scan [] pos n s =
     (\<lparr>r_methods = n, consumed = pos, jump_address = 0, stop = NV2A_PUSHER_END\<rparr>, s)"
| "segment_loop k scan (header # ws) pos n s =
     (case pb_decode header of
        Padding \<Rightarrow> segment_loop k scan ws (pos + 1) n (bump_dwords 1 s)
      | Control c a \<Rightarrow>
          (\<lparr>r_methods = n, consumed = pos + 1, jump_address = a, stop = c\<rparr>, bump_dwords 1 s)
      | Bad \<Rightarrow>
          (\<lparr>r_methods = n, consumed = pos, jump_address = 0, stop = NV2A_PUSHER_INVALID\<rparr>, bump_bad s)
      | Header increasing \<Rightarrow>
          let count = PB_COUNT header; method = PB_METHOD header; subchannel = PB_SUBCHANNEL header
          in if count > length ws
             then (\<lparr>r_methods = n, consumed = pos, jump_address = 0, stop = NV2A_PUSHER_PARTIAL\<rparr>, s)
             else if increasing \<and> count \<noteq> 0 \<and> unat method + (count - 1) * 4 \<ge> 0x2000
             then (\<lparr>r_methods = n, consumed = pos, jump_address = 0, stop = NV2A_PUSHER_INVALID\<rparr>, bump_bad s)
             else let (d, s) = run_packet k scan increasing subchannel method (take count ws) s
                  in segment_loop k scan (drop count ws) (pos + (1 + count)) (n + d) (bump_dwords (1 + count) s))"
  by pat_completeness auto
termination
  by (relation "measure (\<lambda>(k, scan, ws, pos, n, s). length ws)") auto

definition run_segment ::
    "'w sinks \<Rightarrow> bool \<Rightarrow> u32 list option \<Rightarrow> 'w pusher \<Rightarrow> NV2APusherResult \<times> 'w pusher" where
  "run_segment k scan data s =
     (case data of
        None \<Rightarrow> (\<lparr>r_methods = 0, consumed = 0, jump_address = 0, stop = NV2A_PUSHER_END\<rparr>, s)
      | Some ws \<Rightarrow>
          if ws = [] then (\<lparr>r_methods = 0, consumed = 0, jump_address = 0, stop = NV2A_PUSHER_END\<rparr>, s)
          else segment_loop k scan ws 0 0 (s\<lparr>g_stats := (g_stats s)\<lparr>runs := runs (g_stats s) + 1\<rparr>\<rparr>))"

abbreviation nv2a_pusher_run_segment where "nv2a_pusher_run_segment k \<equiv> run_segment k False"

definition nv2a_pusher_scan_segment ::
    "'w sinks \<Rightarrow> u32 list option \<Rightarrow> 'w pusher \<Rightarrow> NV2APusherResult \<times> 'w pusher" where
  "nv2a_pusher_scan_segment k data s =
     (let saved = g_stats s; (r, s) = run_segment k True data s in (r, s\<lparr>g_stats := saved\<rparr>))"

definition nv2a_pusher_run :: "'w sinks \<Rightarrow> u32 list option \<Rightarrow> 'w pusher \<Rightarrow> nat \<times> 'w pusher" where
  "nv2a_pusher_run k data s = (let (r, s) = run_segment k False data s in (r_methods r, s))"

definition nv2a_pusher_get_stats :: "'w pusher \<Rightarrow> NV2APusherStats" where
  "nv2a_pusher_get_stats s = g_stats s"

definition nv2a_pusher_reset_stats :: "'w pusher \<Rightarrow> 'w pusher" where
  "nv2a_pusher_reset_stats s =
     s\<lparr>g_stats := \<lparr>runs = 0, dwords = 0, methods = 0, unhandled = 0, bad_headers = 0, host_tokens = 0, subch7_other = 0\<rparr>,
       g_unhandled := replicate UNHANDLED_SLOTS 0\<rparr>"

section \<open>Reports\<close>

text \<open>The method offsets that the recent-methods report prints, oldest first; the line never fills.\<close>

definition nv2a_pusher_dump_recent :: "'w pusher \<Rightarrow> int \<Rightarrow> u32 list" where
  "nv2a_pusher_dump_recent s max_entries =
     (let total = g_recent_idx s;
          m = (if max_entries \<le> 0 \<or> max_entries > int RECENT_SLOTS then RECENT_SLOTS else nat max_entries);
          n = (if unat total < m then unat total else m);
          start = total - word_of_nat n
      in map (\<lambda>i. fst (g_recent s ! (unat (start + word_of_nat i) mod RECENT_SLOTS))) [0..<n])"

text \<open>
  The ranking report: one pass finds the next slot after \<open>prev\<close>, the rank printed before. A line
  is 1024 bytes; the header takes 74 of them and an entry eight more than the digits of its
  count.
\<close>

fun next_unhandled :: "(u32 \<times> nat) option \<Rightarrow> u32 list \<Rightarrow> nat \<Rightarrow> (u32 \<times> nat) option \<Rightarrow> (u32 \<times> nat) option" where
  "next_unhandled prev [] i best = best"
| "next_unhandled prev (v # vs) i best =
     next_unhandled prev vs (i + 1)
       (if v = 0 \<or> v > (case prev of None \<Rightarrow> 0xFFFFFFFF | Some (ceiling, _) \<Rightarrow> ceiling) then best
        else if (case prev of None \<Rightarrow> False | Some (ceiling, last_slot) \<Rightarrow> v = ceiling \<and> i \<le> last_slot) then best
        else case best of
               None \<Rightarrow> Some (v, i)
             | Some (b, b_slot) \<Rightarrow> if v > b \<or> v = b \<and> i < b_slot then Some (v, i) else best)"

fun dec_digits :: "nat \<Rightarrow> nat" where
  "dec_digits n = (if n < 10 then 1 else Suc (dec_digits (n div 10)))"

primrec print_unhandled :: "u32 list \<Rightarrow> nat \<Rightarrow> nat \<Rightarrow> (u32 \<times> nat) option \<Rightarrow> (nat \<times> u32) list" where
  "print_unhandled hist 0 off prev = []"
| "print_unhandled hist (Suc left) off prev =
     (case next_unhandled prev hist 0 None of
        None \<Rightarrow> []
      | Some (v, i) \<Rightarrow>
          if off \<ge> 1024 - 24 then []
          else (i * 4, v) # print_unhandled hist left (off + 8 + dec_digits (unat v)) (Some (v, i)))"

definition nv2a_pusher_dump_unhandled :: "'w pusher \<Rightarrow> int \<Rightarrow> (nat \<times> u32) list" where
  "nv2a_pusher_dump_unhandled s max_entries =
     print_unhandled (g_unhandled s) (if max_entries \<le> 0 then 16 else nat max_entries) 74 None"

section \<open>Progress and splitting of windows\<close>

declare segment_loop.simps(2) [simp del]

lemma loop_header_ok:
  assumes "pb_decode header = Header increasing" "PB_COUNT header \<le> length ws"
    "\<not> (increasing \<and> PB_COUNT header \<noteq> 0 \<and> unat (PB_METHOD header) + (PB_COUNT header - 1) * 4 \<ge> 0x2000)"
    "run_packet k scan increasing (PB_SUBCHANNEL header) (PB_METHOD header) (take (PB_COUNT header) ws) s = (d, s')"
  shows "segment_loop k scan (header # ws) pos n s =
    segment_loop k scan (drop (PB_COUNT header) ws) (pos + (1 + PB_COUNT header)) (n + d)
      (bump_dwords (1 + PB_COUNT header) s')"
  using assms by (auto simp: segment_loop.simps(2) Let_def)

lemma segment_loop_consumed:
  "pos \<le> consumed (fst (segment_loop k scan ws pos n s)) \<and>
   consumed (fst (segment_loop k scan ws pos n s)) \<le> pos + length ws"
proof (induction k scan ws pos n s rule: segment_loop.induct)
  case (2 k scan header ws pos n s)
  show ?case
  proof (cases "pb_decode header")
    case (Header increasing)
    let ?c = "PB_COUNT header"
    show ?thesis
    proof (cases "?c > length ws \<or> increasing \<and> ?c \<noteq> 0 \<and> unat (PB_METHOD header) + (?c - 1) * 4 \<ge> 0x2000")
      case True
      then show ?thesis using Header by (auto simp: segment_loop.simps(2) Let_def)
    next
      case False
      obtain d s' where run: "run_packet k scan increasing (PB_SUBCHANNEL header) (PB_METHOD header) (take ?c ws) s = (d, s')"
        by force
      moreover have "pos \<le> x \<and> x \<le> pos + length (header # ws)"
        if "pos + (1 + ?c) \<le> x \<and> x \<le> pos + (1 + ?c) + length (drop ?c ws)" for x
        using that False by auto
      ultimately show ?thesis using False 2(2) [OF Header refl refl refl _ _ run [symmetric] refl]
        by (subst (1 2) loop_header_ok [OF Header _ _ run]) (simp_all add: not_less)
    qed
  qed (use 2(1) in \<open>auto simp: segment_loop.simps(2)\<close>)
qed simp

text \<open>
  Claim C4: Parsing a window in two pieces, the second starting at the cursor where the
  first stopped at its end or inside a packet, dispatches the same methods to the same sinks
  and ends in the same state and result as parsing it whole; any other stop is unaffected by
  what follows.
\<close>

theorem windows_can_be_cut_anywhere:
  "segment_loop k scan (a @ b) pos n s =
    (let (r, s1) = segment_loop k scan a pos n s
     in if stop r = NV2A_PUSHER_END \<or> stop r = NV2A_PUSHER_PARTIAL
        then segment_loop k scan (drop (consumed r - pos) a @ b) (consumed r) (r_methods r) s1
        else (r, s1))"
proof (induction k scan a pos n s rule: segment_loop.induct)
  case (2 k scan header ws pos n s)
  show ?case
  proof (cases "pb_decode header")
    case Padding
    have "consumed r - pos = Suc (consumed r - Suc pos)"
      if "segment_loop k scan ws (Suc pos) n (bump_dwords 1 s) = (r, s1)" for r s1
      using segment_loop_consumed [of "Suc pos" k scan ws n "bump_dwords 1 s"] that
      by (simp add: Suc_diff_Suc)
    then show ?thesis using 2(1) [OF Padding] Padding
      by (auto simp: segment_loop.simps(2) split: prod.splits)
  next
    case (Control c a)
    moreover have "c \<noteq> NV2A_PUSHER_END \<and> c \<noteq> NV2A_PUSHER_PARTIAL"
      using Control by (auto simp: pb_decode_def split: if_splits)
    ultimately show ?thesis by (simp add: segment_loop.simps(2))
  next
    case (Header increasing)
    let ?c = "PB_COUNT header"
    consider (cut) "?c > length ws" | (bad) "?c \<le> length ws" "increasing \<and> ?c \<noteq> 0 \<and> unat (PB_METHOD header) + (?c - 1) * 4 \<ge> 0x2000"
      | (ok) "?c \<le> length ws" "\<not> (increasing \<and> ?c \<noteq> 0 \<and> unat (PB_METHOD header) + (?c - 1) * 4 \<ge> 0x2000)"
      by linarith
    then show ?thesis
    proof cases
      case cut
      then show ?thesis using Header by (simp add: segment_loop.simps(2) [of k scan header ws] Let_def)
    next
      case bad
      then show ?thesis using Header by (simp add: segment_loop.simps(2) Let_def)
    next
      case ok
      obtain d s' where run: "run_packet k scan increasing (PB_SUBCHANNEL header) (PB_METHOD header) (take ?c ws) s = (d, s')"
        by force
      let ?next = "segment_loop k scan (drop ?c ws) (pos + (1 + ?c)) (n + d) (bump_dwords (1 + ?c) s')"
      have step: "segment_loop k scan (header # ws) pos n s = ?next"
        by (rule loop_header_ok [OF Header ok run])
      have step': "segment_loop k scan (header # ws @ b) pos n s =
          segment_loop k scan (drop ?c ws @ b) (pos + (1 + ?c)) (n + d) (bump_dwords (1 + ?c) s')"
        using ok Header run by (auto simp: segment_loop.simps(2) Let_def)
      have "drop (consumed (fst ?next) - pos) (header # ws) = drop (consumed (fst ?next) - (pos + (1 + ?c))) (drop ?c ws)"
      proof -
        have "x - pos = Suc (x - (pos + (1 + ?c)) + ?c)" if "pos + (1 + ?c) \<le> x" for x
          using that by linarith
        from this [OF conjunct1 [OF segment_loop_consumed]]
        have "consumed (fst ?next) - pos = Suc (consumed (fst ?next) - (pos + (1 + ?c)) + ?c)" .
        then show ?thesis by simp
      qed
      then show ?thesis
        using 2(2) [OF Header refl refl refl _ _ run [symmetric] refl] ok
        unfolding append_Cons step step' by (simp add: case_prod_unfold not_less Let_def)
    qed
  next
    case Bad
    then show ?thesis by (simp add: segment_loop.simps(2))
  qed
qed simp

section \<open>A scan predicts the run and changes nothing\<close>

lemma run_packet_scan [simp]: "run_packet k True increasing c m ps s = (0, s)"
  by (simp add: run_packet_def Let_def split: option.splits)

lemma scan_only_stats:
  "r_methods (fst (segment_loop k True ws pos n s)) = n \<and>
   (snd (segment_loop k True ws pos n s))\<lparr>g_stats := v\<rparr> = s\<lparr>g_stats := v\<rparr>"
  by (induction k "True" ws pos n s rule: segment_loop.induct)
     (auto simp: segment_loop.simps(2) Let_def bump_dwords_def bump_bad_def split: pb_word.splits)

lemma walk_is_state_free:
  "(fst (segment_loop k scan ws pos n s))\<lparr>r_methods := x\<rparr> = (fst (segment_loop k' scan' ws pos n' s'))\<lparr>r_methods := x\<rparr>"
proof (induction k scan ws pos n s arbitrary: n' s' rule: segment_loop.induct)
  case (2 k scan header ws pos n s)
  show ?case
  proof (cases "pb_decode header")
    case (Header increasing)
    let ?c = "PB_COUNT header"
    obtain d t where run: "run_packet k scan increasing (PB_SUBCHANNEL header) (PB_METHOD header) (take ?c ws) s = (d, t)"
      by force
    show ?thesis using Header run 2(2) [OF Header refl refl refl _ _ run [symmetric] refl]
      by (auto simp: segment_loop.simps(2) Let_def not_less split: prod.splits)
  qed (use 2(1) in \<open>auto simp: segment_loop.simps(2)\<close>)
qed simp

text \<open>
  Claim C6: A scan of a segment reports the stop, the cursor and the jump target that
  running it would, dispatches nothing and leaves the whole parser state, counters included,
  as it was.
\<close>

theorem scan_predicts_run:
  "fst (nv2a_pusher_scan_segment k data s) = (fst (nv2a_pusher_run_segment k data s))\<lparr>r_methods := 0\<rparr> \<and>
   snd (nv2a_pusher_scan_segment k data s) = s"
proof (cases data)
  case (Some ws)
  let ?s = "s\<lparr>g_stats := (g_stats s)\<lparr>runs := runs (g_stats s) + 1\<rparr>\<rparr>"
  have "fst (segment_loop k True ws 0 0 ?s) = (fst (segment_loop k False ws 0 0 ?s))\<lparr>r_methods := 0\<rparr>"
    using walk_is_state_free [where x = 0 and k = k and k' = k and scan = True and scan' = False and ws = ws and pos = 0 and n = 0 and n' = 0 and s = ?s and s' = ?s] scan_only_stats [of k ws 0 0 ?s]
    by (cases "fst (segment_loop k True ws 0 0 ?s)") simp
  then show ?thesis using Some scan_only_stats [of k ws 0 0 ?s "g_stats s"]
    by (auto simp: nv2a_pusher_scan_segment_def run_segment_def Let_def split: prod.splits)
qed (simp add: nv2a_pusher_scan_segment_def run_segment_def Let_def)

section \<open>The bulk index path is the word-by-word dispatch\<close>

definition pusher_ok :: "'w pusher \<Rightarrow> bool" where
  "pusher_ok s \<longleftrightarrow> length (g_recent s) = RECENT_SLOTS \<and> length (g_unhandled s) = UNHANDLED_SLOTS"

lemma unat_Suc_mod64: "unat (w + 1) mod 64 = Suc (unat w) mod 64" for w :: u64
proof -
  have "unat (w + 1) = (unat w + 1) mod 2 ^ 64" by (simp add: unat_word_ariths)
  then have "unat (w + 1) mod 64 = (unat w + 1) mod 2 ^ 64 mod 64" by simp
  also have "\<dots> = (unat w + 1) mod 64" by (rule mod_mod_cancel) simp
  finally show ?thesis by simp
qed

lemma unat_add_mod64: "unat (w + word_of_nat k) mod 64 = (unat w + k) mod 64" for w :: u64
proof (induction k)
  case (Suc k)
  have "w + word_of_nat (Suc k) = w + word_of_nat k + 1" by simp
  then have "unat (w + word_of_nat (Suc k)) mod 64 = Suc (unat (w + word_of_nat k)) mod 64"
    by (simp only: unat_Suc_mod64)
  also have "\<dots> = (unat w + Suc k) mod 64" using Suc by (metis add_Suc_right mod_Suc_eq)
  finally show ?case .
qed simp

lemma note_recent_eq: "note_recent m p s = s\<lparr>g_recent_idx := g_recent_idx s + 1,
    g_recent := (g_recent s)[unat (g_recent_idx s) mod 64 := (m, p)]\<rparr>"
  by (cases s) (simp add: note_recent_def RECENT_SLOTS_def)

lemma note_recent_covered:
  assumes "length r1 = 64" "length r2 = 64"
    "\<forall>t < 64. r1 ! t = r2 ! t \<or> (\<exists>j < length ps. (unat (g_recent_idx s) + j) mod 64 = t)"
  shows "fold (note_recent m) ps (s\<lparr>g_recent := r1\<rparr>) = fold (note_recent m) ps (s\<lparr>g_recent := r2\<rparr>)"
  using assms
proof (induction ps arbitrary: r1 r2 s)
  case Nil
  then have "r1 = r2" by (auto intro: nth_equalityI)
  then show ?case by simp
next
  case (Cons p ps)
  let ?i = "unat (g_recent_idx s) mod 64"
  have "\<forall>t < 64. r1[?i := (m, p)] ! t = r2[?i := (m, p)] ! t \<or>
      (\<exists>j < length ps. (unat (g_recent_idx s + 1) + j) mod 64 = t)"
  proof (intro allI impI)
    fix t :: nat assume t: "t < 64"
    show "r1[?i := (m, p)] ! t = r2[?i := (m, p)] ! t \<or> (\<exists>j < length ps. (unat (g_recent_idx s + 1) + j) mod 64 = t)"
    proof (cases "t = ?i \<or> r1 ! t = r2 ! t")
      case True
      then show ?thesis using Cons.prems by (auto simp: nth_list_update)
    next
      case False
      then obtain j where j: "j < length (p # ps)" "(unat (g_recent_idx s) + j) mod 64 = t"
        using Cons.prems(3) t by blast
      with False obtain j' where "j = Suc j'" by (cases j) auto
      moreover have "(unat (g_recent_idx s + 1) + j') mod 64 = (unat (g_recent_idx s) + Suc j') mod 64"
        using mod_add_left_eq [of "unat (g_recent_idx s + 1)" 64 j'] mod_add_left_eq [of "Suc (unat (g_recent_idx s))" 64 j']
        by (simp add: unat_Suc_mod64)
      ultimately show ?thesis using j by auto
    qed
  qed
  then have "fold (note_recent m) ps (s\<lparr>g_recent_idx := g_recent_idx s + 1, g_recent := r1[?i := (m, p)]\<rparr>) =
      fold (note_recent m) ps (s\<lparr>g_recent_idx := g_recent_idx s + 1, g_recent := r2[?i := (m, p)]\<rparr>)"
    using Cons.prems by (intro Cons.IH) simp_all
  then show ?case by (simp add: note_recent_eq [of m p])
qed

lemma ring_full: "64 \<le> n \<Longrightarrow> t < 64 \<Longrightarrow> \<exists>j < n. (i + j) mod 64 = t" for i n t :: nat
proof -
  assume n: "64 \<le> n" and t: "t < 64"
  let ?j = "(t + (64 - i mod 64)) mod 64"
  obtain q r where "i = 64 * q + r" "r < 64"
    by (metis mod_less_divisor mult_div_mod_eq zero_less_numeral)
  then have "i + (t + (64 - i mod 64)) = t + 64 * Suc (i div 64)" by simp
  then have "(i + (t + (64 - i mod 64))) mod 64 = t mod 64" by (simp only: mod_mult_self2)
  then have "(i + ?j) mod 64 = t" using t by (simp only: mod_add_right_eq mod_less)
  moreover have "?j < 64" by simp
  ultimately show ?thesis using n by (meson less_le_trans)
qed

lemma note_recent_skip_one:
  assumes "length (g_recent s) = 64" "64 \<le> length ps"
  shows "fold (note_recent m) (p # ps) s = fold (note_recent m) ps (s\<lparr>g_recent_idx := g_recent_idx s + 1\<rparr>)"
proof -
  let ?s = "s\<lparr>g_recent_idx := g_recent_idx s + 1\<rparr>"
  have "fold (note_recent m) ps (?s\<lparr>g_recent := (g_recent s)[unat (g_recent_idx s) mod 64 := (m, p)]\<rparr>) =
      fold (note_recent m) ps (?s\<lparr>g_recent := g_recent s\<rparr>)"
    using assms by (intro note_recent_covered) (auto intro!: ring_full)
  then show ?thesis by (simp add: note_recent_eq [of m p])
qed

lemma note_recent_skip:
  "length (g_recent s) = 64 \<Longrightarrow> k + 64 \<le> length ps \<Longrightarrow>
    fold (note_recent m) ps s = fold (note_recent m) (drop k ps) (s\<lparr>g_recent_idx := g_recent_idx s + word_of_nat k\<rparr>)"
proof (induction k arbitrary: s ps)
  case (Suc k)
  then obtain p qs where ps: "ps = p # qs" by (cases ps) auto
  with Suc.prems show ?case
    using note_recent_skip_one [of s qs m p] Suc.IH [of "s\<lparr>g_recent_idx := g_recent_idx s + 1\<rparr>" qs]
    by (simp add: add.commute add.left_commute)
qed simp

lemma note_recent_bulk:
  "length (g_recent s) = RECENT_SLOTS \<Longrightarrow>
    fold (note_recent m) ps s = fold (note_recent m) (drop (length ps - RECENT_SLOTS) ps)
      (s\<lparr>g_recent_idx := g_recent_idx s + word_of_nat (length ps - RECENT_SLOTS)\<rparr>)"
  using note_recent_skip [of s "length ps - 64" ps m] by (cases "64 \<le> length ps") (simp_all add: RECENT_SLOTS_def)


lemma elem16_slot: "unat ((0x1800 :: u32) div 4) = 0x600"
  by simp

lemma dispatch_elem16:
  assumes "\<And>w p. pgraph_method k 0 0x1800 p w = (False, w)" "pusher_ok s"
  shows "dispatch k 0 0x1800 p s =
    (note_recent 0x1800 p s)\<lparr>
      world := run_opt (map_option (\<lambda>h. h 0 0x1800 p) (pb_exec_method k)) (world s),
      g_stats := (g_stats s)\<lparr>methods := methods (g_stats s) + 1, unhandled := unhandled (g_stats s) + 1\<rparr>,
      g_unhandled := (g_unhandled s)[0x600 := g_unhandled s ! 0x600 + 1]\<rparr>"
  using assms by (cases s; cases "g_stats s")
    (simp add: dispatch_def NV2A_HOST_TOKEN_SUBCHANNEL_def Let_def note_recent_def count_unhandled_def elem16_slot
      UNHANDLED_SLOTS_def)


abbreviation other_fields where
  "other_fields w st u s \<equiv> s\<lparr>world := w, g_stats := st, g_unhandled := u\<rparr>"

lemma fold_note_recent_other:
  "fold (note_recent m) ps (other_fields w st u s) = other_fields w st u (fold (note_recent m) ps s)"
proof (induction ps arbitrary: s)
  case (Cons p ps)
  have "note_recent m p (other_fields w st u s) = other_fields w st u (note_recent m p s)"
    by (cases s) (simp add: note_recent_def)
  then show ?case using Cons by simp
qed simp

lemma note_recent_keeps [simp]:
  "world (note_recent m p s) = world s" "g_stats (note_recent m p s) = g_stats s"
  "g_unhandled (note_recent m p s) = g_unhandled s"
  "length (g_recent (note_recent m p s)) = length (g_recent s)"
  by (simp_all add: note_recent_def)

lemma fold_note_recent_keeps [simp]:
  "world (fold (note_recent m) ps s) = world s" "g_stats (fold (note_recent m) ps s) = g_stats s"
  "g_unhandled (fold (note_recent m) ps s) = g_unhandled s"
  "length (g_recent (fold (note_recent m) ps s)) = length (g_recent s)"
  by (induction ps arbitrary: s) simp_all

definition exec_elem16 :: "'w sinks \<Rightarrow> u32 \<Rightarrow> 'w \<Rightarrow> 'w" where
  "exec_elem16 k p = run_opt (map_option (\<lambda>h. h 0 0x1800 p) (pb_exec_method k))"

lemma fold_dispatch_elem16:
  assumes "\<And>w p. pgraph_method k 0 0x1800 p w = (False, w)"
  shows "pusher_ok s \<Longrightarrow> fold (dispatch k 0 0x1800) ps s =
    other_fields (fold (exec_elem16 k) ps (world s))
      ((g_stats s)\<lparr>methods := methods (g_stats s) + word_of_nat (length ps),
         unhandled := unhandled (g_stats s) + word_of_nat (length ps)\<rparr>)
      ((g_unhandled s)[0x600 := g_unhandled s ! 0x600 + word_of_nat (length ps)])
      (fold (note_recent 0x1800) ps s)"
proof (induction ps arbitrary: s)
  case (Cons p ps)
  let ?t = "dispatch k 0 0x1800 p s"
  have t: "?t = other_fields (exec_elem16 k p (world s))
      ((g_stats s)\<lparr>methods := methods (g_stats s) + 1, unhandled := unhandled (g_stats s) + 1\<rparr>)
      ((g_unhandled s)[0x600 := g_unhandled s ! 0x600 + 1]) (note_recent 0x1800 p s)"
    unfolding exec_elem16_def by (rule dispatch_elem16 [OF assms Cons.prems])
  have len: "length (g_unhandled s) = 0x800" using Cons.prems by (simp add: pusher_ok_def UNHANDLED_SLOTS_def)
  have "pusher_ok ?t" using Cons.prems by (simp add: t pusher_ok_def)
  from Cons.IH [OF this] show ?case
    by (simp add: t fold_note_recent_other len ac_simps)
next
  case Nil
  then show ?case by (cases s; cases "g_stats s") simp
qed

lemma fold_zip_snd: "length xs = length ps \<Longrightarrow> fold (\<lambda>(i, p). f p) (zip xs ps) s = fold f ps s"
  by (induction xs ps arbitrary: s rule: list_induct2) simp_all


section \<open>The recent-methods report\<close>

lemma dispatch_recent:
  "subch \<noteq> NV2A_HOST_TOKEN_SUBCHANNEL \<Longrightarrow>
    g_recent (dispatch k subch m p s) = (g_recent s)[unat (g_recent_idx s) mod 64 := (m, p)] \<and>
    g_recent_idx (dispatch k subch m p s) = g_recent_idx s + 1"
  by (simp add: dispatch_def Let_def note_recent_def count_unhandled_def RECENT_SLOTS_def split: prod.splits)

definition dispatch_list :: "'w sinks \<Rightarrow> (u32 \<times> u32 \<times> u32) list \<Rightarrow> 'w pusher \<Rightarrow> 'w pusher" where
  "dispatch_list k cs s = fold (\<lambda>(subch, m, p). dispatch k subch m p) cs s"

lemma dispatch_list_ring:
  assumes "length (g_recent s) = 64" "g_recent_idx s = 0" "\<forall>c \<in> set cs. fst c \<noteq> NV2A_HOST_TOKEN_SUBCHANNEL"
  shows "length (g_recent (dispatch_list k cs s)) = 64 \<and> g_recent_idx (dispatch_list k cs s) = word_of_nat (length cs) \<and>
    (\<forall>i < length cs. length cs \<le> i + 64 \<longrightarrow> g_recent (dispatch_list k cs s) ! (i mod 64) = snd (cs ! i))"
  using assms(3)
proof (induction cs rule: rev_induct)
  case Nil
  then show ?case using assms by (simp add: dispatch_list_def)
next
  case (snoc c cs)
  obtain subch m p where c: "c = (subch, m, p)" by (cases c)
  let ?s = "dispatch_list k cs s"
  have ih: "length (g_recent ?s) = 64" "g_recent_idx ?s = word_of_nat (length cs)"
    "\<forall>i < length cs. length cs \<le> i + 64 \<longrightarrow> g_recent ?s ! (i mod 64) = snd (cs ! i)"
    using snoc by auto
  have run: "dispatch_list k (cs @ [c]) s = dispatch k subch m p ?s" by (simp add: dispatch_list_def c)
  have sub: "subch \<noteq> NV2A_HOST_TOKEN_SUBCHANNEL" using snoc.prems c by auto
  have slot: "unat (g_recent_idx ?s) mod 64 = length cs mod 64"
    using unat_add_mod64 [of 0 "length cs"] ih(2) by simp
  note dr = dispatch_recent [OF sub, THEN conjunct1] dispatch_recent [OF sub, THEN conjunct2]
  have new: "g_recent (dispatch k subch m p ?s) ! (i mod 64) = snd ((cs @ [c]) ! i)"
    if "i < length (cs @ [c])" "length (cs @ [c]) \<le> i + 64" for i
  proof (cases "i = length cs")
    case True
    then show ?thesis using ih(1) c by (simp add: dr slot)
  next
    case False
    then have i: "i < length cs" "length cs \<le> i + 64" "length cs < i + 64" using that by auto
    moreover have "i mod 64 \<noteq> length cs mod 64"
    proof
      assume "i mod 64 = length cs mod 64"
      then have "64 dvd length cs - i" using i by (metis mod_eq_dvd_iff_nat less_imp_le)
      then show False using i by (auto dest!: dvd_imp_le)
    qed
    ultimately show ?thesis using ih(3) by (simp add: nth_append dr slot)
  qed
  show ?case unfolding run using ih(1,2) new by (simp add: dr)
qed

text \<open>
  After any sequence of dispatched commands the recent-methods report shows the
  last ones in order, oldest first, at most as many as asked for.
\<close>

theorem recent_report_is_the_tail:
  assumes "length (g_recent s) = 64" "g_recent_idx s = 0" "\<forall>c \<in> set cs. fst c \<noteq> NV2A_HOST_TOKEN_SUBCHANNEL"
    "length cs < 2 ^ 64" "0 < n" "n \<le> 64"
  shows "nv2a_pusher_dump_recent (dispatch_list k cs s) (int n) = map (fst \<circ> snd) (drop (length cs - n) cs)"
proof -
  let ?s = "dispatch_list k cs s" and ?n = "min (length cs) n"
  note ring = dispatch_list_ring [OF assms(1-3), of k]
  have u: "unat (word_of_nat j :: u64) = j" if "j \<le> length cs" for j
    using that assms(4) by (simp add: unat_of_nat)
  have st: "(word_of_nat (length cs) :: u64) - word_of_nat ?n = word_of_nat (length cs - n)"
    by (cases "n \<le> length cs") (simp_all add: of_nat_diff min_def)
  have m: "(if unat (word_of_nat (length cs) :: u64) < n then unat (word_of_nat (length cs) :: u64) else n) = ?n"
    using u [of "length cs"] by (simp add: min_def)
  have n0: "\<not> (int n \<le> 0 \<or> int n > int 64)" using assms(5,6) by simp
  have "nv2a_pusher_dump_recent ?s (int n) =
      map (\<lambda>i. fst (g_recent ?s ! (unat (word_of_nat (length cs - n) + word_of_nat i :: u64) mod 64))) [0..<?n]"
    unfolding nv2a_pusher_dump_recent_def Let_def RECENT_SLOTS_def conjunct1 [OF conjunct2 [OF ring]]
    by (simp only: if_not_P [OF n0] nat_int m st)
  also have "\<dots> = map (fst \<circ> snd) (drop (length cs - n) cs)"
  proof (rule nth_equalityI)
    fix i assume "i < length (map (\<lambda>i. fst (g_recent ?s ! (unat (word_of_nat (length cs - n) + word_of_nat i :: u64) mod 64))) [0..<?n])"
    then have i: "i < length cs" "i < n" by simp_all
    have idx: "unat (word_of_nat (length cs - n) + word_of_nat i :: u64) mod 64 = (length cs - n + i) mod 64"
      unfolding unat_add_mod64 using u [of "length cs - n"] by simp
    have "length cs - n + i < length cs" "length cs \<le> length cs - n + i + 64" using i assms(6) by auto
    then have "g_recent ?s ! ((length cs - n + i) mod 64) = snd (cs ! (length cs - n + i))" using ring by blast
    then show "map (\<lambda>i. fst (g_recent ?s ! (unat (word_of_nat (length cs - n) + word_of_nat i :: u64) mod 64))) [0..<?n] ! i =
        map (fst \<circ> snd) (drop (length cs - n) cs) ! i"
      using i idx by simp
  qed simp
  finally show ?thesis .
qed

section \<open>The ranking of unhandled methods\<close>

definition better :: "u32 \<times> nat \<Rightarrow> u32 \<times> nat \<Rightarrow> bool" where
  "better x y \<longleftrightarrow> fst x > fst y \<or> fst x = fst y \<and> snd x < snd y"

definition after_rank :: "(u32 \<times> nat) option \<Rightarrow> u32 \<times> nat \<Rightarrow> bool" where
  "after_rank prev x \<longleftrightarrow> (case prev of None \<Rightarrow> True | Some y \<Rightarrow> better y x)"

definition candidates :: "(u32 \<times> nat) option \<Rightarrow> u32 list \<Rightarrow> nat \<Rightarrow> (u32 \<times> nat) set" where
  "candidates prev vs i = {x \<in> set (zip vs [i..<i + length vs]). fst x \<noteq> 0 \<and> after_rank prev x}"

lemma better_trans: "better x y \<Longrightarrow> better y z \<Longrightarrow> better x z"
  by (auto simp: better_def)

lemma better_total: "x = y \<or> better x y \<or> better y x"
  by (cases x; cases y) (auto simp: better_def)

lemma candidates_Cons: "candidates prev (v # vs) i =
    (if v \<noteq> 0 \<and> after_rank prev (v, i) then {(v, i)} else {}) \<union> candidates prev vs (i + 1)"
proof -
  have "[i..<i + length (v # vs)] = i # [i + 1..<i + 1 + length vs]"
    using upt_conv_Cons [of i "i + length (v # vs)"] by simp
  then show ?thesis by (auto simp: candidates_def simp del: upt_Suc)
qed

lemma next_unhandled_spec:
  "case next_unhandled prev vs i best of
     None \<Rightarrow> best = None \<and> candidates prev vs i = {}
   | Some x \<Rightarrow> x \<in> set_option best \<union> candidates prev vs i \<and>
       (\<forall>y \<in> set_option best \<union> candidates prev vs i. y = x \<or> better x y)"
proof (induction vs arbitrary: i best)
  case Nil
  then show ?case by (simp add: candidates_def split: option.split)
next
  case (Cons v vs)
  let ?ok = "v \<noteq> 0 \<and> after_rank prev (v, i)"
  let ?best = "if ?ok \<and> (case best of None \<Rightarrow> True | Some b \<Rightarrow> better (v, i) b) then Some (v, i) else best"
  have le: "\<not> 0xFFFFFFFF < v" 
  proof -
    have "(0xFFFFFFFF :: u32) = - 1" by simp
    then show ?thesis using word_n1_ge [of v] by (simp only: not_less)
  qed
  have "next_unhandled prev (v # vs) i best = next_unhandled prev vs (i + 1) ?best"
    using le by (auto simp: better_def after_rank_def split: option.splits prod.splits)
  then have nx: "next_unhandled prev (v # vs) i best = next_unhandled prev vs (i + 1) ?best" .
  define N where "N = (if ?ok then {(v, i)} else {})"
  have c: "candidates prev (v # vs) i = N \<union> candidates prev vs (i + 1)"
    unfolding N_def by (rule candidates_Cons)
  have b: "set_option ?best \<subseteq> set_option best \<union> N" "?best = None \<Longrightarrow> best = None \<and> N = {}"
    by (auto simp: N_def split: option.splits if_splits)
  have dom: "\<exists>z \<in> set_option ?best. y = z \<or> better z y" if "y \<in> set_option best \<union> N" for y
    using that better_total [of "(v, i)"] by (auto simp: N_def split: option.splits if_splits)
  show ?case
  proof (cases "next_unhandled prev vs (i + 1) ?best")
    case None
    then show ?thesis using Cons [where i = "i + 1" and best = ?best] b(2) unfolding nx c by simp
  next
    case (Some x)
    then have ih: "x \<in> set_option ?best \<union> candidates prev vs (i + 1)"
      "\<forall>y \<in> set_option ?best \<union> candidates prev vs (i + 1). y = x \<or> better x y"
      using Cons [where i = "i + 1" and best = ?best] by simp_all
    have "y = x \<or> better x y" if "y \<in> set_option best \<union> (N \<union> candidates prev vs (i + 1))" for y
    proof (cases "y \<in> set_option best \<union> N")
      case True
      then obtain z where "z \<in> set_option ?best" "y = z \<or> better z y" using dom by blast
      moreover from this(1) have "z = x \<or> better x z" using ih(2) by simp
      ultimately show ?thesis using better_trans [of x z y] by auto
    next
      case False
      then show ?thesis using that ih(2) by blast
    qed
    moreover have "x \<in> set_option best \<union> (N \<union> candidates prev vs (i + 1))"
      using ih(1) b(1) by blast
    ultimately show ?thesis unfolding nx c Some by simp
  qed
qed

definition rank_key :: "u32 list \<Rightarrow> nat \<Rightarrow> nat" where
  "rank_key hist i = (2 ^ 32 - unat (hist ! i)) * length hist + i"

definition ranking :: "u32 list \<Rightarrow> nat list" where
  "ranking hist = sort_key (rank_key hist) (filter (\<lambda>i. hist ! i \<noteq> 0) [0..<length hist])"

lemma rank_key_less:
  assumes "i < length hist" "j < length hist"
  shows "rank_key hist i < rank_key hist j \<longleftrightarrow> better (hist ! i, i) (hist ! j, j)"
proof -
  let ?L = "length hist"
  have mono: "x * ?L + i < y * ?L + j \<longleftrightarrow> x < y \<or> x = y \<and> i < j" for x y
  proof -
    have *: "a * ?L + k < b * ?L + l" if "a < b" "k < ?L" for a b k l
    proof -
      have "a * ?L + k < Suc a * ?L" using that by simp
      also have "\<dots> \<le> b * ?L + l" using that by (meson Suc_leI le_add1 le_trans mult_le_mono1)
      finally show ?thesis .
    qed
    show ?thesis using assms * [of x y i j] * [of y x j i] by (cases x y rule: linorder_cases) auto
  qed
  have "2 ^ 32 - unat a < 2 ^ 32 - unat b \<longleftrightarrow> b < a" "2 ^ 32 - unat a = 2 ^ 32 - unat b \<longleftrightarrow> a = b" for a b :: u32
    using unat_u32_lt [of a] unat_u32_lt [of b] by (auto simp: word_less_nat_alt word_unat_eq_iff)
  then show ?thesis by (simp add: rank_key_def mono better_def)
qed

lemma ranking_props:
  "set (ranking hist) = {i. i < length hist \<and> hist ! i \<noteq> 0}"
  "sorted_wrt (\<lambda>i j. better (hist ! i, i) (hist ! j, j)) (ranking hist)"
proof -
  show set: "set (ranking hist) = {i. i < length hist \<and> hist ! i \<noteq> 0}"
    by (auto simp: ranking_def)
  have "distinct (ranking hist)" by (simp add: ranking_def)
  moreover have "sorted (map (rank_key hist) (ranking hist))" by (simp add: ranking_def)
  ultimately have "sorted_wrt (\<lambda>i j. rank_key hist i \<le> rank_key hist j \<and> i \<noteq> j) (ranking hist)"
    by (auto simp: sorted_wrt_iff_nth_less sorted_wrt_map distinct_conv_nth)
  moreover have "better (hist ! i, i) (hist ! j, j)"
    if "i \<in> set (ranking hist)" "j \<in> set (ranking hist)" "rank_key hist i \<le> rank_key hist j \<and> i \<noteq> j" for i j
    using that rank_key_less [of i hist j] rank_key_less [of j hist i] better_total [of "(hist ! i, i)" "(hist ! j, j)"] set
    by auto
  ultimately show "sorted_wrt (\<lambda>i j. better (hist ! i, i) (hist ! j, j)) (ranking hist)"
    by (auto simp: sorted_wrt_iff_nth_less)
qed

lemma dec_digits_bound: "n < 10 ^ Suc k \<Longrightarrow> dec_digits n \<le> Suc k"
proof (induction k arbitrary: n)
  case (Suc k)
  show ?case
  proof (cases "n < 10")
    case False
    have "n div 10 < 10 ^ Suc k" using Suc.prems by (simp add: div_less_iff_less_mult)
    then show ?thesis using Suc.IH [of "n div 10"] False by simp
  qed simp
qed simp

lemma candidates_whole: "candidates prev hist 0 = {(hist ! i, i) | i. i < length hist \<and> hist ! i \<noteq> 0 \<and> after_rank prev (hist ! i, i)}"
  by (auto simp: candidates_def set_zip)

lemma print_unhandled_ranking:
  assumes "ranking hist = xs @ ys" "prev = (if xs = [] then None else Some (hist ! last xs, last xs))"
    "off + 18 * left \<le> 1000"
  shows "print_unhandled hist left off prev = map (\<lambda>i. (i * 4, hist ! i)) (take left ys)"
  using assms
proof (induction left arbitrary: xs ys off prev)
  case (Suc left)
  note sorted = ranking_props(2) [of hist, unfolded Suc.prems(1), unfolded sorted_wrt_append]
  have inR: "i \<in> set xs \<union> set ys \<longleftrightarrow> i < length hist \<and> hist ! i \<noteq> 0" for i
    using ranking_props(1) [of hist] unfolding Suc.prems(1) by auto
  have cand: "candidates prev hist 0 = (\<lambda>i. (hist ! i, i)) ` set ys"
  proof -
    have "after_rank prev (hist ! i, i) \<longleftrightarrow> i \<in> set ys" if "i \<in> set xs \<union> set ys" for i
    proof (cases "xs = []")
      case True
      then show ?thesis using that Suc.prems(2) by (simp add: after_rank_def)
    next
      case False
      then have lx: "last xs \<in> set xs" by simp
      have "\<not> better (hist ! last xs, last xs) (hist ! i, i)" if "i \<in> set xs"
      proof -
        obtain us where "xs = us @ [last xs]" using False by (metis append_butlast_last_id)
        then have "i = last xs \<or> better (hist ! i, i) (hist ! last xs, last xs)"
          using that sorted by (metis (no_types, lifting) Un_iff empty_iff list.set(1) set_ConsD set_append sorted_wrt_append list.set_intros(1))
        then show ?thesis by (auto simp: better_def)
      qed
      then show ?thesis using that False lx sorted Suc.prems(2) by (auto simp: after_rank_def)
    qed
    then show ?thesis unfolding candidates_whole using inR by auto
  qed
  show ?case
  proof (cases ys)
    case Nil
    then show ?thesis using next_unhandled_spec [where prev = prev and vs = hist and i = 0 and best = None] cand by (auto split: option.splits)
  next
    case (Cons y zs)
    have "next_unhandled prev hist 0 None = Some (hist ! y, y)"
    proof -
      obtain x where x: "next_unhandled prev hist 0 None = Some x" "x \<in> (\<lambda>i. (hist ! i, i)) ` set ys"
        "\<forall>z \<in> (\<lambda>i. (hist ! i, i)) ` set ys. z = x \<or> better x z"
        using next_unhandled_spec [where prev = prev and vs = hist and i = 0 and best = None] cand Cons by (auto split: option.splits)
      then have "(hist ! y, y) = x \<or> better x (hist ! y, y)" using Cons by simp
      moreover have "x = (hist ! y, y) \<or> better (hist ! y, y) x" using x(2) sorted Cons by auto
      ultimately have "x = (hist ! y, y)" by (auto simp: better_def)
      with x(1) show ?thesis by simp
    qed
    moreover have "print_unhandled hist left (off + 8 + dec_digits (unat (hist ! y))) (Some (hist ! y, y)) =
        map (\<lambda>i. (i * 4, hist ! i)) (take left zs)"
    proof (rule Suc.IH [of "xs @ [y]"])
      have "dec_digits (unat (hist ! y)) \<le> Suc 9"
        using unat_u32_lt [of "hist ! y"] by (intro dec_digits_bound) simp
      then show "off + 8 + dec_digits (unat (hist ! y)) + 18 * left \<le> 1000" using Suc.prems(3) by simp
    qed (use Suc.prems Cons in simp_all)
    ultimately show ?thesis using Cons Suc.prems(3) by simp
  qed
qed simp

text \<open>
  The unhandled-methods report lists the slots with a nonzero count by decreasing
  count, ties by increasing method, cut at the number of entries asked for (16 by default),
  and the line buffer never cuts it short.
\<close>

theorem unhandled_report_is_the_ranking:
  assumes "n \<le> 51"
  shows "nv2a_pusher_dump_unhandled s (int n) =
    map (\<lambda>i. (i * 4, g_unhandled s ! i)) (take (if n = 0 then 16 else n) (ranking (g_unhandled s)))"
  using assms print_unhandled_ranking [where hist = "g_unhandled s" and xs = "[]"
      and ys = "ranking (g_unhandled s)" and prev = None and off = 74 and left = "if n = 0 then 16 else n"]
  by (cases "n = 0") (simp_all add: nv2a_pusher_dump_unhandled_def)

theorem unhandled_report_witness:
  "nv2a_pusher_dump_unhandled \<lparr>g_stats = undefined, g_unhandled = [0, 3, 0, 7], g_recent = [], g_recent_idx = 0, world = ()\<rparr> (int 2) =
    map (\<lambda>i. (i * 4, [0, 3, 0, 7] ! i)) (take (if (2 :: nat) = 0 then 16 else 2) (ranking [0, 3, 0, 7 :: u32]))"
  using unhandled_report_is_the_ranking [of 2 "\<lparr>g_stats = undefined, g_unhandled = [0, 3, 0, 7], g_recent = [], g_recent_idx = 0, world = ()\<rparr>"]
  by simp

definition idle_pusher :: "unit pusher" where
  "idle_pusher = nv2a_pusher_reset_stats \<lparr>g_stats = undefined, g_unhandled = [], g_recent = replicate 64 (0, 0), g_recent_idx = 0, world = ()\<rparr>"

definition deaf_sinks :: "unit sinks" where
  "deaf_sinks = \<lparr>g_software_method = None, g_host_token = None, g_elem16_run = Some (\<lambda>_ _. (True, ())),
     pb_exec_method = None, pgraph_method = (\<lambda>_ _ _ _. (False, ()))\<rparr>"


theorem recent_report_witness:
  "nv2a_pusher_dump_recent (dispatch_list deaf_sinks [(0, 0x100, 0), (0, 0x1800, 5)] idle_pusher) (int 5) = [0x100, 0x1800]"
  using recent_report_is_the_tail [of idle_pusher "[(0, 0x100, 0), (0, 0x1800, 5)]" 5 deaf_sinks]
  by (simp add: idle_pusher_def nv2a_pusher_reset_stats_def NV2A_HOST_TOKEN_SUBCHANNEL_def)

end
