(* ===== verification/Nv2a_Texture_Decode.thy ===== *)
theory Nv2a_Texture_Decode
  imports Prelude
begin

text \<open>
  The CPU texture decoder of \<open>src/nv2a/nv2a_texture_decode.c\<close>: one mip level of a guest format
  to linear RGBA8. Sizes and addresses are natural numbers; the widths of the C types are never
  exceeded for the extents the hardware has (at most 4096). The two colour mixes of the block
  formats are floating point in the code; their exact values are multiples of 1/6 that are never
  whole, or halves that a double holds, so truncating them is the integer division written here.
\<close>

section \<open>Formats and addressing\<close>

definition NV2A_TEXFMT_X1R5G5B5 :: int where "NV2A_TEXFMT_X1R5G5B5 = 0x03"
definition NV2A_TEXFMT_A4R4G4B4 :: int where "NV2A_TEXFMT_A4R4G4B4 = 0x04"
definition NV2A_TEXFMT_RGBA8 :: int where "NV2A_TEXFMT_RGBA8 = 0x06"
definition NV2A_TEXFMT_RGBA8_ALT :: int where "NV2A_TEXFMT_RGBA8_ALT = 0x07"
definition NV2A_TEXFMT_DXT1 :: int where "NV2A_TEXFMT_DXT1 = 0x0C"
definition NV2A_TEXFMT_DXT3 :: int where "NV2A_TEXFMT_DXT3 = 0x0E"

lemmas texfmts = NV2A_TEXFMT_X1R5G5B5_def NV2A_TEXFMT_A4R4G4B4_def NV2A_TEXFMT_RGBA8_def
  NV2A_TEXFMT_RGBA8_ALT_def NV2A_TEXFMT_DXT1_def NV2A_TEXFMT_DXT3_def

lemma doubling_progress: "(2 :: nat) ^ k < m \<Longrightarrow> m - 2 ^ Suc k < m - 2 ^ k"
  by (rule diff_less_mono2) simp_all

text \<open>The loop of the swizzle: \<open>b\<close> doubles until it passes both extents.\<close>

function morton_loop :: "nat \<Rightarrow> nat \<Rightarrow> nat \<Rightarrow> nat \<Rightarrow> nat \<Rightarrow> nat \<Rightarrow> nat \<Rightarrow> nat" where
  "morton_loop x y w h k index shift =
     (let b = 2 ^ k in
      if b < w \<or> b < h
      then let (index, shift) = (if b < w then (if x AND b \<noteq> 0 then index OR push_bit shift 1 else index, shift + 1) else (index, shift));
               (index, shift) = (if b < h then (if y AND b \<noteq> 0 then index OR push_bit shift 1 else index, shift + 1) else (index, shift))
           in morton_loop x y w h (k + 1) index shift
      else index)"
  by pat_completeness auto
termination
  by (relation "measure (\<lambda>(x, y, w, h, k, index, shift). max w h - 2 ^ k)")
     (use doubling_progress less_max_iff_disj in \<open>auto simp del: power_Suc\<close>)

definition nv2a_texture_morton :: "nat \<Rightarrow> nat \<Rightarrow> nat \<Rightarrow> nat \<Rightarrow> nat" where
  "nv2a_texture_morton x y w h = morton_loop x y w h 0 0 0"

definition blocks :: "nat \<Rightarrow> nat" where "blocks n = (n + 3) div 4"

definition nv2a_texture_level_bytes :: "int \<Rightarrow> nat \<Rightarrow> nat \<Rightarrow> nat \<Rightarrow> nat" where
  "nv2a_texture_level_bytes fmt w h pitch =
     (if fmt = NV2A_TEXFMT_DXT1 then blocks w * blocks h * 8
      else if fmt = NV2A_TEXFMT_DXT3 then blocks w * blocks h * 16
      else if fmt = NV2A_TEXFMT_RGBA8 \<or> fmt = NV2A_TEXFMT_RGBA8_ALT then w * h * 4
      else if fmt = NV2A_TEXFMT_X1R5G5B5 \<or> fmt = NV2A_TEXFMT_A4R4G4B4 then w * h * 2
      else pitch * h)"

definition nv2a_texture_next_pitch :: "int \<Rightarrow> nat \<Rightarrow> nat \<Rightarrow> nat" where
  "nv2a_texture_next_pitch fmt w pitch =
     (let nw = w div 2; nw = (if nw = 0 then 1 else nw)
      in if fmt = NV2A_TEXFMT_DXT1 then blocks nw * 8
         else if fmt = NV2A_TEXFMT_DXT3 then blocks nw * 16
         else if fmt = NV2A_TEXFMT_RGBA8 \<or> fmt = NV2A_TEXFMT_RGBA8_ALT then nw * 4
         else if fmt = NV2A_TEXFMT_X1R5G5B5 \<or> fmt = NV2A_TEXFMT_A4R4G4B4 then nw * 2
         else pitch)"

section \<open>Channels\<close>

definition unpack565 :: "nat \<Rightarrow> nat \<times> nat \<times> nat" where
  "unpack565 c = ((drop_bit 11 c AND 31) * 255 div 31, (drop_bit 5 c AND 63) * 255 div 63, (c AND 31) * 255 div 31)"

definition unorm :: "nat \<Rightarrow> nat \<Rightarrow> nat" where
  "unorm n mx = (n * 255 + mx div 2) div mx"

text \<open>A mix of two channels with weight \<open>n / d\<close> on the first, rounded to nearest.\<close>

definition mix :: "nat \<Rightarrow> nat \<Rightarrow> nat \<Rightarrow> nat \<Rightarrow> nat" where
  "mix n d a b = (2 * (a * n + b * (d - n)) + d) div (2 * d)"

type_synonym rgba = "nat \<times> nat \<times> nat \<times> nat"

definition put :: "u8 list \<Rightarrow> nat \<Rightarrow> nat \<Rightarrow> nat \<Rightarrow> rgba \<Rightarrow> u8 list" where
  "put dst w x y = (\<lambda>(r, g, b, a). let p = (y * w + x) * 4 in
     dst[p := word_of_nat r, p + 1 := word_of_nat g, p + 2 := word_of_nat b, p + 3 := word_of_nat a])"

definition byte_at :: "u8 list \<Rightarrow> nat \<Rightarrow> nat" where "byte_at src i = unat (src ! i)"
definition half_at :: "u8 list \<Rightarrow> nat \<Rightarrow> nat" where
  "half_at src i = byte_at src i OR push_bit 8 (byte_at src (i + 1))"

section \<open>One pixel of each format\<close>

text \<open>\<open>None\<close> is the bound check inside the loop failing, where the code returns 0.\<close>

definition pixel_rgba8 :: "u8 list \<Rightarrow> nat \<Rightarrow> int \<Rightarrow> nat \<Rightarrow> nat \<Rightarrow> nat \<Rightarrow> nat \<Rightarrow> rgba option" where
  "pixel_rgba8 src src_size fmt w h x y =
     (let at = 4 * nv2a_texture_morton x y w h
      in if at + 3 \<ge> src_size then None
         else Some (byte_at src (at + 2), byte_at src (at + 1), byte_at src at,
                if fmt = NV2A_TEXFMT_RGBA8_ALT then 255 else byte_at src (at + 3)))"

definition pixel_sz16 :: "u8 list \<Rightarrow> nat \<Rightarrow> int \<Rightarrow> nat \<Rightarrow> nat \<Rightarrow> nat \<Rightarrow> nat \<Rightarrow> rgba option" where
  "pixel_sz16 src src_size fmt w h x y =
     (let at = 2 * nv2a_texture_morton x y w h
      in if at + 1 \<ge> src_size then None
         else let c = half_at src at
              in Some (if fmt = NV2A_TEXFMT_A4R4G4B4
                   then (unorm (drop_bit 8 c AND 15) 15, unorm (drop_bit 4 c AND 15) 15, unorm (c AND 15) 15,
                         unorm (drop_bit 12 c AND 15) 15)
                   else (unorm (drop_bit 10 c AND 31) 31, unorm (drop_bit 5 c AND 31) 31, unorm (c AND 31) 31, 255)))"

definition block_pick :: "u8 list \<Rightarrow> nat \<Rightarrow> nat \<Rightarrow> nat \<Rightarrow> nat" where
  "block_pick src at x y =
     drop_bit (2 * ((y AND 3) * 4 + (x AND 3)))
       (byte_at src (at + 4) OR push_bit 8 (byte_at src (at + 5)) OR push_bit 16 (byte_at src (at + 6)) OR
        push_bit 24 (byte_at src (at + 7))) AND 3"

definition pixel_dxt1 :: "u8 list \<Rightarrow> nat \<Rightarrow> nat \<Rightarrow> nat \<Rightarrow> nat \<Rightarrow> rgba option" where
  "pixel_dxt1 src src_size pitch x y =
     (let at = (y div 4) * pitch + (x div 4) * 8
      in if at + 7 \<ge> src_size then None
         else let c0 = half_at src at; c1 = half_at src (at + 2); pick = block_pick src at x y;
                  (r0, g0, b0) = unpack565 c0; (r1, g1, b1) = unpack565 c1
              in Some (if pick = 0 then (r0, g0, b0, 255)
                   else if pick = 1 then (r1, g1, b1, 255)
                   else if c0 \<le> c1 \<and> pick = 3 then (0, 0, 0, 0)
                   else let (n, d) = (if c0 \<le> c1 then (1, 2) else if pick = 2 then (2, 3) else (1, 3))
                        in (mix n d r0 r1, mix n d g0 g1, mix n d b0 b1, 255)))"

definition pixel_dxt3 :: "u8 list \<Rightarrow> nat \<Rightarrow> nat \<Rightarrow> nat \<Rightarrow> nat \<Rightarrow> rgba option" where
  "pixel_dxt3 src src_size pitch x y =
     (let at = (y div 4) * pitch + (x div 4) * 16; i = (y AND 3) * 4 + (x AND 3)
      in if at + 15 \<ge> src_size then None
         else let alpha = drop_bit (4 * (i AND 1)) (byte_at src (at + i div 2)) AND 15;
                  at = at + 8;
                  c0 = half_at src at; c1 = half_at src (at + 2); pick = block_pick src at x y;
                  (r0, g0, b0) = unpack565 c0; (r1, g1, b1) = unpack565 c1; a8 = alpha * 255 div 15
              in Some (if pick = 0 then (r0, g0, b0, a8)
                   else if pick = 1 then (r1, g1, b1, a8)
                   else let (n, d) = (if pick = 2 then (2, 3) else (1, 3))
                        in (mix n d r0 r1, mix n d g0 g1, mix n d b0 b1, a8)))"

definition pixel_565 :: "u8 list \<Rightarrow> nat \<Rightarrow> nat \<Rightarrow> nat \<Rightarrow> nat \<Rightarrow> rgba option" where
  "pixel_565 src src_size pitch x y =
     (let at = y * pitch + x * 2
      in if at + 1 \<ge> src_size then None
         else let (r, g, b) = unpack565 (half_at src at) in Some (r, g, b, 255))"

definition pixel :: "u8 list \<Rightarrow> nat \<Rightarrow> nat \<Rightarrow> nat \<Rightarrow> nat \<Rightarrow> int \<Rightarrow> nat \<Rightarrow> nat \<Rightarrow> rgba option" where
  "pixel src src_size w h pitch fmt x y =
     (if fmt = NV2A_TEXFMT_RGBA8 \<or> fmt = NV2A_TEXFMT_RGBA8_ALT then pixel_rgba8 src src_size fmt w h x y
      else if fmt = NV2A_TEXFMT_X1R5G5B5 \<or> fmt = NV2A_TEXFMT_A4R4G4B4 then pixel_sz16 src src_size fmt w h x y
      else if fmt = NV2A_TEXFMT_DXT1 then pixel_dxt1 src src_size pitch x y
      else if fmt = NV2A_TEXFMT_DXT3 then pixel_dxt3 src src_size pitch x y
      else pixel_565 src src_size pitch x y)"

section \<open>The decoder\<close>

definition texel_source :: "int \<Rightarrow> nat \<Rightarrow> nat \<Rightarrow> nat \<Rightarrow> nat \<Rightarrow> nat \<Rightarrow> nat \<times> nat" where
  "texel_source fmt w h pitch x y =
     (if fmt = NV2A_TEXFMT_RGBA8 \<or> fmt = NV2A_TEXFMT_RGBA8_ALT then (4 * nv2a_texture_morton x y w h, 4)
      else if fmt = NV2A_TEXFMT_X1R5G5B5 \<or> fmt = NV2A_TEXFMT_A4R4G4B4 then (2 * nv2a_texture_morton x y w h, 2)
      else if fmt = NV2A_TEXFMT_DXT1 \<or> fmt = NV2A_TEXFMT_DXT3
        then let bytes = (if fmt = NV2A_TEXFMT_DXT1 then 8 else 16) in ((y div 4) * pitch + (x div 4) * bytes, bytes)
      else (y * pitch + x * 2, 2))"

definition pixels_of :: "nat \<Rightarrow> nat \<Rightarrow> (nat \<times> nat) list" where
  "pixels_of w h = concat (map (\<lambda>y. map (\<lambda>x. (x, y)) [0..<w]) [0..<h])"

definition sources_ok :: "nat \<Rightarrow> nat \<Rightarrow> nat \<Rightarrow> nat \<Rightarrow> int \<Rightarrow> bool" where
  "sources_ok src_size w h pitch fmt \<longleftrightarrow> list_all (\<lambda>(x, y).
     let (at, bytes) = texel_source fmt w h pitch x y in \<not> (at > src_size \<or> bytes > src_size - at)) (pixels_of w h)"

fun decode_pixels :: "(nat \<Rightarrow> nat \<Rightarrow> rgba option) \<Rightarrow> nat \<Rightarrow> (nat \<times> nat) list \<Rightarrow> u8 list \<Rightarrow> bool \<times> u8 list" where
  "decode_pixels px w [] dst = (True, dst)"
| "decode_pixels px w ((x, y) # ps) dst =
     (case px x y of None \<Rightarrow> (False, dst) | Some c \<Rightarrow> decode_pixels px w ps (put dst w x y c))"

definition nv2a_texture_decode_rgba8 ::
    "u8 list option \<Rightarrow> nat \<Rightarrow> nat \<Rightarrow> nat \<Rightarrow> nat \<Rightarrow> int \<Rightarrow> u8 list option \<Rightarrow> bool \<times> u8 list option" where
  "nv2a_texture_decode_rgba8 src src_size w h pitch fmt dst =
     (case (src, dst) of
        (Some s, Some d) \<Rightarrow>
          if w = 0 \<or> h = 0 then (False, dst)
          else if nv2a_texture_level_bytes fmt w h pitch > src_size then (False, dst)
          else if \<not> sources_ok src_size w h pitch fmt then (False, dst)
          else let (ok, d) = decode_pixels (pixel s src_size w h pitch fmt) w (pixels_of w h) d in (ok, Some d)
      | _ \<Rightarrow> (False, dst))"

section \<open>The swizzle is an interleaving of bits\<close>

declare morton_loop.simps [simp del]

function morton_bits :: "nat \<Rightarrow> nat \<Rightarrow> nat \<Rightarrow> nat \<Rightarrow> nat \<Rightarrow> bool list" where
  "morton_bits x y w h k =
     (if 2 ^ k < w \<or> 2 ^ k < h
      then (if 2 ^ k < w then [bit x k] else []) @ (if 2 ^ k < h then [bit y k] else []) @ morton_bits x y w h (k + 1)
      else [])"
  by pat_completeness auto
termination
  by (relation "measure (\<lambda>(x, y, w, h, k). max w h - 2 ^ k)")
     (use doubling_progress less_max_iff_disj in \<open>auto simp del: power_Suc\<close>)

declare morton_bits.simps [simp del]

lemma nat_and_power_nz: "0 < x AND 2 ^ k \<longleftrightarrow> bit x k" "x AND 2 ^ k = 0 \<longleftrightarrow> \<not> bit x k" for x :: nat
  by (metis bit_iff_and_push_bit_not_eq_0 push_bit_of_1 and.commute gr0I less_numeral_extra(3))+

lemma or_new_bit:
  assumes "index < 2 ^ n"
  shows "index OR 2 ^ n = index + (2 :: nat) ^ n"
proof -
  have "\<not> bit index n" using assms by (simp add: bit_iff_odd)
  then have "index AND 2 ^ n = 0" by (simp add: nat_and_power_nz)
  then show ?thesis by (simp add: disjunctive_add_eq_or)
qed

lemma morton_loop_bits:
  "index < 2 ^ n \<Longrightarrow> morton_loop x y w h k index n = index + 2 ^ n * horner_sum of_bool 2 (morton_bits x y w h k)"
proof (induction x y w h k arbitrary: index n rule: morton_bits.induct)
  case (1 x y w h k)
  show ?case
  proof (cases "2 ^ k < w \<or> 2 ^ k < h")
    case True
    define i1 where "i1 = (if 2 ^ k < w \<and> bit x k then index + 2 ^ n else index)"
    define n1 where "n1 = (if 2 ^ k < w then n + 1 else n)"
    define i2 where "i2 = (if 2 ^ k < h \<and> bit y k then i1 + 2 ^ n1 else i1)"
    define n2 where "n2 = (if 2 ^ k < h then n1 + 1 else n1)"
    have i1: "i1 = (if 2 ^ k < w \<and> bit x k then index OR 2 ^ n else index)"
      by (simp add: i1_def or_new_bit [OF 1(2)])
    have b1: "i1 < 2 ^ n1" using 1(2) by (auto simp: i1_def n1_def)
    have i2: "i2 = (if 2 ^ k < h \<and> bit y k then i1 OR 2 ^ n1 else i1)"
      by (simp add: i2_def or_new_bit [OF b1])
    have b2: "i2 < 2 ^ n2" using b1 by (auto simp: i2_def n2_def)
    have "morton_loop x y w h k index n = morton_loop x y w h (k + 1) i2 n2"
      using True by (subst morton_loop.simps)
        (simp add: Let_def nat_and_power_nz i1 i2 n1_def n2_def split: prod.splits)
    also have "\<dots> = i2 + 2 ^ n2 * horner_sum of_bool 2 (morton_bits x y w h (k + 1))"
      by (rule 1(1) [OF True b2])
    also have "\<dots> = index + 2 ^ n * horner_sum of_bool 2 (morton_bits x y w h k)"
      using True by (subst (2) morton_bits.simps) (auto simp: i1_def i2_def n1_def n2_def algebra_simps)
    finally show ?thesis .
  next
    case False
    then show ?thesis by (subst morton_loop.simps, subst morton_bits.simps) simp
  qed
qed

lemma morton_is_bits: "nv2a_texture_morton x y w h = horner_sum of_bool 2 (morton_bits x y w h 0)"
  using morton_loop_bits [of 0 0 x y w h 0] by (simp add: nv2a_texture_morton_def)

lemma length_morton_bits: "length (morton_bits x y w h k) = length (morton_bits x' y' w h k)"
proof (induction x y w h k rule: morton_bits.induct)
  case (1 x y w h k)
  then show ?case
    by (subst morton_bits.simps, subst (2) morton_bits.simps) simp
qed

lemma morton_bits_inject:
  "morton_bits x y w h k = morton_bits x' y' w h k \<Longrightarrow> k \<le> j \<Longrightarrow>
    (2 ^ j < w \<longrightarrow> bit x j = bit x' j) \<and> (2 ^ j < h \<longrightarrow> bit y j = bit y' j)"
proof (induction x y w h k rule: morton_bits.induct)
  case (1 x y w h k)
  have mono: "2 ^ k < m" if "2 ^ j < m" for m :: nat
    using that 1(3) by (meson le_less_trans one_le_numeral power_increasing)
  show ?case
  proof (cases "2 ^ k < w \<or> 2 ^ k < h")
    case True
    have heads: "(if 2 ^ k < w then [bit x k] else []) @ (if 2 ^ k < h then [bit y k] else []) @ morton_bits x y w h (k + 1) =
        (if 2 ^ k < w then [bit x' k] else []) @ (if 2 ^ k < h then [bit y' k] else []) @ morton_bits x' y' w h (k + 1)"
      using 1(2) True by (subst (asm) (1 2) morton_bits.simps) simp
    then have now: "2 ^ k < w \<longrightarrow> bit x k = bit x' k" "2 ^ k < h \<longrightarrow> bit y k = bit y' k"
      and later: "morton_bits x y w h (k + 1) = morton_bits x' y' w h (k + 1)"
      by (auto split: if_splits)
    show ?thesis
    proof (cases "j = k")
      case True
      then show ?thesis using now by simp
    next
      case False
      then show ?thesis using 1(1) [OF True later] 1(3) by simp
    qed
  next
    case False
    then show ?thesis using mono by blast
  qed
qed

lemma bits_below:
  fixes x x' w :: nat
  assumes "x < w" "x' < w" "\<And>j. 2 ^ j < w \<Longrightarrow> bit x j = bit x' j"
  shows "x = x'"
proof (rule bit_eqI)
  fix j
  have "\<not> bit z j" if "z < w" "w \<le> 2 ^ j" for z
    using that by (simp add: bit_iff_odd)
  then show "bit x j = bit x' j" using assms by (cases "2 ^ j < w") (auto simp: not_less)
qed

lemma morton_inject:
  assumes "x < w" "y < h" "x' < w" "y' < h"
    "nv2a_texture_morton x y w h = nv2a_texture_morton x' y' w h"
  shows "x = x' \<and> y = y'"
proof -
  have sums: "horner_sum of_bool 2 (morton_bits x y w h 0) = (horner_sum of_bool 2 (morton_bits x' y' w h 0) :: nat)"
    using assms(5) by (simp add: morton_is_bits)
  have "morton_bits x y w h 0 = morton_bits x' y' w h 0"
  proof (rule nth_equalityI)
    show "length (morton_bits x y w h 0) = length (morton_bits x' y' w h 0)" by (rule length_morton_bits)
    fix i assume "i < length (morton_bits x y w h 0)"
    then show "morton_bits x y w h 0 ! i = morton_bits x' y' w h 0 ! i"
      using arg_cong [OF sums, of "\<lambda>s. bit s i"] length_morton_bits [of x y w h 0 x' y']
      by (simp add: bit_horner_sum_bit_iff)
  qed
  then show ?thesis using morton_bits_inject [of x y w h 0 x' y'] assms(1-4)
    by (auto intro: bits_below)
qed


lemma length_morton_bits_power: "length (morton_bits x y (2 ^ a) (2 ^ b) k) = (a - k) + (b - k)"
proof (induction x y "2 ^ a :: nat" "2 ^ b :: nat" k rule: morton_bits.induct)
  case (1 x y k)
  then show ?case by (subst morton_bits.simps) auto
qed

lemma morton_below:
  "nv2a_texture_morton x y (2 ^ a) (2 ^ b) < 2 ^ a * 2 ^ b"
  using horner_sum_of_bool_2_less [of "morton_bits x y (2 ^ a) (2 ^ b) 0", where 'a = nat]
  by (simp add: morton_is_bits length_morton_bits_power power_add)

section \<open>The decoder writes every texel, or nothing\<close>

lemma pixels_of_props: "distinct (pixels_of w h)" "set (pixels_of w h) = {(x, y). x < w \<and> y < h}"
proof -
  show "set (pixels_of w h) = {(x, y). x < w \<and> y < h}" by (auto simp: pixels_of_def)
  show "distinct (pixels_of w h)"
  proof (cases "w = 0")
    case False
    then show ?thesis unfolding pixels_of_def
      by (intro distinct_concat) (auto simp: distinct_map inj_on_def dest!: arg_cong [of _ _ hd] simp: hd_map)
  next
    case True
    then have "pixels_of w h = []" by (simp add: pixels_of_def concat_eq_Nil_conv)
    then show ?thesis by simp
  qed
qed

lemma pixel_None:
  "pixel_dxt1 s n pitch x y = None \<longleftrightarrow> n \<le> (y div 4) * pitch + (x div 4) * 8 + 7"
  "pixel_dxt3 s n pitch x y = None \<longleftrightarrow> n \<le> (y div 4) * pitch + (x div 4) * 16 + 15"
  "pixel_565 s n pitch x y = None \<longleftrightarrow> n \<le> y * pitch + x * 2 + 1"
  by (simp_all add: pixel_dxt1_def pixel_dxt3_def pixel_565_def Let_def split: prod.split)

lemma sources_ok_pixel:
  assumes "sources_ok n w h pitch fmt" "x < w" "y < h"
  shows "\<exists>c. pixel s n w h pitch fmt x y = Some c"
proof -
  obtain at bytes where src: "texel_source fmt w h pitch x y = (at, bytes)" by force
  have "at \<le> n \<and> bytes \<le> n - at"
    using assms(1) [unfolded sources_ok_def list_all_iff pixels_of_props, rule_format, of "(x, y)"] assms(2,3) src
    by (simp add: not_less)
  then have le: "at + bytes \<le> n" by linarith
  consider "fmt = NV2A_TEXFMT_RGBA8 \<or> fmt = NV2A_TEXFMT_RGBA8_ALT" | "fmt = NV2A_TEXFMT_X1R5G5B5 \<or> fmt = NV2A_TEXFMT_A4R4G4B4"
    | "fmt = NV2A_TEXFMT_DXT1" | "fmt = NV2A_TEXFMT_DXT3"
    | "fmt \<notin> {NV2A_TEXFMT_RGBA8, NV2A_TEXFMT_RGBA8_ALT, NV2A_TEXFMT_X1R5G5B5, NV2A_TEXFMT_A4R4G4B4, NV2A_TEXFMT_DXT1, NV2A_TEXFMT_DXT3}"
    by blast
  then show ?thesis
  proof cases
    case 1
    then show ?thesis using src le by (auto simp: texel_source_def pixel_def pixel_rgba8_def Let_def)
  next
    case 2
    then have "pixel s n w h pitch fmt x y = pixel_sz16 s n fmt w h x y" by (auto simp: pixel_def texfmts)
    moreover have "at = 2 * nv2a_texture_morton x y w h" "bytes = 2"
      using 2 src by (auto simp: texel_source_def texfmts)
    ultimately show ?thesis using le by (simp add: pixel_sz16_def Let_def)
  next
    case 3
    then have "pixel s n w h pitch fmt x y = pixel_dxt1 s n pitch x y" by (simp add: pixel_def texfmts)
    moreover have "at = y div 4 * pitch + x div 4 * 8" "bytes = 8"
      using 3 src by (auto simp: texel_source_def texfmts)
    ultimately show ?thesis using le pixel_None [of s n pitch x y] by (auto simp flip: not_None_eq)
  next
    case 4
    then have "pixel s n w h pitch fmt x y = pixel_dxt3 s n pitch x y" by (simp add: pixel_def texfmts)
    moreover have "at = y div 4 * pitch + x div 4 * 16" "bytes = 16"
      using 4 src by (auto simp: texel_source_def texfmts)
    ultimately show ?thesis using le pixel_None [of s n pitch x y] by (auto simp flip: not_None_eq)
  next
    case 5
    then have "pixel s n w h pitch fmt x y = pixel_565 s n pitch x y" by (simp add: pixel_def)
    moreover have "at = y * pitch + x * 2" "bytes = 2"
      using 5 src by (auto simp: texel_source_def)
    ultimately show ?thesis using le pixel_None [of s n pitch x y] by (auto simp flip: not_None_eq)
  qed
qed

definition rgba_bytes :: "rgba \<Rightarrow> u8 list" where
  "rgba_bytes = (\<lambda>(r, g, b, a). map word_of_nat [r, g, b, a])"

lemma length_put [simp]: "length (put dst w x y c) = length dst"
  by (cases c) (simp add: put_def Let_def)

lemma put_nth: "put dst w x y c ! i =
    (if (y * w + x) * 4 \<le> i \<and> i < (y * w + x) * 4 + 4 \<and> i < length dst then rgba_bytes c ! (i - (y * w + x) * 4) else dst ! i)"
proof (cases c)
  case (fields r g b a)
  define p where "p = (y * w + x) * 4"
  have "dst[p := word_of_nat r, p + 1 := word_of_nat g, p + 2 := word_of_nat b, p + 3 := word_of_nat a] ! i =
      (if p \<le> i \<and> i < p + 4 \<and> i < length dst then rgba_bytes c ! (i - p) else dst ! i)"
  proof (cases "p \<le> i \<and> i < p + 4 \<and> i < length dst")
    case True
    then consider "i = p" | "i = p + 1" | "i = p + 2" | "i = p + 3" by linarith
    then show ?thesis using True by cases (auto simp: rgba_bytes_def fields nth_list_update)
  next
    case False
    show ?thesis
    proof (cases "i < length dst")
      case True
      with False have "i < p \<or> p + 4 \<le> i" by auto
      then show ?thesis using False by (auto simp: nth_list_update)
    next
      case outside: False
      then have "dst[k := v] ! i = dst ! i" if "length dst \<le> i"
        for k v and dst :: "u8 list" using that by (metis list_update_beyond not_less nth_list_update_neq)
      then show ?thesis using outside by (simp add: not_less)
    qed
  qed
  then show ?thesis unfolding put_def fields prod.case Let_def p_def [symmetric] .
qed

lemma pixel_slots:
  assumes "x < w" "x' < w" "(y * w + x) * 4 \<le> i" "i < (y * w + x) * 4 + 4"
    "(y' * w + x') * 4 \<le> i" "i < (y' * w + x') * 4 + (4 :: nat)"
  shows "x = x' \<and> y = y'"
proof -
  have "p = i div 4" if "p * 4 \<le> i" "i < p * 4 + 4" for p
    using that by (intro div_nat_eqI [symmetric]) simp_all
  then have "y * w + x = i div 4" "y' * w + x' = i div 4" using assms(3-6) by blast+
  then have e: "y * w + x = y' * w + x'" by simp
  have "(y * w + x) div w = y" "(y' * w + x') div w = y'" using assms(1,2) by simp_all
  with e show ?thesis by simp
qed

lemma decode_pixels_writes:
  assumes "\<forall>(x, y) \<in> set ps. x < w \<and> (\<exists>c. px x y = Some c)" "distinct ps"
  shows "\<exists>d'. decode_pixels px w ps d = (True, d') \<and> length d' = length d \<and>
    (\<forall>(x, y) \<in> set ps. \<forall>j < 4. (y * w + x) * 4 + j < length d \<longrightarrow>
       d' ! ((y * w + x) * 4 + j) = rgba_bytes (the (px x y)) ! j) \<and>
    (\<forall>i. (\<forall>(x, y) \<in> set ps. \<not> ((y * w + x) * 4 \<le> i \<and> i < (y * w + x) * 4 + 4)) \<longrightarrow> d' ! i = d ! i)"
  using assms
proof (induction ps arbitrary: d)
  case (Cons p ps)
  obtain x y where p: "p = (x, y)" by force
  obtain c where c: "px x y = Some c" and x: "x < w" using Cons.prems p by auto
  obtain d' where d': "decode_pixels px w ps (put d w x y c) = (True, d')" "length d' = length d"
    "\<forall>(x, y) \<in> set ps. \<forall>j < 4. (y * w + x) * 4 + j < length d \<longrightarrow> d' ! ((y * w + x) * 4 + j) = rgba_bytes (the (px x y)) ! j"
    "\<forall>i. (\<forall>(x, y) \<in> set ps. \<not> ((y * w + x) * 4 \<le> i \<and> i < (y * w + x) * 4 + 4)) \<longrightarrow> d' ! i = put d w x y c ! i"
    using Cons.IH [of "put d w x y c"] Cons.prems by auto
  have mine: "d' ! ((y * w + x) * 4 + j) = rgba_bytes c ! j" if "j < 4" "(y * w + x) * 4 + j < length d" for j
  proof -
    have "\<forall>(x', y') \<in> set ps. \<not> ((y' * w + x') * 4 \<le> (y * w + x) * 4 + j \<and> (y * w + x) * 4 + j < (y' * w + x') * 4 + 4)"
    proof clarify
      fix x' y' assume "(x', y') \<in> set ps"
        "(y' * w + x') * 4 \<le> (y * w + x) * 4 + j" "(y * w + x) * 4 + j < (y' * w + x') * 4 + 4"
      then show False using pixel_slots [of x w x' y "(y * w + x) * 4 + j" y'] Cons.prems x p that by auto
    qed
    then have "d' ! ((y * w + x) * 4 + j) = put d w x y c ! ((y * w + x) * 4 + j)" using d'(4) by blast
    then show ?thesis using that by (simp add: put_nth)
  qed
  have others: "d' ! i = d ! i" if "\<forall>(x, y) \<in> set (p # ps). \<not> ((y * w + x) * 4 \<le> i \<and> i < (y * w + x) * 4 + 4)" for i
    using that d'(4) [rule_format, of i] p by (auto simp: put_nth)
  show ?case using d'(1-3) mine others c p by (intro exI [of _ d']) auto
qed simp



text \<open>
  A swizzled texture whose extents are powers of two decodes exactly when the
  source holds the level's nominal byte count: the swizzle stays inside width times height.
\<close>

theorem swizzled_powers_of_two_decode:
  assumes "fmt \<in> {NV2A_TEXFMT_RGBA8, NV2A_TEXFMT_RGBA8_ALT, NV2A_TEXFMT_X1R5G5B5, NV2A_TEXFMT_A4R4G4B4}"
  shows "fst (nv2a_texture_decode_rgba8 (Some s) n (2 ^ a) (2 ^ b) pitch fmt (Some d)) \<longleftrightarrow>
    nv2a_texture_level_bytes fmt (2 ^ a) (2 ^ b) pitch \<le> n"
proof (cases "nv2a_texture_level_bytes fmt (2 ^ a) (2 ^ b) pitch \<le> n")
  case True
  have "let (at, bytes) = texel_source fmt (2 ^ a) (2 ^ b) pitch x y in at \<le> n \<and> bytes \<le> n - at" for x y
    using morton_below [of x y a b] True assms
    by (auto simp: texel_source_def nv2a_texture_level_bytes_def texfmts)
  then have ok: "sources_ok n (2 ^ a) (2 ^ b) pitch fmt"
    by (auto simp: sources_ok_def list_all_iff not_less)
  then have "\<forall>(x, y) \<in> set (pixels_of (2 ^ a) (2 ^ b)). x < 2 ^ a \<and> (\<exists>c. pixel s n (2 ^ a) (2 ^ b) pitch fmt x y = Some c)"
    using sources_ok_pixel [OF ok, of _ _ s] by (auto simp: pixels_of_props)
  from decode_pixels_writes [OF this pixels_of_props(1), of d] show ?thesis
    using True ok by (auto simp: nv2a_texture_decode_rgba8_def)
qed (simp add: nv2a_texture_decode_rgba8_def)

theorem swizzled_powers_of_two_witness:
  "fst (nv2a_texture_decode_rgba8 (Some [1, 2, 3, 4]) 4 (2 ^ 0) (2 ^ 0) 0 NV2A_TEXFMT_RGBA8 (Some [0, 0, 0, 0])) \<longleftrightarrow>
    nv2a_texture_level_bytes NV2A_TEXFMT_RGBA8 (2 ^ 0) (2 ^ 0) 0 \<le> 4"
  by (rule swizzled_powers_of_two_decode) simp

section \<open>Channel scaling\<close>

text \<open>
  \<open>unorm\<close> rounds to nearest; \<open>unpack565\<close> truncates, although its comment says it rounds: the
  five-bit level 16 comes out as 131 where rounding gives 132.
\<close>

lemma unorm_rounds:
  assumes "n \<le> mx" "0 < mx"
  shows "unorm n mx \<le> 255 \<and> 2 * mx * unorm n mx \<le> 2 * 255 * n + mx \<and> 2 * 255 * n < 2 * mx * unorm n mx + mx + 1"
proof -
  let ?q = "unorm n mx" and ?v = "n * 255 + mx div 2"
  have v: "?v = mx * ?q + ?v mod mx" by (simp add: unorm_def)
  have r: "?v mod mx < mx" using assms(2) by simp
  have "mx * ?q < mx * 256" using v assms by linarith
  then have "?q \<le> 255" by simp
  moreover have "2 * (mx * ?q) \<le> 510 * n + mx" "510 * n < 2 * (mx * ?q) + mx + 1"
    using v r by linarith+
  ultimately show ?thesis by simp
qed

lemma unpack565_truncates: "fst (unpack565 (push_bit 11 16)) = 131" "unorm 16 31 = 132"
  by (simp_all add: unpack565_def unorm_def)


end
