(* ===== verification/Gpu_Own.thy ===== *)
theory Gpu_Own
  imports Prelude "HOL-Library.Multiset"
begin

text \<open>
  The guest-memory ownership map of \<open>src/kernel/recomp_gpu_own.c\<close>: a saturating count of
  GPU-resident surfaces for every 64 KB granule of the guest address space, armed and disarmed
  for every alias of a surface's memory, and the slow path a guest access takes when its granule
  is armed. The graphics backend's synchronise call and the layout's alias expansion are
  parameters. The switch that never arms the map (\<open>RECOMP_GPU_OWN=0\<close>) is a field.
  A surface has a byte count that is a natural number, far below the \<open>2^64\<close> at which
  \<open>va + bytes\<close> would wrap in the code.
\<close>

section \<open>State\<close>

definition RECOMP_GPU_OWN_SHIFT :: nat where "RECOMP_GPU_OWN_SHIFT = 16"
definition RECOMP_GPU_OWN_SLOTS :: nat where "RECOMP_GPU_OWN_SLOTS = 2 ^ (32 - RECOMP_GPU_OWN_SHIFT)"
definition RECOMP_GPU_OWN_MAX_ACCESS :: u32 where "RECOMP_GPU_OWN_MAX_ACCESS = 16"
definition RECOMP_GPU_OWN_MAX_ALIASES :: nat where "RECOMP_GPU_OWN_MAX_ALIASES = 32"

lemmas own_consts = RECOMP_GPU_OWN_SHIFT_def RECOMP_GPU_OWN_SLOTS_def RECOMP_GPU_OWN_MAX_ACCESS_def

record 'w gpu_own =
  g_recomp_gpu_own_map :: "nat \<Rightarrow> u8"
  s_touches :: u64
  s_hits :: u64
  s_reentrant :: u64
  s_armed_slots :: u64
  s_in_reconcile :: bool
  arming_enabled :: bool
  backend :: 'w

section \<open>Reconcile\<close>

definition recomp_gpu_own_reconcile ::
    "(u64 \<Rightarrow> u32 \<Rightarrow> 'w \<Rightarrow> bool \<times> 'w) option \<Rightarrow> u64 \<Rightarrow> u32 \<Rightarrow> 'w gpu_own \<Rightarrow> u64 \<times> 'w gpu_own" where
  "recomp_gpu_own_reconcile s_sync g_xbox_mem_offset guest_va s =
     (let host = ucast guest_va + g_xbox_mem_offset; s = s\<lparr>s_touches := s_touches s + 1\<rparr>
      in case s_sync of
           None \<Rightarrow> (host, s)
         | Some sync \<Rightarrow>
             if s_in_reconcile s then (host, s\<lparr>s_reentrant := s_reentrant s + 1\<rparr>)
             else let (overlap, w) = sync host RECOMP_GPU_OWN_MAX_ACCESS (backend s);
                      s = s\<lparr>backend := w\<rparr>
                  in (host, if overlap then s\<lparr>s_hits := s_hits s + 1\<rparr> else s))"

text \<open>The check of the access seam, \<open>recomp_guest_ptr\<close> in \<open>recomp_types.h\<close>.\<close>

definition recomp_guest_ptr ::
    "(u64 \<Rightarrow> u32 \<Rightarrow> 'w \<Rightarrow> bool \<times> 'w) option \<Rightarrow> u64 \<Rightarrow> u32 \<Rightarrow> 'w gpu_own \<Rightarrow> u64 \<times> 'w gpu_own" where
  "recomp_guest_ptr s_sync g_xbox_mem_offset va s =
     (if g_recomp_gpu_own_map s (unat (drop_bit RECOMP_GPU_OWN_SHIFT va)) \<noteq> 0
      then recomp_gpu_own_reconcile s_sync g_xbox_mem_offset va s
      else (ucast va + g_xbox_mem_offset, s))"

section \<open>Arming\<close>

definition slot_span :: "u32 \<Rightarrow> nat \<Rightarrow> nat \<times> nat" where
  "slot_span va bytes =
     (let end = unat va + bytes; skew = RECOMP_GPU_OWN_MAX_ACCESS - 1;
          lo = (if va > skew then va - skew else 0);
          end = (if end > 0x100000000 then 0x100000000 else end)
      in (unat (drop_bit RECOMP_GPU_OWN_SHIFT lo), (end - 1) div 2 ^ RECOMP_GPU_OWN_SHIFT))"

definition slot_adjust :: "bool \<Rightarrow> nat \<Rightarrow> 'w gpu_own \<Rightarrow> 'w gpu_own" where
  "slot_adjust up i s =
     (let before = g_recomp_gpu_own_map s i
      in if up
         then let s = (if before \<noteq> 0xFF then s\<lparr>g_recomp_gpu_own_map := (g_recomp_gpu_own_map s)(i := before + 1)\<rparr> else s)
              in (if before = 0 then s\<lparr>s_armed_slots := s_armed_slots s + 1\<rparr> else s)
         else if before \<noteq> 0
         then let s = (if before \<noteq> 0xFF then s\<lparr>g_recomp_gpu_own_map := (g_recomp_gpu_own_map s)(i := before - 1)\<rparr> else s)
              in (if before = 1 then s\<lparr>s_armed_slots := s_armed_slots s - 1\<rparr> else s)
         else s)"

definition map_adjust :: "u32 \<Rightarrow> nat \<Rightarrow> bool \<Rightarrow> 'w gpu_own \<Rightarrow> 'w gpu_own" where
  "map_adjust va bytes up s =
     (if bytes = 0 then s
      else let (first, last) = slot_span va bytes in fold (slot_adjust up) [first..<last + 1] s)"

definition adjust_all_aliases ::
    "(u32 \<Rightarrow> nat \<Rightarrow> nat \<Rightarrow> u32 list) option \<Rightarrow> u64 \<Rightarrow> u64 \<Rightarrow> nat \<Rightarrow> bool \<Rightarrow> 'w gpu_own \<Rightarrow> 'w gpu_own" where
  "adjust_all_aliases s_aliases base host bytes up s =
     (if host = 0 \<or> bytes = 0 \<or> host < base \<or> host - base > 0xFFFFFFFF then s
      else let primary = ucast (host - base);
               vas = (case s_aliases of None \<Rightarrow> [] | Some f \<Rightarrow> f primary bytes RECOMP_GPU_OWN_MAX_ALIASES);
               vas = (if vas = [] then [primary] else vas)
           in fold (\<lambda>va. map_adjust va bytes up) vas s)"

definition recomp_gpu_own_hold where
  "recomp_gpu_own_hold s_aliases base host bytes s =
     (if \<not> arming_enabled s then s else adjust_all_aliases s_aliases base host bytes True s)"

definition recomp_gpu_own_release where
  "recomp_gpu_own_release s_aliases base host bytes s =
     (if \<not> arming_enabled s then s else adjust_all_aliases s_aliases base host bytes False s)"

definition recomp_gpu_own_counters :: "'w gpu_own \<Rightarrow> u64 \<times> u64 \<times> u64" where
  "recomp_gpu_own_counters s = (s_touches s, s_hits s, s_armed_slots s)"

section \<open>The granules of a range\<close>

lemma slot_span_covers:
  fixes v va :: u32
  assumes "0 < bytes" "0 < k" "k \<le> unat RECOMP_GPU_OWN_MAX_ACCESS" "unat v + k \<le> 2 ^ 32"
    "unat v < unat va + bytes" "unat va < unat v + k"
  shows "fst (slot_span va bytes) \<le> unat (drop_bit RECOMP_GPU_OWN_SHIFT v) \<and>
    unat (drop_bit RECOMP_GPU_OWN_SHIFT v) \<le> snd (slot_span va bytes)"
proof -
  have sh: "unat (drop_bit 16 x) = unat x div 65536" for x :: u32
    by (simp only: unat_drop_bit_eq) (simp add: drop_bit_eq_div)
  have "unat (if va > 15 then va - 15 else 0 :: u32) = unat va - 15"
    by (auto simp: unat_sub word_less_nat_alt word_le_nat_alt)
  moreover have "unat va - 15 \<le> unat v" using assms(3,6) by (simp add: own_consts)
  moreover have "unat v \<le> (if unat va + bytes > 0x100000000 then 0x100000000 else unat va + bytes) - 1"
    using assms(1,4,5) unat_u32_lt [of v] by auto
  ultimately show ?thesis
    by (auto simp: slot_span_def Let_def own_consts sh div_le_mono)
qed

section \<open>Counts and armed granules\<close>

definition granules :: "u32 \<times> nat \<Rightarrow> nat list" where
  "granules = (\<lambda>(va, bytes). if bytes = 0 then [] else [fst (slot_span va bytes)..<snd (slot_span va bytes) + 1])"

lemma map_adjust_granules: "map_adjust va bytes up s = fold (slot_adjust up) (granules (va, bytes)) s"
  by (simp add: map_adjust_def granules_def case_prod_unfold Let_def)

definition counts_ok :: "(nat \<Rightarrow> nat) \<Rightarrow> 'w gpu_own \<Rightarrow> bool" where
  "counts_ok c s \<longleftrightarrow> (\<forall>i. g_recomp_gpu_own_map s i = 255 \<or> unat (g_recomp_gpu_own_map s i) = c i)"

definition armed_ok :: "'w gpu_own \<Rightarrow> bool" where
  "armed_ok s \<longleftrightarrow> finite {i. g_recomp_gpu_own_map s i \<noteq> 0} \<and>
     s_armed_slots s = word_of_nat (card {i. g_recomp_gpu_own_map s i \<noteq> 0})"


lemma u8_eq_255: "b = 255 \<longleftrightarrow> unat b = 255" for b :: u8
  by (simp add: word_unat_eq_iff)

lemma u8_inc: "b \<noteq> 255 \<Longrightarrow> unat (b + 1) = unat b + 1" for b :: u8
  using unsigned_less [of b, where 'a = nat] by (simp add: u8_eq_255 unat_word_ariths)

lemma u8_dec: "b \<noteq> 0 \<Longrightarrow> unat (b - 1) = unat b - 1" for b :: u8
  by (rule unat_minus_one)

lemma slot_adjust_map:
  "g_recomp_gpu_own_map (slot_adjust up i s) = (let b = g_recomp_gpu_own_map s i in
     (g_recomp_gpu_own_map s)(i := if b = 255 then b else if up then b + 1 else if b = 0 then b else b - 1))"
  by (cases "g_recomp_gpu_own_map s i = 255") (simp_all add: slot_adjust_def Let_def fun_upd_idem)

lemma slot_adjust_counts:
  assumes "counts_ok c s" "up \<or> 0 < c i"
  shows "counts_ok (c(i := if up then c i + 1 else c i - 1)) (slot_adjust up i s)"
proof -
  let ?b = "g_recomp_gpu_own_map s i"
  have b: "?b = 255 \<or> unat ?b = c i" using assms(1) by (simp add: counts_ok_def)
  have "?b = 255 \<or> (if up then unat (?b + 1) = c i + 1 else ?b \<noteq> 0 \<and> unat (?b - 1) = c i - 1)"
  proof (cases "?b = 255")
    case False
    then have u: "unat ?b = c i" using b by simp
    then have "\<not> up \<Longrightarrow> ?b \<noteq> 0" using assms(2) by auto
    then show ?thesis using u8_inc [OF False] u8_dec [of ?b] u by simp
  qed simp
  then show ?thesis using assms(1) by (auto simp: counts_ok_def slot_adjust_map Let_def split: if_splits)
qed

lemma slot_adjust_armed:
  assumes "armed_ok s"
  shows "armed_ok (slot_adjust up i s)"
proof -
  let ?m = "g_recomp_gpu_own_map s"
  let ?A = "{j. ?m j \<noteq> 0}"
  have fin: "finite ?A" and cnt: "s_armed_slots s = word_of_nat (card ?A)"
    using assms by (simp_all add: armed_ok_def)
  have upd: "{j. (?m(i := v)) j \<noteq> 0} = (if v = 0 then ?A - {i} else insert i ?A)" for v
    by auto
  have nz: "b + 1 \<noteq> 0" if "b \<noteq> 255" for b :: u8
    using u8_inc [OF that] by force
  have pred: "b - 1 = 0 \<longleftrightarrow> b = 1" for b :: u8 by simp
  consider "up" "?m i = 0" | "up" "?m i \<noteq> 0" | "\<not> up" "?m i = 1" | "\<not> up" "?m i \<noteq> 1"
    by blast
  then show ?thesis
  proof cases
    case 1
    then have "i \<notin> ?A" by simp
    then have "card (insert i ?A) = Suc (card ?A)" using fin by simp
    then show ?thesis using 1 fin cnt upd [of 1] by (simp add: armed_ok_def slot_adjust_def Let_def)
  next
    case 2
    then have "insert i ?A = ?A" by auto
    then show ?thesis using 2 fin cnt upd [of "?m i + 1"] nz [of "?m i"]
      by (cases "?m i = 255") (simp_all add: armed_ok_def slot_adjust_def Let_def)
  next
    case 3
    then have "card ?A = Suc (card (?A - {i}))" using fin card.remove [of ?A i] by (simp del: card_Diff_insert card_Diff_singleton)
    then have "word_of_nat (card ?A) - 1 = (word_of_nat (card (?A - {i})) :: u64)" by (simp only: of_nat_Suc) simp
    then show ?thesis using 3 fin cnt upd [of 0]
      by (simp add: armed_ok_def slot_adjust_def Let_def del: card_Diff_insert card_Diff_singleton)
  next
    case 4
    then have "?m i \<noteq> 0 \<Longrightarrow> insert i ?A = ?A" by auto
    then show ?thesis using 4 fin cnt upd [of "?m i - 1"]
      by (cases "?m i = 0"; cases "?m i = 255") (simp_all add: armed_ok_def slot_adjust_def Let_def)
  qed
qed

lemma fold_adjust_armed: "armed_ok s \<Longrightarrow> armed_ok (fold (slot_adjust up) is s)"
  by (induction "is" arbitrary: s) (auto simp: slot_adjust_armed)

lemma fold_adjust_up: "counts_ok c s \<Longrightarrow> counts_ok (\<lambda>i. c i + count_list is i) (fold (slot_adjust True) is s)"
proof (induction "is" arbitrary: s c)
  case (Cons k ks)
  from Cons.IH [OF slot_adjust_counts [OF Cons.prems, of True k]]
  show ?case by (auto elim!: back_subst [of "\<lambda>c. counts_ok c _"] simp: fun_eq_iff)
qed simp

lemma fold_adjust_down:
  "counts_ok c s \<Longrightarrow> \<forall>i. count_list is i \<le> c i \<Longrightarrow>
    counts_ok (\<lambda>i. c i - count_list is i) (fold (slot_adjust False) is s)"
proof (induction "is" arbitrary: s c)
  case (Cons k ks)
  have k: "0 < c k" using Cons.prems(2) [rule_format, of k] by simp
  have "\<forall>i. count_list ks i \<le> (c(k := c k - 1)) i"
    using Cons.prems(2) by (auto split: if_splits)
  from Cons.IH [OF slot_adjust_counts [OF Cons.prems(1), of False k, simplified k], simplified, OF this [simplified]]
  show ?case by (auto elim!: back_subst [of "\<lambda>c. counts_ok c _"] simp: fun_eq_iff k)
qed simp

section \<open>Reachable states\<close>

text \<open>
  The surfaces held at one time, as the ranges they arm (every alias is one range). A surface is
  released at most as often as it was held, the balance that the interface asks of the backend.
\<close>

definition alias_ranges :: "(u32 \<Rightarrow> nat \<Rightarrow> nat \<Rightarrow> u32 list) option \<Rightarrow> u64 \<Rightarrow> u64 \<Rightarrow> nat \<Rightarrow> (u32 \<times> nat) list" where
  "alias_ranges s_aliases base host bytes =
     (if host = 0 \<or> bytes = 0 \<or> host < base \<or> host - base > 0xFFFFFFFF then []
      else let primary = ucast (host - base);
               vas = (case s_aliases of None \<Rightarrow> [] | Some f \<Rightarrow> f primary bytes RECOMP_GPU_OWN_MAX_ALIASES)
           in map (\<lambda>va. (va, bytes)) (if vas = [] then [primary] else vas))"

lemma adjust_all_aliases_ranges:
  "adjust_all_aliases a base host bytes up s = fold (slot_adjust up) (concat (map granules (alias_ranges a base host bytes))) s"
proof -
  have "fold (\<lambda>va. map_adjust va bytes up) vas s = fold (slot_adjust up) (concat (map (\<lambda>va. granules (va, bytes)) vas)) s" for vas s
    by (induction vas arbitrary: s) (simp_all add: map_adjust_granules)
  note gen = this
  show ?thesis
    unfolding adjust_all_aliases_def alias_ranges_def Let_def
    by (simp add: gen comp_def del: fold_simps)
qed

inductive own_reach ::
    "(u32 \<Rightarrow> nat \<Rightarrow> nat \<Rightarrow> u32 list) option \<Rightarrow> u64 \<Rightarrow> (u64 \<Rightarrow> u32 \<Rightarrow> 'w \<Rightarrow> bool \<times> 'w) option \<Rightarrow>
     'w gpu_own \<Rightarrow> (u32 \<times> nat) multiset \<Rightarrow> bool"
  for a base sync where
  start: "g_recomp_gpu_own_map s = (\<lambda>_. 0) \<Longrightarrow> s_armed_slots s = 0 \<Longrightarrow> arming_enabled s \<Longrightarrow> own_reach a base sync s {#}"
| hold: "own_reach a base sync s H \<Longrightarrow>
    own_reach a base sync (recomp_gpu_own_hold a base host bytes s) (H + mset (alias_ranges a base host bytes))"
| release: "own_reach a base sync s (H + mset (alias_ranges a base host bytes)) \<Longrightarrow>
    own_reach a base sync (recomp_gpu_own_release a base host bytes s) H"
| touch: "own_reach a base sync s H \<Longrightarrow> own_reach a base sync (snd (recomp_guest_ptr sync base va s)) H"

definition held_count :: "(u32 \<times> nat) multiset \<Rightarrow> nat \<Rightarrow> nat" where
  "held_count H i = (\<Sum>x \<in># H. count_list (granules x) i)"

lemma held_count_ranges: "held_count (mset xs) i = count_list (concat (map granules xs)) i"
  by (induction xs) (simp_all add: held_count_def)

lemma held_count_plus: "held_count (H + K) i = held_count H i + held_count K i"
  by (simp add: held_count_def)

lemma fold_adjust_arming [simp]: "arming_enabled (fold (slot_adjust up) is s) = arming_enabled s"
  by (induction "is" arbitrary: s) (simp_all add: slot_adjust_def Let_def)

lemma guest_ptr_keeps:
  "g_recomp_gpu_own_map (snd (recomp_guest_ptr sync base va s)) = g_recomp_gpu_own_map s"
  "s_armed_slots (snd (recomp_guest_ptr sync base va s)) = s_armed_slots s"
  "arming_enabled (snd (recomp_guest_ptr sync base va s)) = arming_enabled s"
  by (auto simp: recomp_guest_ptr_def recomp_gpu_own_reconcile_def Let_def split: option.split prod.split)

lemma own_map_inv:
  "own_reach a base sync s H \<Longrightarrow>
    arming_enabled s \<and> counts_ok (held_count H) s \<and> armed_ok s"
proof (induction rule: own_reach.induct)
  case (start s)
  then show ?case by (simp add: counts_ok_def held_count_def armed_ok_def)
next
  case (hold s H host bytes)
  then show ?case
    using fold_adjust_up [of "held_count H" s "concat (map granules (alias_ranges a base host bytes))"]
    by (simp add: recomp_gpu_own_hold_def adjust_all_aliases_ranges fold_adjust_armed held_count_plus
        held_count_ranges [abs_def])
next
  case (release s H host bytes)
  then show ?case
    using fold_adjust_down [of "held_count (H + mset (alias_ranges a base host bytes))" s
        "concat (map granules (alias_ranges a base host bytes))"]
    by (simp add: recomp_gpu_own_release_def adjust_all_aliases_ranges fold_adjust_armed held_count_plus [abs_def]
        held_count_ranges [abs_def])
next
  case (touch s H va)
  then show ?case by (simp add: guest_ptr_keeps counts_ok_def armed_ok_def)
qed

text \<open>
  Claim C31: Reachable ownership maps count: a granule that never saturated holds exactly
  the number of held ranges covering it, and the armed-granule counter is the number of non-
  zero granules.
\<close>

theorem own_map_counts_holders:
  assumes "own_reach a base sync s H"
  shows "arming_enabled s \<and> counts_ok (held_count H) s \<and> armed_ok s"
  by (rule own_map_inv [OF assms])

lemma in_granules_counted: "x \<in># H \<Longrightarrow> i \<in> set (granules x) \<Longrightarrow> 0 < held_count H i"
  by (auto simp: held_count_def count_list_0_iff gr0_conv_Suc [symmetric] intro: gr0I dest!: multi_member_split)

text \<open>
  Claim C27: In every state reached by balanced holds and releases, an access of at most 16
  bytes that overlaps a held surface takes the slow path, even when it starts below the
  surface's first granule.
\<close>

theorem held_access_reconciles:
  fixes v va :: u32
  assumes "own_reach a base sync s H" "(va, bytes) \<in># H" "0 < bytes"
    "0 < k" "k \<le> unat RECOMP_GPU_OWN_MAX_ACCESS" "unat v + k \<le> 2 ^ 32"
    "unat v < unat va + bytes" "unat va < unat v + k"
  shows "recomp_guest_ptr sync base v s = recomp_gpu_own_reconcile sync base v s"
proof -
  let ?i = "unat (drop_bit RECOMP_GPU_OWN_SHIFT v)"
  have "?i \<in> set (granules (va, bytes))"
    using slot_span_covers [OF assms(3-8)] assms(3) by (auto simp: granules_def less_Suc_eq)
  then have "0 < held_count H ?i" by (rule in_granules_counted [OF assms(2)])
  then have "g_recomp_gpu_own_map s ?i \<noteq> 0"
    using own_map_inv [OF assms(1), THEN conjunct2, THEN conjunct1, unfolded counts_ok_def, rule_format, of ?i]
    by auto
  then show ?thesis by (simp add: recomp_guest_ptr_def)
qed

lemma nothing_held_nothing_slow:
  assumes "own_reach a base sync s {#}" "\<forall>i. g_recomp_gpu_own_map s i \<noteq> 255"
  shows "recomp_guest_ptr sync base v s = (ucast v + base, s) \<and> s_armed_slots s = 0"
proof -
  have "g_recomp_gpu_own_map s i = 0" for i
    using own_map_inv [OF assms(1)] assms(2)
    by (auto simp: counts_ok_def held_count_def unat_eq_zero)
  then show ?thesis
    using own_map_inv [OF assms(1)] by (simp add: recomp_guest_ptr_def armed_ok_def)
qed

definition idle_map :: "unit gpu_own" where
  "idle_map = \<lparr>g_recomp_gpu_own_map = \<lambda>_. 0, s_touches = 0, s_hits = 0, s_reentrant = 0, s_armed_slots = 0,
     s_in_reconcile = False, arming_enabled = True, backend = ()\<rparr>"

lemma framebuffer_held:
  "own_reach None 0 None (recomp_gpu_own_hold None 0 0x10000 0x1000 idle_map) {#(0x10000 :: u32, 0x1000)#}"
proof -
  have s: "own_reach None 0 None idle_map {#}" by (rule own_reach.start) (simp_all add: idle_map_def)
  show ?thesis using own_reach.hold [OF s, of "0x10000" "0x1000"] by (simp add: alias_ranges_def)
qed

theorem own_map_witness:
  "arming_enabled (recomp_gpu_own_hold None 0 0x10000 0x1000 idle_map) \<and>
   counts_ok (held_count {#(0x10000 :: u32, 0x1000)#}) (recomp_gpu_own_hold None 0 0x10000 0x1000 idle_map) \<and>
   armed_ok (recomp_gpu_own_hold None 0 0x10000 0x1000 idle_map)"
  by (rule own_map_counts_holders [OF framebuffer_held])

theorem held_access_witness:
  "recomp_guest_ptr None 0 (0xFFF8 :: u32) (recomp_gpu_own_hold None 0 0x10000 0x1000 idle_map) =
   recomp_gpu_own_reconcile None 0 0xFFF8 (recomp_gpu_own_hold None 0 0x10000 0x1000 idle_map)"
  by (rule held_access_reconciles [OF framebuffer_held, where va = "0x10000" and bytes = "0x1000" and k = 16])
    (simp_all add: own_consts)

end
