(* ===== verification/Host_Memory.thy ===== *)
theory Host_Memory
  imports Prelude
begin

text \<open>
  The host's view of guest memory, for the components that walk guest structures through host
  pointers: a function from a host address (a natural number, zero is NULL) to a byte, with
  little-endian 32-bit loads and stores and block copies, and the lemmas that say which bytes
  a store leaves alone.
\<close>

type_synonym host_memory = "nat \<Rightarrow> u8"

definition load32 :: "host_memory \<Rightarrow> nat \<Rightarrow> u32" where
  "load32 m p = le32 (m p) (m (p + 1)) (m (p + 2)) (m (p + 3))"

definition store32 :: "host_memory \<Rightarrow> nat \<Rightarrow> u32 \<Rightarrow> host_memory" where
  "store32 m p v = m(p := byte_of 0 v, p + 1 := byte_of 1 v, p + 2 := byte_of 2 v, p + 3 := byte_of 3 v)"

definition load_bytes :: "host_memory \<Rightarrow> nat \<Rightarrow> nat \<Rightarrow> u8 list" where
  "load_bytes m p n = map m [p..<p + n]"

definition store_bytes :: "host_memory \<Rightarrow> nat \<Rightarrow> u8 list \<Rightarrow> host_memory" where
  "store_bytes m p bs = (\<lambda>q. if p \<le> q \<and> q < p + length bs then bs ! (q - p) else m q)"

text \<open>Two host ranges have no byte in common.\<close>

definition disjoint_ranges :: "nat \<Rightarrow> nat \<Rightarrow> nat \<Rightarrow> nat \<Rightarrow> bool" where
  "disjoint_ranges p n q k \<longleftrightarrow> p + n \<le> q \<or> q + k \<le> p"

section \<open>Loads after stores\<close>

lemma load32_cong:
  assumes "\<And>i. i < 4 \<Longrightarrow> m (p + i) = m' (p + i)"
  shows "load32 m p = load32 m' p"
  using assms [of 0] assms [of 1] assms [of 2] assms [of 3] by (simp add: load32_def)

lemma load32_store32_same [simp]: "load32 (store32 m p v) p = v"
  by (simp add: load32_def store32_def byte_simps)

lemma load32_store32_other [simp]: "disjoint_ranges p 4 q 4 \<Longrightarrow> load32 (store32 m p v) q = load32 m q"
  by (auto simp: load32_def store32_def disjoint_ranges_def)

lemma store32_outside: "q < p \<or> p + 4 \<le> q \<Longrightarrow> store32 m p v q = m q"
  by (auto simp: store32_def)

lemma store_bytes_outside: "q < p \<or> p + length bs \<le> q \<Longrightarrow> store_bytes m p bs q = m q"
  by (auto simp: store_bytes_def)

lemma load32_store_bytes [simp]: "disjoint_ranges p (length bs) q 4 \<Longrightarrow> load32 (store_bytes m p bs) q = load32 m q"
  by (auto simp: load32_def store_bytes_def disjoint_ranges_def)

lemma store_bytes_Nil [simp]: "store_bytes m p [] = m"
  by (rule ext) (auto simp: store_bytes_def)

lemma length_load_bytes [simp]: "length (load_bytes m p n) = n"
  by (simp add: load_bytes_def)

lemma load_bytes_store_bytes_same [simp]: "load_bytes (store_bytes m p bs) p (length bs) = bs"
  by (auto simp: load_bytes_def store_bytes_def intro!: nth_equalityI)

lemma load_bytes_cong: "(\<And>i. i < n \<Longrightarrow> m (p + i) = m' (p + i)) \<Longrightarrow> load_bytes m p n = load_bytes m' p n"
  by (auto simp: load_bytes_def) (metis le_add_diff_inverse nat_add_left_cancel_less)

lemma disjoint_ranges_commute: "disjoint_ranges p n q k \<longleftrightarrow> disjoint_ranges q k p n"
  by (auto simp: disjoint_ranges_def)

end
