(* ===== verification/Usb_Pad.thy ===== *)
theory Usb_Pad
  imports Host_Memory
begin

text \<open>
  The Xbox gamepad behind the USB port, after \<open>src/kernel/xbox_usb_ohci.c\<close>: its descriptors,
  the control requests it answers, its input report and the rumble report it consumes. The
  device's control-transfer state is a record, the module's globals another; the two host hooks
  (pad state and rumble) are fields of it that act on an environment of any type. Trace output
  is not modelled.
\<close>

section \<open>Descriptors\<close>

definition USB_DEVICE_DESC :: "u8 list" where
  "USB_DEVICE_DESC =
    [0x12, 0x01, 0x10, 0x01, 0x00, 0x00, 0x00, 0x08, 0x5E, 0x04, 0x89, 0x02, 0x21, 0x01,
     0x00, 0x00, 0x00, 0x01]"

definition USB_CONFIG_DESC :: "u8 list" where
  "USB_CONFIG_DESC =
    [0x09, 0x02, 0x20, 0x00, 0x01, 0x01, 0x00, 0x80, 0x32,
     0x09, 0x04, 0x00, 0x00, 0x02, 0x58, 0x42, 0x00, 0x00,
     0x07, 0x05, 0x81, 0x03, 0x20, 0x00, 0x04,
     0x07, 0x05, 0x02, 0x03, 0x20, 0x00, 0x04]"

definition XBOX_USB_PAD_REPORT :: nat where "XBOX_USB_PAD_REPORT = 20"
definition XBOX_USB_CTRL_MAX :: nat where "XBOX_USB_CTRL_MAX = 64"

definition USB_XID_DESC :: "u8 list" where
  "USB_XID_DESC =
    [0x10, 0x42, 0x00, 0x01, 0x01, 0x02, word_of_nat XBOX_USB_PAD_REPORT, 0x06,
     0xFF, 0xFF, 0xFF, 0xFF, 0xFF, 0xFF, 0xFF, 0xFF]"

section \<open>State\<close>

record usb_dev =
  address :: u8
  set_address :: u8
  set_address_valid :: bool
  configuration :: u8
  stalled :: bool
  dev_data :: "u8 list"
  data_len :: u32
  data_off :: u32
  dev_setup :: "u8 list"
  out_expect :: bool
  out_buf :: "u8 list"
  out_len :: u32

record 'e usb_world =
  g_dev :: usb_dev
  g_pad_state :: "(u8 list \<Rightarrow> 'e \<Rightarrow> int \<times> u8 list \<times> 'e) option"
  g_pad_rumble :: "(u16 \<Rightarrow> u16 \<Rightarrow> 'e \<Rightarrow> 'e) option"
  g_ohci_tds_retired :: u64
  g_ohci_tds_error :: u64
  g_ohci_out_reports :: u64
  g_ohci_tds_incomplete :: u64
  g_ohci_retry_control :: bool
  host_env :: 'e
  host_mem :: host_memory

definition xbox_SetUsbPadStateHook where
  "xbox_SetUsbPadStateHook fn w = w\<lparr>g_pad_state := fn\<rparr>"

definition xbox_SetUsbPadRumbleHook where
  "xbox_SetUsbPadRumbleHook fn w = w\<lparr>g_pad_rumble := fn\<rparr>"

definition xbox_UsbPadReadHost :: "u8 list \<Rightarrow> 'e usb_world \<Rightarrow> (int \<times> u8 list) \<times> 'e usb_world" where
  "xbox_UsbPadReadHost report w =
     (case g_pad_state w of
        None \<Rightarrow> ((0, report), w)
      | Some fn \<Rightarrow> let (rc, report, e) = fn report (host_env w) in ((rc, report), w\<lparr>host_env := e\<rparr>))"

definition xbox_UsbPadRumbleHost :: "u16 \<Rightarrow> u16 \<Rightarrow> 'e usb_world \<Rightarrow> 'e usb_world" where
  "xbox_UsbPadRumbleHost left right w =
     (case g_pad_rumble w of None \<Rightarrow> w | Some fn \<Rightarrow> w\<lparr>host_env := fn left right (host_env w)\<rparr>)"

definition xbox_UsbOutputReport :: "u8 list \<Rightarrow> 'e usb_world \<Rightarrow> 'e usb_world" where
  "xbox_UsbOutputReport data w =
     (let w = w\<lparr>g_ohci_out_reports := g_ohci_out_reports w + 1\<rparr>
      in if length data < 6 \<or> data ! 0 \<noteq> 0x00 then w
         else case g_pad_rumble w of
                None \<Rightarrow> w
              | Some fn \<Rightarrow> w\<lparr>host_env := fn (le16 (data ! 2) (data ! 3)) (le16 (data ! 4) (data ! 5)) (host_env w)\<rparr>)"

definition xbox_UsbDeviceReset :: "'e usb_world \<Rightarrow> 'e usb_world" where
  "xbox_UsbDeviceReset w = w\<lparr>g_dev :=
     \<lparr>address = 0, set_address = 0, set_address_valid = False, configuration = 0, stalled = False,
      dev_data = replicate XBOX_USB_CTRL_MAX 0, data_len = 0, data_off = 0, dev_setup = replicate 8 0,
      out_expect = False, out_buf = replicate XBOX_USB_CTRL_MAX 0, out_len = 0\<rparr>\<rparr>"

definition xbox_UsbDeviceAddress :: "'e usb_world \<Rightarrow> u8" where
  "xbox_UsbDeviceAddress w = address (g_dev w)"

definition xbox_UsbDeviceConfiguration :: "'e usb_world \<Rightarrow> u8" where
  "xbox_UsbDeviceConfiguration w = configuration (g_dev w)"

section \<open>Requests\<close>

text \<open>
  A reply is what the request leaves in the output buffer and its length; \<open>None\<close> is the refusal
  (\<open>-1\<close>), which leaves the buffer alone and the length zero.
\<close>

type_synonym usb_reply = "(u8 list \<times> nat) option"

definition usb_copy :: "u8 list \<Rightarrow> u8 list \<Rightarrow> nat \<Rightarrow> usb_reply" where
  "usb_copy src out out_max =
     (let len = (if length src > out_max then out_max else length src)
      in Some (memcpy_at out 0 (take len src), len))"

definition xbox_UsbInterruptIn :: "u8 \<Rightarrow> u8 list \<Rightarrow> nat \<Rightarrow> 'e usb_world \<Rightarrow> usb_reply \<times> 'e usb_world" where
  "xbox_UsbInterruptIn endpoint out out_max w =
     (if endpoint \<noteq> 1 \<or> out_max < XBOX_USB_PAD_REPORT then (None, w)
      else let report = (replicate XBOX_USB_PAD_REPORT 0)[0 := 0x00, 1 := word_of_nat XBOX_USB_PAD_REPORT];
               ((_, report), w) = xbox_UsbPadReadHost report w
           in (Some (memcpy_at out 0 report, XBOX_USB_PAD_REPORT), w))"

definition two_zeros :: "u8 list \<Rightarrow> nat \<Rightarrow> usb_reply" where
  "two_zeros out out_max = (if out_max < 2 then None else Some (out[0 := 0x00, 1 := 0x00], 2))"

text \<open>The standard requests to the device; \<open>None\<close> falls through to the groups after it.\<close>

definition device_request :: "u8 \<Rightarrow> u16 \<Rightarrow> u8 list \<Rightarrow> nat \<Rightarrow> usb_dev \<Rightarrow> (usb_reply \<times> usb_dev) option" where
  "device_request bRequest wValue out out_max d =
     (if bRequest = 0x00 then Some (two_zeros out out_max, d)
      else if bRequest = 0x05
      then Some (Some (out, 0), d\<lparr>set_address := ucast (wValue AND 0x7F), set_address_valid := True\<rparr>)
      else if bRequest = 0x06
      then (if drop_bit 8 wValue = 0x01 then Some (usb_copy USB_DEVICE_DESC out out_max, d)
            else if drop_bit 8 wValue = 0x02 then Some (usb_copy USB_CONFIG_DESC out out_max, d)
            else None)
      else if bRequest = 0x08
      then Some (if out_max < 1 then None else Some (out[0 := configuration d], 1), d)
      else if bRequest = 0x09 then Some (Some (out, 0), d\<lparr>configuration := ucast (wValue AND 0xFF)\<rparr>)
      else if bRequest = 0x01 \<or> bRequest = 0x03 then Some (Some (out, 0), d)
      else None)"

definition interface_request :: "u8 \<Rightarrow> u8 list \<Rightarrow> nat \<Rightarrow> usb_reply option" where
  "interface_request bRequest out out_max =
     (if bRequest = 0x00 then Some (two_zeros out out_max)
      else if bRequest = 0x0A then Some (if out_max < 1 then None else Some (out[0 := 0x00], 1))
      else if bRequest = 0x0B then Some (Some (out, 0))
      else None)"

definition vendor_request :: "u8 \<Rightarrow> u16 \<Rightarrow> u8 list \<Rightarrow> nat \<Rightarrow> usb_reply option" where
  "vendor_request bRequest wValue out out_max =
     (if bRequest = 0x06 \<and> drop_bit 8 wValue = 0x42 then Some (usb_copy USB_XID_DESC out out_max)
      else if bRequest = 0x01
      then let len = (if drop_bit 8 wValue = 0x02 then 6 else XBOX_USB_PAD_REPORT)
           in Some (if len > out_max then None
                    else Some ((memcpy_at out 0 (replicate len 0xFF))[0 := 0x00, 1 := word_of_nat len], len))
      else None)"

definition usb_control_request :: "u8 list \<Rightarrow> u8 list \<Rightarrow> nat \<Rightarrow> 'e usb_world \<Rightarrow> usb_reply \<times> 'e usb_world" where
  "usb_control_request setup out out_max w =
     (let bmRequestType = setup ! 0; bRequest = setup ! 1; wValue = le16 (setup ! 2) (setup ! 3)
      in case (if bmRequestType AND 0x7F = 0x00
               then device_request bRequest wValue out out_max (g_dev w) else None) of
           Some (r, d) \<Rightarrow> (r, w\<lparr>g_dev := d\<rparr>)
         | None \<Rightarrow>
         case (if bmRequestType AND 0x60 = 0x00 \<and> bmRequestType AND 0x1F \<noteq> 0x00
               then interface_request bRequest out out_max else None) of
           Some r \<Rightarrow> (r, w)
         | None \<Rightarrow>
         if bmRequestType AND 0x60 = 0x20 \<and> bmRequestType AND 0x1F = 0x01 \<and> bRequest = 0x01 \<and> drop_bit 8 wValue = 0x01
         then xbox_UsbInterruptIn 1 out out_max w
         else
         case (if bmRequestType AND 0x60 = 0x40 \<and> bmRequestType AND 0x1F = 0x01
               then vendor_request bRequest wValue out out_max else None) of
           Some r \<Rightarrow> (r, w)
         | None \<Rightarrow>
         if bmRequestType AND 0x60 = 0x20 \<and> bmRequestType AND 0x1F = 0x01 \<and> bmRequestType AND 0x80 = 0
            \<and> bRequest = 0x09 \<and> drop_bit 8 wValue = 0x02
         then (Some (out, 0), w)
         else (None, w))"

definition xbox_UsbControlRequest :: "u8 list \<Rightarrow> u8 list \<Rightarrow> nat \<Rightarrow> 'e usb_world \<Rightarrow> usb_reply \<times> 'e usb_world" where
  "xbox_UsbControlRequest setup out out_max w =
     (let wLength = unat (le16 (setup ! 6) (setup ! 7)); (rc, w) = usb_control_request setup out out_max w
      in (map_option (\<lambda>(out, len). (out, if len > wLength then wLength else len)) rc, w))"

end
