(* ===== verification/Usb_Ohci.thy ===== *)
theory Usb_Ohci
  imports Usb_Pad
begin

text \<open>
  The OHCI transfer service of \<open>src/kernel/xbox_usb_ohci.c\<close>: one pass of the host controller over
  a list of endpoint descriptors in guest RAM. Descriptors and buffers are reached through
  \<open>ohci_at\<close>, the flat RAM window or a resolver of the runtime; endpoint and transfer descriptors
  are read and written in place, in the order of the code. The two loops carry their bounds
  (\<open>OHCI_MAX_EDS\<close>, \<open>OHCI_MAX_TDS\<close>) as the remaining count. Bounded traces are not modelled.
\<close>

section \<open>Fields\<close>

definition ED_SKIP :: u32 where "ED_SKIP = 0x00004000"
definition ED_FA :: "u32 \<Rightarrow> u32" where "ED_FA f = f AND 0x7F"
definition ED_EN :: "u32 \<Rightarrow> u32" where "ED_EN f = drop_bit 7 f AND 0x0F"
definition ED_HEAD_HALTED :: u32 where "ED_HEAD_HALTED = 0x1"
definition ED_HEAD_CARRY :: u32 where "ED_HEAD_CARRY = 0x2"
definition TD_ROUNDING :: "u32 \<Rightarrow> u32" where "TD_ROUNDING f = drop_bit 18 f AND 0x1"
definition TD_PID :: "u32 \<Rightarrow> u32" where "TD_PID f = drop_bit 19 f AND 0x3"
definition TD_PID_SETUP :: u32 where "TD_PID_SETUP = 0x0"
definition TD_PID_OUT :: u32 where "TD_PID_OUT = 0x1"
definition TD_PID_IN :: u32 where "TD_PID_IN = 0x2"
definition TD_TOGGLE :: "u32 \<Rightarrow> u32" where "TD_TOGGLE f = drop_bit 24 f AND 0x3"
definition OHCI_MAX_EDS :: nat where "OHCI_MAX_EDS = 32"
definition OHCI_MAX_TDS :: nat where "OHCI_MAX_TDS = 64"

definition XBOX_OHCI_INTR_WDH :: u32 where "XBOX_OHCI_INTR_WDH = 0x00000002"
definition XBOX_OHCI_INTR_MIE :: u32 where "XBOX_OHCI_INTR_MIE = 0x80000000"
definition XBOX_OHCI_CC_NOERROR :: u32 where "XBOX_OHCI_CC_NOERROR = 0x0"
definition XBOX_OHCI_CC_STALL :: u32 where "XBOX_OHCI_CC_STALL = 0x4"
definition XBOX_OHCI_CC_DEVICENOTRESP :: u32 where "XBOX_OHCI_CC_DEVICENOTRESP = 0x5"
definition XBOX_OHCI_CC_NOTACCESSED :: u32 where "XBOX_OHCI_CC_NOTACCESSED = 0xE"
definition XBOX_OHCI_HCCA_FRAME_NUMBER :: nat where "XBOX_OHCI_HCCA_FRAME_NUMBER = 0x80"
definition XBOX_OHCI_HCCA_DONE_HEAD :: nat where "XBOX_OHCI_HCCA_DONE_HEAD = 0x84"
definition XBOX_OHCI_HCCA_SIZE :: u32 where "XBOX_OHCI_HCCA_SIZE = 0x100"

lemmas ohci_cc = XBOX_OHCI_CC_NOERROR_def XBOX_OHCI_CC_STALL_def XBOX_OHCI_CC_DEVICENOTRESP_def
  XBOX_OHCI_CC_NOTACCESSED_def

record xbox_ohci_service =
  ram :: nat
  ram_size :: u32
  resolve :: "(u32 \<Rightarrow> u32 \<Rightarrow> nat option) option"
  hcca :: u32
  head_ed :: u32
  done_head :: u32
  intr_status :: u32
  intr_enable :: u32
  frame_number :: u32
  eds_walked :: nat
  tds_retired :: nat
  published :: bool

definition ohci_at :: "xbox_ohci_service \<Rightarrow> u32 \<Rightarrow> u32 \<Rightarrow> nat option" where
  "ohci_at s va bytes =
     (if va = 0 \<or> bytes = 0 then None
      else case resolve s of
             Some f \<Rightarrow> f va bytes
           | None \<Rightarrow> if va \<ge> ram_size s \<or> bytes > ram_size s - va then None else Some (ram s + unat va))"

section \<open>One transfer descriptor\<close>

definition upd_dev :: "(usb_dev \<Rightarrow> usb_dev) \<Rightarrow> 'e usb_world \<Rightarrow> 'e usb_world" where
  "upd_dev f w = w\<lparr>g_dev := f (g_dev w)\<rparr>"

definition upd_mem :: "(host_memory \<Rightarrow> host_memory) \<Rightarrow> 'e usb_world \<Rightarrow> 'e usb_world" where
  "upd_mem f w = w\<lparr>host_mem := f (host_mem w)\<rparr>"

text \<open>The number of bytes a descriptor asks for: from the current pointer to the end, inclusive.\<close>

definition td_want :: "u32 \<Rightarrow> u32 \<Rightarrow> u32" where
  "td_want cbp be = (if cbp \<noteq> 0 then (if be \<ge> cbp then be - cbp + 1 else 0) else 0)"

definition td_setup :: "nat \<Rightarrow> 'e usb_world \<Rightarrow> 'e usb_world" where
  "td_setup buf w =
     (let setup = load_bytes (host_mem w) buf 8;
          w = upd_dev (\<lambda>d. d\<lparr>data_len := 0, data_off := 0, set_address_valid := False, stalled := False,
                             out_expect := False, out_len := 0\<rparr>) w;
          (rc, w) = xbox_UsbControlRequest setup (dev_data (g_dev w)) XBOX_USB_CTRL_MAX w
      in case rc of
           None \<Rightarrow> upd_dev (\<lambda>d. d\<lparr>stalled := True, data_len := 0\<rparr>) w
         | Some (out, len) \<Rightarrow>
             let w = upd_dev (\<lambda>d. d\<lparr>dev_data := out, data_len := word_of_nat len\<rparr>) w
             in if setup ! 0 AND 0x80 = 0 \<and> setup ! 6 OR setup ! 7 \<noteq> 0
                then upd_dev (\<lambda>d. d\<lparr>dev_setup := setup, out_expect := True\<rparr>) w else w)"

text \<open>
  An IN packet into the buffer: the number of bytes moved, or \<open>None\<close> for a NAK. A buffer that is
  absent (\<open>want = 0\<close>) is never written.
\<close>

definition td_in :: "u32 \<Rightarrow> u32 \<Rightarrow> nat \<Rightarrow> 'e usb_world \<Rightarrow> u32 option \<times> 'e usb_world" where
  "td_in ed_flags want buf w =
     (if ED_EN ed_flags \<noteq> 0
      then let (rc, w) = xbox_UsbInterruptIn (ucast (ED_EN ed_flags)) (replicate XBOX_USB_PAD_REPORT 0) XBOX_USB_PAD_REPORT w
           in case rc of
                None \<Rightarrow> (None, w)
              | Some (report, len) \<Rightarrow>
                  let len = (if word_of_nat len > want then want else word_of_nat len)
                  in (Some len, upd_mem (\<lambda>m. store_bytes m buf (take (unat len) report)) w)
      else let d = g_dev w; left = data_len d - data_off d; left = (if left > want then want else left);
               w = upd_mem (\<lambda>m. store_bytes m buf (take (unat left) (drop (unat (data_off d)) (dev_data d)))) w
           in (Some left, upd_dev (\<lambda>d. d\<lparr>data_off := data_off d + left\<rparr>) w))"

definition td_out :: "u32 \<Rightarrow> u32 \<Rightarrow> nat \<Rightarrow> 'e usb_world \<Rightarrow> 'e usb_world" where
  "td_out ed_flags want buf w =
     (let bytes = load_bytes (host_mem w) buf (unat want)
      in if ED_EN ed_flags \<noteq> 0
         then (if want \<noteq> 0 then xbox_UsbOutputReport bytes w else w)
         else if out_expect (g_dev w) \<and> want \<noteq> 0
         then upd_dev (\<lambda>d. let room = 64 - out_len d; n = (if want < room then want else room)
                           in d\<lparr>out_buf := memcpy_at (out_buf d) (unat (out_len d)) (take (unat n) bytes),
                                out_len := out_len d + n\<rparr>) w
         else w)"

text \<open>The write-back of a retired descriptor: the buffer pointer and the condition code.\<close>

definition td_writeback :: "nat \<Rightarrow> u32 \<Rightarrow> u32 \<Rightarrow> u32 \<Rightarrow> u32 \<Rightarrow> u32 \<Rightarrow> 'e usb_world \<Rightarrow> 'e usb_world" where
  "td_writeback td flags cbp want moved cc w =
     upd_mem (\<lambda>m. let m = store32 m (td + 4) (if moved \<ge> want then 0 else cbp + moved)
                  in store32 m td ((flags AND 0x0FFFFFFF) OR push_bit 28 cc)) w"

definition ohci_run_td :: "xbox_ohci_service \<Rightarrow> u32 \<Rightarrow> nat \<Rightarrow> 'e usb_world \<Rightarrow> u32 \<times> 'e usb_world" where
  "ohci_run_td s ed_flags td w =
     (let flags = load32 (host_mem w) td; cbp = load32 (host_mem w) (td + 4); be = load32 (host_mem w) (td + 12);
          pid = TD_PID flags; want = td_want cbp be;
          at = (if want \<noteq> 0 then ohci_at s cbp want else None); buf = (case at of Some p \<Rightarrow> p | None \<Rightarrow> 0);
          retire = (\<lambda>moved cc w. (cc, td_writeback td flags cbp want moved cc w))
      in if want \<noteq> 0 \<and> at = None then retire 0 XBOX_OHCI_CC_DEVICENOTRESP w
         else if ED_FA ed_flags \<noteq> ucast (address (g_dev w)) then retire 0 XBOX_OHCI_CC_DEVICENOTRESP w
         else if pid = TD_PID_SETUP
         then (if want < 8 then retire 0 XBOX_OHCI_CC_STALL w else retire 8 XBOX_OHCI_CC_NOERROR (td_setup buf w))
         else if stalled (g_dev w) then retire 0 XBOX_OHCI_CC_STALL w
         else if pid = TD_PID_IN
         then (case td_in ed_flags want buf w of
                 (None, w) \<Rightarrow> (XBOX_OHCI_CC_NOTACCESSED, w)
               | (Some moved, w) \<Rightarrow> retire moved XBOX_OHCI_CC_NOERROR w)
         else retire want XBOX_OHCI_CC_NOERROR (td_out ed_flags want buf w))"

definition ohci_end_of_transfer :: "u32 \<Rightarrow> u32 \<Rightarrow> 'e usb_world \<Rightarrow> 'e usb_world" where
  "ohci_end_of_transfer pid want w =
     (if pid = TD_PID_SETUP \<or> want \<noteq> 0 then w
      else let w = (if set_address_valid (g_dev w)
                    then upd_dev (\<lambda>d. d\<lparr>address := set_address d, set_address_valid := False\<rparr>) w else w);
               w = (if out_expect (g_dev w)
                    then let d = g_dev w;
                             w = (if dev_setup d ! 0 AND 0x60 = 0x20 \<and> dev_setup d ! 1 = 0x09 \<and> dev_setup d ! 3 = 0x02
                                  then xbox_UsbOutputReport (take (unat (out_len d)) (out_buf d)) w else w)
                         in upd_dev (\<lambda>d. d\<lparr>out_expect := False, out_len := 0\<rparr>) w
                    else w)
           in upd_dev (\<lambda>d. d\<lparr>stalled := False, data_len := 0, data_off := 0\<rparr>) w)"

section \<open>The walk\<close>

text \<open>The queue of one endpoint; \<open>n\<close> descriptors may still be retired on this pass.\<close>

fun td_walk ::
    "xbox_ohci_service \<Rightarrow> nat \<Rightarrow> u32 \<Rightarrow> u32 \<Rightarrow> nat \<Rightarrow> u32 \<Rightarrow> u32 \<Rightarrow> u32 \<Rightarrow> nat \<Rightarrow> 'e usb_world \<Rightarrow>
     u32 \<times> nat \<times> 'e usb_world" where
  "td_walk s ed flags tail 0 td_va carry done retired w = (done, retired, w)"
| "td_walk s ed flags tail (Suc n) td_va carry done retired w =
     (if td_va = 0 \<or> td_va = tail then (done, retired, w)
      else case ohci_at s td_va 16 of
        None \<Rightarrow> (done, retired, w)
      | Some td \<Rightarrow>
          let f = load32 (host_mem w) td; pid = TD_PID f;
              want = td_want (load32 (host_mem w) (td + 4)) (load32 (host_mem w) (td + 12));
              toggle = TD_TOGGLE f; td_next = load32 (host_mem w) (td + 8) AND NOT 0xF
          in if td_next = 0 \<and> td_va \<noteq> tail \<or> pid = TD_PID_SETUP \<and> want < 8
             then (done, retired,
                   w\<lparr>g_ohci_tds_incomplete := g_ohci_tds_incomplete w + 1, g_ohci_retry_control := True\<rparr>)
             else let (cc, w) = ohci_run_td s flags td w
             in if cc = XBOX_OHCI_CC_NOTACCESSED then (done, retired, w)
             else let w = upd_mem (\<lambda>m. store32 m (td + 8) done) w;
                      w = w\<lparr>g_ohci_tds_retired := g_ohci_tds_retired w + 1\<rparr>;
                      w = (if cc \<noteq> XBOX_OHCI_CC_NOERROR then w\<lparr>g_ohci_tds_error := g_ohci_tds_error w + 1\<rparr> else w);
                      carry = (if toggle AND 2 \<noteq> 0 then toggle AND 1 else carry) XOR 1;
                      carry_bit = (if carry \<noteq> 0 then ED_HEAD_CARRY else 0)
             in if cc \<noteq> XBOX_OHCI_CC_NOERROR
                then (td_va, retired + 1,
                      upd_mem (\<lambda>m. store32 m (ed + 8) (td_next OR ED_HEAD_HALTED OR carry_bit)) w)
                else let w = ohci_end_of_transfer pid want w;
                         w = upd_mem (\<lambda>m. store32 m (ed + 8) (td_next OR carry_bit)) w
                     in td_walk s ed flags tail n td_next carry td_va (retired + 1) w)"

fun ed_walk ::
    "xbox_ohci_service \<Rightarrow> nat \<Rightarrow> u32 \<Rightarrow> nat \<Rightarrow> u32 \<Rightarrow> nat \<Rightarrow> 'e usb_world \<Rightarrow> nat \<times> u32 \<times> nat \<times> 'e usb_world" where
  "ed_walk s 0 ed_va eds done retired w = (eds, done, retired, w)"
| "ed_walk s (Suc n) ed_va eds done retired w =
     (if ed_va = 0 then (eds, done, retired, w)
      else case ohci_at s ed_va 16 of
        None \<Rightarrow> (eds, done, retired, w)
      | Some ed \<Rightarrow>
          let flags = load32 (host_mem w) ed; tail = load32 (host_mem w) (ed + 4) AND NOT 0xF;
              head = load32 (host_mem w) (ed + 8); nxt = load32 (host_mem w) (ed + 12) AND NOT 0xF;
              td_va = head AND NOT 0xF; carry = (if head AND ED_HEAD_CARRY \<noteq> 0 then 1 else 0);
              (done, retired, w) =
                (if flags AND ED_SKIP \<noteq> 0 \<or> head AND ED_HEAD_HALTED \<noteq> 0 then (done, retired, w)
                 else td_walk s ed flags tail OHCI_MAX_TDS td_va carry done retired w)
          in if nxt = ed_va then (eds + 1, done, retired, w)
             else ed_walk s n nxt (eds + 1) done retired w)"

text \<open>The copy of the done queue in the communications area.\<close>

definition hcca_publish :: "xbox_ohci_service \<Rightarrow> u32 \<Rightarrow> 'e usb_world \<Rightarrow> 'e usb_world" where
  "hcca_publish s done w =
     (let other = intr_status s AND intr_enable s AND NOT XBOX_OHCI_INTR_WDH AND NOT XBOX_OHCI_INTR_MIE
      in case ohci_at s (hcca s AND NOT 0xFF) XBOX_OHCI_HCCA_SIZE of
           None \<Rightarrow> w
         | Some p \<Rightarrow>
             upd_mem (\<lambda>m. let fn = p + XBOX_OHCI_HCCA_FRAME_NUMBER; dh = p + XBOX_OHCI_HCCA_DONE_HEAD;
                              m = store32 m fn ((load32 m fn AND 0xFFFF0000) OR (frame_number s AND 0xFFFF))
                          in store32 m dh (done OR (if other \<noteq> 0 then 1 else 0))) w)"

definition xbox_OhciServiceList :: "xbox_ohci_service \<Rightarrow> 'e usb_world \<Rightarrow> nat \<times> xbox_ohci_service \<times> 'e usb_world" where
  "xbox_OhciServiceList s w =
     (if ram s = 0 \<or> ram_size s = 0 then (0, s, w)
      else let (eds, done, retired, w) = ed_walk s OHCI_MAX_EDS (head_ed s AND NOT 0xF) 0 (done_head s) 0 w;
               s = s\<lparr>eds_walked := eds, tds_retired := retired, published := False\<rparr>
           in if intr_status s AND XBOX_OHCI_INTR_WDH \<noteq> 0 then (retired, s\<lparr>done_head := done\<rparr>, w)
              else if done = 0 then (retired, s\<lparr>done_head := 0\<rparr>, w)
              else (retired,
                    s\<lparr>intr_status := intr_status s OR XBOX_OHCI_INTR_WDH, published := True, done_head := 0\<rparr>,
                    hcca_publish s done w))"

section \<open>What the device leaves alone\<close>

lemma upd_sel [simp]:
  "host_mem (upd_dev f w) = host_mem w" "g_dev (upd_dev f w) = f (g_dev w)"
  "g_pad_state (upd_dev f w) = g_pad_state w"
  "host_mem (upd_mem h w) = h (host_mem w)" "g_dev (upd_mem h w) = g_dev w"
  "g_pad_state (upd_mem h w) = g_pad_state w"
  by (simp_all add: upd_dev_def upd_mem_def)

lemma pad_read_sel [simp]:
  "host_mem (snd (xbox_UsbPadReadHost r w)) = host_mem w"
  "g_dev (snd (xbox_UsbPadReadHost r w)) = g_dev w"
  "g_pad_state (snd (xbox_UsbPadReadHost r w)) = g_pad_state w"
  by (simp_all add: xbox_UsbPadReadHost_def split: option.split prod.split)

lemma interrupt_in_sel [simp]:
  "host_mem (snd (xbox_UsbInterruptIn e out k w)) = host_mem w"
  "g_dev (snd (xbox_UsbInterruptIn e out k w)) = g_dev w"
  "g_pad_state (snd (xbox_UsbInterruptIn e out k w)) = g_pad_state w"
  using pad_read_sel [of "(replicate XBOX_USB_PAD_REPORT 0)[0 := 0x00, 1 := word_of_nat XBOX_USB_PAD_REPORT]" w]
  by (auto simp: xbox_UsbInterruptIn_def Let_def simp del: pad_read_sel split: prod.splits)

lemma output_report_sel [simp]:
  "host_mem (xbox_UsbOutputReport bs w) = host_mem w"
  "g_dev (xbox_UsbOutputReport bs w) = g_dev w"
  "g_pad_state (xbox_UsbOutputReport bs w) = g_pad_state w"
  by (simp_all add: xbox_UsbOutputReport_def Let_def split: option.split)

text \<open>What holds of every group's reply holds of the request.\<close>

lemma usb_control_request_cases:
  assumes "\<And>b v r d. device_request b v out k (g_dev w) = Some (r, d) \<Longrightarrow> P (r, w\<lparr>g_dev := d\<rparr>)"
    and "\<And>b r. interface_request b out k = Some r \<Longrightarrow> P (r, w)"
    and "\<And>b v r. vendor_request b v out k = Some r \<Longrightarrow> P (r, w)"
    and "P (xbox_UsbInterruptIn 1 out k w)" "P (Some (out, 0), w)" "P (None, w)"
  shows "P (usb_control_request sp out k w)"
proof -
  have "P (case (if c1 then g1 else None) of Some (r, d) \<Rightarrow> (r, w\<lparr>g_dev := d\<rparr>)
      | None \<Rightarrow> case (if c2 then g2 else None) of Some r \<Rightarrow> (r, w)
      | None \<Rightarrow> if c3 then xbox_UsbInterruptIn 1 out k w
      else case (if c4 then g4 else None) of Some r \<Rightarrow> (r, w)
      | None \<Rightarrow> if c5 then (Some (out, 0), w) else (None, w))"
    if "\<And>r d. g1 = Some (r, d) \<Longrightarrow> P (r, w\<lparr>g_dev := d\<rparr>)" "\<And>r. g2 = Some r \<Longrightarrow> P (r, w)"
      "\<And>r. g4 = Some r \<Longrightarrow> P (r, w)" for c1 c2 c3 c4 c5 g1 g2 g4
    using that assms(4-6) by (auto split: option.split)
  from this [OF assms(1,2,3)] show ?thesis unfolding usb_control_request_def Let_def .
qed

lemma usb_request_mem [simp]:
  "host_mem (snd (usb_control_request sp out k w)) = host_mem w"
  "g_pad_state (snd (usb_control_request sp out k w)) = g_pad_state w"
  by (auto simp: usb_control_request_def Let_def split: option.split)

lemma control_request_mem [simp]:
  "host_mem (snd (xbox_UsbControlRequest sp out k w)) = host_mem w"
  "g_pad_state (snd (xbox_UsbControlRequest sp out k w)) = g_pad_state w"
  using usb_request_mem [of sp out k w]
  by (auto simp: xbox_UsbControlRequest_def Let_def simp del: usb_request_mem split: prod.splits)

lemma td_setup_mem [simp]: "host_mem (td_setup buf w) = host_mem w" "g_pad_state (td_setup buf w) = g_pad_state w"
  by (auto simp: td_setup_def Let_def simp del: control_request_mem split: prod.splits option.splits)
     (metis control_request_mem snd_conv upd_sel)+

lemma td_out_mem [simp]: "host_mem (td_out f want buf w) = host_mem w" "g_pad_state (td_out f want buf w) = g_pad_state w"
  by (simp_all add: td_out_def Let_def)

lemma end_of_transfer_mem [simp]:
  "host_mem (ohci_end_of_transfer pid want w) = host_mem w"
  "g_pad_state (ohci_end_of_transfer pid want w) = g_pad_state w"
  by (simp_all add: ohci_end_of_transfer_def Let_def)

lemma clamp_le: "unat (if (l :: 'a::len word) > w then w else l) \<le> unat w"
  by (auto simp: word_less_nat_alt)

lemma store_take_outside:
  "k \<le> n \<Longrightarrow> q < p \<or> p + n \<le> q \<Longrightarrow> store_bytes m p (take k bs) q = m q"
  by (rule store_bytes_outside) auto

lemma td_in_mem:
  assumes "q < buf \<or> buf + unat want \<le> q"
  shows "host_mem (snd (td_in f want buf w)) q = host_mem w q"
proof (cases "ED_EN f = 0")
  case True
  then show ?thesis
    unfolding td_in_def Let_def by (simp add: store_take_outside [OF clamp_le assms] del: take_drop)
next
  case False
  obtain rc w' where i: "xbox_UsbInterruptIn (ucast (ED_EN f)) (replicate XBOX_USB_PAD_REPORT 0) XBOX_USB_PAD_REPORT w = (rc, w')"
    by fastforce
  then have "host_mem w' = host_mem w" using interrupt_in_sel(1) [of "ucast (ED_EN f)"] by (metis snd_conv)
  then show ?thesis
    using False i unfolding td_in_def Let_def
    by (auto simp add: store_take_outside [OF clamp_le assms] split: option.split)
qed

lemma td_in_hook [simp]: "g_pad_state (snd (td_in f want buf w)) = g_pad_state w"
  using interrupt_in_sel(3) [of "ucast (ED_EN f)" "replicate XBOX_USB_PAD_REPORT 0" XBOX_USB_PAD_REPORT w]
  by (auto simp: td_in_def Let_def simp del: interrupt_in_sel split: prod.splits option.splits)

section \<open>Memory safety\<close>

text \<open>The host bytes the service can name: those of some range that \<open>ohci_at\<close> maps.\<close>

definition reaches :: "xbox_ohci_service \<Rightarrow> nat \<Rightarrow> bool" where
  "reaches s q \<longleftrightarrow> (\<exists>va n a. ohci_at s va n = Some a \<and> a \<le> q \<and> q < a + unat n)"

definition untouched :: "xbox_ohci_service \<Rightarrow> host_memory \<Rightarrow> host_memory \<Rightarrow> bool" where
  "untouched s m m' \<longleftrightarrow> (\<forall>q. \<not> reaches s q \<longrightarrow> m' q = m q)"

named_theorems untouched_intros

lemma untouched_refl [untouched_intros]: "untouched s m m"
  by (simp add: untouched_def)

lemma untouched_trans: "untouched s m m' \<Longrightarrow> untouched s m' m'' \<Longrightarrow> untouched s m m''"
  by (simp add: untouched_def)

lemma untouched_store32:
  assumes "ohci_at s va n = Some a" "k + 4 \<le> unat n" "untouched s m m'"
  shows "untouched s m (store32 m' (a + k) v)"
  unfolding untouched_def
proof (intro allI impI)
  fix q assume q: "\<not> reaches s q"
  then have "q < a \<or> a + unat n \<le> q" using assms(1) unfolding reaches_def by fastforce
  then have "q < a + k \<or> a + k + 4 \<le> q" using assms(2) by linarith
  then show "store32 m' (a + k) v q = m q" using q assms(3) by (simp add: store32_outside untouched_def)
qed

lemma run_td_other:
  assumes "q < td \<or> td + 8 \<le> q"
    "\<And>a. ohci_at s (load32 (host_mem w) (td + 4)) (td_want (load32 (host_mem w) (td + 4)) (load32 (host_mem w) (td + 12))) = Some a \<Longrightarrow>
      q < a \<or> a + unat (td_want (load32 (host_mem w) (td + 4)) (load32 (host_mem w) (td + 12))) \<le> q"
  shows "host_mem (snd (ohci_run_td s f td w)) q = host_mem w q"
proof -
  define cbp where "cbp = load32 (host_mem w) (td + 4)"
  define want where "want = td_want cbp (load32 (host_mem w) (td + 12))"
  define buf where "buf = (case if want \<noteq> 0 then ohci_at s cbp want else None of Some p \<Rightarrow> p | None \<Rightarrow> 0)"
  have wb: "host_mem (td_writeback td fl c wa mo cc w') q = host_mem w' q" for fl c wa mo cc and w' :: "'a usb_world"
    using assms(1) by (auto simp: td_writeback_def Let_def store32_outside)
  have io: "host_mem (snd (td_in f want buf w)) q = host_mem w q" if "\<not> (want \<noteq> 0 \<and> ohci_at s cbp want = None)"
  proof (cases "want = 0")
    case True
    then show ?thesis using td_in_mem [of q "q + 1" 0 f w] td_in_mem [of q 0 0 f w] by (cases "q < buf") (auto intro: td_in_mem)
  next
    case False
    then show ?thesis using that assms(2) by (intro td_in_mem) (auto simp: buf_def want_def cbp_def)
  qed
  show ?thesis
    unfolding ohci_run_td_def Let_def cbp_def [symmetric] want_def [symmetric] buf_def [symmetric]
    using io by (auto simp: wb split: prod.split option.split simp flip: buf_def)
qed

lemma untouched_run_td:
  assumes "ohci_at s va 16 = Some td"
  shows "untouched s (host_mem w) (host_mem (snd (ohci_run_td s f td w)))"
  unfolding untouched_def
proof (intro allI impI)
  fix q assume q: "\<not> reaches s q"
  then have "q < td \<or> td + 8 \<le> q" using assms unfolding reaches_def by fastforce
  then show "host_mem (snd (ohci_run_td s f td w)) q = host_mem w q"
    by (rule run_td_other) (use q in \<open>auto simp: reaches_def not_le not_less\<close>)
qed

lemma ohci_at_fields:
  "ram s' = ram s \<Longrightarrow> ram_size s' = ram_size s \<Longrightarrow> resolve s' = resolve s \<Longrightarrow> ohci_at s' = ohci_at s"
  by (intro ext) (simp add: ohci_at_def split: option.split)

section \<open>Invariants of the service\<close>

text \<open>
  What every pass keeps is kept by its five kinds of steps: running a descriptor, linking it into
  the done queue, moving the endpoint's head, ending a transfer, counting, and publishing.
\<close>

locale service_invariant =
  fixes s :: xbox_ohci_service and I :: "'e usb_world \<Rightarrow> bool"
  assumes run: "I w \<Longrightarrow> ohci_at s va 16 = Some td \<Longrightarrow> I (snd (ohci_run_td s f td w))"
    and store: "I w \<Longrightarrow> ohci_at s va n = Some a \<Longrightarrow> k + 4 \<le> unat n \<Longrightarrow> I (upd_mem (\<lambda>m. store32 m (a + k) v) w)"
    and transfer: "I w \<Longrightarrow> I (ohci_end_of_transfer pid want w)"
    and count: "I w \<Longrightarrow> I (w\<lparr>g_ohci_tds_retired := x\<rparr>)" "I w \<Longrightarrow> I (w\<lparr>g_ohci_tds_error := x\<rparr>)"
      "I w \<Longrightarrow> I (w\<lparr>g_ohci_tds_incomplete := x, g_ohci_retry_control := True\<rparr>)"
begin

lemma store8: "I w \<Longrightarrow> ohci_at s va 16 = Some a \<Longrightarrow> I (upd_mem (\<lambda>m. store32 m (a + 8) v) w)"
  by (rule store [where n = 16 and k = 8]) simp_all

lemma td_walk_keeps:
  "ohci_at s ed_va 16 = Some ed \<Longrightarrow> I w \<Longrightarrow> I (snd (snd (td_walk s ed f tail n td_va carry done retired w)))"
proof (induction n arbitrary: td_va carry "done" retired w)
  case (Suc n)
  note step = store8 [OF _ Suc.prems(1)]
  show ?case
  proof (cases "ohci_at s td_va 16")
    case None
    then show ?thesis using Suc.prems by simp
  next
    case (Some td)
    obtain cc w' where r: "ohci_run_td s f td w = (cc, w')" by fastforce
    then have "I w'" using run [OF Suc.prems(2) Some, of f] by simp
    then show ?thesis
      using Some Suc.prems(2) r
      by (simp add: Let_def count) (auto intro!: count step store8 [OF _ Some] Suc.IH [OF Suc.prems(1)] transfer)
  qed
qed simp

lemma ed_walk_keeps: "I w \<Longrightarrow> I (snd (snd (snd (ed_walk s n ed_va eds done retired w))))"
proof (induction n arbitrary: ed_va eds "done" retired w)
  case (Suc n)
  show ?case
  proof (cases "ohci_at s ed_va 16")
    case None
    then show ?thesis using Suc.prems by simp
  next
    case (Some ed)
    show ?thesis
      using Some Suc.prems Suc.IH td_walk_keeps [OF Some Suc.prems]
      by (auto simp: Let_def split: prod.split if_splits) (metis snd_conv)+
  qed
qed simp

lemma publish_keeps:
  assumes "I w" "ohci_at s' = ohci_at s"
  shows "I (hcca_publish s' d w)"
proof -
  have two: "upd_mem (\<lambda>m. store32 (store32 m p (g m)) q v) w =
      upd_mem (\<lambda>m. store32 m q v) (upd_mem (\<lambda>m. store32 m p (g (host_mem w))) w)" for p q g v
    by (simp add: upd_mem_def)
  show ?thesis
    using assms unfolding Let_def by (auto simp: hcca_publish_def Let_def two XBOX_OHCI_HCCA_FRAME_NUMBER_def XBOX_OHCI_HCCA_DONE_HEAD_def
        XBOX_OHCI_HCCA_SIZE_def split: option.split intro!: store)
qed

lemma service_keeps: "I w \<Longrightarrow> I (snd (snd (xbox_OhciServiceList s w)))"
  using ed_walk_keeps [of w OHCI_MAX_EDS "head_ed s AND NOT 0xF" 0 "done_head s" 0]
  by (auto simp: xbox_OhciServiceList_def Let_def intro!: publish_keeps ohci_at_fields split: prod.split)

end

section \<open>The service stays inside the RAM window\<close>

lemma counters_mem [simp]:
  "host_mem (w\<lparr>g_ohci_tds_retired := x\<rparr>) = host_mem w" "host_mem (w\<lparr>g_ohci_tds_error := x\<rparr>) = host_mem w"
  "host_mem (w\<lparr>g_ohci_tds_incomplete := x, g_ohci_retry_control := b\<rparr>) = host_mem w"
  by simp_all

interpretation inside_window: service_invariant s "\<lambda>w. untouched s m (host_mem w)" for s m
  by unfold_locales (auto intro: untouched_store32 untouched_trans [OF _ untouched_run_td])

lemma flat_window_reaches:
  assumes "resolve s = None" "reaches s q"
  shows "ram s \<le> q \<and> q < ram s + unat (ram_size s)"
proof -
  obtain va n a where a: "ohci_at s va n = Some a" "a \<le> q" "q < a + unat n"
    using assms(2) by (auto simp: reaches_def)
  then have "va < ram_size s" "n \<le> ram_size s - va" "a = ram s + unat va"
    using assms(1) by (auto simp: ohci_at_def split: if_splits)
  moreover from this have "unat va + unat n \<le> unat (ram_size s)"
    by (simp add: word_le_nat_alt word_less_nat_alt unat_sub)
  ultimately show ?thesis using a by simp
qed

text \<open>
  Claim C18: Whatever the guest wrote in its descriptors, a pass of the host controller over
  the flat window writes no host byte outside guest RAM.
\<close>

theorem service_stays_in_ram:
  assumes "resolve s = None" "q < ram s \<or> ram s + unat (ram_size s) \<le> q"
  shows "host_mem (snd (snd (xbox_OhciServiceList s w))) q = host_mem w q"
proof -
  have "\<not> reaches s q" using flat_window_reaches [OF assms(1)] assms(2) by fastforce
  then show ?thesis
    using inside_window.service_keeps [of s "host_mem w" w] by (simp add: untouched_def)
qed

section \<open>The device invariant\<close>

definition dev_ok :: "usb_dev \<Rightarrow> bool" where
  "dev_ok d \<longleftrightarrow> length (dev_data d) = XBOX_USB_CTRL_MAX \<and> unat (data_len d) \<le> XBOX_USB_CTRL_MAX \<and> data_off d \<le> data_len d
     \<and> length (dev_setup d) = 8 \<and> length (out_buf d) = XBOX_USB_CTRL_MAX \<and> unat (out_len d) \<le> XBOX_USB_CTRL_MAX
     \<and> address d < 128 \<and> (set_address_valid d \<longrightarrow> set_address d < 128)"

definition hook_ok :: "(u8 list \<Rightarrow> 'e \<Rightarrow> int \<times> u8 list \<times> 'e) option \<Rightarrow> bool" where
  "hook_ok h \<longleftrightarrow> (\<forall>f. h = Some f \<longrightarrow> (\<forall>r e. length (fst (snd (f r e))) = length r))"

definition usb_ok :: "'e usb_world \<Rightarrow> bool" where
  "usb_ok w \<longleftrightarrow> dev_ok (g_dev w) \<and> hook_ok (g_pad_state w)"

lemmas usb_sizes = XBOX_USB_CTRL_MAX_def XBOX_USB_PAD_REPORT_def

lemma and_7F: "ucast (v AND 0x7F) < (128 :: u8)" for v :: u16
proof -
  have "unat (v AND 0x7F) < 128" using word_and_le1 [of v "0x7F"] by (simp add: word_le_nat_alt)
  then show ?thesis by (simp add: word_less_nat_alt unsigned_ucast_eq take_bit_nat_eq_self)
qed

text \<open>A reply fits the buffer it was given.\<close>

definition fits :: "u8 list \<Rightarrow> usb_reply \<Rightarrow> bool" where
  "fits out r \<longleftrightarrow> (\<forall>out' n. r = Some (out', n) \<longrightarrow> length out' = length out \<and> n \<le> length out)"

lemma fits_None [simp]: "fits out None"
  by (simp add: fits_def)

lemma fits_Some [simp]: "fits out (Some (out', n)) \<longleftrightarrow> length out' = length out \<and> n \<le> length out"
  by (simp add: fits_def)

lemma fits_usb_copy: "fits out (usb_copy src out (length out))"
  by (auto simp: usb_copy_def memcpy_at_def Let_def)

lemma pad_read_length:
  "hook_ok (g_pad_state w) \<Longrightarrow> length (snd (fst (xbox_UsbPadReadHost r w))) = length r"
  by (auto simp: xbox_UsbPadReadHost_def hook_ok_def split: option.split prod.split) (metis fst_conv snd_conv)

lemma interrupt_in_fits:
  assumes "hook_ok (g_pad_state w)"
  shows "fits out (fst (xbox_UsbInterruptIn e out (length out) w))"
proof -
  let ?r = "(replicate XBOX_USB_PAD_REPORT 0)[0 := 0x00, 1 := word_of_nat XBOX_USB_PAD_REPORT] :: u8 list"
  obtain rc r' w' where "xbox_UsbPadReadHost ?r w = ((rc, r'), w')" by (metis surj_pair)
  then show ?thesis
    using pad_read_length [OF assms, of ?r] by (auto simp: xbox_UsbInterruptIn_def Let_def memcpy_at_def)
qed

lemma request_groups_fit:
  "2 \<le> length out \<Longrightarrow> device_request b v out (length out) d = Some (r, d') \<Longrightarrow> fits out r"
  "2 \<le> length out \<Longrightarrow> interface_request b out (length out) = Some r \<Longrightarrow> fits out r"
  "2 \<le> length out \<Longrightarrow> vendor_request b v out (length out) = Some r \<Longrightarrow> fits out r"
  by (auto simp: device_request_def interface_request_def vendor_request_def two_zeros_def fits_usb_copy Let_def
      memcpy_at_def split: if_splits)

lemma control_request_fits:
  assumes "hook_ok (g_pad_state w)" "2 \<le> length out"
  shows "fits out (fst (xbox_UsbControlRequest sp out (length out) w))"
proof -
  have "fits out (fst (usb_control_request sp out (length out) w))"
    by (rule usb_control_request_cases)
      (use request_groups_fit [OF assms(2)] interrupt_in_fits [OF assms(1)] in \<open>simp_all\<close>)
  then show ?thesis
    by (cases "usb_control_request sp out (length out) w")
      (auto simp: xbox_UsbControlRequest_def Let_def fits_def split: prod.splits)
qed

lemma device_request_dev:
  assumes "dev_ok d" "device_request b v out k d = Some (r, d')"
  shows "dev_ok d' \<and> data_len d' = data_len d \<and> data_off d' = data_off d"
  using assms by (auto simp: device_request_def dev_ok_def and_7F split: if_splits)

lemma control_request_dev:
  assumes "dev_ok (g_dev w)"
  shows "dev_ok (g_dev (snd (xbox_UsbControlRequest sp out k w))) \<and>
    data_off (g_dev (snd (xbox_UsbControlRequest sp out k w))) = data_off (g_dev w)"
proof -
  have "dev_ok (g_dev (snd (usb_control_request sp out k w))) \<and>
    data_off (g_dev (snd (usb_control_request sp out k w))) = data_off (g_dev w)"
    by (rule usb_control_request_cases) (use assms device_request_dev [OF assms] in simp_all)
  then show ?thesis
    by (cases "usb_control_request sp out k w") (simp add: xbox_UsbControlRequest_def Let_def)
qed

lemma td_setup_ok:
  assumes "usb_ok w"
  shows "usb_ok (td_setup buf w)"
proof -
  define sp where "sp = load_bytes (host_mem w) buf 8"
  define w1 where "w1 = upd_dev (\<lambda>d. d\<lparr>data_len := 0, data_off := 0, set_address_valid := False, stalled := False,
                             out_expect := False, out_len := 0\<rparr>) w"
  obtain rc w2 where r: "xbox_UsbControlRequest sp (dev_data (g_dev w1)) XBOX_USB_CTRL_MAX w1 = (rc, w2)" by fastforce
  have ok: "dev_ok (g_dev w1)" "hook_ok (g_pad_state w1)" "length (dev_data (g_dev w1)) = XBOX_USB_CTRL_MAX"
    using assms by (simp_all add: w1_def usb_ok_def dev_ok_def)
  have fit: "fits (dev_data (g_dev w1)) rc" using control_request_fits [OF ok(2), of "dev_data (g_dev w1)" sp] r ok(3)
    by (simp add: usb_sizes)
  have "g_pad_state w2 = g_pad_state w1" by (metis r snd_conv control_request_mem(2))
  then have ok2: "dev_ok (g_dev w2)" "data_off (g_dev w2) = 0" "g_pad_state w2 = g_pad_state w"
    using control_request_dev [OF ok(1), of sp "dev_data (g_dev w1)" XBOX_USB_CTRL_MAX] r
    by (simp_all add: w1_def)
  have len: "unat (word_of_nat n :: u32) = n" if "n \<le> 64" for n
    using that by (simp add: unat_of_nat)
  have eq: "td_setup buf w = (case rc of
           None \<Rightarrow> upd_dev (\<lambda>d. d\<lparr>stalled := True, data_len := 0\<rparr>) w2
         | Some (out, len) \<Rightarrow>
             let w = upd_dev (\<lambda>d. d\<lparr>dev_data := out, data_len := word_of_nat len\<rparr>) w2
             in if sp ! 0 AND 0x80 = 0 \<and> sp ! 6 OR sp ! 7 \<noteq> 0
                then upd_dev (\<lambda>d. d\<lparr>dev_setup := sp, out_expect := True\<rparr>) w else w)"
    unfolding td_setup_def Let_def sp_def [symmetric] w1_def [symmetric] r by simp
  have "length sp = 8" by (simp add: sp_def)
  then show ?thesis
    unfolding eq using ok2 fit ok(3) assms
    by (auto simp: usb_ok_def dev_ok_def Let_def len usb_sizes split: option.split)
qed


lemma td_in_ok:
  assumes "usb_ok w"
  shows "usb_ok (snd (td_in f want buf w))"
proof (cases "ED_EN f = 0")
  case True
  have "x \<le> y \<Longrightarrow> x + (if y - x > want then want else y - x) \<le> y" for x y :: u32
    by (simp add: word_le_nat_alt word_less_nat_alt unat_word_ariths unat_sub split: if_splits)
      (use unat_u32_lt [of y] in linarith)
  then show ?thesis
    using True assms by (simp add: td_in_def Let_def usb_ok_def dev_ok_def)
next
  case False
  obtain rc w' where i: "xbox_UsbInterruptIn (ucast (ED_EN f)) (replicate XBOX_USB_PAD_REPORT 0) XBOX_USB_PAD_REPORT w = (rc, w')"
    by fastforce
  have "g_dev w' = g_dev w" "g_pad_state w' = g_pad_state w"
    by (metis i snd_conv interrupt_in_sel(2), metis i snd_conv interrupt_in_sel(3))
  then show ?thesis
    using False i assms by (auto simp add: td_in_def Let_def usb_ok_def split: option.split)
qed

lemma td_out_ok:
  assumes "usb_ok w"
  shows "usb_ok (td_out f want buf w)"
proof -
  have fit: "unat x + unat (if want < 64 - x then want else 64 - x) \<le> 64" if "unat x \<le> 64" for x :: u32
    using that by (simp add: word_less_nat_alt unat_sub word_le_nat_alt) linarith
  have sum: "unat (x + (if want < 64 - x then want else 64 - x)) \<le> 64" if "unat x \<le> 64" for x :: u32
    using fit [OF that] unat_plus_if_size [of x "if want < 64 - x then want else 64 - x"] by (simp split: if_splits)
  have "dev_ok (let room = 64 - out_len d; n = (if want < room then want else room)
                 in d\<lparr>out_buf := memcpy_at (out_buf d) (unat (out_len d)) (take (unat n) bytes), out_len := out_len d + n\<rparr>)"
    if d: "dev_ok d" for d bytes
  proof -
    define n where "n = (if want < 64 - out_len d then want else 64 - out_len d)"
    have x: "unat (out_len d) \<le> 64" "length (out_buf d) = 64" using d by (simp_all add: dev_ok_def usb_sizes)
    have "unat (out_len d) + length (take (unat n) bytes) \<le> 64" using fit [OF x(1)] by (simp add: n_def)
    then show ?thesis
      unfolding Let_def n_def [symmetric]
      using d x sum [OF x(1)] by (simp add: dev_ok_def usb_sizes length_memcpy_at n_def)
  qed
  then show ?thesis
    using assms by (auto simp: td_out_def usb_ok_def Let_def)
qed

lemma end_of_transfer_ok: "usb_ok w \<Longrightarrow> usb_ok (ohci_end_of_transfer pid want w)"
  by (auto simp: ohci_end_of_transfer_def Let_def usb_ok_def dev_ok_def)

lemma writeback_ok [simp]: "usb_ok (td_writeback td f c want moved cc w) = usb_ok w"
  by (simp add: td_writeback_def usb_ok_def)

lemma run_td_ok:
  assumes "usb_ok w"
  shows "usb_ok (snd (ohci_run_td s f td w))"
  using td_setup_ok [OF assms] td_out_ok [OF assms] td_in_ok [OF assms] assms
  unfolding ohci_run_td_def Let_def
  by (auto split: prod.split option.split) (metis snd_conv)+

interpretation device: service_invariant s usb_ok for s
  by unfold_locales (auto simp: run_td_ok end_of_transfer_ok, simp_all add: usb_ok_def)

text \<open>
  The device through its life: reset, passes of the service over any schedule, and guest code
  that rewrites memory in any way between them.
\<close>

inductive usb_reach :: "'e usb_world \<Rightarrow> bool" where
  plugged: "hook_ok (g_pad_state w) \<Longrightarrow> usb_reach (xbox_UsbDeviceReset w)"
| reset: "usb_reach w \<Longrightarrow> usb_reach (xbox_UsbDeviceReset w)"
| service: "usb_reach w \<Longrightarrow> usb_reach (snd (snd (xbox_OhciServiceList s w)))"
| guest: "usb_reach w \<Longrightarrow> usb_reach (w\<lparr>host_mem := m\<rparr>)"
| host: "usb_reach w \<Longrightarrow> usb_reach (w\<lparr>host_env := e\<rparr>)"
| hook: "usb_reach w \<Longrightarrow> hook_ok h \<Longrightarrow> usb_reach (xbox_SetUsbPadStateHook h w)"
| rumble: "usb_reach w \<Longrightarrow> usb_reach (xbox_SetUsbPadRumbleHook r w)"

text \<open>
  Claim C26: Through resets, service passes over arbitrary guest memory and hook changes the
  device's reply never exceeds its 64-byte buffer, the read offset stays within the reply,
  the collected output stays within its buffer and the address stays below 128.
\<close>

theorem device_stays_well_formed:
  assumes "usb_reach w"
  shows "dev_ok (g_dev w)"
proof -
  have "usb_ok w" using assms
  proof induction
    case (service w s)
    then show ?case by (intro device.service_keeps)
  qed (simp_all add: usb_ok_def xbox_UsbDeviceReset_def dev_ok_def xbox_SetUsbPadStateHook_def
      xbox_SetUsbPadRumbleHook_def XBOX_USB_CTRL_MAX_def)
  then show ?thesis by (simp add: usb_ok_def)
qed

section \<open>The done queue\<close>

definition td_ptr :: "xbox_ohci_service \<Rightarrow> u32 \<Rightarrow> nat" where
  "td_ptr s v = the (ohci_at s v 16)"

definition td_next_of :: "xbox_ohci_service \<Rightarrow> host_memory \<Rightarrow> u32 \<Rightarrow> u32" where
  "td_next_of s m v = load32 m (td_ptr s v + 8)"

text \<open>The descriptors an endpoint has queued, from its head up to its tail.\<close>

fun queued :: "xbox_ohci_service \<Rightarrow> host_memory \<Rightarrow> u32 \<Rightarrow> u32 list \<Rightarrow> u32 \<Rightarrow> bool" where
  "queued s m va [] tail \<longleftrightarrow> va = tail"
| "queued s m va (v # vs) tail \<longleftrightarrow> va = v \<and> v \<noteq> 0 \<and> v \<noteq> tail \<and> ohci_at s v 16 \<noteq> None
     \<and> queued s m (td_next_of s m v AND NOT 0xF) vs tail"

text \<open>A list of descriptors linked through their third word.\<close>

fun linked :: "xbox_ohci_service \<Rightarrow> host_memory \<Rightarrow> u32 \<Rightarrow> u32 list \<Rightarrow> u32 \<Rightarrow> bool" where
  "linked s m d [] e \<longleftrightarrow> d = e"
| "linked s m d (x # xs) e \<longleftrightarrow> d = x \<and> linked s m (td_next_of s m x) xs e"

definition td_buffer :: "xbox_ohci_service \<Rightarrow> host_memory \<Rightarrow> u32 \<Rightarrow> (nat \<times> nat) option" where
  "td_buffer s m v = (let p = td_ptr s v; cbp = load32 m (p + 4); want = td_want cbp (load32 m (p + 12))
     in map_option (\<lambda>a. (a, unat want)) (ohci_at s cbp want))"

text \<open>
  The driver keeps its structures apart: the endpoint and the queued descriptors do not overlap,
  and no descriptor's buffer overlaps a descriptor.
\<close>

definition kept_apart :: "xbox_ohci_service \<Rightarrow> host_memory \<Rightarrow> nat \<Rightarrow> u32 list \<Rightarrow> bool" where
  "kept_apart s m ed vs \<longleftrightarrow>
     (\<forall>v \<in> set vs. disjoint_ranges ed 16 (td_ptr s v) 16)
     \<and> (\<forall>v \<in> set vs. \<forall>v' \<in> set vs. v \<noteq> v' \<longrightarrow> disjoint_ranges (td_ptr s v) 16 (td_ptr s v') 16)
     \<and> (\<forall>v \<in> set vs. \<forall>v' \<in> set vs. \<forall>a k. td_buffer s m v = Some (a, k) \<longrightarrow> disjoint_ranges a k (td_ptr s v') 16)"

definition same_tds :: "xbox_ohci_service \<Rightarrow> u32 list \<Rightarrow> host_memory \<Rightarrow> host_memory \<Rightarrow> bool" where
  "same_tds s vs m m' \<longleftrightarrow> (\<forall>v \<in> set vs. \<forall>i < 16. m' (td_ptr s v + i) = m (td_ptr s v + i))"

lemma same_tds_load:
  assumes "same_tds s vs m m'" "v \<in> set vs" "k + 4 \<le> 16"
  shows "load32 m' (td_ptr s v + k) = load32 m (td_ptr s v + k)"
  using assms by (intro load32_cong) (simp add: same_tds_def add.assoc)

lemma same_tds_fields:
  assumes "same_tds s vs m m'" "v \<in> set vs"
  shows "td_next_of s m' v = td_next_of s m v" "td_buffer s m' v = td_buffer s m v"
  using same_tds_load [OF assms, of 4] same_tds_load [OF assms, of 8] same_tds_load [OF assms, of 12]
  by (simp_all add: td_next_of_def td_buffer_def Let_def)

lemma queued_cong: "same_tds s vs m m' \<Longrightarrow> queued s m' va vs tail = queued s m va vs tail"
proof (induction vs arbitrary: va)
  case (Cons v vs)
  have "same_tds s vs m m'" using Cons.prems by (simp add: same_tds_def)
  then show ?case using Cons.IH same_tds_fields(1) [OF Cons.prems, of v] by simp
qed simp

lemma linked_cong: "(\<And>v. v \<in> set vs \<Longrightarrow> td_next_of s m' v = td_next_of s m v) \<Longrightarrow> linked s m' d vs e = linked s m d vs e"
  by (induction vs arbitrary: d) simp_all

lemma linked_append: "linked s m d (xs @ ys) e \<longleftrightarrow> (\<exists>f. linked s m d xs f \<and> linked s m f ys e)"
  by (induction xs arbitrary: d) simp_all

lemma kept_apart_cong: "same_tds s vs m m' \<Longrightarrow> kept_apart s m' ed vs = kept_apart s m ed vs"
  using same_tds_fields(2) [of s vs m m'] by (simp add: kept_apart_def)

lemma kept_apart_tl: "kept_apart s m ed (v # vs) \<Longrightarrow> kept_apart s m ed vs"
  by (auto simp: kept_apart_def)

text \<open>The bytes a walk may change.\<close>

definition walk_writes :: "xbox_ohci_service \<Rightarrow> host_memory \<Rightarrow> nat \<Rightarrow> u32 list \<Rightarrow> nat \<Rightarrow> bool" where
  "walk_writes s m ed vs q \<longleftrightarrow> ed + 8 \<le> q \<and> q < ed + 12
     \<or> (\<exists>v \<in> set vs. td_ptr s v \<le> q \<and> q < td_ptr s v + 16
        \<or> (\<exists>a k. td_buffer s m v = Some (a, k) \<and> a \<le> q \<and> q < a + k))"

lemma walk_writes_cong: "same_tds s vs m m' \<Longrightarrow> walk_writes s m' ed vs q = walk_writes s m ed vs q"
  using same_tds_fields(2) [of s vs m m'] by (simp add: walk_writes_def)

lemma run_td_writes:
  assumes "\<not> walk_writes s (host_mem w) ed [v] q \<or> td_ptr s v + 8 \<le> q \<and> q < td_ptr s v + 16 \<and> kept_apart s (host_mem w) ed [v]"
  shows "host_mem (snd (ohci_run_td s f (td_ptr s v) w)) q = host_mem w q"
proof (rule run_td_other)
  show "q < td_ptr s v \<or> td_ptr s v + 8 \<le> q" using assms by (auto simp: walk_writes_def)
  fix a
  let ?want = "td_want (load32 (host_mem w) (td_ptr s v + 4)) (load32 (host_mem w) (td_ptr s v + 12))"
  assume "ohci_at s (load32 (host_mem w) (td_ptr s v + 4)) ?want = Some a"
  then have "td_buffer s (host_mem w) v = Some (a, unat ?want)" by (simp add: td_buffer_def Let_def)
  then show "q < a \<or> a + unat ?want \<le> q"
    using assms by (auto simp: walk_writes_def kept_apart_def disjoint_ranges_def)
qed

lemma td_in_nak: "td_in f want buf w = (None, w') \<Longrightarrow> host_mem w' = host_mem w"
  using interrupt_in_sel(1) [of "ucast (ED_EN f)" "replicate XBOX_USB_PAD_REPORT 0" XBOX_USB_PAD_REPORT w]
  by (auto simp: td_in_def Let_def simp del: interrupt_in_sel split: prod.splits option.splits if_splits)

lemma run_td_nak: "ohci_run_td s f td w = (XBOX_OHCI_CC_NOTACCESSED, w') \<Longrightarrow> host_mem w' = host_mem w"
  unfolding ohci_run_td_def Let_def
  by (auto simp: ohci_cc split: if_splits prod.splits option.splits dest: td_in_nak)

lemma head_bits:
  "(x OR 1) AND - 16 = x AND (- 16 :: u32)" "(x OR 2) AND - 16 = x AND (- 16 :: u32)"
  "(x OR 3) AND - 16 = x AND (- 16 :: u32)"
  by (simp_all add: bit.conj_disj_distrib2)

lemma retire_writes:
  fixes w1 :: "'e usb_world"
  assumes run: "ohci_run_td s f (td_ptr s v) w = (cc, w1)"
    and apart: "kept_apart s (host_mem w) ed (v # us)" "v \<notin> set us"
    and m2: "m2 = store32 (store32 (host_mem w1) (td_ptr s v + 8) d) (ed + 8) h"
  shows "\<not> walk_writes s (host_mem w) ed (v # us) q \<Longrightarrow> m2 q = host_mem w q"
    and "same_tds s us (host_mem w) m2" and "td_next_of s m2 v = d" and "load32 m2 (ed + 8) = h"
proof -
  have run_frame: "host_mem w1 q = host_mem w q"
    if "\<not> walk_writes s (host_mem w) ed [v] q" for q
    using run_td_writes [where f = f] that run by (metis snd_conv)
  show "m2 q = host_mem w q" if "\<not> walk_writes s (host_mem w) ed (v # us) q"
  proof -
    have "\<not> walk_writes s (host_mem w) ed [v] q" using that by (auto simp: walk_writes_def)
    moreover have "q < ed + 8 \<or> ed + 8 + 4 \<le> q" "q < td_ptr s v + 8 \<or> td_ptr s v + 8 + 4 \<le> q"
    proof -
      have "\<not> (ed + 8 \<le> q \<and> q < ed + 12)" "\<not> (td_ptr s v \<le> q \<and> q < td_ptr s v + 16)"
        using that unfolding walk_writes_def by (blast intro: list.set_intros)+
      then show "q < ed + 8 \<or> ed + 8 + 4 \<le> q" "q < td_ptr s v + 8 \<or> td_ptr s v + 8 + 4 \<le> q" by linarith+
    qed
    ultimately show ?thesis using run_frame [of q] unfolding m2 by (simp add: store32_outside)
  qed
  show "same_tds s us (host_mem w) m2"
    unfolding same_tds_def
  proof (intro ballI allI impI)
    fix u i assume u: "u \<in> set us" and i: "i < (16 :: nat)"
    let ?q = "td_ptr s u + i"
    have "disjoint_ranges ed 16 (td_ptr s u) 16" "disjoint_ranges (td_ptr s v) 16 (td_ptr s u) 16"
      "\<And>a k. td_buffer s (host_mem w) v = Some (a, k) \<Longrightarrow> disjoint_ranges a k (td_ptr s u) 16"
      using apart u unfolding kept_apart_def by auto
    note dis = this [unfolded disjoint_ranges_def]
    have "?q < ed \<or> ed + 16 \<le> ?q" "?q < td_ptr s v \<or> td_ptr s v + 16 \<le> ?q" using dis(1,2) i by linarith+
    moreover have "?q < a \<or> a + k \<le> ?q" if "td_buffer s (host_mem w) v = Some (a, k)" for a k
      using dis(3) [OF that] i by linarith
    ultimately have "\<not> walk_writes s (host_mem w) ed [v] ?q" "?q < ed \<or> ed + 16 \<le> ?q" "?q < td_ptr s v \<or> td_ptr s v + 16 \<le> ?q"
      unfolding walk_writes_def by auto
    then show "m2 ?q = host_mem w ?q" using run_frame [of ?q] by (auto simp: m2 store32_def)
  qed
  have "disjoint_ranges (ed + 8) 4 (td_ptr s v + 8) 4" using apart by (auto simp: kept_apart_def disjoint_ranges_def)
  then show "td_next_of s m2 v = d" by (simp add: m2 td_next_of_def)
  show "load32 m2 (ed + 8) = h" by (simp add: m2)
qed

lemma td_walk_done_queue:
  assumes "queued s (host_mem w) td_va vs tail" "distinct vs" "kept_apart s (host_mem w) ed vs"
    "td_walk s ed f tail n td_va carry d r w = (d', r', w')"
  shows "\<exists>k \<le> length vs. r' = r + k \<and> linked s (host_mem w') d' (rev (take k vs)) d
    \<and> (if k = 0 then host_mem w' = host_mem w else load32 (host_mem w') (ed + 8) AND NOT 0xF = (vs @ [tail]) ! k)
    \<and> (\<forall>q. \<not> walk_writes s (host_mem w) ed vs q \<longrightarrow> host_mem w' q = host_mem w q)"
  using assms
proof (induction n arbitrary: w td_va vs carry d r)
  case 0
  then show ?case by (intro exI [of _ 0]) simp
next
  case (Suc n)
  show ?case
  proof (cases vs)
    case Nil
    then show ?thesis using Suc.prems by (intro exI [of _ 0]) simp
  next
    case (Cons v us)
    define p where "p = td_ptr s v"
    have v: "td_va = v" "v \<noteq> 0" "v \<noteq> tail" "ohci_at s v 16 = Some p"
      using Suc.prems(1) Cons by (auto simp: p_def td_ptr_def)
    define fl where "fl = load32 (host_mem w) p"
    define want where "want = td_want (load32 (host_mem w) (p + 4)) (load32 (host_mem w) (p + 12))"
    define nx where "nx = load32 (host_mem w) (p + 8) AND NOT 0xF"
    obtain cc w1 where run: "ohci_run_td s f p w = (cc, w1)" by fastforce
    define w2 where "w2 = (let w = (upd_mem (\<lambda>m. store32 m (p + 8) d) w1)\<lparr>g_ohci_tds_retired := g_ohci_tds_retired w1 + 1\<rparr>
       in if cc \<noteq> XBOX_OHCI_CC_NOERROR then w\<lparr>g_ohci_tds_error := g_ohci_tds_error w1 + 1\<rparr> else w)"
    define cy where "cy = (if TD_TOGGLE fl AND 2 \<noteq> 0 then TD_TOGGLE fl AND 1 else carry) XOR 1"
    define cb where "cb = (if cy \<noteq> 0 then ED_HEAD_CARRY else 0)"
    define w3 where "w3 = upd_mem (\<lambda>m. store32 m (ed + 8) (nx OR cb)) (ohci_end_of_transfer (TD_PID fl) want w2)"
    have walk: "td_walk s ed f tail (Suc n) td_va carry d r w =
      (if nx = 0 \<and> v \<noteq> tail \<or> TD_PID fl = TD_PID_SETUP \<and> want < 8
       then (d, r, w\<lparr>g_ohci_tds_incomplete := g_ohci_tds_incomplete w + 1, g_ohci_retry_control := True\<rparr>)
       else if cc = XBOX_OHCI_CC_NOTACCESSED then (d, r, w1)
       else if cc \<noteq> XBOX_OHCI_CC_NOERROR
       then (v, r + 1, upd_mem (\<lambda>m. store32 m (ed + 8) (nx OR ED_HEAD_HALTED OR cb)) w2)
       else td_walk s ed f tail n nx cy v (r + 1) w3)"
      using v run by (simp add: w3_def w2_def cb_def cy_def fl_def want_def nx_def Let_def upd_mem_def)
    have w2: "host_mem w2 = store32 (host_mem w1) (p + 8) d" by (simp add: w2_def Let_def)
    have nx: "queued s (host_mem w) nx us tail" using Suc.prems(1) Cons by (simp add: nx_def td_next_of_def p_def)
    have nx_aligned: "nx AND NOT 0xF = nx" by (simp add: nx_def and.assoc)
    have apart: "kept_apart s (host_mem w) ed (v # us)" "v \<notin> set us" using Suc.prems(2,3) Cons by simp_all
    consider (early) "d' = d" "r' = r" "host_mem w' = host_mem w"
      | (halt) "d' = v" "r' = r + 1" "w' = upd_mem (\<lambda>m. store32 m (ed + 8) (nx OR ED_HEAD_HALTED OR cb)) w2"
      | (go_on) "td_walk s ed f tail n nx cy v (r + 1) w3 = (d', r', w')"
      using Suc.prems(4) walk run run_td_nak [of s f p w w1] by (auto split: if_splits)
    then show ?thesis
    proof cases
      case early
      then show ?thesis by (intro exI [of _ 0]) simp
    next
      case halt
      let ?h = "nx OR ED_HEAD_HALTED OR cb"
      have mem: "host_mem w' = store32 (store32 (host_mem w1) (td_ptr s v + 8) d) (ed + 8) ?h"
        using halt(3) w2 by (simp add: p_def)
      note step = retire_writes [OF run [unfolded p_def] apart mem]
      have "(vs @ [tail]) ! 1 = nx" using nx Cons by (cases us) simp_all
      then show ?thesis
        using halt(1,2) step(1) step(3) nx_aligned Cons
        by (intro exI [of _ "Suc 0"]) (simp add: step(4) cb_def ED_HEAD_HALTED_def ED_HEAD_CARRY_def head_bits)
    next
      case go_on
      have mem: "host_mem w3 = store32 (store32 (host_mem w1) (td_ptr s v + 8) d) (ed + 8) (nx OR cb)"
        using w2 by (simp add: p_def w3_def)
      note step = retire_writes [OF run [unfolded p_def] apart mem]
      have same: "same_tds s us (host_mem w) (host_mem w3)" by (rule step(2))
      have "queued s (host_mem w3) nx us tail" "kept_apart s (host_mem w3) ed us" "distinct us"
        using nx queued_cong [OF same] kept_apart_cong [OF same] kept_apart_tl [OF apart(1)] Suc.prems(2) Cons by simp_all
      from Suc.IH [OF this(1,3,2) go_on]
      obtain k where k: "k \<le> length us" "r' = r + 1 + k" "linked s (host_mem w') d' (rev (take k us)) v"
        "if k = 0 then host_mem w' = host_mem w3 else load32 (host_mem w') (ed + 8) AND NOT 0xF = (us @ [tail]) ! k"
        "\<And>q. \<not> walk_writes s (host_mem w3) ed us q \<Longrightarrow> host_mem w' q = host_mem w3 q"
        by auto
      have frame: "host_mem w' q = host_mem w3 q" if "\<not> walk_writes s (host_mem w) ed us q" for q
        using k(5) that by (simp add: walk_writes_cong [OF same])
      have "\<not> walk_writes s (host_mem w) ed us (td_ptr s v + 8 + i)" if "i < 4" for i
        using apart that unfolding walk_writes_def kept_apart_def disjoint_ranges_def by (fastforce simp: not_le not_less)
      then have "td_next_of s (host_mem w') v = td_next_of s (host_mem w3) v"
        unfolding td_next_of_def by (intro load32_cong frame) simp
      then have "linked s (host_mem w') d' (rev (take (Suc k) vs)) d"
        using k(3) step(3) Cons by (auto simp: linked_append)
      moreover have "load32 (host_mem w') (ed + 8) AND NOT 0xF = (vs @ [tail]) ! Suc k"
      proof (cases "k = 0")
        case True
        have "(vs @ [tail]) ! 1 = nx" using nx Cons by (cases us) simp_all
        then show ?thesis using True k(4) nx_aligned
          by (simp add: step(4) cb_def ED_HEAD_CARRY_def head_bits)
      next
        case False
        then show ?thesis using k(4) Cons by simp
      qed
      moreover have "host_mem w' q = host_mem w q" if "\<not> walk_writes s (host_mem w) ed vs q" for q
        using frame [of q] step(1) [of q] that Cons by (auto simp: walk_writes_def)
      ultimately show ?thesis using k(1,2) Cons by (intro exI [of _ "Suc k"]) simp
    qed
  qed
qed

section \<open>Handing the done queue to the driver\<close>

text \<open>An endpoint that is alone on its list, neither skipped nor halted, with descriptors \<open>vs\<close> queued.\<close>

definition endpoint_ready :: "xbox_ohci_service \<Rightarrow> host_memory \<Rightarrow> nat \<Rightarrow> u32 list \<Rightarrow> bool" where
  "endpoint_ready s m ed vs \<longleftrightarrow>
     ram s \<noteq> 0 \<and> ram_size s \<noteq> 0 \<and> head_ed s AND NOT 0xF \<noteq> 0 \<and> ohci_at s (head_ed s AND NOT 0xF) 16 = Some ed
     \<and> load32 m ed AND ED_SKIP = 0 \<and> load32 m (ed + 8) AND ED_HEAD_HALTED = 0 \<and> load32 m (ed + 12) AND NOT 0xF = 0
     \<and> queued s m (load32 m (ed + 8) AND NOT 0xF) vs (load32 m (ed + 4) AND NOT 0xF)
     \<and> distinct vs \<and> kept_apart s m ed vs"

lemma service_fields [simp]:
  "ohci_at (s\<lparr>eds_walked := a, tds_retired := b, published := c\<rparr>) = ohci_at s"
  by (rule ohci_at_fields) simp_all

lemma done_bit: "(d OR 1) AND - 2 = d AND (- 2 :: u32)"
  by (simp add: bit.conj_disj_distrib2)

lemma service_on_one_endpoint:
  assumes ready: "endpoint_ready s (host_mem w) ed vs"
    and hc: "ohci_at s (hcca s AND NOT 0xFF) XBOX_OHCI_HCCA_SIZE = Some hp"
      "\<forall>v \<in> set vs. disjoint_ranges hp 256 (td_ptr s v) 16"
    and call: "xbox_OhciServiceList s w = (r, s', w')"
  shows "\<exists>d. r \<le> length vs \<and> linked s (host_mem w') d (rev (take r vs)) (done_head s)
    \<and> (if intr_status s AND XBOX_OHCI_INTR_WDH \<noteq> 0 then \<not> published s' \<and> done_head s' = d \<and> intr_status s' = intr_status s
       else if d = 0 then \<not> published s' \<and> done_head s' = 0 \<and> intr_status s' = intr_status s
       else published s' \<and> done_head s' = 0 \<and> intr_status s' = intr_status s OR XBOX_OHCI_INTR_WDH
         \<and> load32 (host_mem w') (hp + XBOX_OHCI_HCCA_DONE_HEAD) AND NOT 1 = d AND NOT 1)"
proof -
  let ?e = "head_ed s AND NOT 0xF"
  let ?head = "load32 (host_mem w) (ed + 8)"
  obtain d r1 w1 where walk:
    "td_walk s ed (load32 (host_mem w) ed) (load32 (host_mem w) (ed + 4) AND NOT 0xF) OHCI_MAX_TDS (?head AND NOT 0xF)
       (if ?head AND ED_HEAD_CARRY \<noteq> 0 then 1 else 0) (done_head s) 0 w = (d, r1, w1)" by (metis prod.exhaust)
  have q: "queued s (host_mem w) (?head AND NOT 0xF) vs (load32 (host_mem w) (ed + 4) AND NOT 0xF)" "distinct vs"
    "kept_apart s (host_mem w) ed vs" using ready by (simp_all add: endpoint_ready_def)
  from td_walk_done_queue [OF q walk]
  have links: "r1 \<le> length vs" "linked s (host_mem w1) d (rev (take r1 vs)) (done_head s)" by auto
  have eds: "ed_walk s OHCI_MAX_EDS ?e 0 (done_head s) 0 w = (1, d, r1, w1)"
    using ready walk by (simp add: endpoint_ready_def OHCI_MAX_EDS_def numeral_eq_Suc Let_def)
  have kept: "td_next_of s (host_mem (hcca_publish s1 d w1)) v = td_next_of s (host_mem w1) v"
    if "v \<in> set vs" "ohci_at s1 = ohci_at s" "hcca s1 = hcca s" for v and s1 :: xbox_ohci_service
  proof -
    have "disjoint_ranges (hp + 128) 4 (td_ptr s v + 8) 4" "disjoint_ranges (hp + 132) 4 (td_ptr s v + 8) 4"
      using hc(2) that(1) by (auto simp: disjoint_ranges_def)
    then show ?thesis using that(2,3) hc(1)
      by (auto simp: hcca_publish_def td_next_of_def Let_def XBOX_OHCI_HCCA_FRAME_NUMBER_def XBOX_OHCI_HCCA_DONE_HEAD_def
          split: option.split)
  qed
  have kept_links: "linked s (host_mem (hcca_publish s1 d w1)) d (rev (take r1 vs)) (done_head s)"
    if "ohci_at s1 = ohci_at s" "hcca s1 = hcca s" for s1 :: xbox_ohci_service
    using links(2) kept [OF _ that] linked_cong [of "rev (take r1 vs)"] by (metis in_set_takeD set_rev)
  define s1 where "s1 = s\<lparr>eds_walked := 1, tds_retired := r1, published := False\<rparr>"
  have s1: "ohci_at s1 = ohci_at s" "hcca s1 = hcca s" "intr_status s1 = intr_status s" "\<not> published s1"
    by (simp_all add: s1_def)
  have result: "(r, s', w') = (if intr_status s AND XBOX_OHCI_INTR_WDH \<noteq> 0 then (r1, s1\<lparr>done_head := d\<rparr>, w1)
      else if d = 0 then (r1, s1\<lparr>done_head := 0\<rparr>, w1)
      else (r1, s1\<lparr>intr_status := intr_status s OR XBOX_OHCI_INTR_WDH, published := True, done_head := 0\<rparr>,
            hcca_publish s1 d w1))"
    using call ready eds unfolding xbox_OhciServiceList_def endpoint_ready_def s1_def Let_def
    by (auto split: if_splits)
  have "load32 (host_mem (hcca_publish s1 d w1)) (hp + XBOX_OHCI_HCCA_DONE_HEAD) AND NOT 1 = d AND NOT 1"
    using hc(1) s1 by (simp add: hcca_publish_def Let_def done_bit)
  then show ?thesis
    using result links kept_links [OF s1(1,2)] s1 by (intro exI [of _ d]) (auto split: if_splits)
qed

section \<open>Control reads\<close>

text \<open>IN descriptors whose buffers follow one another in host memory from \<open>b\<close>, with their sizes.\<close>

fun in_run :: "xbox_ohci_service \<Rightarrow> host_memory \<Rightarrow> nat \<Rightarrow> u32 list \<Rightarrow> nat list \<Rightarrow> bool" where
  "in_run s m b [] [] \<longleftrightarrow> True"
| "in_run s m b (v # vs) (n # ns) \<longleftrightarrow> TD_PID (load32 m (td_ptr s v)) = TD_PID_IN \<and> td_buffer s m v = Some (b, n) \<and> 0 < n
     \<and> in_run s m (b + n) vs ns"
| "in_run s m b _ _ \<longleftrightarrow> False"

definition run_tds :: "xbox_ohci_service \<Rightarrow> u32 \<Rightarrow> u32 list \<Rightarrow> 'e usb_world \<Rightarrow> 'e usb_world" where
  "run_tds s f vs w = fold (\<lambda>v w. snd (ohci_run_td s f (td_ptr s v) w)) vs w"

definition reply_left :: "usb_dev \<Rightarrow> u8 list" where
  "reply_left d = drop (unat (data_off d)) (take (unat (data_len d)) (dev_data d))"

definition answers :: "u32 \<Rightarrow> usb_dev \<Rightarrow> bool" where
  "answers f d \<longleftrightarrow> dev_ok d \<and> ED_EN f = 0 \<and> ED_FA f = ucast (address d) \<and> \<not> stalled d"

lemma in_td:
  fixes w :: "'e usb_world"
  assumes dev: "answers f (g_dev w)"
    and td: "TD_PID (load32 (host_mem w) (td_ptr s v)) = TD_PID_IN" "td_buffer s (host_mem w) v = Some (b, n)" "0 < n"
    and apart: "disjoint_ranges b n (td_ptr s v) 16"
  defines "w' \<equiv> snd (ohci_run_td s f (td_ptr s v) w)"
  shows "answers f (g_dev w')" "reply_left (g_dev w') = drop n (reply_left (g_dev w))"
    "q < td_ptr s v \<or> td_ptr s v + 8 \<le> q \<Longrightarrow>
      host_mem w' q = store_bytes (host_mem w) b (take n (reply_left (g_dev w))) q"
proof -
  let ?p = "td_ptr s v" and ?d = "g_dev w"
  define cbp where "cbp = load32 (host_mem w) (?p + 4)"
  define want where "want = td_want cbp (load32 (host_mem w) (?p + 12))"
  have want: "unat want = n" "ohci_at s cbp want = Some b" "want \<noteq> 0"
    using td(2,3) by (auto simp: td_buffer_def Let_def want_def cbp_def)
  define left where "left = (let l = data_len ?d - data_off ?d in if l > want then want else l)"
  have ok: "dev_ok ?d" "ED_EN f = 0" "ED_FA f = ucast (address ?d)" "\<not> stalled ?d"
    using dev by (simp_all add: answers_def)
  have off: "unat (data_off ?d) \<le> unat (data_len ?d)" "unat (data_len ?d) \<le> 64" "length (dev_data ?d) = 64"
    using ok(1) by (simp_all add: dev_ok_def word_le_nat_alt usb_sizes)
  have left: "unat left = min n (unat (data_len ?d) - unat (data_off ?d))"
    using want(1) off(1) by (auto simp: left_def Let_def min_def unat_sub word_le_nat_alt word_less_nat_alt)
  have chunk: "take (unat left) (drop (unat (data_off ?d)) (dev_data ?d)) = take n (reply_left ?d)"
    using off left by (simp add: reply_left_def min_def drop_take)
  have adv: "unat (data_off ?d + left) = unat (data_off ?d) + unat left"
  proof -
    have "unat left \<le> unat (data_len ?d) - unat (data_off ?d)" using left by simp
    then have "unat (data_off ?d) + unat left \<le> 64" using off by linarith
    then show ?thesis by (simp only: unat_word_ariths) simp
  qed
  have w': "w' = td_writeback ?p (load32 (host_mem w) ?p) cbp want left XBOX_OHCI_CC_NOERROR
      (upd_dev (\<lambda>d. d\<lparr>data_off := data_off d + left\<rparr>)
        (upd_mem (\<lambda>m. store_bytes m b (take (unat left) (drop (unat (data_off ?d)) (dev_data ?d)))) w))"
    using want ok td(1) unfolding w'_def ohci_run_td_def Let_def
    by (simp add: cbp_def [symmetric] want_def [symmetric] td_in_def left_def Let_def TD_PID_SETUP_def TD_PID_IN_def)
  have "g_dev w' = ?d\<lparr>data_off := data_off ?d + left\<rparr>" by (simp add: w' td_writeback_def)
  moreover have "data_off ?d + left \<le> data_len ?d" using adv left off by (simp add: word_le_nat_alt)
  moreover have "drop (unat (data_off ?d) + unat left) xs = drop n (drop (unat (data_off ?d)) xs)"
    if "length xs \<le> unat (data_len ?d)" for xs :: "u8 list"
    using left off that by (cases "n \<le> unat (data_len ?d) - unat (data_off ?d)") (simp_all add: add.commute)
  ultimately show "answers f (g_dev w')" "reply_left (g_dev w') = drop n (reply_left ?d)"
    using ok adv by (simp_all add: answers_def dev_ok_def reply_left_def)
  show "host_mem w' q = store_bytes (host_mem w) b (take n (reply_left ?d)) q" if "q < ?p \<or> ?p + 8 \<le> q"
    using that unfolding w' chunk by (auto simp: td_writeback_def Let_def store32_outside)
qed


lemma in_run_cong: "same_tds s vs m m' \<Longrightarrow> in_run s m' b vs ns = in_run s m b vs ns"
proof (induction vs arbitrary: b ns)
  case Nil
  then show ?case by (cases ns) simp_all
next
  case (Cons v vs)
  have "same_tds s vs m m'" using Cons.prems by (simp add: same_tds_def)
  then show ?case
    using Cons.IH same_tds_fields(2) [OF Cons.prems, of v] same_tds_load [OF Cons.prems, of v 0]
    by (cases ns) simp_all
qed

lemma load_bytes_append: "load_bytes m p (i + j) = load_bytes m p i @ load_bytes m (p + i) j"
  by (simp add: load_bytes_def upt_add_eq_append [of p "p + i" j, simplified] flip: map_append add.assoc)

lemma control_read_run:
  assumes "answers f (g_dev w)" "in_run s (host_mem w) b vs ns" "distinct vs" "kept_apart s (host_mem w) ed vs"
    "\<forall>v \<in> set vs. disjoint_ranges b (sum_list ns) (td_ptr s v) 16"
  defines "r \<equiv> take (sum_list ns) (reply_left (g_dev w))" and "w' \<equiv> run_tds s f vs w"
  shows "load_bytes (host_mem w') b (length r) = r \<and> reply_left (g_dev w') = drop (sum_list ns) (reply_left (g_dev w))
    \<and> answers f (g_dev w')
    \<and> (\<forall>q. (q < b \<or> b + sum_list ns \<le> q) \<and> (\<forall>v \<in> set vs. q < td_ptr s v \<or> td_ptr s v + 16 \<le> q) \<longrightarrow> host_mem w' q = host_mem w q)"
  using assms(1-5) unfolding r_def w'_def
proof (induction vs arbitrary: w b ns)
  case Nil
  then show ?case by (cases ns) (simp_all add: run_tds_def load_bytes_def)
next
  case (Cons v vs)
  obtain n ms where ns: "ns = n # ms" using Cons.prems(2) by (cases ns) simp_all
  define w1 where "w1 = snd (ohci_run_td s f (td_ptr s v) w)"
  define rep where "rep = reply_left (g_dev w)"
  have td: "TD_PID (load32 (host_mem w) (td_ptr s v)) = TD_PID_IN" "td_buffer s (host_mem w) v = Some (b, n)" "0 < n"
    "in_run s (host_mem w) (b + n) vs ms" using Cons.prems(2) ns by simp_all
  have dis: "disjoint_ranges b n (td_ptr s v) 16" "\<forall>u \<in> set vs. disjoint_ranges (b + n) (sum_list ms) (td_ptr s u) 16"
    using Cons.prems(5) ns by (auto simp: disjoint_ranges_def)
  note step = in_td [OF Cons.prems(1) td(1,2,3) dis(1), folded w1_def rep_def]
  have chunk: "length (take n rep) \<le> n" by simp
  have same: "same_tds s vs (host_mem w) (host_mem w1)"
    unfolding same_tds_def
  proof (intro ballI allI impI)
    fix u i assume u: "u \<in> set vs" and i: "i < (16 :: nat)"
    have "u \<noteq> v" using u Cons.prems(3) by auto
    then have "disjoint_ranges (td_ptr s v) 16 (td_ptr s u) 16" "disjoint_ranges b (n + sum_list ms) (td_ptr s u) 16"
      using Cons.prems(4,5) u ns by (auto simp: kept_apart_def)
    then show "host_mem w1 (td_ptr s u + i) = host_mem w (td_ptr s u + i)"
      using step(3) [of "td_ptr s u + i"] i store_bytes_outside [of "td_ptr s u + i" b "take n rep" "host_mem w"]
      by (auto simp: disjoint_ranges_def)
  qed
  have "in_run s (host_mem w1) (b + n) vs ms" "distinct vs" "kept_apart s (host_mem w1) ed vs"
    using td(4) in_run_cong [OF same] Cons.prems(3,4) kept_apart_cong [OF same] kept_apart_tl by auto
  note IH = Cons.IH [OF step(1) this dis(2), unfolded step(2)]
  let ?w' = "run_tds s f vs w1"
  have run: "run_tds s f (v # vs) w = ?w'" by (simp add: run_tds_def w1_def)
  have frame: "host_mem ?w' q = host_mem w1 q"
    if "q < b + n \<or> b + n + sum_list ms \<le> q" "\<forall>u \<in> set vs. q < td_ptr s u \<or> td_ptr s u + 16 \<le> q" for q
    using IH that by blast
  have first: "load_bytes (host_mem ?w') b (length (take n rep)) = take n rep"
  proof -
    have "load_bytes (host_mem ?w') b (length (take n rep)) = load_bytes (store_bytes (host_mem w) b (take n rep)) b (length (take n rep))"
    proof (rule load_bytes_cong)
      fix i assume "i < length (take n rep)"
      then have i: "i < n" by simp
      have "\<forall>u \<in> set (v # vs). b + i < td_ptr s u \<or> td_ptr s u + 16 \<le> b + i"
        using Cons.prems(5) ns i by (fastforce simp: disjoint_ranges_def)
      then show "host_mem ?w' (b + i) = store_bytes (host_mem w) b (take n rep) (b + i)"
        using frame [of "b + i"] i step(3) [of "b + i"] by auto
    qed
    then show ?thesis by (simp only: load_bytes_store_bytes_same)
  qed
  have "load_bytes (host_mem ?w') b (length (take (n + sum_list ms) rep)) = take (n + sum_list ms) rep"
  proof (cases "length rep \<le> n")
    case True
    then show ?thesis using first by simp
  next
    case False
    then have "length (take (n + sum_list ms) rep) = n + length (take (sum_list ms) (drop n rep))" by simp
    then show ?thesis
      using first IH False by (simp add: load_bytes_append take_add del: length_take length_drop)
  qed
  moreover have "host_mem ?w' q = host_mem w q"
    if "q < b \<or> b + sum_list ns \<le> q" "\<forall>u \<in> set (v # vs). q < td_ptr s u \<or> td_ptr s u + 16 \<le> q" for q
    using that ns frame [of q] step(3) [of q] store_bytes_outside [of q b "take n rep" "host_mem w"] by auto
  ultimately show ?case
    unfolding run rep_def [symmetric] using IH by (auto simp: ns rep_def add.commute)
qed

lemma in_run_total: "in_run s m b vs ns \<Longrightarrow> length vs = length ns"
  by (induction s m b vs ns rule: in_run.induct) simp_all

definition GET_DESCRIPTOR_SETUP :: "u8 \<Rightarrow> u8 \<Rightarrow> u8 \<Rightarrow> u8 list" where
  "GET_DESCRIPTOR_SETUP kind lo hi = [0x80, 0x06, 0x00, kind, 0x00, 0x00, lo, hi]"

lemma le16_hi: "drop_bit 8 (le16 0 t) = ucast t"
  by (rule bit_word_eqI) (auto simp: le16_def bit_simps dest: bit_imp_le_length)

lemma get_descriptor_reply:
  assumes "length out = 64" "desc = (if kind = 1 then USB_DEVICE_DESC else USB_CONFIG_DESC)" "kind = 1 \<or> kind = 2"
  shows "xbox_UsbControlRequest (GET_DESCRIPTOR_SETUP kind lo hi) out 64 w =
    (Some (memcpy_at out 0 desc, min (unat (le16 lo hi)) (length desc)), w)"
  using assms(1,3) unfolding assms(2)
  by (auto simp: xbox_UsbControlRequest_def usb_control_request_def GET_DESCRIPTOR_SETUP_def device_request_def
      le16_hi usb_copy_def Let_def USB_DEVICE_DESC_def USB_CONFIG_DESC_def min_def)

lemma setup_td:
  fixes w :: "'e usb_world"
  assumes dev: "dev_ok (g_dev w)" "ED_EN f = 0" "ED_FA f = ucast (address (g_dev w))"
    and td: "TD_PID (load32 (host_mem w) (td_ptr s v)) = TD_PID_SETUP" "td_buffer s (host_mem w) v = Some (b, n)" "8 \<le> n"
    and bytes: "load_bytes (host_mem w) b 8 = GET_DESCRIPTOR_SETUP kind lo hi"
    and kind: "kind = 1 \<or> kind = 2" "desc = (if kind = 1 then USB_DEVICE_DESC else USB_CONFIG_DESC)"
  defines "w' \<equiv> snd (ohci_run_td s f (td_ptr s v) w)"
  shows "answers f (g_dev w')" "reply_left (g_dev w') = take (unat (le16 lo hi)) desc"
    "q < td_ptr s v \<or> td_ptr s v + 8 \<le> q \<Longrightarrow> host_mem w' q = host_mem w q"
proof -
  let ?p = "td_ptr s v" and ?n = "min (unat (le16 lo hi)) (length desc)"
  define cbp where "cbp = load32 (host_mem w) (?p + 4)"
  define want where "want = td_want cbp (load32 (host_mem w) (?p + 12))"
  have want: "unat want = n" "ohci_at s cbp want = Some b" "want \<noteq> 0" "\<not> want < 8"
    using td(2,3) by (auto simp: td_buffer_def Let_def want_def cbp_def word_less_nat_alt)
  have run: "w' = td_writeback ?p (load32 (host_mem w) ?p) cbp want 8 XBOX_OHCI_CC_NOERROR (td_setup b w)"
    using want dev td(1) unfolding w'_def ohci_run_td_def Let_def
    by (simp add: cbp_def [symmetric] want_def [symmetric])
  have len: "length (dev_data (g_dev w)) = 64" using dev by (simp add: dev_ok_def usb_sizes)
  have desc: "length desc \<le> 32" using kind by (auto simp: USB_DEVICE_DESC_def USB_CONFIG_DESC_def)
  have "td_setup b w = upd_dev (\<lambda>d. d\<lparr>dev_data := memcpy_at (dev_data d) 0 desc, data_len := word_of_nat ?n, data_off := 0,
      set_address_valid := False, stalled := False, out_expect := False, out_len := 0\<rparr>) w"
    unfolding td_setup_def bytes
    by (simp add: get_descriptor_reply [OF len kind(2,1)] Let_def upd_dev_def usb_sizes)
      (simp add: GET_DESCRIPTOR_SETUP_def)
  then have w': "w' = td_writeback ?p (load32 (host_mem w) ?p) cbp want 8 XBOX_OHCI_CC_NOERROR
    (upd_dev (\<lambda>d. d\<lparr>dev_data := memcpy_at (dev_data d) 0 desc, data_len := word_of_nat ?n, data_off := 0,
      set_address_valid := False, stalled := False, out_expect := False, out_len := 0\<rparr>) w)" using run by simp
  have n: "unat (word_of_nat ?n :: u32) = ?n" using desc by (simp add: unat_of_nat min_def)
  have "length (memcpy_at (dev_data (g_dev w)) 0 desc) = 64" using len desc by (simp add: memcpy_at_0)
  then show "answers f (g_dev w')" using dev n desc
    by (simp add: w' td_writeback_def answers_def dev_ok_def usb_sizes)
  show "reply_left (g_dev w') = take (unat (le16 lo hi)) desc"
    using n desc len by (simp add: w' td_writeback_def reply_left_def memcpy_at_def min_def)
  show "host_mem w' q = host_mem w q" if "q < ?p \<or> ?p + 8 \<le> q"
    using that unfolding w' by (auto simp: td_writeback_def Let_def store32_outside)
qed


lemma run_tds_Cons: "run_tds s f (v # vs) w = run_tds s f vs (snd (ohci_run_td s f (td_ptr s v) w))"
  by (simp add: run_tds_def)


section \<open>A schedule\<close>

text \<open>
  The first request a title makes: one endpoint at address zero with a SETUP descriptor that asks
  for eight bytes of the device descriptor and an IN descriptor for them.
\<close>

definition probe_service :: xbox_ohci_service where
  "probe_service = \<lparr>ram = 16, ram_size = 0x10000, resolve = None, hcca = 0x1000, head_ed = 0x100, done_head = 0,
     intr_status = 0, intr_enable = 0, frame_number = 7, eds_walked = 0, tds_retired = 0, published = False\<rparr>"

definition probe_memory :: host_memory where
  "probe_memory = fold (\<lambda>(p, v) m. store32 m p v)
     [(0x110, 0), (0x114, 0x240), (0x118, 0x200), (0x11C, 0),
      (0x210, 0), (0x214, 0x300), (0x218, 0x220), (0x21C, 0x307),
      (0x230, 0x100000), (0x234, 0x400), (0x238, 0x240), (0x23C, 0x407)]
     (store_bytes (\<lambda>_. 0) 0x310 (GET_DESCRIPTOR_SETUP 1 8 0))"

definition probe_world :: "unit usb_world" where
  "probe_world = xbox_UsbDeviceReset
     \<lparr>g_dev = undefined, g_pad_state = None, g_pad_rumble = None, g_ohci_tds_retired = 0, g_ohci_tds_error = 0,
      g_ohci_out_reports = 0, g_ohci_tds_incomplete = 0, g_ohci_retry_control = False, host_env = (),
      host_mem = probe_memory\<rparr>"

lemma probe_words:
  "load32 probe_memory 0x110 = 0" "load32 probe_memory 0x114 = 0x240" "load32 probe_memory 0x118 = 0x200"
  "load32 probe_memory 0x11C = 0" "load32 probe_memory 0x210 = 0" "load32 probe_memory 0x214 = 0x300"
  "load32 probe_memory 0x218 = 0x220" "load32 probe_memory 0x21C = 0x307" "load32 probe_memory 0x230 = 0x100000"
  "load32 probe_memory 0x234 = 0x400" "load32 probe_memory 0x238 = 0x240" "load32 probe_memory 0x23C = 0x407"
  by (simp_all add: probe_memory_def disjoint_ranges_def)

lemma eight: "Suc (Suc (Suc (Suc (Suc (Suc (Suc (Suc 0))))))) = 8"
  by simp

lemma probe_setup: "load_bytes probe_memory 0x310 8 = GET_DESCRIPTOR_SETUP 1 8 0"
proof -
  have "load_bytes probe_memory 0x310 8 = load_bytes (store_bytes (\<lambda>_. 0) 0x310 (GET_DESCRIPTOR_SETUP 1 8 0)) 0x310 8"
    by (rule load_bytes_cong) (simp add: probe_memory_def store32_outside)
  also have "\<dots> = GET_DESCRIPTOR_SETUP 1 8 0"
    using load_bytes_store_bytes_same [of "\<lambda>_. 0" "0x310" "GET_DESCRIPTOR_SETUP 1 8 0"] by (simp only: GET_DESCRIPTOR_SETUP_def list.size add_0 add_Suc eight One_nat_def plus_1_eq_Suc Suc_eq_plus1 [symmetric])
  finally show ?thesis .
qed

lemma probe_at:
  "ohci_at probe_service 0x100 16 = Some 0x110" "ohci_at probe_service 0x200 16 = Some 0x210"
  "ohci_at probe_service 0x220 16 = Some 0x230" "ohci_at probe_service 0x300 8 = Some 0x310"
  "ohci_at probe_service 0x400 8 = Some 0x410" "ohci_at probe_service 0x1000 0x100 = Some 0x1010"
  by (simp_all add: ohci_at_def probe_service_def)

lemma probe_tds:
  "td_ptr probe_service 0x200 = 0x210" "td_ptr probe_service 0x220 = 0x230"
  "td_buffer probe_service probe_memory 0x200 = Some (0x310, 8)"
  "td_buffer probe_service probe_memory 0x220 = Some (0x410, 8)"
  by (simp_all add: td_ptr_def td_buffer_def probe_at probe_words td_want_def)

lemma probe_apart: "kept_apart probe_service probe_memory 0x110 [0x200, 0x220]"
  by (auto simp: kept_apart_def probe_tds disjoint_ranges_def)

lemma probe_state: "host_mem probe_world = probe_memory" "dev_ok (g_dev probe_world)" "address (g_dev probe_world) = 0"
  "g_pad_state probe_world = None"
  by (simp_all add: probe_world_def xbox_UsbDeviceReset_def dev_ok_def usb_sizes)


lemma probe_ready: "endpoint_ready probe_service (host_mem probe_world) 0x110 [0x200, 0x220]"
  by (simp add: endpoint_ready_def probe_state probe_words probe_at probe_apart ED_SKIP_def ED_HEAD_HALTED_def td_next_of_def probe_tds)
    (simp add: probe_service_def probe_at [unfolded probe_service_def])

text \<open>
  Claim C11: A pass over an endpoint retires some number of its queued descriptors in order;
  they form the done queue newest first on top of what was pending, and that queue is
  published in the communications area exactly when the driver has acknowledged the previous
  one, otherwise it is kept in HcDoneHead, so no retired descriptor is lost.
\<close>

theorem service_hands_over_done_queue:
  assumes "endpoint_ready s (host_mem w) ed vs"
    and "ohci_at s (hcca s AND NOT 0xFF) XBOX_OHCI_HCCA_SIZE = Some hp"
      "\<forall>v \<in> set vs. disjoint_ranges hp 256 (td_ptr s v) 16"
    and "xbox_OhciServiceList s w = (r, s', w')"
  shows "\<exists>d. r \<le> length vs \<and> linked s (host_mem w') d (rev (take r vs)) (done_head s)
    \<and> (if intr_status s AND XBOX_OHCI_INTR_WDH \<noteq> 0 then \<not> published s' \<and> done_head s' = d \<and> intr_status s' = intr_status s
       else if d = 0 then \<not> published s' \<and> done_head s' = 0 \<and> intr_status s' = intr_status s
       else published s' \<and> done_head s' = 0 \<and> intr_status s' = intr_status s OR XBOX_OHCI_INTR_WDH
         \<and> load32 (host_mem w') (hp + XBOX_OHCI_HCCA_DONE_HEAD) AND NOT 1 = d AND NOT 1)"
  by (rule service_on_one_endpoint [OF assms])

theorem service_hands_over_witness:
  "\<exists>d. linked probe_service (host_mem (snd (snd (xbox_OhciServiceList probe_service probe_world)))) d
     (rev (take (fst (xbox_OhciServiceList probe_service probe_world)) [0x200, 0x220])) 0"
  using service_hands_over_done_queue [OF probe_ready, of "0x1010"]
  by (cases "xbox_OhciServiceList probe_service probe_world")
    (auto simp: probe_tds disjoint_ranges_def probe_at XBOX_OHCI_HCCA_SIZE_def probe_service_def [THEN arg_cong [where f = hcca]]
      probe_service_def [THEN arg_cong [where f = done_head]])

theorem service_stays_in_ram_witness:
  "host_mem (snd (snd (xbox_OhciServiceList probe_service probe_world))) 3 = probe_memory 3"
  using service_stays_in_ram [of probe_service 3 probe_world] by (simp add: probe_service_def probe_state)

theorem device_stays_well_formed_witness:
  "dev_ok (g_dev (snd (snd (xbox_OhciServiceList probe_service (xbox_UsbDeviceReset probe_world)))))"
  by (rule device_stays_well_formed, intro usb_reach.service usb_reach.plugged) (simp add: probe_state hook_ok_def)

end
