(* ===== verification/Nv2a_Vsh.thy ===== *)
theory Nv2a_Vsh
  imports Prelude
begin

text \<open>
  The NV2A vertex-program decoder and interpreter of \<open>src/nv2a/nv2a_vsh.c\<close> and
  \<open>src/nv2a/nv2a_vsh.h\<close>. The arithmetic of \<open>float\<close> and \<open>libm\<close> is a record of operations over an
  arbitrary type of floats, so every theorem holds for any rounding; register files are lists,
  and an access outside an array is the value \<open>Out_of_bounds\<close>. Environment switches are
  arguments (\<open>RECOMP_VSH_DP_ZERO\<close>).
\<close>

section \<open>Enumerations\<close>

definition NV2A_VS_MAX_INSTRUCTIONS :: nat where "NV2A_VS_MAX_INSTRUCTIONS = 136"
definition NV2A_VS_MAX_CONSTANTS :: nat where "NV2A_VS_MAX_CONSTANTS = 192"
definition NV2A_VS_MAX_INPUTS :: nat where "NV2A_VS_MAX_INPUTS = 16"
definition NV2A_VS_MAX_TEMPS :: nat where "NV2A_VS_MAX_TEMPS = 13"

lemmas vs_max = NV2A_VS_MAX_CONSTANTS_def NV2A_VS_MAX_INPUTS_def NV2A_VS_MAX_TEMPS_def

text \<open>The four-bit opcode field has two values without an enumerator, 14 and 15.\<close>

datatype NV2AVshMacOp =
    NV2A_VSH_MAC_NOP | NV2A_VSH_MAC_MOV | NV2A_VSH_MAC_MUL | NV2A_VSH_MAC_ADD | NV2A_VSH_MAC_MAD
  | NV2A_VSH_MAC_DP3 | NV2A_VSH_MAC_DPH | NV2A_VSH_MAC_DP4 | NV2A_VSH_MAC_DST | NV2A_VSH_MAC_MIN
  | NV2A_VSH_MAC_MAX | NV2A_VSH_MAC_SLT | NV2A_VSH_MAC_SGE | NV2A_VSH_MAC_ARL | NV2A_VSH_MAC_UNNAMED nat

datatype NV2AVshIluOp =
    NV2A_VSH_ILU_NOP | NV2A_VSH_ILU_MOV | NV2A_VSH_ILU_RCP | NV2A_VSH_ILU_RCC | NV2A_VSH_ILU_RSQ
  | NV2A_VSH_ILU_EXP | NV2A_VSH_ILU_LOG | NV2A_VSH_ILU_LIT

datatype NV2AVshRegType = NV2A_VSH_REG_TEMP | NV2A_VSH_REG_INPUT | NV2A_VSH_REG_CONST | NV2A_VSH_REG_COUNT

definition mac_of :: "nat \<Rightarrow> NV2AVshMacOp" where
  "mac_of n = (if n < 14
     then [NV2A_VSH_MAC_NOP, NV2A_VSH_MAC_MOV, NV2A_VSH_MAC_MUL, NV2A_VSH_MAC_ADD, NV2A_VSH_MAC_MAD,
           NV2A_VSH_MAC_DP3, NV2A_VSH_MAC_DPH, NV2A_VSH_MAC_DP4, NV2A_VSH_MAC_DST, NV2A_VSH_MAC_MIN,
           NV2A_VSH_MAC_MAX, NV2A_VSH_MAC_SLT, NV2A_VSH_MAC_SGE, NV2A_VSH_MAC_ARL] ! n
     else NV2A_VSH_MAC_UNNAMED n)"

definition ilu_of :: "nat \<Rightarrow> NV2AVshIluOp" where
  "ilu_of n = [NV2A_VSH_ILU_NOP, NV2A_VSH_ILU_MOV, NV2A_VSH_ILU_RCP, NV2A_VSH_ILU_RCC, NV2A_VSH_ILU_RSQ,
     NV2A_VSH_ILU_EXP, NV2A_VSH_ILU_LOG, NV2A_VSH_ILU_LIT] ! n"

definition NV2A_VSH_OUT_FOG :: nat where "NV2A_VSH_OUT_FOG = 5"
definition NV2A_VSH_OUT_NONE :: nat where "NV2A_VSH_OUT_NONE = 0xFF"

section \<open>Instructions\<close>

record NV2AVshSrcOperand =
  reg_type :: NV2AVshRegType
  reg_index :: nat
  negate :: bool
  swizzle :: "nat list"
  rel_addr :: bool

text \<open>The constant register of a destination is \<open>-1\<close> when there is none.\<close>

record NV2AVshDstOperand =
  temp_reg :: nat
  output_reg :: nat
  write_mask :: nat
  output_mask :: nat
  constant_reg :: int

record NV2AVshInstruction =
  mac_op :: NV2AVshMacOp
  mac_src :: "NV2AVshSrcOperand list"
  mac_dst :: NV2AVshDstOperand
  ilu_op :: NV2AVshIluOp
  ilu_src :: NV2AVshSrcOperand
  ilu_dst :: NV2AVshDstOperand
  const_index :: nat
  input_index :: nat
  is_final :: bool

text \<open>The array of slots as the list of the slots decoded, whose length is \<open>length\<close>.\<close>

record NV2AVshProgram =
  insns :: "NV2AVshInstruction list"
  inputs_read :: u16
  valid :: bool
  has_final :: bool

section \<open>Decoding\<close>

definition nv2a_vsh_mac_sources :: "NV2AVshMacOp \<Rightarrow> nat" where
  "nv2a_vsh_mac_sources op =
     (case op of NV2A_VSH_MAC_NOP \<Rightarrow> 0 | NV2A_VSH_MAC_MOV \<Rightarrow> 1 | NV2A_VSH_MAC_ARL \<Rightarrow> 1
      | NV2A_VSH_MAC_ADD \<Rightarrow> 5 | NV2A_VSH_MAC_MAD \<Rightarrow> 7 | _ \<Rightarrow> 3)"

text \<open>A field of \<open>n\<close> bits of a word, as a number.\<close>

definition field :: "nat \<Rightarrow> nat \<Rightarrow> u32 \<Rightarrow> nat" where
  "field at n w = unat (drop_bit at w AND mask n)"

definition vsh_source :: "nat \<Rightarrow> nat \<Rightarrow> nat \<Rightarrow> bool \<Rightarrow> nat \<Rightarrow> nat \<Rightarrow> bool \<Rightarrow> NV2AVshSrcOperand" where
  "vsh_source mux temp swz neg inp constant rel =
     \<lparr>reg_type = (if mux = 0 then NV2A_VSH_REG_COUNT
                  else [NV2A_VSH_REG_TEMP, NV2A_VSH_REG_INPUT, NV2A_VSH_REG_CONST] ! (mux - 1)),
      reg_index = (if mux = 2 then inp else if mux = 3 then constant else temp),
      negate = neg,
      swizzle = [swz div 64 mod 4, swz div 16 mod 4, swz div 4 mod 4, swz mod 4],
      rel_addr = (mux = 3 \<and> rel)\<rparr>"

definition valid_source :: "NV2AVshSrcOperand \<Rightarrow> bool" where
  "valid_source s =
     (case reg_type s of
        NV2A_VSH_REG_TEMP \<Rightarrow> reg_index s < NV2A_VS_MAX_TEMPS
      | NV2A_VSH_REG_INPUT \<Rightarrow> reg_index s < NV2A_VS_MAX_INPUTS
      | NV2A_VSH_REG_CONST \<Rightarrow> rel_addr s \<or> reg_index s < NV2A_VS_MAX_CONSTANTS
      | NV2A_VSH_REG_COUNT \<Rightarrow> False)"

definition output_reg_valid :: "nat \<Rightarrow> bool" where
  "output_reg_valid n \<longleftrightarrow> n = 0 \<or> n \<ge> 3 \<and> n \<le> 12"

text \<open>The three sources of a slot, and the C operand after the scalar units' swizzle.\<close>

definition slot_sources :: "u32 \<Rightarrow> u32 \<Rightarrow> u32 \<Rightarrow> NV2AVshSrcOperand list" where
  "slot_sources w1 w2 w3 =
     (let c = field 13 8 w1; i = field 9 4 w1; rel = field 1 1 w3 \<noteq> 0;
          src2 = vsh_source (field 28 2 w3) (4 * field 0 2 w2 + field 30 2 w3) (field 2 8 w2) (field 10 1 w2 \<noteq> 0) i c rel;
          src2 = (if ilu_of (field 25 3 w1) \<in> {NV2A_VSH_ILU_RCP, NV2A_VSH_ILU_RCC, NV2A_VSH_ILU_RSQ, NV2A_VSH_ILU_EXP, NV2A_VSH_ILU_LOG}
                  then src2\<lparr>swizzle := replicate 4 (swizzle src2 ! 0)\<rparr> else src2)
      in [vsh_source (field 26 2 w2) (field 28 4 w2) (field 0 8 w1) (field 8 1 w1 \<noteq> 0) i c rel,
          vsh_source (field 11 2 w2) (field 13 4 w2) (field 17 8 w2) (field 25 1 w2 \<noteq> 0) i c rel,
          src2])"

text \<open>The two destinations; the boolean says that the shared output field names a register or constant that exists.\<close>

definition slot_dests :: "NV2AVshMacOp \<Rightarrow> NV2AVshIluOp \<Rightarrow> u32 \<Rightarrow> NV2AVshDstOperand \<times> NV2AVshDstOperand \<times> bool" where
  "slot_dests mac ilu w3 =
     (let paired = mac \<noteq> NV2A_VSH_MAC_NOP \<and> ilu \<noteq> NV2A_VSH_ILU_NOP; t = field 20 4 w3;
          mask_m = (if mac \<noteq> NV2A_VSH_MAC_NOP then field 24 4 w3 else 0);
          mask_m = (if paired \<and> t = 1 then 0 else mask_m);
          mask_m = (if mac = NV2A_VSH_MAC_ARL then 0 else mask_m);
          m = \<lparr>temp_reg = t, output_reg = NV2A_VSH_OUT_NONE, write_mask = mask_m, output_mask = 0, constant_reg = -1\<rparr>;
          i = \<lparr>temp_reg = (if paired then 1 else t), output_reg = NV2A_VSH_OUT_NONE,
               write_mask = (if ilu \<noteq> NV2A_VSH_ILU_NOP then field 16 4 w3 else 0), output_mask = 0, constant_reg = -1\<rparr>;
          to_ilu = field 2 1 w3 \<noteq> 0;
          out = (if to_ilu then i else m);
          (out, ok) =
            (if (if to_ilu then ilu \<noteq> NV2A_VSH_ILU_NOP else mac \<noteq> NV2A_VSH_MAC_NOP)
                \<and> \<not> (\<not> to_ilu \<and> mac = NV2A_VSH_MAC_ARL)
             then let out = out\<lparr>output_mask := field 12 4 w3\<rparr>
                  in if output_mask out \<noteq> 0
                     then (if field 11 1 w3 \<noteq> 0
                           then (out\<lparr>output_reg := field 3 4 w3\<rparr>, output_reg_valid (field 3 4 w3))
                           else (out\<lparr>constant_reg := int (field 3 8 w3)\<rparr>, field 3 8 w3 < NV2A_VS_MAX_CONSTANTS))
                     else (out, True)
             else (out, True))
      in if to_ilu then (m, out, ok) else (out, i, ok))"

definition dest_ok :: "NV2AVshDstOperand \<Rightarrow> bool" where
  "dest_ok d \<longleftrightarrow> \<not> (write_mask d \<noteq> 0 \<and> temp_reg d \<ge> NV2A_VS_MAX_TEMPS)"

definition mac_known :: "NV2AVshMacOp \<Rightarrow> bool" where
  "mac_known mac = (case mac of NV2A_VSH_MAC_UNNAMED _ \<Rightarrow> False | _ \<Rightarrow> True)"

definition decode_slot :: "u32 \<Rightarrow> u32 \<Rightarrow> u32 \<Rightarrow> NV2AVshInstruction \<times> bool" where
  "decode_slot w1 w2 w3 =
     (let mac = mac_of (field 21 4 w1); ilu = ilu_of (field 25 3 w1); srcs = slot_sources w1 w2 w3;
          (md, id, ok) = slot_dests mac ilu w3
      in (\<lparr>mac_op = mac, mac_src = srcs, mac_dst = md, ilu_op = ilu, ilu_src = srcs ! 2, ilu_dst = id,
           const_index = field 13 8 w1, input_index = field 9 4 w1, is_final = field 0 1 w3 \<noteq> 0\<rparr>,
          ok \<and> dest_ok md \<and> dest_ok id \<and> mac_known mac))"

definition source_used :: "NV2AVshInstruction \<Rightarrow> nat \<Rightarrow> bool" where
  "source_used s j \<longleftrightarrow> bit (nv2a_vsh_mac_sources (mac_op s)) j \<or> j = 2 \<and> ilu_op s \<noteq> NV2A_VSH_ILU_NOP"

text \<open>The check of the used operands and the inputs they read.\<close>

definition note_source :: "NV2AVshInstruction \<Rightarrow> nat \<Rightarrow> NV2AVshProgram \<Rightarrow> NV2AVshProgram" where
  "note_source s j p =
     (if \<not> source_used s j then p
      else let src = mac_src s ! j; p = (if \<not> valid_source src then p\<lparr>valid := False\<rparr> else p)
           in if reg_type src = NV2A_VSH_REG_INPUT
              then p\<lparr>inputs_read := inputs_read p OR push_bit (reg_index src) 1\<rparr> else p)"

fun parse_slots :: "u32 list \<Rightarrow> nat \<Rightarrow> nat \<Rightarrow> NV2AVshProgram \<Rightarrow> NV2AVshProgram" where
  "parse_slots words i 0 p = p"
| "parse_slots words i (Suc n) p =
     (let (s, ok) = decode_slot (words ! (i * 4 + 1)) (words ! (i * 4 + 2)) (words ! (i * 4 + 3));
          p = (if ok then p else p\<lparr>valid := False\<rparr>);
          p = fold (note_source s) [0, 1, 2] p;
          p = p\<lparr>insns := insns p @ [s]\<rparr>
      in if is_final s then p\<lparr>has_final := True\<rparr> else parse_slots words (i + 1) n p)"

definition empty_program :: NV2AVshProgram where
  "empty_program = \<lparr>insns = [], inputs_read = 0, valid = False, has_final = False\<rparr>"

definition nv2a_vsh_parse :: "u32 list option \<Rightarrow> int \<Rightarrow> bool \<times> NV2AVshProgram" where
  "nv2a_vsh_parse words count =
     (case words of
        None \<Rightarrow> (False, empty_program)
      | Some ws \<Rightarrow>
          if count \<le> 0 \<or> count > int NV2A_VS_MAX_INSTRUCTIONS then (False, empty_program)
          else let p = parse_slots ws 0 (nat count) (empty_program\<lparr>valid := True\<rparr>) in (valid p, p))"

section \<open>Execution\<close>

record 'f float_ops =
  f_zero :: 'f
  f_one :: 'f
  f_neg :: "'f \<Rightarrow> 'f"
  f_add :: "'f \<Rightarrow> 'f \<Rightarrow> 'f"
  f_sub :: "'f \<Rightarrow> 'f \<Rightarrow> 'f"
  f_mul :: "'f \<Rightarrow> 'f \<Rightarrow> 'f"
  f_div :: "'f \<Rightarrow> 'f \<Rightarrow> 'f"
  f_eq :: "'f \<Rightarrow> 'f \<Rightarrow> bool"
  f_lt :: "'f \<Rightarrow> 'f \<Rightarrow> bool"
  f_ge :: "'f \<Rightarrow> 'f \<Rightarrow> bool"
  f_min :: "'f \<Rightarrow> 'f \<Rightarrow> 'f"
  f_max :: "'f \<Rightarrow> 'f \<Rightarrow> 'f"
  f_abs :: "'f \<Rightarrow> 'f"
  f_copysign :: "'f \<Rightarrow> 'f \<Rightarrow> 'f"
  f_sqrt :: "'f \<Rightarrow> 'f"
  f_exp2 :: "'f \<Rightarrow> 'f"
  f_log2 :: "'f \<Rightarrow> 'f"
  f_pow :: "'f \<Rightarrow> 'f \<Rightarrow> 'f"
  f_floor :: "'f \<Rightarrow> 'f"
  f_isfinite :: "'f \<Rightarrow> bool"
  f_to_int :: "'f \<Rightarrow> int"
  f_two_to :: "int \<Rightarrow> 'f"
  f_lit_bound :: 'f

datatype vsh_error = Out_of_bounds

definition bind_err :: "'e + 'a \<Rightarrow> ('a \<Rightarrow> 'e + 'b) \<Rightarrow> 'e + 'b" where
  "bind_err r f = (case r of Inl e \<Rightarrow> Inl e | Inr a \<Rightarrow> f a)"

definition row :: "'a list \<Rightarrow> nat \<Rightarrow> vsh_error + 'a" where
  "row xs i = (if i < length xs then Inr (xs ! i) else Inl Out_of_bounds)"

definition set_row :: "'a list \<Rightarrow> nat \<Rightarrow> 'a \<Rightarrow> vsh_error + 'a list" where
  "set_row xs i v = (if i < length xs then Inr (xs[i := v]) else Inl Out_of_bounds)"

record 'f vsh_state =
  temp :: "'f list list"
  addr :: int
  vs_output :: "'f list list"
  written :: "nat list"

text \<open>The value of a source, \<open>None\<close> when the operand has none (the interpreter then gives up).\<close>

definition swizzled :: "'f float_ops \<Rightarrow> NV2AVshSrcOperand \<Rightarrow> 'f list \<Rightarrow> vsh_error + 'f list option" where
  "swizzled fl s value =
     bind_err (row value (swizzle s ! 0)) (\<lambda>x. bind_err (row value (swizzle s ! 1)) (\<lambda>y.
     bind_err (row value (swizzle s ! 2)) (\<lambda>z. bind_err (row value (swizzle s ! 3)) (\<lambda>w.
       Inr (Some (map (\<lambda>v. if negate s then f_neg fl v else v) [x, y, z, w]))))))"

definition read_source ::
    "'f float_ops \<Rightarrow> 'f list list \<Rightarrow> 'f list list \<Rightarrow> 'f vsh_state \<Rightarrow> NV2AVshSrcOperand \<Rightarrow> vsh_error + 'f list option" where
  "read_source fl inputs c st s =
     (case reg_type s of
        NV2A_VSH_REG_INPUT \<Rightarrow> bind_err (row inputs (reg_index s)) (swizzled fl s)
      | NV2A_VSH_REG_TEMP \<Rightarrow>
          bind_err (if reg_index s = 12 then row (vs_output st) 0 else row (temp st) (reg_index s)) (swizzled fl s)
      | NV2A_VSH_REG_CONST \<Rightarrow>
          let idx = nat ((int (reg_index s) + (if rel_addr s then addr st else 0)) mod 256)
          in if idx \<ge> NV2A_VS_MAX_CONSTANTS then Inr None else bind_err (row c idx) (swizzled fl s)
      | NV2A_VSH_REG_COUNT \<Rightarrow> Inr None)"

definition multiply :: "'f float_ops \<Rightarrow> 'f \<Rightarrow> 'f \<Rightarrow> 'f" where
  "multiply fl a b = (if f_eq fl a (f_zero fl) \<or> f_eq fl b (f_zero fl) then f_zero fl else f_mul fl a b)"

definition truth :: "'f float_ops \<Rightarrow> bool \<Rightarrow> 'f" where
  "truth fl b = (if b then f_one fl else f_zero fl)"

text \<open>The three rows are values of four components each.\<close>

definition mac_eval :: "'f float_ops \<Rightarrow> bool \<Rightarrow> NV2AVshMacOp \<Rightarrow> 'f list \<Rightarrow> 'f list \<Rightarrow> 'f list \<Rightarrow> 'f list" where
  "mac_eval fl dp_zero op a b c =
     (let dot_n = (\<lambda>n. foldl (\<lambda>d k. f_add fl d (if dp_zero then multiply fl (a ! k) (b ! k) else f_mul fl (a ! k) (b ! k)))
                          (f_zero fl) [0..<n]);
          each = (\<lambda>f. map f [0, 1, 2, 3])
      in case op of
           NV2A_VSH_MAC_MOV \<Rightarrow> each (\<lambda>k. a ! k)
         | NV2A_VSH_MAC_MUL \<Rightarrow> each (\<lambda>k. multiply fl (a ! k) (b ! k))
         | NV2A_VSH_MAC_ADD \<Rightarrow> each (\<lambda>k. f_add fl (a ! k) (c ! k))
         | NV2A_VSH_MAC_MAD \<Rightarrow> each (\<lambda>k. f_add fl (multiply fl (a ! k) (b ! k)) (c ! k))
         | NV2A_VSH_MAC_DP3 \<Rightarrow> each (\<lambda>k. dot_n 3)
         | NV2A_VSH_MAC_DPH \<Rightarrow> each (\<lambda>k. f_add fl (dot_n 3) (b ! 3))
         | NV2A_VSH_MAC_DP4 \<Rightarrow> each (\<lambda>k. dot_n 4)
         | NV2A_VSH_MAC_MIN \<Rightarrow> each (\<lambda>k. f_min fl (a ! k) (b ! k))
         | NV2A_VSH_MAC_MAX \<Rightarrow> each (\<lambda>k. f_max fl (a ! k) (b ! k))
         | NV2A_VSH_MAC_SLT \<Rightarrow> each (\<lambda>k. truth fl (f_lt fl (a ! k) (b ! k)))
         | NV2A_VSH_MAC_SGE \<Rightarrow> each (\<lambda>k. truth fl (f_ge fl (a ! k) (b ! k)))
         | NV2A_VSH_MAC_DST \<Rightarrow> [f_one fl, f_mul fl (a ! 1) (b ! 1), a ! 2, b ! 3]
         | _ \<Rightarrow> replicate 4 (f_zero fl))"

definition ilu_eval :: "'f float_ops \<Rightarrow> NV2AVshIluOp \<Rightarrow> 'f list \<Rightarrow> 'f list" where
  "ilu_eval fl op c =
     (let c0 = c ! 0; zero = f_zero fl; one = f_one fl
      in case op of
           NV2A_VSH_ILU_MOV \<Rightarrow> c
         | NV2A_VSH_ILU_RCP \<Rightarrow> replicate 4 (f_div fl one c0)
         | NV2A_VSH_ILU_RCC \<Rightarrow>
             let t = f_div fl one c0
             in replicate 4 (f_copysign fl (f_min fl (f_max fl (f_abs fl t) (f_two_to fl (- 64))) (f_two_to fl 64)) t)
         | NV2A_VSH_ILU_RSQ \<Rightarrow> replicate 4 (f_div fl one (f_sqrt fl (f_abs fl c0)))
         | NV2A_VSH_ILU_EXP \<Rightarrow>
             [f_exp2 fl (f_floor fl c0), f_sub fl c0 (f_floor fl c0), f_exp2 fl c0, one]
         | NV2A_VSH_ILU_LOG \<Rightarrow>
             let t = f_log2 fl (f_abs fl c0)
             in [f_floor fl t, if f_eq fl c0 zero then one else f_div fl (f_abs fl c0) (f_exp2 fl (f_floor fl t)), t, one]
         | NV2A_VSH_ILU_LIT \<Rightarrow>
             [one, f_max fl c0 zero,
              if f_lt fl zero c0
              then f_pow fl (f_max fl (c ! 1) zero) (f_min fl (f_max fl (c ! 3) (f_neg fl (f_lit_bound fl))) (f_lit_bound fl))
              else zero,
              one]
         | NV2A_VSH_ILU_NOP \<Rightarrow> replicate 4 zero)"

text \<open>Bit 3 of a mask is the x component.\<close>

definition write_masked :: "'f list \<Rightarrow> 'f list \<Rightarrow> nat \<Rightarrow> 'f list" where
  "write_masked dst value m = map (\<lambda>k. if bit m (3 - k) then value ! k else dst ! k) [0, 1, 2, 3]"

definition first_enabled :: "nat \<Rightarrow> nat option" where
  "first_enabled m = (if bit m 3 then Some 0 else if bit m 2 then Some 1 else if bit m 1 then Some 2
     else if bit m 0 then Some 3 else None)"

definition write_output :: "nat \<Rightarrow> ('f list \<Rightarrow> 'f list) \<Rightarrow> nat \<Rightarrow> 'f vsh_state \<Rightarrow> vsh_error + 'f vsh_state" where
  "write_output r f m st =
     bind_err (row (vs_output st) r) (\<lambda>d. bind_err (set_row (vs_output st) r (f d)) (\<lambda>out.
     bind_err (row (written st) r) (\<lambda>wr. bind_err (set_row (written st) r (wr OR m)) (\<lambda>wr.
       Inr (st\<lparr>vs_output := out, written := wr\<rparr>)))))"

definition write_temp :: "NV2AVshDstOperand \<Rightarrow> 'f list \<Rightarrow> 'f vsh_state \<Rightarrow> vsh_error + 'f vsh_state" where
  "write_temp dst value st =
     (if write_mask dst = 0 then Inr st
      else if temp_reg dst = 12 then write_output 0 (\<lambda>d. write_masked d value (write_mask dst)) (write_mask dst) st
      else bind_err (row (temp st) (temp_reg dst)) (\<lambda>d.
           bind_err (set_row (temp st) (temp_reg dst) (write_masked d value (write_mask dst))) (\<lambda>t. Inr (st\<lparr>temp := t\<rparr>))))"

definition write_dest :: "NV2AVshDstOperand \<Rightarrow> 'f list \<Rightarrow> 'f vsh_state \<Rightarrow> vsh_error + 'f vsh_state" where
  "write_dest dst value st =
     bind_err (write_temp dst value st) (\<lambda>st.
       if output_mask dst \<noteq> 0 \<and> output_reg dst \<noteq> NV2A_VSH_OUT_NONE
       then write_output (output_reg dst)
              (\<lambda>d. if output_reg dst = NV2A_VSH_OUT_FOG
                   then (case first_enabled (output_mask dst) of None \<Rightarrow> d | Some k \<Rightarrow> d[0 := value ! k])
                   else write_masked d value (output_mask dst))
              (output_mask dst) st
       else Inr st)"

definition dest_stored :: "NV2AVshDstOperand \<Rightarrow> bool" where
  "dest_stored d \<longleftrightarrow> write_mask d \<noteq> 0 \<or> output_mask d \<noteq> 0 \<and> output_reg d \<noteq> NV2A_VSH_OUT_NONE"

definition read_used ::
    "'f float_ops \<Rightarrow> 'f list list \<Rightarrow> 'f list list \<Rightarrow> 'f vsh_state \<Rightarrow> NV2AVshInstruction \<Rightarrow> nat \<Rightarrow> vsh_error + 'f list option" where
  "read_used fl inputs c st s j =
     (if source_used s j then read_source fl inputs c st (mac_src s ! j) else Inr (Some (replicate 4 (f_zero fl))))"

definition bind_ret :: "vsh_error + 'a option \<Rightarrow> ('a \<Rightarrow> vsh_error + 'b option) \<Rightarrow> vsh_error + 'b option" where
  "bind_ret r f = bind_err r (\<lambda>x. case x of None \<Rightarrow> Inr None | Some a \<Rightarrow> f a)"

text \<open>One slot; \<open>None\<close> is the interpreter's return of zero.\<close>

definition exec_mac ::
    "'f float_ops \<Rightarrow> bool \<Rightarrow> NV2AVshInstruction \<Rightarrow> 'f list \<Rightarrow> 'f list \<Rightarrow> 'f list \<Rightarrow> 'f vsh_state \<Rightarrow> vsh_error + 'f vsh_state option" where
  "exec_mac fl dp_zero s a b c st =
     (if mac_op s = NV2A_VSH_MAC_ARL
      then let x = f_floor fl (a ! 0)
           in if \<not> f_isfinite fl x \<or> f_lt fl x (f_neg fl (f_two_to fl 31)) \<or> f_ge fl x (f_two_to fl 31) then Inr None
              else Inr (Some (st\<lparr>addr := f_to_int fl x\<rparr>))
      else if dest_stored (mac_dst s)
      then bind_err (write_dest (mac_dst s) (mac_eval fl dp_zero (mac_op s) a b c) st) (\<lambda>st. Inr (Some st))
      else Inr (Some st))"

definition exec_ilu :: "'f float_ops \<Rightarrow> NV2AVshInstruction \<Rightarrow> 'f list \<Rightarrow> 'f vsh_state \<Rightarrow> vsh_error + 'f vsh_state option" where
  "exec_ilu fl s c st =
     (if dest_stored (ilu_dst s)
      then bind_err (write_dest (ilu_dst s) (ilu_eval fl (ilu_op s) c) st) (\<lambda>st. Inr (Some st))
      else Inr (Some st))"

definition exec_slot ::
    "'f float_ops \<Rightarrow> bool \<Rightarrow> 'f list list \<Rightarrow> 'f list list \<Rightarrow> NV2AVshInstruction \<Rightarrow> 'f vsh_state \<Rightarrow> vsh_error + 'f vsh_state option" where
  "exec_slot fl dp_zero inputs consts s st =
     bind_ret (read_used fl inputs consts st s 0) (\<lambda>a.
     bind_ret (read_used fl inputs consts st s 1) (\<lambda>b.
     bind_ret (read_used fl inputs consts st s 2) (\<lambda>c.
       if constant_reg (mac_dst s) \<ge> 0 \<or> constant_reg (ilu_dst s) \<ge> 0 then Inr None
       else bind_ret (exec_mac fl dp_zero s a b c st) (exec_ilu fl s c))))"

fun exec_slots ::
    "'f float_ops \<Rightarrow> bool \<Rightarrow> 'f list list \<Rightarrow> 'f list list \<Rightarrow> NV2AVshInstruction list \<Rightarrow> 'f vsh_state \<Rightarrow> vsh_error + 'f vsh_state option" where
  "exec_slots fl dp_zero inputs consts [] st = Inr (Some st)"
| "exec_slots fl dp_zero inputs consts (s # ss) st =
     bind_ret (exec_slot fl dp_zero inputs consts s st) (exec_slots fl dp_zero inputs consts ss)"

definition vsh_start :: "'f float_ops \<Rightarrow> 'f vsh_state" where
  "vsh_start fl =
     \<lparr>temp = replicate 13 (replicate 4 (f_zero fl)), addr = 0,
      vs_output = replicate 16 [f_zero fl, f_zero fl, f_zero fl, f_one fl], written = replicate 16 0\<rparr>"

definition nv2a_vsh_execute ::
    "'f float_ops \<Rightarrow> bool \<Rightarrow> NV2AVshProgram \<Rightarrow> 'f list list \<Rightarrow> 'f list list \<Rightarrow> vsh_error + ('f list list \<times> nat list) option" where
  "nv2a_vsh_execute fl dp_zero p inputs consts =
     (if \<not> valid p \<or> \<not> has_final p then Inr None
      else bind_ret (exec_slots fl dp_zero inputs consts (insns p) (vsh_start fl))
             (\<lambda>st. Inr (Some (vs_output st, written st))))"

section \<open>Computations that stay in bounds\<close>

definition safe :: "('a \<Rightarrow> bool) \<Rightarrow> vsh_error + 'a \<Rightarrow> bool" where
  "safe P r \<longleftrightarrow> (\<exists>x. r = Inr x \<and> P x)"

named_theorems safe_rules

lemma safe_Inr [simp]: "safe P (Inr x) \<longleftrightarrow> P x"
  by (simp add: safe_def)

lemma safe_bind: "safe P r \<Longrightarrow> (\<And>x. P x \<Longrightarrow> safe Q (f x)) \<Longrightarrow> safe Q (bind_err r f)"
  by (auto simp: safe_def bind_err_def)

lemma safe_ret: "safe (pred_option P) r \<Longrightarrow> (\<And>x. P x \<Longrightarrow> safe (pred_option Q) (f x)) \<Longrightarrow> safe (pred_option Q) (bind_ret r f)"
  unfolding bind_ret_def by (erule safe_bind) (auto split: option.split)

lemma safe_row [safe_rules]: "i < length xs \<Longrightarrow> list_all P xs \<Longrightarrow> safe P (row xs i)"
  by (simp add: row_def list_all_length)

lemma safe_set_row [safe_rules]:
  "i < length xs \<Longrightarrow> list_all P xs \<Longrightarrow> P v \<Longrightarrow> safe (\<lambda>ys. length ys = length xs \<and> list_all P ys) (set_row xs i v)"
  by (auto simp: set_row_def list_all_length nth_list_update)

section \<open>Types of the machine\<close>

definition rows :: "nat \<Rightarrow> 'f list list \<Rightarrow> bool" where
  "rows n xs \<longleftrightarrow> length xs = n \<and> list_all (\<lambda>r. length r = 4) xs"

definition state_typed :: "'f vsh_state \<Rightarrow> bool" where
  "state_typed st \<longleftrightarrow> rows NV2A_VS_MAX_TEMPS (temp st) \<and> rows 16 (vs_output st) \<and> length (written st) = 16"

definition dest_typed :: "NV2AVshDstOperand \<Rightarrow> bool" where
  "dest_typed d \<longleftrightarrow> dest_ok d \<and> (output_mask d \<noteq> 0 \<and> output_reg d \<noteq> NV2A_VSH_OUT_NONE \<longrightarrow> output_reg_valid (output_reg d))"

definition insn_typed :: "NV2AVshInstruction \<Rightarrow> bool" where
  "insn_typed s \<longleftrightarrow> length (mac_src s) = 3
     \<and> (\<forall>j < 3. length (swizzle (mac_src s ! j)) = 4 \<and> list_all (\<lambda>k. k < 4) (swizzle (mac_src s ! j))
          \<and> (source_used s j \<longrightarrow> valid_source (mac_src s ! j)))
     \<and> dest_typed (mac_dst s) \<and> dest_typed (ilu_dst s)"

lemma read_source_typed:
  assumes "rows NV2A_VS_MAX_INPUTS inputs" "rows NV2A_VS_MAX_CONSTANTS c" "state_typed st"
    "valid_source s" "length (swizzle s) = 4" "list_all (\<lambda>k. k < 4) (swizzle s)"
  shows "safe (pred_option (\<lambda>r. length r = 4)) (read_source fl inputs c st s)"
proof -
  have sw: "swizzle s ! k < 4" if "k < 4" for k using assms(5,6) that by (simp add: list_all_length)
  have pick: "safe (pred_option (\<lambda>r. length r = 4)) (swizzled fl s val)" if "length val = 4" for val
    using sw [of 0] sw [of 1] sw [of 2] sw [of 3] that by (simp add: swizzled_def row_def bind_err_def)
  have at: "safe (\<lambda>r. length r = 4) (row xs i)" if "rows n xs" "i < n" for xs :: "'a list list" and n i
    using that by (intro safe_row) (simp_all add: rows_def)
  have ty: "rows NV2A_VS_MAX_TEMPS (temp st)" "rows 16 (vs_output st)" using assms(3) by (simp_all add: state_typed_def)
  show ?thesis
    unfolding read_source_def Let_def
    using assms(1,2,4) ty
    by (auto simp: valid_source_def vs_max intro!: safe_bind [OF at pick] split: NV2AVshRegType.split)
qed

lemma write_output_typed:
  assumes "state_typed st" "r < 16" "\<And>d. length d = 4 \<Longrightarrow> length (f d) = 4"
  shows "safe state_typed (write_output r f m st)"
proof -
  have ty: "length (vs_output st) = 16" "list_all (\<lambda>r. length r = 4) (vs_output st)" "length (written st) = 16"
    using assms(1) by (simp_all add: state_typed_def rows_def)
  have 1: "safe (\<lambda>r. length r = 4) (row (vs_output st) r)" using ty assms(2) by (intro safe_row) simp_all
  have 2: "safe (\<lambda>out. length out = 16 \<and> list_all (\<lambda>r. length r = 4) out) (set_row (vs_output st) r v)" if "length v = 4" for v
    using safe_set_row [of r "vs_output st" "\<lambda>r. length r = 4" v] ty assms(2) that by simp
  have 3: "safe (\<lambda>_. True) (row (written st) r)" using ty assms(2) by (intro safe_row) (simp_all add: list_all_length)
  have 4: "safe (\<lambda>w. length w = 16) (set_row (written st) r v)" for v using ty assms(2) by (simp add: set_row_def)
  show ?thesis
    unfolding write_output_def
    using assms(1,3)
    by (intro safe_bind [OF 1] safe_bind [OF 2] safe_bind [OF 3] safe_bind [OF 4]) (auto simp: state_typed_def rows_def)
qed

lemma write_temp_typed:
  assumes "state_typed st" "dest_ok d"
  shows "safe state_typed (write_temp d v st)"
proof -
  have ty: "length (temp st) = 13" "list_all (\<lambda>r. length r = 4) (temp st)"
    using assms(1) by (simp_all add: state_typed_def rows_def vs_max)
  have wm: "length (write_masked e v (write_mask d)) = 4" for e by (simp add: write_masked_def)
  have "safe state_typed (bind_err (row (temp st) (temp_reg d)) (\<lambda>e.
           bind_err (set_row (temp st) (temp_reg d) (write_masked e v (write_mask d))) (\<lambda>t. Inr (st\<lparr>temp := t\<rparr>))))"
    if "temp_reg d < 13"
  proof -
    have 1: "safe (\<lambda>r. length r = 4) (row (temp st) (temp_reg d))" using ty that by (intro safe_row) simp_all
    have 2: "safe (\<lambda>t. length t = 13 \<and> list_all (\<lambda>r. length r = 4) t) (set_row (temp st) (temp_reg d) (write_masked e v (write_mask d)))" for e
      using safe_set_row [of "temp_reg d" "temp st" "\<lambda>r. length r = 4"] ty wm that by simp
    show ?thesis using assms(1)
      by (intro safe_bind [OF 1] safe_bind [OF 2]) (simp add: state_typed_def rows_def vs_max)
  qed
  then show ?thesis
    using assms write_output_typed [OF assms(1), of 0] wm by (auto simp: write_temp_def dest_ok_def vs_max)
qed

lemma write_dest_typed:
  assumes "state_typed st" "dest_typed d"
  shows "safe state_typed (write_dest d v st)"
  unfolding write_dest_def
proof (rule safe_bind [OF write_temp_typed])
  fix st' :: "'a vsh_state" assume "state_typed st'"
  then show "safe state_typed (if output_mask d \<noteq> 0 \<and> output_reg d \<noteq> NV2A_VSH_OUT_NONE
       then write_output (output_reg d)
              (\<lambda>e. if output_reg d = NV2A_VSH_OUT_FOG
                   then (case first_enabled (output_mask d) of None \<Rightarrow> e | Some k \<Rightarrow> e[0 := v ! k])
                   else write_masked e v (output_mask d))
              (output_mask d) st' else Inr st')"
    using assms(2) by (auto simp: dest_typed_def output_reg_valid_def write_masked_def intro!: write_output_typed split: option.split)
qed (use assms in \<open>simp_all add: dest_typed_def\<close>)

lemma read_used_typed:
  assumes "rows NV2A_VS_MAX_INPUTS inputs" "rows NV2A_VS_MAX_CONSTANTS c" "state_typed st" "insn_typed s" "j < 3"
  shows "safe (pred_option (\<lambda>r. length r = 4)) (read_used fl inputs c st s j)"
  using assms read_source_typed [OF assms(1-3), of "mac_src s ! j" fl] by (auto simp: read_used_def insn_typed_def)

lemma exec_slot_typed:
  assumes "rows NV2A_VS_MAX_INPUTS inputs" "rows NV2A_VS_MAX_CONSTANTS consts" "state_typed st" "insn_typed s"
  shows "safe (pred_option state_typed) (exec_slot fl dpz inputs consts s st)"
proof -
  have d: "dest_typed (mac_dst s)" "dest_typed (ilu_dst s)" using assms(4) by (simp_all add: insn_typed_def)
  have arl: "state_typed (st\<lparr>addr := x\<rparr>)" for x using assms(3) by (simp add: state_typed_def)
  have mac: "safe (pred_option state_typed) (exec_mac fl dpz s a b c st)" for a b c
    using assms(3) by (auto simp: exec_mac_def Let_def arl intro!: safe_bind [OF write_dest_typed [OF _ d(1)]])
  have ilu: "safe (pred_option state_typed) (exec_ilu fl s c st')" if "state_typed st'" for c and st' :: "'a vsh_state"
    using that by (auto simp: exec_ilu_def intro!: safe_bind [OF write_dest_typed [OF _ d(2)]])
  show ?thesis
    unfolding exec_slot_def
    by (intro safe_ret [OF read_used_typed [OF assms]]) (auto intro: safe_ret [OF mac] ilu)
qed

lemma exec_slots_typed:
  assumes "rows NV2A_VS_MAX_INPUTS inputs" "rows NV2A_VS_MAX_CONSTANTS consts"
  shows "state_typed st \<Longrightarrow> list_all insn_typed ss \<Longrightarrow> safe (pred_option state_typed) (exec_slots fl dpz inputs consts ss st)"
proof (induction ss arbitrary: st)
  case (Cons s ss)
  then show ?case by (auto intro!: safe_ret [OF exec_slot_typed [OF assms]])
qed simp

lemma vsh_start_typed: "state_typed (vsh_start fl)"
  by (simp add: state_typed_def vsh_start_def rows_def vs_max list_all_length)

section \<open>Decoded programs are well typed\<close>

lemma field_less: "field k n w < 2 ^ n"
proof -
  have "drop_bit k w AND mask n = take_bit n (drop_bit k w)" by (simp add: take_bit_eq_mask)
  then show ?thesis by (simp add: field_def unsigned_take_bit_eq)
qed

lemma vsh_source_swizzle: "length (swizzle (vsh_source m t z n i c r)) = 4 \<and> list_all (\<lambda>k. k < 4) (swizzle (vsh_source m t z n i c r))"
  by (simp add: vsh_source_def)

lemma slot_sources_shape:
  "length (slot_sources w1 w2 w3) = 3"
  "j < 3 \<Longrightarrow> length (swizzle (slot_sources w1 w2 w3 ! j)) = 4 \<and> list_all (\<lambda>k. k < 4) (swizzle (slot_sources w1 w2 w3 ! j))"
proof -
  show "length (slot_sources w1 w2 w3) = 3" by (simp add: slot_sources_def Let_def)
  assume "j < 3"
  then consider "j = 0" | "j = 1" | "j = 2" by linarith
  then show "length (swizzle (slot_sources w1 w2 w3 ! j)) = 4 \<and> list_all (\<lambda>k. k < 4) (swizzle (slot_sources w1 w2 w3 ! j))"
    using vsh_source_swizzle by cases (auto simp: slot_sources_def Let_def list_all_length)
qed

lemma slot_sources_input:
  assumes "j < 3" "reg_type (slot_sources w1 w2 w3 ! j) = NV2A_VSH_REG_INPUT"
  shows "reg_index (slot_sources w1 w2 w3 ! j) < 16"
proof -
  have src: "reg_index (vsh_source m t z n (field 9 4 w1) c r) < 16"
    if "reg_type (vsh_source m t z n (field 9 4 w1) c r) = NV2A_VSH_REG_INPUT" "m < 4" for m t z n c r
  proof -
    have "m = 0 \<or> m = 1 \<or> m = 2 \<or> m = 3" using that(2) by linarith
    then show ?thesis using that(1) field_less [of 9 4 w1] by (auto simp: vsh_source_def)
  qed
  have m: "field 26 2 w2 < 4" "field 11 2 w2 < 4" "field 28 2 w3 < 4"
    using field_less [of 26 2 w2] field_less [of 11 2 w2] field_less [of 28 2 w3] by simp_all
  consider "j = 0" | "j = 1" | "j = 2" using assms(1) by linarith
  then show ?thesis using assms(2) src m by cases (auto simp: slot_sources_def Let_def split: if_splits)
qed

lemma slot_dests_outputs:
  assumes "slot_dests mac ilu w3 = (m, i, True)"
  shows "(output_mask m \<noteq> 0 \<and> output_reg m \<noteq> NV2A_VSH_OUT_NONE \<longrightarrow> output_reg_valid (output_reg m))
    \<and> (output_mask i \<noteq> 0 \<and> output_reg i \<noteq> NV2A_VSH_OUT_NONE \<longrightarrow> output_reg_valid (output_reg i))"
  using assms by (auto simp: slot_dests_def Let_def split: if_splits)

lemma decode_slot_typed:
  assumes "decode_slot w1 w2 w3 = (s, True)" "\<forall>j < 3. source_used s j \<longrightarrow> valid_source (mac_src s ! j)"
  shows "insn_typed s"
  using assms slot_sources_shape(1) [of w1 w2 w3] slot_sources_shape(2) [of _ w1 w2 w3] slot_dests_outputs
  by (auto simp: decode_slot_def Let_def insn_typed_def dest_typed_def split: prod.splits)

definition covered :: "u16 \<Rightarrow> NV2AVshInstruction \<Rightarrow> bool" where
  "covered reads s \<longleftrightarrow> (\<forall>j < 3. source_used s j \<and> reg_type (mac_src s ! j) = NV2A_VSH_REG_INPUT
     \<longrightarrow> bit reads (reg_index (mac_src s ! j)))"

lemma covered_or: "covered r s \<Longrightarrow> covered (r OR r') s"
  by (simp add: covered_def bit_or_iff)

lemma note_source_spec:
  "insns (note_source s j p) = insns p"
  "valid (note_source s j p) = (valid p \<and> (source_used s j \<longrightarrow> valid_source (mac_src s ! j)))"
  "\<exists>r. inputs_read (note_source s j p) = inputs_read p OR r"
  "source_used s j \<Longrightarrow> reg_type (mac_src s ! j) = NV2A_VSH_REG_INPUT \<Longrightarrow> reg_index (mac_src s ! j) < 16 \<Longrightarrow>
    bit (inputs_read (note_source s j p)) (reg_index (mac_src s ! j))"
  by (auto simp: note_source_def Let_def bit_simps intro: exI [of _ 0])

text \<open>What the parser keeps of the program it builds, whatever the words are.\<close>

definition program_typed :: "NV2AVshProgram \<Rightarrow> bool" where
  "program_typed p \<longleftrightarrow> (valid p \<longrightarrow> list_all insn_typed (insns p)) \<and> list_all (covered (inputs_read p)) (insns p)"

lemma note_sources_spec:
  fixes p :: NV2AVshProgram and s :: NV2AVshInstruction
  defines "p' \<equiv> fold (note_source s) [0, 1, 2] p"
  assumes "\<forall>j < 3. reg_type (mac_src s ! j) = NV2A_VSH_REG_INPUT \<longrightarrow> reg_index (mac_src s ! j) < 16"
  shows "insns p' = insns p" "valid p' = (valid p \<and> (\<forall>j < 3. source_used s j \<longrightarrow> valid_source (mac_src s ! j)))"
    "\<exists>r. inputs_read p' = inputs_read p OR r" "covered (inputs_read p') s"
proof -
  have three: "(\<forall>j < 3. P j) \<longleftrightarrow> P 0 \<and> P 1 \<and> P (2 :: nat)" for P
    by (auto simp: numeral_eq_Suc all_nat_less_Suc)
  let ?p1 = "note_source s 0 p" let ?p2 = "note_source s 1 ?p1"
  have p': "p' = note_source s 2 ?p2" by (simp add: p'_def)
  note spec0 = note_source_spec [of s 0 p] note spec1 = note_source_spec [of s 1 ?p1] note spec2 = note_source_spec [of s 2 ?p2]
  show "insns p' = insns p" by (simp add: p' note_source_spec(1))
  show "valid p' = (valid p \<and> (\<forall>j < 3. source_used s j \<longrightarrow> valid_source (mac_src s ! j)))"
    unfolding three by (simp add: p' note_source_spec(2) conj_ac)
  obtain r0 r1 r2 where r: "inputs_read ?p1 = inputs_read p OR r0" "inputs_read ?p2 = inputs_read ?p1 OR r1"
    "inputs_read p' = inputs_read ?p2 OR r2" using spec0(3) spec1(3) spec2(3) p' by auto
  then show "\<exists>r. inputs_read p' = inputs_read p OR r" by (auto simp: or.assoc)
  show "covered (inputs_read p') s"
    unfolding covered_def three
    using assms(2)[unfolded three] spec0(4) spec1(4) spec2(4) r p' by (auto simp: bit_or_iff)
qed

lemma parse_slots_typed:
  "program_typed p \<Longrightarrow> program_typed (parse_slots ws i n p)"
proof (induction n arbitrary: p i)
  case (Suc n)
  obtain s ok where d: "decode_slot (ws ! (i * 4 + 1)) (ws ! (i * 4 + 2)) (ws ! (i * 4 + 3)) = (s, ok)" by fastforce
  define p1 where "p1 = (if ok then p else p\<lparr>valid := False\<rparr>)"
  define p2 where "p2 = fold (note_source s) [0, 1, 2] p1"
  define p3 where "p3 = p2\<lparr>insns := insns p2 @ [s]\<rparr>"
  have "mac_src s = slot_sources (ws ! (i * 4 + 1)) (ws ! (i * 4 + 2)) (ws ! (i * 4 + 3))"
    using d by (auto simp: decode_slot_def Let_def split: prod.splits)
  then have small: "\<forall>j < 3. reg_type (mac_src s ! j) = NV2A_VSH_REG_INPUT \<longrightarrow> reg_index (mac_src s ! j) < 16"
    using slot_sources_input by auto
  note spec = note_sources_spec [OF small, of p1, folded p2_def]
  obtain r where r: "inputs_read p2 = inputs_read p1 OR r" using spec(3) by blast
  have p1: "insns p1 = insns p" "inputs_read p1 = inputs_read p" "valid p1 = (valid p \<and> ok)" by (simp_all add: p1_def)
  have "list_all insn_typed (insns p2 @ [s])" if "valid p2"
    using that spec(1,2) p1 Suc.prems decode_slot_typed d by (auto simp: program_typed_def)
  moreover have "list_all (covered (inputs_read p2)) (insns p2 @ [s])"
    using spec(1,4) p1 r Suc.prems covered_or by (auto simp: program_typed_def list_all_iff)
  ultimately have "program_typed p3" by (simp add: program_typed_def p3_def)
  moreover have "parse_slots ws i (Suc n) p = (if is_final s then p3\<lparr>has_final := True\<rparr> else parse_slots ws (i + 1) n p3)"
    unfolding parse_slots.simps d p3_def p2_def p1_def by (simp only: prod.case Let_def)
  ultimately show ?case using Suc.IH by (simp add: program_typed_def)
qed simp

lemma parse_typed: "nv2a_vsh_parse ws n = (ok, p) \<Longrightarrow> program_typed p \<and> ok = valid p"
proof -
  have "program_typed (empty_program\<lparr>valid := v\<rparr>)" "program_typed empty_program" for v
    by (simp_all add: program_typed_def empty_program_def)
  then show "nv2a_vsh_parse ws n = (ok, p) \<Longrightarrow> program_typed p \<and> ok = valid p"
    by (auto simp: nv2a_vsh_parse_def Let_def empty_program_def split: option.splits if_splits intro!: parse_slots_typed)
qed

text \<open>Programs that parse do not go wrong.\<close>

text \<open>
  Claim C7: A vertex program that came out of the parser, whatever its words, never makes
  the interpreter index outside a register file, a constant bank, an input or an output
  array.
\<close>

theorem parsed_programs_stay_in_bounds:
  assumes "nv2a_vsh_parse words n = (ok, p)"
    and "rows NV2A_VS_MAX_INPUTS inputs" "rows NV2A_VS_MAX_CONSTANTS consts"
  shows "nv2a_vsh_execute fl dpz p inputs consts \<noteq> Inl Out_of_bounds"
proof (cases "valid p \<and> has_final p")
  case True
  then have "list_all insn_typed (insns p)" using parse_typed [OF assms(1)] by (simp add: program_typed_def)
  from exec_slots_typed [OF assms(2,3) vsh_start_typed this, of fl dpz fl]
  show ?thesis using True
    by (auto simp: nv2a_vsh_execute_def safe_def bind_ret_def bind_err_def split: option.splits)
qed (auto simp: nv2a_vsh_execute_def)

section \<open>The inputs a program reads\<close>

lemma read_used_inputs:
  assumes "covered reads s" "\<forall>v. bit reads v \<longrightarrow> v < 16 \<longrightarrow> inputs ! v = inputs' ! v" "length inputs = length inputs'" "length inputs = 16" "j < 3"
  shows "read_used fl inputs c st s j = read_used fl inputs' c st s j"
  using assms by (auto simp: read_used_def read_source_def covered_def row_def split: NV2AVshRegType.split)

lemma exec_slots_inputs:
  assumes "\<forall>v. bit reads v \<longrightarrow> v < 16 \<longrightarrow> inputs ! v = inputs' ! v" "length inputs = 16" "length inputs' = 16"
  shows "list_all (covered reads) ss \<Longrightarrow> exec_slots fl dpz inputs c ss st = exec_slots fl dpz inputs' c ss st"
proof (induction ss arbitrary: st)
  case (Cons s ss)
  have "exec_slot fl dpz inputs c s st = exec_slot fl dpz inputs' c s st"
    using read_used_inputs [of reads s inputs inputs' _ fl c st] Cons.prems assms by (simp add: exec_slot_def)
  then show ?case using Cons by (simp add: bind_ret_def bind_err_def split: sum.split option.split)
qed simp

text \<open>
  Claim C8: The result of a parsed program depends only on the input registers named in
  inputs_read, so a renderer may leave every other attribute out.
\<close>

theorem only_noted_inputs_matter:
  assumes "nv2a_vsh_parse words n = (ok, p)"
    and "length inputs = 16" "length inputs' = 16" "\<forall>v < 16. bit (inputs_read p) v \<longrightarrow> inputs ! v = inputs' ! v"
  shows "nv2a_vsh_execute fl dpz p inputs consts = nv2a_vsh_execute fl dpz p inputs' consts"
  using exec_slots_inputs [of "inputs_read p" inputs inputs' "insns p" fl dpz "consts" "vsh_start fl"] parse_typed [OF assms(1)] assms(2-)
  by (auto simp: nv2a_vsh_execute_def program_typed_def)

section \<open>Skipping the results nobody stores\<close>

text \<open>The slot as the hardware documents it: both units run on the state before the slot, then both write.\<close>

definition slot_reference ::
    "'f float_ops \<Rightarrow> bool \<Rightarrow> 'f list list \<Rightarrow> 'f list list \<Rightarrow> NV2AVshInstruction \<Rightarrow> 'f vsh_state \<Rightarrow> vsh_error + 'f vsh_state option" where
  "slot_reference fl dpz inputs consts s st =
     bind_ret (read_used fl inputs consts st s 0) (\<lambda>a.
     bind_ret (read_used fl inputs consts st s 1) (\<lambda>b.
     bind_ret (read_used fl inputs consts st s 2) (\<lambda>c.
       let m = mac_eval fl dpz (mac_op s) a b c; u = ilu_eval fl (ilu_op s) c; x = f_floor fl (a ! 0)
       in if constant_reg (mac_dst s) \<ge> 0 \<or> constant_reg (ilu_dst s) \<ge> 0 then Inr None
          else if mac_op s = NV2A_VSH_MAC_ARL
          then (if \<not> f_isfinite fl x \<or> f_lt fl x (f_neg fl (f_two_to fl 31)) \<or> f_ge fl x (f_two_to fl 31) then Inr None
                else bind_err (write_dest (ilu_dst s) u (st\<lparr>addr := f_to_int fl x\<rparr>)) (Inr \<circ> Some))
          else bind_err (write_dest (mac_dst s) m st) (\<lambda>st. bind_err (write_dest (ilu_dst s) u st) (Inr \<circ> Some)))))"

lemma write_unstored: "\<not> dest_stored d \<Longrightarrow> write_dest d v st = Inr st"
  by (auto simp: dest_stored_def write_dest_def write_temp_def bind_err_def)

text \<open>
  Skipping the evaluation of results nobody stores does not change a slot: it
  equals the reference in which both units run on the state before the slot and then both
  write.
\<close>

theorem skipping_unstored_results_is_invisible:
  "exec_slot fl dpz inputs consts s st = slot_reference fl dpz inputs consts s st"
  unfolding exec_slot_def slot_reference_def exec_mac_def exec_ilu_def Let_def
  by (intro arg_cong2 [of _ _ _ _ bind_ret] refl ext)
    (auto simp: bind_ret_def bind_err_def write_unstored comp_def split: sum.split)

section \<open>An example\<close>

text \<open>One slot, \<open>MOV oD0, v3\<close>, and it is the last; over integers in place of floats.\<close>

definition mov_words :: "u32 list" where
  "mov_words = [0, 0x20061B, 0x08000000, 0xF819]"

definition integer_ops :: "int float_ops" where
  "integer_ops = \<lparr>f_zero = 0, f_one = 1, f_neg = uminus, f_add = (+), f_sub = (-), f_mul = (*), f_div = (div), f_eq = (=),
     f_lt = (<), f_ge = (\<ge>), f_min = min, f_max = max, f_abs = abs, f_copysign = (\<lambda>a b. if b < 0 then - \<bar>a\<bar> else \<bar>a\<bar>),
     f_sqrt = id, f_exp2 = (\<lambda>n. 2 ^ nat n), f_log2 = id, f_pow = (\<lambda>a n. a ^ nat n), f_floor = id,
     f_isfinite = (\<lambda>_. True), f_to_int = id, f_two_to = (\<lambda>n. 2 ^ nat n), f_lit_bound = 127\<rparr>"

definition input_rows :: "int \<Rightarrow> int list list" where
  "input_rows x = (replicate 16 [0, 0, 0, 0])[0 := [x, x, x, x], 3 := [10, 20, 30, 40]]"

lemma mov_parses: "fst (nv2a_vsh_parse (Some mov_words) 1) \<and> inputs_read (snd (nv2a_vsh_parse (Some mov_words) 1)) = 8"
  by code_simp

theorem parsed_programs_witness:
  "nv2a_vsh_execute integer_ops True (snd (nv2a_vsh_parse (Some mov_words) 1)) (replicate 16 [0, 0, 0, 0]) (replicate 192 [0, 0, 0, 0])
     \<noteq> Inl Out_of_bounds"
  by (rule parsed_programs_stay_in_bounds [OF prod.collapse [symmetric]]) (simp_all add: rows_def vs_max list_all_length)

theorem only_noted_inputs_witness:
  "nv2a_vsh_execute integer_ops True (snd (nv2a_vsh_parse (Some mov_words) 1)) (input_rows 5) (replicate 192 [0, 0, 0, 0])
     = nv2a_vsh_execute integer_ops True (snd (nv2a_vsh_parse (Some mov_words) 1)) (input_rows 6) (replicate 192 [0, 0, 0, 0])"
proof -
  have bits: "v = 3" if "bit (8 :: u16) v" for v
    using that bit_push_bit_iff [of 3 "1 :: u16" v] by (auto simp: bit_1_iff)
  show ?thesis
    by (rule only_noted_inputs_matter [OF prod.collapse [symmetric]])
      (use bits in \<open>auto simp: input_rows_def mov_parses\<close>)
qed

lemma mov_moves:
  "\<exists>out w. nv2a_vsh_execute integer_ops True (snd (nv2a_vsh_parse (Some mov_words) 1)) (input_rows 5) (replicate 192 [0, 0, 0, 0])
     = Inr (Some (out, w)) \<and> out ! 3 = [10, 20, 30, 40] \<and> w ! 3 = 15"
proof -
  have "map_sum id (map_option (\<lambda>(out, w). (out ! 3, w ! 3)))
      (nv2a_vsh_execute integer_ops True (snd (nv2a_vsh_parse (Some mov_words) 1)) (input_rows 5) (replicate 192 [0, 0, 0, 0]))
      = Inr (Some ([10, 20, 30, 40], 15))"
    by code_simp
  then show ?thesis
    by (cases "nv2a_vsh_execute integer_ops True (snd (nv2a_vsh_parse (Some mov_words) 1)) (input_rows 5) (replicate 192 [0, 0, 0, 0])")
      (auto split: option.splits)
qed

end
