(* ===== verification/D3d8_Ff_Combiner.thy ===== *)
theory D3d8_Ff_Combiner
  imports Prelude Complex_Main
begin

text \<open>
  The fixed-function combiner builder of \<open>src/nv2a/d3d8_ff_combiner.c\<close>: the D3D8 texture stage
  operations compiled to the input and output words of the NV2A register combiners. The
  combiner words are lists of eight; the guest's flag register \<open>F\<close> is kept as a word.
\<close>

section \<open>Constants\<close>

abbreviation (input) D3D8FF_TSS_COLOROP :: nat where "D3D8FF_TSS_COLOROP \<equiv> 12"
abbreviation (input) D3D8FF_TSS_COLORARG0 :: nat where "D3D8FF_TSS_COLORARG0 \<equiv> 13"
abbreviation (input) D3D8FF_TSS_COLORARG1 :: nat where "D3D8FF_TSS_COLORARG1 \<equiv> 14"
abbreviation (input) D3D8FF_TSS_COLORARG2 :: nat where "D3D8FF_TSS_COLORARG2 \<equiv> 15"
abbreviation (input) D3D8FF_TSS_ALPHAOP :: nat where "D3D8FF_TSS_ALPHAOP \<equiv> 16"
abbreviation (input) D3D8FF_TSS_ALPHAARG0 :: nat where "D3D8FF_TSS_ALPHAARG0 \<equiv> 17"
abbreviation (input) D3D8FF_TSS_ALPHAARG1 :: nat where "D3D8FF_TSS_ALPHAARG1 \<equiv> 18"
abbreviation (input) D3D8FF_TSS_ALPHAARG2 :: nat where "D3D8FF_TSS_ALPHAARG2 \<equiv> 19"
abbreviation (input) D3D8FF_TSS_RESULTARG :: nat where "D3D8FF_TSS_RESULTARG \<equiv> 20"

abbreviation (input) D3D8FF_TOP_DISABLE :: u32 where "D3D8FF_TOP_DISABLE \<equiv> 1"
abbreviation (input) D3D8FF_TOP_SELECTARG1 :: u32 where "D3D8FF_TOP_SELECTARG1 \<equiv> 2"
abbreviation (input) D3D8FF_TOP_SELECTARG2 :: u32 where "D3D8FF_TOP_SELECTARG2 \<equiv> 3"
abbreviation (input) D3D8FF_TOP_MODULATE :: u32 where "D3D8FF_TOP_MODULATE \<equiv> 4"
abbreviation (input) D3D8FF_TOP_MODULATE2X :: u32 where "D3D8FF_TOP_MODULATE2X \<equiv> 5"
abbreviation (input) D3D8FF_TOP_MODULATE4X :: u32 where "D3D8FF_TOP_MODULATE4X \<equiv> 6"
abbreviation (input) D3D8FF_TOP_ADD :: u32 where "D3D8FF_TOP_ADD \<equiv> 7"
abbreviation (input) D3D8FF_TOP_ADDSIGNED :: u32 where "D3D8FF_TOP_ADDSIGNED \<equiv> 8"
abbreviation (input) D3D8FF_TOP_ADDSIGNED2X :: u32 where "D3D8FF_TOP_ADDSIGNED2X \<equiv> 9"
abbreviation (input) D3D8FF_TOP_SUBTRACT :: u32 where "D3D8FF_TOP_SUBTRACT \<equiv> 10"
abbreviation (input) D3D8FF_TOP_ADDSMOOTH :: u32 where "D3D8FF_TOP_ADDSMOOTH \<equiv> 11"
abbreviation (input) D3D8FF_TOP_BLENDDIFFUSEALPHA :: u32 where "D3D8FF_TOP_BLENDDIFFUSEALPHA \<equiv> 12"
abbreviation (input) D3D8FF_TOP_BLENDCURRENTALPHA :: u32 where "D3D8FF_TOP_BLENDCURRENTALPHA \<equiv> 13"
abbreviation (input) D3D8FF_TOP_BLENDTEXTUREALPHA :: u32 where "D3D8FF_TOP_BLENDTEXTUREALPHA \<equiv> 14"
abbreviation (input) D3D8FF_TOP_BLENDFACTORALPHA :: u32 where "D3D8FF_TOP_BLENDFACTORALPHA \<equiv> 15"
abbreviation (input) D3D8FF_TOP_BLENDTEXTUREALPHAPM :: u32 where "D3D8FF_TOP_BLENDTEXTUREALPHAPM \<equiv> 16"
abbreviation (input) D3D8FF_TOP_PREMODULATE :: u32 where "D3D8FF_TOP_PREMODULATE \<equiv> 17"
abbreviation (input) D3D8FF_TOP_MODULATEALPHA_ADDCOLOR :: u32 where "D3D8FF_TOP_MODULATEALPHA_ADDCOLOR \<equiv> 18"
abbreviation (input) D3D8FF_TOP_MODULATECOLOR_ADDALPHA :: u32 where "D3D8FF_TOP_MODULATECOLOR_ADDALPHA \<equiv> 19"
abbreviation (input) D3D8FF_TOP_MODULATEINVALPHA_ADDCOLOR :: u32 where "D3D8FF_TOP_MODULATEINVALPHA_ADDCOLOR \<equiv> 20"
abbreviation (input) D3D8FF_TOP_MODULATEINVCOLOR_ADDALPHA :: u32 where "D3D8FF_TOP_MODULATEINVCOLOR_ADDALPHA \<equiv> 21"
abbreviation (input) D3D8FF_TOP_DOTPRODUCT3 :: u32 where "D3D8FF_TOP_DOTPRODUCT3 \<equiv> 22"
abbreviation (input) D3D8FF_TOP_MULTIPLYADD :: u32 where "D3D8FF_TOP_MULTIPLYADD \<equiv> 23"
abbreviation (input) D3D8FF_TOP_LERP :: u32 where "D3D8FF_TOP_LERP \<equiv> 24"
abbreviation (input) D3D8FF_TOP_BUMPENVMAP :: u32 where "D3D8FF_TOP_BUMPENVMAP \<equiv> 25"
abbreviation (input) D3D8FF_TOP_BUMPENVMAPLUMINANCE :: u32 where "D3D8FF_TOP_BUMPENVMAPLUMINANCE \<equiv> 26"

abbreviation (input) D3D8FF_TA_DIFFUSE :: u32 where "D3D8FF_TA_DIFFUSE \<equiv> 0"
abbreviation (input) D3D8FF_TA_CURRENT :: u32 where "D3D8FF_TA_CURRENT \<equiv> 1"
abbreviation (input) D3D8FF_TA_TEXTURE :: u32 where "D3D8FF_TA_TEXTURE \<equiv> 2"
abbreviation (input) D3D8FF_TA_TFACTOR :: u32 where "D3D8FF_TA_TFACTOR \<equiv> 3"
abbreviation (input) D3D8FF_TA_SPECULAR :: u32 where "D3D8FF_TA_SPECULAR \<equiv> 4"
abbreviation (input) D3D8FF_TA_TEMP :: u32 where "D3D8FF_TA_TEMP \<equiv> 5"

abbreviation (input) D3D8FF_UNRES_BAD_OP :: u32 where "D3D8FF_UNRES_BAD_OP \<equiv> 0x1"
abbreviation (input) D3D8FF_UNRES_BAD_ARG :: u32 where "D3D8FF_UNRES_BAD_ARG \<equiv> 0x2"

abbreviation (input) F_STAGE_MASK :: u32 where "F_STAGE_MASK \<equiv> 0x03"
abbreviation (input) F_FIRST :: u32 where "F_FIRST \<equiv> 0x10"
abbreviation (input) F_ALPHA :: u32 where "F_ALPHA \<equiv> 0x20"
abbreviation (input) F_DONE :: u32 where "F_DONE \<equiv> 0x80"
abbreviation (input) F_ALPHA_PASS :: u32 where "F_ALPHA_PASS \<equiv> 0xE8"
abbreviation (input) F_OUT_OFS :: u32 where "F_OUT_OFS \<equiv> 0x48"
abbreviation (input) DEV_SPECULAR :: u32 where "DEV_SPECULAR \<equiv> 0x40"

abbreviation (input) SA :: u32 where "SA \<equiv> 0x30000"
abbreviation (input) SB :: u32 where "SB \<equiv> 0x20000"
abbreviation (input) SC :: u32 where "SC \<equiv> 0x10000"
abbreviation (input) SD :: u32 where "SD \<equiv> 0x00000"

section \<open>State\<close>

record D3D8FFCombinerIn =
  tss :: "nat \<Rightarrow> nat \<Rightarrow> u32"
  point_sprite_enable :: u32
  specular_enable_in :: u32
  texture_bound_mask :: u32
  pixel_shader :: u32
  device_flags_in :: u32

record D3D8FFCombiners =
  emitted :: bool
  combiner_control :: u32
  color_icw :: "u32 list"
  color_ocw :: "u32 list"
  alpha_icw :: "u32 list"
  alpha_ocw :: "u32 list"
  specular_enable_emitted :: bool
  specular_enable :: u32
  device_flags :: u32
  first_stage :: nat
  unresolved :: u32

record Ctx =
  dev_flags :: u32
  ctx_unresolved :: u32

section \<open>One input\<close>

text \<open>The register an argument names, all ones for a texture that is not bound.\<close>

definition ff_input_reg :: "u32 \<Rightarrow> u32 \<Rightarrow> u32 \<Rightarrow> Ctx \<Rightarrow> u32 option \<times> Ctx" where
  "ff_input_reg bound arg F c =
     (let k = arg AND 0xF
      in if k = D3D8FF_TA_DIFFUSE then (Some 0x4, c)
         else if k = D3D8FF_TA_CURRENT then (Some (if F AND F_FIRST \<noteq> 0 then 0x4 else 0xC), c)
         else if k = D3D8FF_TA_TEXTURE
         then (let s = F AND F_STAGE_MASK
               in (Some (if drop_bit (unat s) bound AND 1 \<noteq> 0 then s + 8 else 0xFFFFFFFF), c))
         else if k = D3D8FF_TA_TFACTOR then (Some 0x1, c)
         else if k = D3D8FF_TA_SPECULAR then (Some 0x5, c\<lparr>dev_flags := dev_flags c OR DEV_SPECULAR\<rparr>)
         else if k = D3D8FF_TA_TEMP then (Some 0xD, c)
         else (None, c\<lparr>ctx_unresolved := ctx_unresolved c OR D3D8FF_UNRES_BAD_ARG\<rparr>))"

definition ff_input :: "u32 \<Rightarrow> u32 \<Rightarrow> u32 \<Rightarrow> u32 \<Rightarrow> Ctx \<Rightarrow> u32 \<times> Ctx" where
  "ff_input bound arg ctl F c =
     (case ff_input_reg bound arg F c of
        (None, c) \<Rightarrow> (0, c)
      | (Some reg, c) \<Rightarrow>
          let v = (drop_bit 1 (ctl OR F OR arg) AND 0x10) OR push_bit 1 ((ctl XOR arg) AND 0x10) OR (ctl AND 0x40) OR reg;
              shift = (drop_bit 13 ctl AND 0x78) AND 31
          in (push_bit (unat shift) v, c))"

section \<open>One operation\<close>

text \<open>
  The input and output words of an operation. The colour \<open>DISABLE\<close> of the first stage leaves the
  loop and is handled by the pass; here it is the word the alpha pass stores.
\<close>

definition op_words ::
    "u32 \<Rightarrow> u32 \<Rightarrow> u32 \<Rightarrow> u32 \<Rightarrow> u32 \<Rightarrow> u32 \<Rightarrow> u32 \<Rightarrow> Ctx \<Rightarrow> u32 \<times> u32 \<times> u32 \<times> Ctx" where
  "op_words bound op a0 a1 a2 F base c =
     (let inp = ff_input bound;
          modulate = (\<lambda>ocw. let (x, c) = inp a1 SA F c; (y, c) = inp a2 SB F c in (y OR x, ocw, F, c));
          add = (\<lambda>ocw. let (x, c) = inp a1 SA F c; x = x OR 0x00202000; (y, c) = inp a2 SD F c in (y OR x, ocw, F, c))
      in if op = D3D8FF_TOP_DISABLE
         then (if F AND F_FIRST \<noteq> 0 then (push_bit 23 (F AND F_ALPHA) OR 0x04200000, base, F, c) else (0, 0, F, c))
         else if op = D3D8FF_TOP_SELECTARG1
         then (let (x, c) = inp a1 SA F c in (x OR 0x00200000, base, F, c))
         else if op = D3D8FF_TOP_BUMPENVMAP \<or> op = D3D8FF_TOP_BUMPENVMAPLUMINANCE
         then (let (x, c) = inp D3D8FF_TA_CURRENT SA F c in (x OR 0x00200000, base, F, c))
         else if op = D3D8FF_TOP_SELECTARG2
         then (let (x, c) = inp a2 SD F c in (x OR 0x00002000, base, F, c))
         else if op = D3D8FF_TOP_MODULATE4X then modulate (base OR 0x20000)
         else if op = D3D8FF_TOP_MODULATE2X then modulate (base OR 0x10000)
         else if op = D3D8FF_TOP_MODULATE then modulate base
         else if op = D3D8FF_TOP_ADDSIGNED2X then add (base OR 0x18000)
         else if op = D3D8FF_TOP_ADDSIGNED then add (base OR 0x08000)
         else if op = D3D8FF_TOP_ADD then add base
         else if op = D3D8FF_TOP_SUBTRACT
         then (let (x, c) = inp a1 SA F c; x = x OR 0x00204000; (y, c) = inp a2 SD F c in (y OR x, base, F, c))
         else if op = D3D8FF_TOP_ADDSMOOTH
         then (let (x, c) = inp a1 SA F c; x = x OR 0x00200000; (y, c) = inp a1 (SC OR 0x10) F c; x = x OR y;
                   (z, c) = inp a2 SD F c in (z OR x, base, F, c))
         else if op = D3D8FF_TOP_BLENDDIFFUSEALPHA \<or> op = D3D8FF_TOP_BLENDCURRENTALPHA
              \<or> op = D3D8FF_TOP_BLENDTEXTUREALPHA \<or> op = D3D8FF_TOP_BLENDFACTORALPHA
         then (let k = op - 12; (x, c) = inp a1 SA F c; (y, c) = inp k (SB OR 0x20) F c; x = x OR y;
                   (z, c) = inp k (SC OR 0x30) F c; x = x OR z; (u, c) = inp a2 SD F c in (u OR x, base, F, c))
         else if op = D3D8FF_TOP_BLENDTEXTUREALPHAPM
         then (let (x, c) = inp a1 SA F c; x = x OR 0x00200000; (y, c) = inp D3D8FF_TA_TEXTURE (SC OR 0x30) F c; x = x OR y;
                   (z, c) = inp a2 SD F c in (z OR x, base, F, c))
         else if op = D3D8FF_TOP_PREMODULATE
         then (let (x, c) = inp a1 SA F c
               in if F AND F_FIRST \<noteq> 0
                  then (let (y, c) = inp D3D8FF_TA_TEXTURE SB F c in (x OR y, base, F, c))
                  else (x OR 0x00200000, base, F, c))
         else if op = D3D8FF_TOP_MODULATEALPHA_ADDCOLOR
         then (let (x, c) = inp a1 SA F c; x = x OR 0x00200000; (y, c) = inp a1 (SC OR 0x20) F c; x = x OR y;
                   (z, c) = inp a2 SD F c in (z OR x, base, F, c))
         else if op = D3D8FF_TOP_MODULATECOLOR_ADDALPHA \<or> op = D3D8FF_TOP_MODULATEINVCOLOR_ADDALPHA
         then (let actl = (if op = D3D8FF_TOP_MODULATECOLOR_ADDALPHA then SA else SA OR 0x10);
                   (x, c) = inp a1 actl F c; (y, c) = inp a2 SB F c; x = x OR y;
                   (z, c) = inp a1 (SC OR 0x20) F c in (z OR x OR 0x20, base, F, c))
         else if op = D3D8FF_TOP_MODULATEINVALPHA_ADDCOLOR
         then (let (x, c) = inp a1 SA F c; x = x OR 0x00200000; (y, c) = inp a1 (SC OR 0x30) F c; x = x OR y;
                   (z, c) = inp a2 SD F c in (z OR x, base, F, c))
         else if op = D3D8FF_TOP_DOTPRODUCT3
         then (let (x, c) = inp a1 (SA OR 0x40) F c; (y, c) = inp a2 (SB OR 0x40) F c
               in (y OR x, drop_bit 4 (base OR 0x820000), F OR F_DONE, c))
         else if op = D3D8FF_TOP_MULTIPLYADD
         then (let (x, c) = inp a0 SA F c; x = x OR 0x00200000; (y, c) = inp a1 SC F c; x = x OR y;
                   (z, c) = inp a2 SD F c in (z OR x, base, F, c))
         else if op = D3D8FF_TOP_LERP
         then (let (x, c) = inp a0 SA F c; (y, c) = inp a1 SB F c; x = x OR y; (z, c) = inp a0 (SC OR 0x10) F c; x = x OR z;
                   (u, c) = inp a2 SD F c in (u OR x, base, F, c))
         else (0, base, F, c\<lparr>ctx_unresolved := ctx_unresolved c OR D3D8FF_UNRES_BAD_OP\<rparr>))"

text \<open>A word with a missing texture in it becomes the current colour times one.\<close>

definition missing_texture :: "u32 \<Rightarrow> u32 \<Rightarrow> u32" where
  "missing_texture F icw =
     (if icw AND 0xFF000000 = 0xFF000000
      then push_bit 23 (NOT F AND F_FIRST) OR 0x04200000 OR push_bit 23 (F AND F_ALPHA)
      else icw)"

section \<open>Stages\<close>

type_synonym ff_state = "D3D8FFCombiners \<times> Ctx"

definition store_pass :: "u32 \<Rightarrow> nat \<Rightarrow> u32 \<Rightarrow> u32 \<Rightarrow> D3D8FFCombiners \<Rightarrow> D3D8FFCombiners" where
  "store_pass F o' icw ocw out =
     (if F AND F_OUT_OFS \<noteq> 0
      then out\<lparr>alpha_icw := (alpha_icw out)[o' := icw], alpha_ocw := (alpha_ocw out)[o' := ocw]\<rparr>
      else out\<lparr>color_icw := (color_icw out)[o' := icw], color_ocw := (color_ocw out)[o' := ocw]\<rparr>)"

definition ff_pass ::
    "u32 \<Rightarrow> nat \<Rightarrow> u32 \<Rightarrow> u32 \<Rightarrow> u32 \<Rightarrow> u32 \<Rightarrow> u32 \<Rightarrow> u32 \<Rightarrow> ff_state \<Rightarrow> u32 \<times> ff_state" where
  "ff_pass bound o' op a0 a1 a2 base F st =
     (let (out, c) = st; (icw, ocw, F, c) = op_words bound op a0 a1 a2 F base c;
          out = (if op = D3D8FF_TOP_DOTPRODUCT3
                 then out\<lparr>alpha_icw := (alpha_icw out)[o' := 0], alpha_ocw := (alpha_ocw out)[o' := 0]\<rparr> else out)
      in (F, store_pass F o' (missing_texture F icw) ocw out, c))"

text \<open>
  One stage: the colour pass and, unless it is done, the alpha pass. The boolean is the jump to
  the zero fill, taken by a colour \<open>DISABLE\<close> on the first stage.
\<close>

definition ff_stage :: "D3D8FFCombinerIn \<Rightarrow> nat \<Rightarrow> nat \<Rightarrow> u32 \<Rightarrow> u32 \<Rightarrow> ff_state \<Rightarrow> bool \<times> ff_state" where
  "ff_stage inp stage o' op F st =
     (let t = tss inp stage; base = (if t D3D8FF_TSS_RESULTARG = D3D8FF_TA_TEMP then 0xD00 else 0xC00); b = texture_bound_mask inp
      in if op = D3D8FF_TOP_DISABLE \<and> F AND F_FIRST \<noteq> 0 \<and> F AND F_ALPHA = 0
         then (let (out, c) = st; icw = push_bit 23 (F AND F_ALPHA) OR 0x04200000
               in (True, out\<lparr>color_icw := (color_icw out)[o' := icw], color_ocw := (color_ocw out)[o' := base],
                             alpha_icw := (alpha_icw out)[o' := icw OR 0x10000000], alpha_ocw := (alpha_ocw out)[o' := base]\<rparr>, c))
         else let (F, st) = ff_pass b o' op (t D3D8FF_TSS_COLORARG0) (t D3D8FF_TSS_COLORARG1) (t D3D8FF_TSS_COLORARG2) base F st
              in if F AND F_DONE \<noteq> 0 then (False, st)
                 else (False, snd (ff_pass b o' (t D3D8FF_TSS_ALPHAOP) (t D3D8FF_TSS_ALPHAARG0) (t D3D8FF_TSS_ALPHAARG1)
                        (t D3D8FF_TSS_ALPHAARG2) base (F OR F_ALPHA_PASS) st)))"

text \<open>The stages from \<open>stage\<close> on, of which \<open>n\<close> are left; the result carries the number of slots filled.\<close>

fun ff_stages :: "D3D8FFCombinerIn \<Rightarrow> nat \<Rightarrow> nat \<Rightarrow> nat \<Rightarrow> u32 \<Rightarrow> u32 \<Rightarrow> ff_state \<Rightarrow> nat \<times> ff_state" where
  "ff_stages inp 0 stage o' op F st = (o', st)"
| "ff_stages inp (Suc n) stage o' op F st =
     (let (fill, st) = ff_stage inp stage o' op F st
      in if fill then (o' + 1, st)
         else if stage + 1 = 4 then (o' + 1, st)
         else let op = tss inp (stage + 1) D3D8FF_TSS_COLOROP
              in if op = D3D8FF_TOP_DISABLE then (o' + 1, st)
                 else ff_stages inp n (stage + 1) (o' + 1) op (of_nat (stage + 1)) st)"

definition zero_combiners :: D3D8FFCombiners where
  "zero_combiners = \<lparr>emitted = False, combiner_control = 0, color_icw = replicate 8 0, color_ocw = replicate 8 0,
     alpha_icw = replicate 8 0, alpha_ocw = replicate 8 0, specular_enable_emitted = False, specular_enable = 0,
     device_flags = 0, first_stage = 0, unresolved = 0\<rparr>"

definition zero_from :: "nat \<Rightarrow> u32 list \<Rightarrow> u32 list" where
  "zero_from o' ws = map (\<lambda>k. if o' \<le> k then 0 else ws ! k) [0..<8]"

definition d3d8_ff_combiners :: "D3D8FFCombinerIn \<Rightarrow> int \<times> D3D8FFCombiners" where
  "d3d8_ff_combiners inp =
     (let out = zero_combiners\<lparr>device_flags := device_flags_in inp\<rparr>
      in if pixel_shader inp \<noteq> 0 then (0, out)
         else let c = \<lparr>dev_flags = device_flags_in inp AND NOT DEV_SPECULAR, ctx_unresolved = 0\<rparr>;
                  start = (if point_sprite_enable inp \<noteq> 0 then 3 else 0);
                  out = out\<lparr>emitted := True, first_stage := start\<rparr>;
                  (o', out, c) = ff_stages inp (4 - start) start 0 (tss inp start D3D8FF_TSS_COLOROP) (of_nat start OR F_FIRST) (out, c);
                  out = out\<lparr>color_icw := zero_from o' (color_icw out), color_ocw := zero_from o' (color_ocw out),
                            alpha_icw := zero_from o' (alpha_icw out), alpha_ocw := zero_from o' (alpha_ocw out),
                            combiner_control := of_nat o', device_flags := dev_flags c\<rparr>;
                  out = (if (dev_flags c XOR device_flags_in inp) AND DEV_SPECULAR \<noteq> 0 \<and> specular_enable_in inp = 0
                         then out\<lparr>specular_enable_emitted := True, specular_enable := drop_bit 6 (dev_flags c) AND 1\<rparr>
                         else out);
                  out = out\<lparr>unresolved := ctx_unresolved c\<rparr>
              in (if ctx_unresolved c \<noteq> 0 then - 1 else 0, out))"

definition d3d8_ff_texture_factor :: "u32 \<Rightarrow> u32 \<Rightarrow> u32 list \<Rightarrow> u32 list \<Rightarrow> bool \<times> u32 list \<times> u32 list" where
  "d3d8_ff_texture_factor tfactor bound_shader factor0 factor1 =
     (if bound_shader \<noteq> 0 then (False, factor0, factor1) else (True, replicate 8 tfactor, replicate 8 tfactor))"

definition d3d8_ff_final_combiner :: "u32 \<Rightarrow> u32 \<Rightarrow> u32 \<Rightarrow> u32 \<Rightarrow> u32 \<times> u32 \<Rightarrow> bool \<times> u32 \<times> u32" where
  "d3d8_ff_final_combiner fog_enable specular dev_370 dev_374 cw =
     (if dev_370 \<noteq> 0 \<and> dev_374 \<noteq> 0 then (False, cw)
      else (True,
            if fog_enable \<noteq> 0 then 0x130C0300 + (if specular \<noteq> 0 then 0x20000 else 0)
            else if specular \<noteq> 0 then 0xE else 0xC,
            0x1C80))"

section \<open>What the combiner words compute\<close>

text \<open>
  The NV2A reading of the words, as the repository's own renderer has it (\<open>input\<close> and \<open>comb_stage\<close> in
  \<open>src/nv2a/nv2a_metal.m\<close>): an input byte names a register, its alpha or colour part and a mapping,
  which clamps; the general combiner computes \<open>A * B + C * D\<close>; the output word's modifiers subtract
  one half and scale, and the result is clamped to the range from -1 to 1. Values are those of any
  ordered field; register 0 reads as zero.
\<close>

definition input_value :: "(u32 \<Rightarrow> bool \<Rightarrow> 'a :: linordered_field) \<Rightarrow> u32 \<Rightarrow> 'a" where
  "input_value env b =
     (let x = env (b AND 0xF) (b AND 0x10 \<noteq> 0); m = b AND 0x60
      in if m = 0 then max 0 x else if m = 0x20 then 1 - min 1 (max 0 x)
         else if m = 0x40 then 2 * max 0 x - 1 else 1 - 2 * max 0 x)"

definition slot :: "nat \<Rightarrow> u32 \<Rightarrow> u32" where
  "slot k w = drop_bit (8 * k) w AND 0xFF"

definition combine :: "(u32 \<Rightarrow> bool \<Rightarrow> 'a :: linordered_field) \<Rightarrow> u32 \<Rightarrow> 'a" where
  "combine env icw = input_value env (slot 3 icw) * input_value env (slot 2 icw)
     + input_value env (slot 1 icw) * input_value env (slot 0 icw)"

definition clamp :: "'a :: linordered_field \<Rightarrow> 'a" where
  "clamp y = max (- 1) (min 1 y)"

definition output_value :: "u32 \<Rightarrow> 'a :: linordered_field \<Rightarrow> 'a" where
  "output_value ocw y =
     (let y = (if ocw AND 0x8000 \<noteq> 0 then y - 1 / 2 else y); m = ocw AND 0x30000
      in clamp (if m = 0x10000 then 2 * y else if m = 0x20000 then 4 * y else y))"

text \<open>
  The Direct3D reading of an argument, a value between 0 and 1 and its complement, and of an
  operation before its result is clamped.
\<close>

definition arg_reg :: "u32 \<Rightarrow> u32 \<Rightarrow> u32" where
  "arg_reg F arg =
     (let k = arg AND 0xF
      in if k = D3D8FF_TA_DIFFUSE then 4 else if k = D3D8FF_TA_CURRENT then (if F AND F_FIRST \<noteq> 0 then 4 else 0xC)
         else if k = D3D8FF_TA_TEXTURE then (F AND F_STAGE_MASK) + 8 else if k = D3D8FF_TA_TFACTOR then 1
         else if k = D3D8FF_TA_SPECULAR then 5 else 0xD)"

definition arg_value :: "(u32 \<Rightarrow> bool \<Rightarrow> 'a :: linordered_field) \<Rightarrow> u32 \<Rightarrow> u32 \<Rightarrow> bool \<Rightarrow> 'a" where
  "arg_value env F arg alpha =
     (let x = min 1 (max 0 (env (arg_reg F arg) (alpha \<or> bit arg 5 \<or> bit F 5))) in if bit arg 4 then 1 - x else x)"

definition d3d_op :: "(u32 \<Rightarrow> bool \<Rightarrow> 'a :: linordered_field) \<Rightarrow> u32 \<Rightarrow> u32 \<Rightarrow> u32 \<Rightarrow> u32 \<Rightarrow> u32 \<Rightarrow> 'a" where
  "d3d_op env F op a0 a1 a2 =
     (let v = (\<lambda>a. arg_value env F a False); alpha = (\<lambda>a. arg_value env F a True);
          v0 = v a0; v1 = v a1; v2 = v a2; k = alpha (op - 12); t = alpha D3D8FF_TA_TEXTURE
      in if op = D3D8FF_TOP_DISABLE then v D3D8FF_TA_DIFFUSE
         else if op = D3D8FF_TOP_SELECTARG1 then v1
         else if op = D3D8FF_TOP_SELECTARG2 then v2
         else if op = D3D8FF_TOP_MODULATE then v1 * v2
         else if op = D3D8FF_TOP_MODULATE2X then 2 * (v1 * v2)
         else if op = D3D8FF_TOP_MODULATE4X then 4 * (v1 * v2)
         else if op = D3D8FF_TOP_ADD then v1 + v2
         else if op = D3D8FF_TOP_ADDSIGNED then v1 + v2 - 1 / 2
         else if op = D3D8FF_TOP_ADDSIGNED2X then 2 * (v1 + v2 - 1 / 2)
         else if op = D3D8FF_TOP_SUBTRACT then v1 - v2
         else if op = D3D8FF_TOP_ADDSMOOTH then v1 + (1 - v1) * v2
         else if op = D3D8FF_TOP_BLENDTEXTUREALPHAPM then v1 + (1 - t) * v2
         else if op = D3D8FF_TOP_PREMODULATE
         then (if F AND F_FIRST \<noteq> 0 then v1 * v D3D8FF_TA_TEXTURE else v1)
         else if op = D3D8FF_TOP_MODULATEALPHA_ADDCOLOR then v1 + alpha a1 * v2
         else if op = D3D8FF_TOP_MODULATECOLOR_ADDALPHA then v1 * v2 + alpha a1
         else if op = D3D8FF_TOP_MODULATEINVALPHA_ADDCOLOR then v1 + (1 - alpha a1) * v2
         else if op = D3D8FF_TOP_MODULATEINVCOLOR_ADDALPHA then (1 - v1) * v2 + alpha a1
         else if op = D3D8FF_TOP_DOTPRODUCT3 then (2 * v1 - 1) * (2 * v2 - 1)
         else if op = D3D8FF_TOP_MULTIPLYADD then v0 + v1 * v2
         else if op = D3D8FF_TOP_LERP then v0 * v1 + (1 - v0) * v2
         else if op = D3D8FF_TOP_BUMPENVMAP \<or> op = D3D8FF_TOP_BUMPENVMAPLUMINANCE then v D3D8FF_TA_CURRENT
         else v1 * k + (1 - k) * v2)"

text \<open>
  The arguments an operation reads. When one of them is the texture of a stage that has none, the
  stage passes the current colour on, with the operation's bias and scale still applied.
\<close>

definition args_read :: "u32 \<Rightarrow> u32 \<Rightarrow> u32 \<Rightarrow> u32 \<Rightarrow> u32 \<Rightarrow> u32 list" where
  "args_read F op a0 a1 a2 =
     (if op = D3D8FF_TOP_DISABLE \<or> op = D3D8FF_TOP_BUMPENVMAP \<or> op = D3D8FF_TOP_BUMPENVMAPLUMINANCE then []
      else if op = D3D8FF_TOP_SELECTARG1 then [a1]
      else if op = D3D8FF_TOP_SELECTARG2 then [a2]
      else if op = D3D8FF_TOP_PREMODULATE then (if F AND F_FIRST \<noteq> 0 then [a1, D3D8FF_TA_TEXTURE] else [a1])
      else if op = D3D8FF_TOP_BLENDDIFFUSEALPHA \<or> op = D3D8FF_TOP_BLENDCURRENTALPHA
           \<or> op = D3D8FF_TOP_BLENDTEXTUREALPHA \<or> op = D3D8FF_TOP_BLENDFACTORALPHA then [a1, op - 12, a2]
      else if op = D3D8FF_TOP_BLENDTEXTUREALPHAPM then [a1, D3D8FF_TA_TEXTURE, a2]
      else if op = D3D8FF_TOP_MULTIPLYADD \<or> op = D3D8FF_TOP_LERP then [a0, a1, a2]
      else [a1, a2])"

definition no_texture :: "u32 \<Rightarrow> u32 \<Rightarrow> u32 \<Rightarrow> bool" where
  "no_texture bound F arg \<longleftrightarrow> arg AND 0xF = D3D8FF_TA_TEXTURE \<and> drop_bit (unat (F AND F_STAGE_MASK)) bound AND 1 = 0"

definition bias_scale :: "u32 \<Rightarrow> 'a :: linordered_field \<Rightarrow> 'a" where
  "bias_scale op y =
     (if op = D3D8FF_TOP_MODULATE2X then 2 * y else if op = D3D8FF_TOP_MODULATE4X then 4 * y
      else if op = D3D8FF_TOP_ADDSIGNED then y - 1 / 2 else if op = D3D8FF_TOP_ADDSIGNED2X then 2 * (y - 1 / 2) else y)"

definition d3d_result :: "u32 \<Rightarrow> (u32 \<Rightarrow> bool \<Rightarrow> 'a :: linordered_field) \<Rightarrow> u32 \<Rightarrow> u32 \<Rightarrow> u32 \<Rightarrow> u32 \<Rightarrow> u32 \<Rightarrow> 'a" where
  "d3d_result bound env F op a0 a1 a2 =
     clamp (if list_ex (no_texture bound F) (args_read F op a0 a1 a2)
            then bias_scale op (arg_value env F D3D8FF_TA_CURRENT False) else d3d_op env F op a0 a1 a2)"

section \<open>Input bytes\<close>

definition in_byte :: "u32 \<Rightarrow> u32 \<Rightarrow> bool \<Rightarrow> bool \<Rightarrow> bool \<Rightarrow> u32" where
  "in_byte F arg alpha neg ex =
     (if alpha \<or> bit arg 5 \<or> bit F 5 then 0x10 else 0) OR (if neg \<noteq> bit arg 4 then 0x20 else 0)
     OR (if ex then 0x40 else 0) OR arg_reg F arg"

definition args_bound :: "u32 \<Rightarrow> u32 \<Rightarrow> u32 \<Rightarrow> bool" where
  "args_bound bound F arg \<longleftrightarrow> unat (arg AND 0xF) \<le> 5 \<and> (arg AND 0xF = D3D8FF_TA_TEXTURE \<longrightarrow> drop_bit (unat (F AND F_STAGE_MASK)) bound AND 1 \<noteq> 0)"

lemma arg_reg_cases: "arg_reg F arg \<in> {4, 0xC, 8, 9, 10, 11, 1, 5, 0xD}"
proof -
  have "unat (F AND 3) < 4" using word_and_le1 [of F 3] by (simp add: word_le_nat_alt)
  then have "unat (F AND 3) = 0 \<or> unat (F AND 3) = 1 \<or> unat (F AND 3) = 2 \<or> unat (F AND 3) = 3" by linarith
  then have "F AND 3 \<in> {0, 1, 2, 3}" by (auto simp: word_unat_eq_iff simp del: unat_eq_zero)
  then show ?thesis by (auto simp: arg_reg_def Let_def)
qed

lemma in_byte_cases: "\<exists>a i e. \<exists>r \<in> {4, 0xC, 8, 9, 10, 11, 1, 5, 0xD}. in_byte F arg alpha neg ex =
    (if a then 0x10 else 0) OR (if i then 0x20 else 0) OR (if e then 0x40 else 0) OR r"
  unfolding in_byte_def using arg_reg_cases by blast

lemma in_byte_small: "in_byte F arg alpha neg ex < 0x80"
  using in_byte_cases [of F arg alpha neg ex] by (elim exE bexE) (auto split: if_splits)

lemma input_value_byte:
  assumes "\<And>r b. env r b \<le> (1 :: 'a :: linordered_field)"
  shows "input_value env (in_byte F arg alpha neg ex) =
     (let x = arg_value env F arg alpha; x = (if neg then 1 - x else x) in if ex then 2 * x - 1 else x)"
proof -
  define a where "a \<longleftrightarrow> alpha \<or> bit arg 5 \<or> bit F 5"
  define i where "i \<longleftrightarrow> neg \<noteq> bit arg 4"
  have b: "in_byte F arg alpha neg ex = (if a then 0x10 else 0) OR (if i then 0x20 else 0) OR (if ex then 0x40 else 0) OR arg_reg F arg"
    by (simp add: in_byte_def a_def i_def)
  have "input_value env (in_byte F arg alpha neg ex) =
      (let x = min 1 (max 0 (env (arg_reg F arg) a)); x = (if i then 1 - x else x) in if ex then 2 * x - 1 else x)"
    using arg_reg_cases [of F arg] assms unfolding b
    by (cases a; cases i; cases ex) (auto simp: input_value_def Let_def min_absorb2)
  then show ?thesis by (auto simp: arg_value_def a_def [symmetric] i_def Let_def)
qed

lemma single_bits:
  "drop_bit 1 x AND 0x10 = (if bit x 5 then 0x10 else 0 :: u32)"
  "push_bit 1 (x AND 0x10) = (if bit x 4 then 0x20 else 0 :: u32)"
  "x AND 0x40 = (if bit x 6 then 0x40 else 0 :: u32)"
proof -
  have c: "bit (0x10 :: u32) n \<longleftrightarrow> n = 4" "bit (0x20 :: u32) n \<longleftrightarrow> n = 5" "bit (0x40 :: u32) n \<longleftrightarrow> n = 6" for n
    using bit_push_bit_iff [of 4 "1 :: u32" n] bit_push_bit_iff [of 5 "1 :: u32" n] bit_push_bit_iff [of 6 "1 :: u32" n]
    by (auto simp: bit_1_iff)
  show "drop_bit 1 x AND 0x10 = (if bit x 5 then 0x10 else 0 :: u32)"
  proof (rule bit_word_eqI)
    fix n assume "n < LENGTH(32)"
    then show "bit (drop_bit 1 x AND 0x10) n = bit (if bit x 5 then 0x10 else 0 :: u32) n"
      using c(1) [of n] by (cases "n = 4") (auto simp: bit_and_iff bit_drop_bit_eq)
  qed
  show "push_bit 1 (x AND 0x10) = (if bit x 4 then 0x20 else 0 :: u32)"
  proof (rule bit_word_eqI)
    fix n assume "n < LENGTH(32)"
    then show "bit (push_bit 1 (x AND 0x10)) n = bit (if bit x 4 then 0x20 else 0 :: u32) n"
      using c(1) [of "n - 1"] c(2) [of n] by (cases "n = 5"; cases n) (auto simp: bit_and_iff bit_times_2)
  qed
  show "x AND 0x40 = (if bit x 6 then 0x40 else 0 :: u32)"
  proof (rule bit_word_eqI)
    fix n assume "n < LENGTH(32)"
    then show "bit (x AND 0x40) n = bit (if bit x 6 then 0x40 else 0 :: u32) n"
      using c(3) [of n] by (cases "n = 6") (auto simp: bit_and_iff)
  qed
qed

lemma mask_bits: "x AND 0x10 = (if bit x 4 then 0x10 else 0 :: u32)" "x AND 0x20 = (if bit x 5 then 0x20 else 0 :: u32)"
proof -
  have c: "bit (0x10 :: u32) n \<longleftrightarrow> n = 4" "bit (0x20 :: u32) n \<longleftrightarrow> n = 5" for n
    using bit_push_bit_iff [of 4 "1 :: u32" n] bit_push_bit_iff [of 5 "1 :: u32" n] by (auto simp: bit_1_iff)
  show "x AND 0x10 = (if bit x 4 then 0x10 else 0 :: u32)"
  proof (rule bit_word_eqI)
    fix n show "bit (x AND 0x10) n = bit (if bit x 4 then 0x10 else 0 :: u32) n"
      using c(1) [of n] by (cases "n = 4") (auto simp: bit_and_iff)
  qed
  show "x AND 0x20 = (if bit x 5 then 0x20 else 0 :: u32)"
  proof (rule bit_word_eqI)
    fix n show "bit (x AND 0x20) n = bit (if bit x 5 then 0x20 else 0 :: u32) n"
      using c(2) [of n] by (cases "n = 5") (auto simp: bit_and_iff)
  qed
qed

lemma args_bound_reg: "args_bound bound F arg \<Longrightarrow> \<exists>c'. ff_input_reg bound arg F c = (Some (arg_reg F arg), c')"
proof -
  assume a: "args_bound bound F arg"
  have "unat (arg AND 0xF) = 0 \<or> unat (arg AND 0xF) = 1 \<or> unat (arg AND 0xF) = 2 \<or> unat (arg AND 0xF) = 3
      \<or> unat (arg AND 0xF) = 4 \<or> unat (arg AND 0xF) = 5"
    using a unfolding args_bound_def by linarith
  then have k: "arg AND 0xF \<in> {0, 1, 2, 3, 4, 5}" by (auto simp: word_unat_eq_iff simp del: unat_eq_zero)
  then show ?thesis
    using a by (auto simp: ff_input_reg_def arg_reg_def args_bound_def Let_def)
qed

lemma ff_input_byte:
  assumes "args_bound bound F arg"
  shows "fst (ff_input bound arg ctl F c) =
    push_bit (unat ((drop_bit 13 ctl AND 0x78) AND 31)) (in_byte F arg (bit ctl 5) (bit ctl 4) (bit ctl 6))"
proof -
  obtain c' where c': "ff_input_reg bound arg F c = (Some (arg_reg F arg), c')" using args_bound_reg [OF assms] by blast
  have xor: "bit (ctl XOR arg) 4 \<longleftrightarrow> bit ctl 4 \<noteq> bit arg 4" by (simp add: bit_xor_iff)
  have v: "(drop_bit 1 (ctl OR F OR arg) AND 0x10) OR push_bit 1 ((ctl XOR arg) AND 0x10) OR (ctl AND 0x40) OR arg_reg F arg =
      in_byte F arg (bit ctl 5) (bit ctl 4) (bit ctl 6)"
    unfolding single_bits in_byte_def bit_or_iff xor by (simp add: disj_ac)
  show ?thesis
    unfolding ff_input_def c' by (simp only: option.case prod.case Let_def v fst_conv)
qed

lemma slot_or: "slot k (x OR y) = slot k x OR slot k y"
  by (simp add: slot_def bit.conj_disj_distrib2)

lemma slot_push:
  assumes "b < 0x80" "j < 4" "k < 4"
  shows "slot k (push_bit (8 * j) b) = (if j = k then b else 0)"
proof -
  have b: "\<not> bit b n" if "7 \<le> n" for n
  proof -
    have "take_bit 7 (unat b) = unat b" using assms(1) by (intro take_bit_nat_eq_self) (simp add: word_less_nat_alt)
    then have "\<not> bit (unat b) n" using that by (metis bit_take_bit_iff not_less)
    then show ?thesis by (simp add: bit_unsigned_iff)
  qed
  have m: "bit (0xFF :: u32) n \<longleftrightarrow> n < 8" for n by (simp only: mask_literals bit_mask_iff) auto
  show ?thesis
  proof (rule bit_word_eqI)
    fix n assume n: "n < LENGTH(32)"
    show "bit (slot k (push_bit (8 * j) b)) n = bit (if j = k then b else 0) n"
    proof (cases "j = k")
      case True
      then show ?thesis using n assms b [of n] m [of n] by (cases "n < 8") (auto simp: slot_def bit_and_iff bit_drop_bit_eq bit_push_bit_iff m)
    next
      case False
      have "n < 8 \<Longrightarrow> 8 * j \<le> 8 * k + n \<Longrightarrow> 7 \<le> 8 * k + n - 8 * j" using False by linarith
      then show ?thesis using n False assms b [of "8 * k + n - 8 * j"] m [of n]
        by (auto simp: slot_def bit_and_iff bit_drop_bit_eq bit_push_bit_iff m)
    qed
  qed
qed

lemma slot_byte:
  "slot 3 (push_bit 24 (in_byte F a x y z)) = in_byte F a x y z" "slot 2 (push_bit 24 (in_byte F a x y z)) = 0"
  "slot 1 (push_bit 24 (in_byte F a x y z)) = 0" "slot 0 (push_bit 24 (in_byte F a x y z)) = 0"
  "slot 3 (push_bit 16 (in_byte F a x y z)) = 0" "slot 2 (push_bit 16 (in_byte F a x y z)) = in_byte F a x y z"
  "slot 1 (push_bit 16 (in_byte F a x y z)) = 0" "slot 0 (push_bit 16 (in_byte F a x y z)) = 0"
  "slot 3 (push_bit 8 (in_byte F a x y z)) = 0" "slot 2 (push_bit 8 (in_byte F a x y z)) = 0"
  "slot 1 (push_bit 8 (in_byte F a x y z)) = in_byte F a x y z" "slot 0 (push_bit 8 (in_byte F a x y z)) = 0"
  "slot 3 (in_byte F a x y z) = 0" "slot 2 (in_byte F a x y z) = 0"
  "slot 1 (in_byte F a x y z) = 0" "slot 0 (in_byte F a x y z) = in_byte F a x y z"
  using slot_push [OF in_byte_small, of 3 _ F a x y z] slot_push [OF in_byte_small, of 2 _ F a x y z]
    slot_push [OF in_byte_small, of 1 _ F a x y z] slot_push [OF in_byte_small, of 0 _ F a x y z]
  by simp_all

lemma input_value_constants:
  assumes "\<And>b. env 0 b = (0 :: 'a :: linordered_field)"
  shows "input_value env 0 = 0" "input_value env 0x20 = 1" "input_value env 0x40 = - 1"
  using assms by (simp_all add: input_value_def Let_def)


lemma op_cases:
  fixes op :: u32
  assumes "op \<in> {2..26}"
  shows "op \<in> {2, 3, 4, 5, 6, 7, 8, 9, 10, 11, 12, 13, 14, 15, 16, 17, 18, 19, 20, 21, 22, 23, 24, 25, 26}"
proof -
  have "unat op \<in> {2..26}" using assms by (auto simp: word_le_nat_alt)
  then have "unat op \<in> {2, 3, 4, 5, 6, 7, 8, 9, 10, 11, 12, 13, 14, 15, 16, 17, 18, 19, 20, 21, 22, 23, 24, 25, 26}"
    unfolding insert_iff empty_iff atLeastAtMost_iff by presburger
  then show ?thesis by (auto simp: word_unat_eq_iff simp del: unat_eq_zero)
qed

lemma legal_bound: "unat (arg AND 0xF) \<le> 5 \<Longrightarrow> \<not> no_texture bound F arg \<Longrightarrow> args_bound bound F arg"
  by (simp add: args_bound_def no_texture_def)

text \<open>The word that passes the current colour on, and the diffuse word of a disabled first stage.\<close>

lemma current_word:
  fixes env :: "u32 \<Rightarrow> bool \<Rightarrow> 'a :: linordered_field"
  assumes "\<And>b. env 0 b = 0" "\<And>r b. env r b \<le> 1"
  shows "combine env (push_bit 23 (NOT F AND F_FIRST) OR 0x04200000 OR push_bit 23 (F AND F_ALPHA)) = arg_value env F D3D8FF_TA_CURRENT False"
  using assms unfolding mask_bits bit_not_iff
  by (cases "bit F 4"; cases "bit F 5")
    (simp_all add: combine_def slot_def input_value_def arg_value_def arg_reg_def Let_def mask_bits min_absorb2)

lemma diffuse_word:
  fixes env :: "u32 \<Rightarrow> bool \<Rightarrow> 'a :: linordered_field"
  assumes "\<And>b. env 0 b = 0" "\<And>r b. env r b \<le> 1"
  shows "combine env (push_bit 23 (F AND F_ALPHA) OR 0x04200000) = arg_value env F D3D8FF_TA_DIFFUSE False"
    "slot 3 (push_bit 23 (F AND F_ALPHA) OR 0x04200000) < 0x80"
  using assms unfolding mask_bits
  by (cases "bit F 5"; simp add: combine_def slot_def input_value_def arg_value_def arg_reg_def Let_def min_absorb2)+

lemma combine_words:
  fixes c :: Ctx and env :: "u32 \<Rightarrow> bool \<Rightarrow> 'a :: linordered_field"
  assumes z: "\<And>b. env 0 b = (0 :: 'a :: linordered_field)" and le: "\<And>r b. env r b \<le> 1"
    and legal: "unat (a0 AND 0xF) \<le> 5" "unat (a1 AND 0xF) \<le> 5" "unat (a2 AND 0xF) \<le> 5"
    and bound: "\<not> list_ex (no_texture bound F) (args_read F op a0 a1 a2)"
    and op: "op \<in> {2..26}"
    and base: "base = 0xC00 \<or> base = 0xD00"
  shows "(case op_words bound op a0 a1 a2 F base c of (icw, ocw, _) \<Rightarrow> slot 3 icw < 0x80 \<and>
    (if op = D3D8FF_TOP_DOTPRODUCT3 then combine env icw = d3d_op env F op a0 a1 a2
     else output_value ocw (combine env icw) = clamp (d3d_op env F op a0 a1 a2)))"
proof -
  have simple: "args_bound bound F 0" "args_bound bound F 1" "args_bound bound F 3" by (simp_all add: args_bound_def)
  have tex: "\<not> no_texture bound F 2 \<Longrightarrow> args_bound bound F 2" by (simp add: args_bound_def no_texture_def)
  note bytes = ff_input_byte [OF legal_bound [OF legal(1)]] ff_input_byte [OF legal_bound [OF legal(2)]]
    ff_input_byte [OF legal_bound [OF legal(3)]] ff_input_byte [OF tex]
    ff_input_byte [OF simple(1)] ff_input_byte [OF simple(2)] ff_input_byte [OF simple(3)]
  note cst = input_value_constants [where env = env, OF z]
  note eval = op_words_def Let_def case_prod_unfold combine_def bytes slot_or input_value_byte [OF le] cst
    d3d_op_def output_value_def in_byte_small args_read_def
  have s: "slot 3 0x00200000 = 0" "slot 2 0x00200000 = 0x20" "slot 1 0x00200000 = 0" "slot 0 0x00200000 = 0"
    "slot 3 0x00202000 = 0" "slot 2 0x00202000 = 0x20" "slot 1 0x00202000 = 0x20" "slot 0 0x00202000 = 0"
    "slot 3 0x00204000 = 0" "slot 2 0x00204000 = 0x20" "slot 1 0x00204000 = 0x40" "slot 0 0x00204000 = 0"
    "slot 3 0x00002000 = 0" "slot 2 0x00002000 = 0" "slot 1 0x00002000 = 0x20" "slot 0 0x00002000 = 0"
    "slot 3 0x20 = 0" "slot 2 0x20 = 0" "slot 1 0x20 = 0" "slot 0 0x20 = 0x20"
    by (simp_all add: slot_def)
  show ?thesis
    using op_cases [OF op] base bound
    by (elim insertE emptyE disjE)
      (simp_all add: eval s [unfolded One_nat_def] slot_byte [unfolded One_nat_def] split: if_splits)
qed

lemma missing_texture_id: "slot 3 icw < 0x80 \<Longrightarrow> missing_texture F icw = icw"
proof -
  assume a: "slot 3 icw < 0x80"
  have "icw AND 0xFF000000 \<noteq> 0xFF000000"
  proof
    assume "icw AND 0xFF000000 = 0xFF000000"
    then have "drop_bit 24 (icw AND 0xFF000000) = drop_bit 24 0xFF000000" by simp
    then have "slot 3 icw = 0xFF" by (simp add: slot_def drop_bit_and)
    then show False using a by simp
  qed
  then show ?thesis by (simp add: missing_texture_def)
qed

lemma ff_input_missing:
  assumes "no_texture bound F arg"
  shows "slot 3 (fst (ff_input bound arg ctl F c)) = 0xFF"
proof -
  have r: "ff_input_reg bound arg F c = (Some 0xFFFFFFFF, c)"
    using assms by (simp add: ff_input_reg_def no_texture_def Let_def)
  have m: "(0xFFFFFFFF :: u32) = - 1" by simp
  have ones: "x OR 0xFFFFFFFF = (0xFFFFFFFF :: u32)" for x unfolding m by (rule bit.disj_one_right)
  have f: "bit (0xFF :: u32) n \<longleftrightarrow> n < 8" for n by (simp only: mask_literals bit_mask_iff) auto
  define sh where "sh = unat ((drop_bit 13 ctl AND 0x78) AND 31)"
  have "(drop_bit 13 ctl AND 0x78) AND 31 = drop_bit 13 ctl AND 0x18" by (simp add: and.assoc)
  then have sh: "sh \<le> 24" using word_and_le1 [of "drop_bit 13 ctl" "0x18"] by (simp add: sh_def word_le_nat_alt)
  have "slot 3 (push_bit sh 0xFFFFFFFF) = 0xFF"
  proof (unfold m, rule bit_word_eqI)
    fix n assume "n < LENGTH(32)"
    then show "bit (slot 3 (push_bit sh (- 1))) n = bit (0xFF :: u32) n"
      using sh f [of n] by (auto simp: slot_def bit_and_iff bit_drop_bit_eq bit_push_bit_iff bit_not_iff bit_mask_iff)
  qed
  then show ?thesis unfolding ff_input_def r by (simp add: Let_def ones sh_def)
qed

lemma full_slot:
  assumes "slot 3 x = 0xFF \<or> slot 3 y = 0xFF"
  shows "slot 3 (x OR y) = 0xFF"
proof -
  have m: "bit (0xFF :: u32) n \<longleftrightarrow> n < 8" for n by (simp only: mask_literals bit_mask_iff) auto
  have "slot 3 z OR 0xFF = 0xFF" "0xFF OR slot 3 z = 0xFF" for z
    by (rule bit_word_eqI; auto simp: slot_def bit_simps m)+
  then show ?thesis using assms unfolding slot_or by auto
qed

lemma full_l: "slot 3 x = 0xFF \<Longrightarrow> slot 3 (x OR y) = 0xFF" and full_r: "slot 3 y = 0xFF \<Longrightarrow> slot 3 (x OR y) = 0xFF"
  by (simp_all add: full_slot)

lemma missing_icw:
  fixes c :: Ctx
  assumes missing: "list_ex (no_texture bound F) (args_read F op a0 a1 a2)" and op: "op \<in> {2..26}"
  shows "slot 3 (fst (op_words bound op a0 a1 a2 F base c)) = 0xFF"
proof -
  have simple: "\<not> no_texture bound F 0" "\<not> no_texture bound F 1" "\<not> no_texture bound F 3" by (simp_all add: no_texture_def)
  show ?thesis
    using op_cases [OF op] missing
    by (elim insertE emptyE; hypsubst)
      (auto simp: op_words_def Let_def case_prod_unfold args_read_def simple full_l full_r ff_input_missing split: if_splits)
qed

lemma op_ocw:
  assumes "op \<in> {2..26}" "op \<noteq> D3D8FF_TOP_DOTPRODUCT3"
  shows "fst (snd (op_words bound op a0 a1 a2 F base c)) = base OR
    (if op = D3D8FF_TOP_MODULATE2X then 0x10000 else if op = D3D8FF_TOP_MODULATE4X then 0x20000
     else if op = D3D8FF_TOP_ADDSIGNED then 0x8000 else if op = D3D8FF_TOP_ADDSIGNED2X then 0x18000 else 0)"
proof -
  consider "op = D3D8FF_TOP_MODULATE2X" | "op = D3D8FF_TOP_MODULATE4X" | "op = D3D8FF_TOP_ADDSIGNED" | "op = D3D8FF_TOP_ADDSIGNED2X"
   | "op \<noteq> D3D8FF_TOP_MODULATE2X" "op \<noteq> D3D8FF_TOP_MODULATE4X" "op \<noteq> D3D8FF_TOP_ADDSIGNED" "op \<noteq> D3D8FF_TOP_ADDSIGNED2X" by blast
  then show ?thesis
  proof cases
    case 5
    have "op \<noteq> D3D8FF_TOP_DISABLE" using op_cases [OF assms(1)] by auto
    then have "fst (snd (op_words bound op a0 a1 a2 F base c)) = base"
      using 5 assms(2) unfolding op_words_def Let_def case_prod_unfold
      by (simp only: if_distrib [of fst] if_distrib [of snd] fst_conv snd_conv if_False if_cancel)
    then show ?thesis using 5 by (simp only: if_False or.right_neutral)
  qed (simp_all add: op_words_def Let_def case_prod_unfold)
qed

lemma missing_ocw:
  fixes y :: "'a :: linordered_field"
  assumes "op \<in> {2..26}" "op \<noteq> D3D8FF_TOP_DOTPRODUCT3" "base = 0xC00 \<or> base = 0xD00"
  shows "output_value (fst (snd (op_words bound op a0 a1 a2 F base c))) y = clamp (bias_scale op y)"
  unfolding op_ocw [OF assms(1,2)] using assms(3) by (auto simp: output_value_def bias_scale_def)

lemma missing_texture_full: "slot 3 icw = 0xFF \<Longrightarrow>
    missing_texture F icw = push_bit 23 (NOT F AND F_FIRST) OR 0x04200000 OR push_bit 23 (F AND F_ALPHA)"
proof -
  assume a: "slot 3 icw = 0xFF"
  have f: "bit (0xFF :: u32) k \<longleftrightarrow> k < 8" for k by (simp only: mask_literals bit_mask_iff) auto
  have p: "(0xFF000000 :: u32) = push_bit 24 0xFF" by simp
  have m: "bit (0xFF000000 :: u32) n \<longleftrightarrow> 24 \<le> n \<and> n < 32" for n
    unfolding p bit_push_bit_iff f by auto
  have "icw AND 0xFF000000 = 0xFF000000"
  proof (rule bit_word_eqI)
    fix n assume n: "n < LENGTH(32)"
    have "bit (slot 3 icw) (n - 24) = bit (0xFF :: u32) (n - 24)" by (simp only: a)
    then have "24 \<le> n \<Longrightarrow> bit icw n"
      using n f [of "n - 24"] by (auto simp: slot_def bit_and_iff bit_drop_bit_eq)
    then show "bit (icw AND 0xFF000000) n = bit (0xFF000000 :: u32) n" using m [of n] by (auto simp: bit_and_iff)
  qed
  then show ?thesis by (simp add: missing_texture_def)
qed

section \<open>The flags and errors of a pass\<close>

definition ctx_ok :: "Ctx \<Rightarrow> Ctx \<Rightarrow> bool" where
  "ctx_ok c c' \<longleftrightarrow> dev_flags c' AND NOT DEV_SPECULAR = dev_flags c AND NOT DEV_SPECULAR
     \<and> ctx_unresolved c' AND NOT 3 = ctx_unresolved c AND NOT 3"

lemma ctx_ok_refl [simp]: "ctx_ok c c" by (simp add: ctx_ok_def)

lemma ctx_ok_trans: "ctx_ok c d \<Longrightarrow> ctx_ok d e \<Longrightarrow> ctx_ok c e" by (simp add: ctx_ok_def)

lemma ctx_ok_input [simp]: "ctx_ok c0 c \<Longrightarrow> ctx_ok c0 (snd (ff_input bound a ctl F c))"
  by (simp add: ff_input_def ff_input_reg_def ctx_ok_def Let_def bit.conj_disj_distrib2)

lemma ctx_ok_bad_op [simp]: "ctx_ok c0 c \<Longrightarrow> ctx_ok c0 (c\<lparr>ctx_unresolved := ctx_unresolved c OR 1\<rparr>)"
  by (simp add: ctx_ok_def bit.conj_disj_distrib2)

lemma op_words_ctx: "ctx_ok c (snd (snd (snd (op_words bound op a0 a1 a2 F base c))))"
  by (simp add: op_words_def Let_def case_prod_unfold)

definition legal_arg :: "u32 \<Rightarrow> bool" where
  "legal_arg a \<longleftrightarrow> unat (a AND 0xF) \<le> 5"

definition legal_stage :: "(nat \<Rightarrow> u32) \<Rightarrow> bool" where
  "legal_stage t \<longleftrightarrow> t D3D8FF_TSS_COLOROP \<in> {1..26} \<and> t D3D8FF_TSS_ALPHAOP \<in> {1..26}
     \<and> list_all (\<lambda>k. legal_arg (t k)) [13, 14, 15, 17, 18, 19]"

lemma legal_arg_small: "unat k \<le> 5 \<Longrightarrow> legal_arg k"
proof -
  assume "unat k \<le> 5"
  moreover have "unat (k AND 0xF) \<le> unat k" using word_and_le2 [of k "0xF"] by (simp add: word_le_nat_alt)
  ultimately show ?thesis by (simp add: legal_arg_def)
qed

lemma ff_input_legal: "legal_arg a \<Longrightarrow> ctx_unresolved (snd (ff_input bound a ctl F c)) = ctx_unresolved c"
proof -
  assume a: "legal_arg a"
  have "unat (a AND 0xF) = 0 \<or> unat (a AND 0xF) = 1 \<or> unat (a AND 0xF) = 2 \<or> unat (a AND 0xF) = 3
      \<or> unat (a AND 0xF) = 4 \<or> unat (a AND 0xF) = 5"
    using a unfolding legal_arg_def by linarith
  then have "a AND 0xF \<in> {0, 1, 2, 3, 4, 5}" by (auto simp: word_unat_eq_iff simp del: unat_eq_zero)
  then show ?thesis by (auto simp: ff_input_def ff_input_reg_def Let_def)
qed

lemma op_words_legal:
  assumes "op \<in> {1..26}" "legal_arg a0" "legal_arg a1" "legal_arg a2"
  shows "ctx_unresolved (snd (snd (snd (op_words bound op a0 a1 a2 F base c)))) = ctx_unresolved c"
proof -
  have small: "legal_arg 0" "legal_arg 1" "legal_arg 2" "legal_arg 3" by (simp_all add: legal_arg_def)
  have "op = 1 \<or> op \<in> {2..26}" using assms(1) by (auto simp: word_le_nat_alt word_unat_eq_iff)
  then have "op \<in> insert 1 {2, 3, 4, 5, 6, 7, 8, 9, 10, 11, 12, 13, 14, 15, 16, 17, 18, 19, 20, 21, 22, 23, 24, 25, 26}"
    using op_cases by blast
  then show ?thesis
    by (elim insertE emptyE) (simp_all add: op_words_def Let_def case_prod_unfold ff_input_legal assms(2-) small)
qed

section \<open>The shape of the words\<close>

definition eight :: "D3D8FFCombiners \<Rightarrow> bool" where
  "eight out \<longleftrightarrow> length (color_icw out) = 8 \<and> length (color_ocw out) = 8 \<and> length (alpha_icw out) = 8 \<and> length (alpha_ocw out) = 8"

definition same_head :: "D3D8FFCombiners \<Rightarrow> D3D8FFCombiners \<Rightarrow> bool" where
  "same_head o1 o2 \<longleftrightarrow> emitted o2 = emitted o1 \<and> first_stage o2 = first_stage o1
     \<and> specular_enable_emitted o2 = specular_enable_emitted o1 \<and> (eight o1 \<longrightarrow> eight o2)"

lemma same_head_refl: "same_head x x" by (simp add: same_head_def)
lemma same_head_trans: "same_head x y \<Longrightarrow> same_head y z \<Longrightarrow> same_head x z" by (simp add: same_head_def)

lemma ff_pass_keeps:
  assumes "ff_pass bound o' op a0 a1 a2 base F (out, c) = (F', out', c')"
  shows "same_head out out'" "ctx_ok c c'"
proof -
  show "ctx_ok c c'" using assms op_words_ctx [of c bound op a0 a1 a2 F base]
    by (auto simp: ff_pass_def Let_def case_prod_unfold split: if_splits)
  show "same_head out out'" using assms
    by (auto simp: ff_pass_def Let_def case_prod_unfold same_head_def eight_def store_pass_def split: if_splits)
qed

lemma ff_pass_legal:
  assumes "ff_pass bound o' op a0 a1 a2 base F (out, c) = (F', out', c')" "op \<in> {1..26}" "legal_arg a0" "legal_arg a1" "legal_arg a2"
  shows "ctx_unresolved c' = ctx_unresolved c"
  using assms(1) op_words_legal [OF assms(2-5), of bound F base c]
  by (auto simp: ff_pass_def Let_def case_prod_unfold)

lemma ff_stage_keeps:
  assumes "ff_stage inp stage o' op F (out, c) = (fill, out', c')"
  shows "same_head out out' \<and> ctx_ok c c'"
proof (cases "op = D3D8FF_TOP_DISABLE \<and> F AND F_FIRST \<noteq> 0 \<and> F AND F_ALPHA = 0")
  case True
  then show ?thesis using assms by (auto simp: ff_stage_def Let_def same_head_def eight_def)
next
  case False
  let ?t = "tss inp stage"
  let ?base = "if ?t 20 = 5 then 0xD00 else 0xC00 :: u32"
  obtain F1 out1 c1 where p: "ff_pass (texture_bound_mask inp) o' op (?t 13) (?t 14) (?t 15) ?base F (out, c) = (F1, out1, c1)"
    by (cases "ff_pass (texture_bound_mask inp) o' op (?t 13) (?t 14) (?t 15) ?base F (out, c)") auto
  obtain F2 out2 c2 where q: "ff_pass (texture_bound_mask inp) o' (?t 16) (?t 17) (?t 18) (?t 19) ?base (F1 OR F_ALPHA_PASS) (out1, c1) = (F2, out2, c2)"
    by (cases "ff_pass (texture_bound_mask inp) o' (?t 16) (?t 17) (?t 18) (?t 19) ?base (F1 OR F_ALPHA_PASS) (out1, c1)") auto
  have "(out', c') \<in> {(out1, c1), (out2, c2)}"
    using assms p q unfolding ff_stage_def Let_def if_not_P [OF False] by (simp split: if_splits)
  then show ?thesis using ff_pass_keeps [OF p] ff_pass_keeps [OF q] by (auto intro: same_head_trans ctx_ok_trans)
qed

lemma ff_stage_legal:
  assumes "ff_stage inp stage o' op F (out, c) = (fill, out', c')" "legal_stage (tss inp stage)" "op = tss inp stage 12"
  shows "ctx_unresolved c' = ctx_unresolved c"
proof (cases "op = D3D8FF_TOP_DISABLE \<and> F AND F_FIRST \<noteq> 0 \<and> F AND F_ALPHA = 0")
  case True
  then show ?thesis using assms by (auto simp: ff_stage_def Let_def)
next
  case False
  let ?t = "tss inp stage"
  let ?base = "if ?t 20 = 5 then 0xD00 else 0xC00 :: u32"
  obtain F1 out1 c1 where p: "ff_pass (texture_bound_mask inp) o' op (?t 13) (?t 14) (?t 15) ?base F (out, c) = (F1, out1, c1)"
    by (cases "ff_pass (texture_bound_mask inp) o' op (?t 13) (?t 14) (?t 15) ?base F (out, c)") auto
  obtain F2 out2 c2 where q: "ff_pass (texture_bound_mask inp) o' (?t 16) (?t 17) (?t 18) (?t 19) ?base (F1 OR F_ALPHA_PASS) (out1, c1) = (F2, out2, c2)"
    by (cases "ff_pass (texture_bound_mask inp) o' (?t 16) (?t 17) (?t 18) (?t 19) ?base (F1 OR F_ALPHA_PASS) (out1, c1)") auto
  have "(out', c') \<in> {(out1, c1), (out2, c2)}"
    using assms(1) p q unfolding ff_stage_def Let_def if_not_P [OF False] by (simp split: if_splits)
  moreover have "ctx_unresolved c1 = ctx_unresolved c"
    by (rule ff_pass_legal [OF p]) (use assms in \<open>simp_all add: legal_stage_def\<close>)
  moreover have "ctx_unresolved c2 = ctx_unresolved c1"
    by (rule ff_pass_legal [OF q]) (use assms in \<open>simp_all add: legal_stage_def\<close>)
  ultimately show ?thesis by auto
qed

lemma ff_stages_keeps:
  "ff_stages inp n stage o' op F (out, c) = (o2, out', c') \<Longrightarrow>
    same_head out out' \<and> ctx_ok c c' \<and> o2 \<le> o' + n \<and> o' + min 1 n \<le> o2"
proof (induction n arbitrary: stage o' op F out c)
  case 0
  then show ?case by (simp add: same_head_refl)
next
  case (Suc n)
  obtain fill out1 c1 where s: "ff_stage inp stage o' op F (out, c) = (fill, out1, c1)"
    by (cases "ff_stage inp stage o' op F (out, c)") auto
  note k = ff_stage_keeps [OF s]
  show ?case
  proof (cases "fill \<or> stage + 1 = 4 \<or> tss inp (stage + 1) 12 = 1")
    case True
    then show ?thesis using Suc.prems k by (auto simp: s Let_def split: if_splits)
  next
    case False
    then have "ff_stages inp n (stage + 1) (o' + 1) (tss inp (stage + 1) 12) (of_nat (stage + 1)) (out1, c1) = (o2, out', c')"
      using Suc.prems by (simp add: s Let_def)
    from Suc.IH [OF this] k show ?thesis by (auto intro: same_head_trans ctx_ok_trans)
  qed
qed

lemma ff_stages_legal:
  "ff_stages inp n stage o' (tss inp stage 12) F (out, c) = (o2, out', c') \<Longrightarrow> stage < 4 \<Longrightarrow>
    list_all (\<lambda>s. legal_stage (tss inp s)) [0, 1, 2, 3] \<Longrightarrow> ctx_unresolved c' = ctx_unresolved c"
proof (induction n arbitrary: stage o' F out c)
  case 0
  then show ?case by simp
next
  case (Suc n)
  have legal: "legal_stage (tss inp stage)"
  proof -
    have "stage = 0 \<or> stage = 1 \<or> stage = 2 \<or> stage = 3" using Suc.prems(2) by linarith
    then show ?thesis using Suc.prems(3) by auto
  qed
  obtain fill out1 c1 where s: "ff_stage inp stage o' (tss inp stage 12) F (out, c) = (fill, out1, c1)"
    by (cases "ff_stage inp stage o' (tss inp stage 12) F (out, c)") auto
  note k = ff_stage_legal [OF s legal refl]
  show ?case
  proof (cases "fill \<or> stage + 1 = 4 \<or> tss inp (stage + 1) 12 = 1")
    case True
    then show ?thesis using Suc.prems k by (auto simp: s Let_def split: if_splits)
  next
    case False
    then have "ff_stages inp n (stage + 1) (o' + 1) (tss inp (stage + 1) 12) (of_nat (stage + 1)) (out1, c1) = (o2, out', c')"
      using Suc.prems(1) by (simp add: s Let_def)
    from Suc.IH [OF this _ Suc.prems(3)] k False Suc.prems(2) show ?thesis by auto
  qed
qed

section \<open>Properties\<close>

lemma pass_value:
  fixes env :: "u32 \<Rightarrow> bool \<Rightarrow> 'a :: linordered_field"
  assumes env: "\<And>b. env 0 b = 0" "\<And>r b. env r b \<le> 1"
    and legal: "legal_arg a0" "legal_arg a1" "legal_arg a2" and op: "op \<in> {2..26}" "op \<noteq> D3D8FF_TOP_DOTPRODUCT3"
    and base: "base = 0xC00 \<or> base = 0xD00" and w: "op_words bound op a0 a1 a2 F base c = (icw, ocw, F', c')"
  shows "output_value ocw (combine env (missing_texture F icw)) = d3d_result bound env F op a0 a1 a2"
proof (cases "list_ex (no_texture bound F) (args_read F op a0 a1 a2)")
  case True
  have "slot 3 icw = 0xFF" using missing_icw [OF True op(1), of base c] by (simp add: w)
  moreover have "output_value ocw y = clamp (bias_scale op y)" for y :: 'a
    using missing_ocw [OF op base, of bound a0 a1 a2 F c y] by (simp add: w)
  ultimately show ?thesis using True current_word [where env = env, OF env] by (simp add: missing_texture_full d3d_result_def)
next
  case False
  have "slot 3 icw < 0x80 \<and> output_value ocw (combine env icw) = clamp (d3d_op env F op a0 a1 a2)"
    using combine_words [where env = env, OF env legal [unfolded legal_arg_def] False op(1) base, of c] op(2) by (simp add: w)
  then show ?thesis using False by (simp add: missing_texture_id d3d_result_def)
qed


text \<open>
  A colour DOTPRODUCT3 pass whose arguments are there stores an input word whose product is that of
  the expanded arguments, zeroes the alpha half of the slot and marks the stage done.
\<close>

theorem dot_product_pass_computes_the_product:
  fixes env :: "u32 \<Rightarrow> bool \<Rightarrow> 'a :: linordered_field"
  assumes "\<forall>b. env 0 b = 0" "\<forall>r b. env r b \<le> 1" "eight out" "o' < 8" "F AND (F_OUT_OFS OR F_DONE) = 0"
    and "legal_arg a0" "legal_arg a1" "legal_arg a2" "\<not> no_texture bound F a1" "\<not> no_texture bound F a2"
  shows "case ff_pass bound o' D3D8FF_TOP_DOTPRODUCT3 a0 a1 a2 0xC00 F (out, c) of (F', out', c') \<Rightarrow>
    combine env (color_icw out' ! o') = d3d_op env F D3D8FF_TOP_DOTPRODUCT3 a0 a1 a2
    \<and> alpha_icw out' ! o' = 0 \<and> alpha_ocw out' ! o' = 0 \<and> F' AND F_DONE \<noteq> 0"
proof -
  have env: "\<And>b. env 0 b = 0" "\<And>r b. env r b \<le> 1" using assms(1,2) by blast+
  obtain icw ocw F' c' where w: "op_words bound D3D8FF_TOP_DOTPRODUCT3 a0 a1 a2 F 0xC00 c = (icw, ocw, F', c')"
    by (cases "op_words bound D3D8FF_TOP_DOTPRODUCT3 a0 a1 a2 F 0xC00 c") auto
  have F': "F' = F OR F_DONE" using w by (auto simp: op_words_def Let_def case_prod_unfold)
  have "(F AND (F_OUT_OFS OR F_DONE)) AND F_OUT_OFS = F AND F_OUT_OFS" by (subst and.assoc) simp
  then have ofs: "F' AND F_OUT_OFS = 0" using assms(5) by (simp add: F' bit.conj_disj_distrib2)
  have "slot 3 icw < 0x80 \<and> combine env icw = d3d_op env F D3D8FF_TOP_DOTPRODUCT3 a0 a1 a2"
    using combine_words [where env = env, OF env assms(6-8) [unfolded legal_arg_def], of bound F D3D8FF_TOP_DOTPRODUCT3 "0xC00" c]
      assms(9,10) by (simp add: w args_read_def)
  then show ?thesis
    using assms(3,4) ofs by (simp add: ff_pass_def w missing_texture_id store_pass_def eight_def F' bit.conj_disj_distrib2)
qed

text \<open>
  Claim C32: Without a pixel shader the builder emits one to four stages (one from stage 3
  for point sprites), every word past them is zero, only the specular bit of the device
  flags changes, and the result is -1 exactly when something was unresolved.
\<close>

theorem combiner_output_shape:
  assumes "pixel_shader inp = 0"
  shows "case d3d8_ff_combiners inp of (ret, out) \<Rightarrow>
    eight out \<and> emitted out \<and> first_stage out = (if point_sprite_enable inp \<noteq> 0 then 3 else 0)
    \<and> 1 \<le> unat (combiner_control out) \<and> unat (combiner_control out) + first_stage out \<le> 4
    \<and> (\<forall>k. unat (combiner_control out) \<le> k \<and> k < 8 \<longrightarrow>
          color_icw out ! k = 0 \<and> color_ocw out ! k = 0 \<and> alpha_icw out ! k = 0 \<and> alpha_ocw out ! k = 0)
    \<and> device_flags out AND NOT DEV_SPECULAR = device_flags_in inp AND NOT DEV_SPECULAR
    \<and> unresolved out AND NOT 3 = 0 \<and> ret = (if unresolved out \<noteq> 0 then - 1 else 0)"
proof -
  let ?start = "if point_sprite_enable inp \<noteq> 0 then 3 else 0 :: nat"
  let ?c = "\<lparr>dev_flags = device_flags_in inp AND NOT DEV_SPECULAR, ctx_unresolved = 0\<rparr>"
  let ?o = "zero_combiners\<lparr>device_flags := device_flags_in inp, emitted := True, first_stage := ?start\<rparr>"
  obtain o2 out' c' where s: "ff_stages inp (4 - ?start) ?start 0 (tss inp ?start 12) (of_nat ?start OR F_FIRST) (?o, ?c) = (o2, out', c')"
    by (cases "ff_stages inp (4 - ?start) ?start 0 (tss inp ?start 12) (of_nat ?start OR F_FIRST) (?o, ?c)") auto
  note k = ff_stages_keeps [OF s]
  have o2: "1 \<le> o2" "o2 + ?start \<le> 4" using k by (auto split: if_splits)
  have u: "unat (of_nat o2 :: u32) = o2" using o2 by (simp add: unat_of_nat)
  have "first_stage out' = ?start" "emitted out'" using k by (simp_all add: same_head_def)
  moreover have "dev_flags c' AND NOT DEV_SPECULAR = device_flags_in inp AND NOT DEV_SPECULAR" "ctx_unresolved c' AND NOT 3 = 0"
    using k by (simp_all add: ctx_ok_def)
  moreover have "d3d8_ff_combiners inp = (if ctx_unresolved c' \<noteq> 0 then - 1 else 0,
      (let out = out'\<lparr>color_icw := zero_from o2 (color_icw out'), color_ocw := zero_from o2 (color_ocw out'),
                            alpha_icw := zero_from o2 (alpha_icw out'), alpha_ocw := zero_from o2 (alpha_ocw out'),
                            combiner_control := of_nat o2, device_flags := dev_flags c'\<rparr>;
                  out = (if (dev_flags c' XOR device_flags_in inp) AND DEV_SPECULAR \<noteq> 0 \<and> specular_enable_in inp = 0
                         then out\<lparr>specular_enable_emitted := True, specular_enable := drop_bit 6 (dev_flags c') AND 1\<rparr>
                         else out) in out\<lparr>unresolved := ctx_unresolved c'\<rparr>))"
    using s assms by (simp add: d3d8_ff_combiners_def Let_def)
  ultimately show ?thesis
    using o2 u by (simp add: Let_def eight_def zero_from_def)
qed

text \<open>
  Claim C33: When every operation and argument of the four stages is in the guest's jump
  tables, the builder reports no error.
\<close>

theorem legal_stages_resolve:
  assumes "\<forall>s < 4. legal_stage (tss inp s)"
  shows "fst (d3d8_ff_combiners inp) = 0 \<and> unresolved (snd (d3d8_ff_combiners inp)) = 0"
proof (cases "pixel_shader inp = 0")
  case True
  let ?start = "if point_sprite_enable inp \<noteq> 0 then 3 else 0 :: nat"
  let ?c = "\<lparr>dev_flags = device_flags_in inp AND NOT DEV_SPECULAR, ctx_unresolved = 0\<rparr>"
  let ?o = "zero_combiners\<lparr>device_flags := device_flags_in inp, emitted := True, first_stage := ?start\<rparr>"
  obtain o2 out' c' where s: "ff_stages inp (4 - ?start) ?start 0 (tss inp ?start 12) (of_nat ?start OR F_FIRST) (?o, ?c) = (o2, out', c')"
    by (cases "ff_stages inp (4 - ?start) ?start 0 (tss inp ?start 12) (of_nat ?start OR F_FIRST) (?o, ?c)") auto
  have "ctx_unresolved c' = 0"
    using ff_stages_legal [OF s] assms by simp
  then show ?thesis using s True by (simp add: d3d8_ff_combiners_def Let_def)
qed (simp add: d3d8_ff_combiners_def zero_combiners_def)

text \<open>
  With a pixel shader bound the builder succeeds at once, emits nothing and keeps
  the device flags.
\<close>

theorem pixel_shader_leaves_combiners_alone:
  "pixel_shader inp \<noteq> 0 \<Longrightarrow> d3d8_ff_combiners inp = (0, zero_combiners\<lparr>device_flags := device_flags_in inp\<rparr>)"
  by (simp add: d3d8_ff_combiners_def)

definition wit_env :: "u32 \<Rightarrow> bool \<Rightarrow> rat" where
  "wit_env r b = (if r = 0 then 0 else if r = 1 then 1 / 3 else if b then 1 / 2 else 3 / 4)"

definition wit_tss :: "nat \<Rightarrow> nat \<Rightarrow> u32" where
  "wit_tss s k = (if s = 0 then (if k = 12 then D3D8FF_TOP_MODULATE else if k = 14 then D3D8FF_TA_TEXTURE
      else if k = 16 then D3D8FF_TOP_SELECTARG1 else if k = 18 then D3D8FF_TA_TEXTURE else 0)
    else if k = 12 \<or> k = 16 then D3D8FF_TOP_DISABLE else 0)"

definition wit_in :: "u32 \<Rightarrow> D3D8FFCombinerIn" where
  "wit_in shader = \<lparr>tss = wit_tss, point_sprite_enable = 0, specular_enable_in = 0, texture_bound_mask = 1,
     pixel_shader = shader, device_flags_in = 0x7B\<rparr>"

lemma wit_env_ok: "\<forall>b. wit_env 0 b = 0" "\<forall>r b. wit_env r b \<le> 1"
  by (simp_all add: wit_env_def)


theorem dot_product_pass_witness:
  "case ff_pass 1 0 D3D8FF_TOP_DOTPRODUCT3 0 D3D8FF_TA_TEXTURE D3D8FF_TA_DIFFUSE 0xC00 F_FIRST (zero_combiners, \<lparr>dev_flags = 0, ctx_unresolved = 0\<rparr>)
    of (F', out', c') \<Rightarrow> combine wit_env (color_icw out' ! 0)
      = d3d_op wit_env F_FIRST D3D8FF_TOP_DOTPRODUCT3 0 D3D8FF_TA_TEXTURE D3D8FF_TA_DIFFUSE
    \<and> alpha_icw out' ! 0 = 0 \<and> alpha_ocw out' ! 0 = 0 \<and> F' AND F_DONE \<noteq> 0"
  using dot_product_pass_computes_the_product [OF wit_env_ok, of zero_combiners 0 F_FIRST 0 D3D8FF_TA_TEXTURE D3D8FF_TA_DIFFUSE 1
      "\<lparr>dev_flags = 0, ctx_unresolved = 0\<rparr>"]
  by (simp add: eight_def zero_combiners_def legal_arg_def no_texture_def)

theorem combiner_output_shape_witness:
  "1 \<le> unat (combiner_control (snd (d3d8_ff_combiners (wit_in 0)))) \<and> eight (snd (d3d8_ff_combiners (wit_in 0)))
    \<and> device_flags (snd (d3d8_ff_combiners (wit_in 0))) AND NOT DEV_SPECULAR = 0x3B"
  using combiner_output_shape [of "wit_in 0"] by (simp add: wit_in_def case_prod_unfold)

theorem legal_stages_resolve_witness:
  "fst (d3d8_ff_combiners (wit_in 0)) = 0 \<and> unresolved (snd (d3d8_ff_combiners (wit_in 0))) = 0"
  by (rule legal_stages_resolve) (simp add: wit_in_def wit_tss_def legal_stage_def legal_arg_def)

theorem pixel_shader_leaves_combiners_alone_witness:
  "d3d8_ff_combiners (wit_in 7) = (0, zero_combiners\<lparr>device_flags := 0x7B\<rparr>)"
  using pixel_shader_leaves_combiners_alone [of "wit_in 7"] by (simp add: wit_in_def)

end
