(* ===== verification/Step_Refinement.thy ===== *)
theory Step_Refinement
  imports Main
begin

text \<open>
  The contract between a stateful component and its specification: every operation keeps the
  invariant, and it returns and does what the specification says of the abstract state. The
  consequence for whole runs is proved once, here; the components interpret the locale.
\<close>

fun run :: "('o \<Rightarrow> 's \<Rightarrow> 'r \<times> 's) \<Rightarrow> 'o list \<Rightarrow> 's \<Rightarrow> 'r list \<times> 's" where
  "run f [] s = ([], s)"
| "run f (x # xs) s = (let (r, s) = f x s; (rs, s) = run f xs s in (r # rs, s))"

locale step_refinement =
  fixes ok :: "'s \<Rightarrow> bool" and abs :: "'s \<Rightarrow> 'a"
    and step :: "'o \<Rightarrow> 's \<Rightarrow> 'r \<times> 's" and spec :: "'o \<Rightarrow> 'a \<Rightarrow> 'r \<times> 'a"
  assumes step_ok: "ok s \<Longrightarrow> ok (snd (step x s))"
    and step_abs: "ok s \<Longrightarrow> spec x (abs s) = (fst (step x s), abs (snd (step x s)))"
begin

lemma run_ok: "ok s \<Longrightarrow> ok (snd (run step xs s))"
  by (induction xs arbitrary: s) (auto simp: case_prod_unfold Let_def dest: step_ok)

lemma run_abs: "ok s \<Longrightarrow> run spec xs (abs s) = (fst (run step xs s), abs (snd (run step xs s)))"
  by (induction xs arbitrary: s) (simp_all add: case_prod_unfold Let_def step_ok step_abs)

end

end
