(* ===== verification/Kernel_Links.thy ===== *)
theory Kernel_Links
  imports Prelude Step_Refinement
begin

text \<open>
  The symbolic link table of \<open>src/kernel/kernel_io.c\<close>: 32 slots of fixed-size names, filled by
  \<open>IoCreateSymbolicLink\<close>, searched by \<open>xbox_LookupSymbolicLink\<close> and cleared by
  \<open>IoDeleteSymbolicLink\<close>. C strings are lists of characters without NUL. A counted string
  argument is \<open>None\<close> for a null pointer and \<open>Some None\<close> for one with a null buffer.
\<close>

section \<open>Status codes and counted strings\<close>

type_synonym NTSTATUS = u32

abbreviation STATUS_SUCCESS :: NTSTATUS where "STATUS_SUCCESS \<equiv> 0x00000000"
abbreviation STATUS_INVALID_PARAMETER :: NTSTATUS where "STATUS_INVALID_PARAMETER \<equiv> 0xC000000D"
abbreviation STATUS_OBJECT_NAME_NOT_FOUND :: NTSTATUS where "STATUS_OBJECT_NAME_NOT_FOUND \<equiv> 0xC0000034"
abbreviation STATUS_OBJECT_NAME_COLLISION :: NTSTATUS where "STATUS_OBJECT_NAME_COLLISION \<equiv> 0xC0000035"
abbreviation STATUS_INSUFFICIENT_RESOURCES :: NTSTATUS where "STATUS_INSUFFICIENT_RESOURCES \<equiv> 0xC000009A"

abbreviation (input) XBOX_MAX_SYMLINKS :: nat where "XBOX_MAX_SYMLINKS \<equiv> 32"

type_synonym ansi_string = "string option option"

definition c_string :: "string \<Rightarrow> string" where
  "c_string s = takeWhile (\<lambda>c. c \<noteq> CHR 0x00) s"

definition xbox_copy_ansi :: "nat \<Rightarrow> ansi_string \<Rightarrow> string" where
  "xbox_copy_ansi dst_size src =
     (case src of Some (Some buffer) \<Rightarrow> c_string (take (dst_size - 1) buffer) | _ \<Rightarrow> [])"

section \<open>The table\<close>

record XBOX_SYMLINK =
  link :: string
  target :: string
  used :: bool

type_synonym link_table = "XBOX_SYMLINK list"

definition no_links :: link_table where
  "no_links = replicate XBOX_MAX_SYMLINKS \<lparr>link = [], target = [], used = False\<rparr>"

fun xbox_find_symlink :: "link_table \<Rightarrow> string \<Rightarrow> nat option" where
  "xbox_find_symlink [] name = None"
| "xbox_find_symlink (e # es) name =
     (if used e \<and> link e = name then Some 0 else map_option Suc (xbox_find_symlink es name))"

definition xbox_LookupSymbolicLink :: "link_table \<Rightarrow> string option \<Rightarrow> string option" where
  "xbox_LookupSymbolicLink t name =
     (case name of None \<Rightarrow> None | Some n \<Rightarrow> map_option (\<lambda>i. target (t ! i)) (xbox_find_symlink t n))"

fun first_free :: "link_table \<Rightarrow> nat option" where
  "first_free [] = None"
| "first_free (e # es) = (if \<not> used e then Some 0 else map_option Suc (first_free es))"

definition xbox_IoCreateSymbolicLink :: "link_table \<Rightarrow> ansi_string \<Rightarrow> ansi_string \<Rightarrow> NTSTATUS \<times> link_table" where
  "xbox_IoCreateSymbolicLink t name device =
     (if name = None then (STATUS_INVALID_PARAMETER, t)
      else let l = xbox_copy_ansi 64 name; d = xbox_copy_ansi 128 device
           in if l = [] then (STATUS_INVALID_PARAMETER, t)
              else if xbox_find_symlink t l \<noteq> None then (STATUS_OBJECT_NAME_COLLISION, t)
              else case first_free t of
                     Some i \<Rightarrow> (STATUS_SUCCESS, t[i := \<lparr>link = l, target = d, used = True\<rparr>])
                   | None \<Rightarrow> (STATUS_INSUFFICIENT_RESOURCES, t))"

definition xbox_IoDeleteSymbolicLink :: "link_table \<Rightarrow> ansi_string \<Rightarrow> NTSTATUS \<times> link_table" where
  "xbox_IoDeleteSymbolicLink t name =
     (if name = None then (STATUS_INVALID_PARAMETER, t)
      else case xbox_find_symlink t (xbox_copy_ansi 64 name) of
             None \<Rightarrow> (STATUS_OBJECT_NAME_NOT_FOUND, t)
           | Some i \<Rightarrow> (STATUS_SUCCESS, t[i := \<lparr>link = [], target = [], used = False\<rparr>]))"

definition xbox_IoDismountVolumeByName :: "ansi_string \<Rightarrow> NTSTATUS" where
  "xbox_IoDismountVolumeByName name =
     (if name = None \<or> xbox_copy_ansi 64 name = [] then STATUS_INVALID_PARAMETER else STATUS_SUCCESS)"

section \<open>The abstract table\<close>

definition link_map :: "link_table \<Rightarrow> string \<Rightarrow> string option" where
  "link_map t n = xbox_LookupSymbolicLink t (Some n)"

text \<open>Every name in use is a non-empty C string that fits its buffer, and no name is used twice.\<close>

definition used_links :: "link_table \<Rightarrow> string list" where
  "used_links t = map link (filter used t)"

definition links_ok :: "link_table \<Rightarrow> bool" where
  "links_ok t \<longleftrightarrow> length t = XBOX_MAX_SYMLINKS \<and> distinct (used_links t) \<and> [] \<notin> set (used_links t)"

lemma find_symlink_Some:
  "xbox_find_symlink t n = Some i \<Longrightarrow> i < length t \<and> used (t ! i) \<and> link (t ! i) = n"
  by (induction t arbitrary: i) (auto split: if_splits)

lemma find_symlink_None: "xbox_find_symlink t n = None \<longleftrightarrow> n \<notin> set (used_links t)"
  by (induction t) (auto simp: used_links_def)

lemma first_free_Some: "first_free t = Some i \<Longrightarrow> i < length t \<and> \<not> used (t ! i)"
  by (induction t arbitrary: i) (auto split: if_splits)

lemma first_free_None: "first_free t = None \<longleftrightarrow> length (used_links t) = length t"
proof (induction t)
  case (Cons e es)
  have "length (used_links es) \<noteq> Suc (length es)" by (metis Suc_n_not_le_n length_filter_le length_map used_links_def)
  then show ?case using Cons by (auto simp: used_links_def)
qed (simp add: used_links_def)

lemma used_links_take_drop:
  assumes "i < length t"
  shows "used_links t = used_links (take i t) @ (if used (t ! i) then [link (t ! i)] else []) @ used_links (drop (Suc i) t)"
proof -
  have "used_links t = used_links (take i t @ t ! i # drop (Suc i) t)" using assms by (simp add: id_take_nth_drop [symmetric])
  then show ?thesis by (simp add: used_links_def)
qed

lemma used_links_update:
  assumes "i < length t"
  shows "used_links (t[i := e]) = used_links (take i t) @ (if used e then [link e] else []) @ used_links (drop (Suc i) t)"
  using assms by (simp add: upd_conv_take_nth_drop used_links_def)

lemma find_symlink_distinct:
  assumes "links_ok t" "i < length t" "used (t ! i)"
  shows "xbox_find_symlink t (link (t ! i)) = Some i"
proof -
  have "link (t ! i) \<in> set (used_links t)" using assms(2,3) by (auto simp: used_links_def)
  then obtain j where j: "xbox_find_symlink t (link (t ! i)) = Some j" using find_symlink_None by (metis not_None_eq)
  note J = find_symlink_Some [OF j]
  have "j = i"
  proof (rule ccontr)
    assume ne: "j \<noteq> i"
    have d: "distinct (used_links t)" using assms(1) by (simp add: links_ok_def)
    have "link (t ! j) \<noteq> link (t ! i)" if "i < j" "j < length t" "used (t ! i)" "used (t ! j)" for i j
    proof -
      have "drop (Suc i) t ! (j - Suc i) \<in> set (drop (Suc i) t)" using that by (intro nth_mem) simp
      then have "t ! j \<in> set (drop (Suc i) t)" using that by simp
      then have "link (t ! j) \<in> set (used_links (drop (Suc i) t))" using that by (auto simp: used_links_def)
      then show ?thesis using d that used_links_take_drop [of i t] by auto
    qed
    from this [of i j] this [of j i] show False using J assms(2,3) ne by (metis linorder_neqE_nat)
  qed
  with j show ?thesis by simp
qed

lemma link_map_iff:
  assumes "links_ok t"
  shows "link_map t n = Some d \<longleftrightarrow> (\<exists>i < length t. used (t ! i) \<and> link (t ! i) = n \<and> target (t ! i) = d)"
proof
  assume "link_map t n = Some d"
  then obtain i where "xbox_find_symlink t n = Some i" "target (t ! i) = d"
    by (auto simp: link_map_def xbox_LookupSymbolicLink_def)
  then show "\<exists>i < length t. used (t ! i) \<and> link (t ! i) = n \<and> target (t ! i) = d" using find_symlink_Some by blast
next
  assume "\<exists>i < length t. used (t ! i) \<and> link (t ! i) = n \<and> target (t ! i) = d"
  then show "link_map t n = Some d"
    using find_symlink_distinct [OF assms] by (auto simp: link_map_def xbox_LookupSymbolicLink_def)
qed

lemma link_map_None: "link_map t n = None \<longleftrightarrow> n \<notin> set (used_links t)"
  by (simp add: link_map_def xbox_LookupSymbolicLink_def find_symlink_None)

lemma card_link_map:
  assumes "links_ok t"
  shows "card (dom (link_map t)) = length (used_links t)"
proof -
  have "dom (link_map t) = set (used_links t)" using link_map_None [of t] by (auto simp: dom_def)
  then show ?thesis using assms by (simp add: links_ok_def distinct_card)
qed

lemma put_link:
  fixes d :: string
  assumes ok: "links_ok t" and i: "first_free t = Some i" and l: "l \<noteq> []" "link_map t l = None"
  defines "t' \<equiv> t[i := \<lparr>link = l, target = d, used = True\<rparr>]"
  shows "links_ok t'" and "link_map t' = (link_map t)(l \<mapsto> d)"
proof -
  note I = first_free_Some [OF i]
  have old: "used_links t = used_links (take i t) @ used_links (drop (Suc i) t)" using used_links_take_drop I by auto
  have new: "used_links t' = used_links (take i t) @ [l] @ used_links (drop (Suc i) t)"
    using used_links_update I by (simp add: t'_def)
  show k: "links_ok t'" using ok l old new by (auto simp: links_ok_def t'_def link_map_None)
  have "link_map t' n = Some x \<longleftrightarrow> ((link_map t)(l \<mapsto> d)) n = Some x" for n x
  proof -
    have "link_map t' n = Some x \<longleftrightarrow> (\<exists>j < length t. used (t' ! j) \<and> link (t' ! j) = n \<and> target (t' ! j) = x)"
      using link_map_iff [OF k] by (simp add: t'_def)
    also have "\<dots> \<longleftrightarrow> (l = n \<and> d = x) \<or> (\<exists>j < length t. used (t ! j) \<and> link (t ! j) = n \<and> target (t ! j) = x)"
      using I by (auto simp: t'_def nth_list_update)
    also have "\<dots> \<longleftrightarrow> (l = n \<and> d = x) \<or> link_map t n = Some x" using link_map_iff [OF ok] by simp
    also have "\<dots> \<longleftrightarrow> ((link_map t)(l \<mapsto> d)) n = Some x" using l by auto
    finally show ?thesis .
  qed
  then show "link_map t' = (link_map t)(l \<mapsto> d)" by (metis not_Some_eq ext)
qed

lemma drop_link:
  assumes ok: "links_ok t" and i: "xbox_find_symlink t l = Some i"
  defines "t' \<equiv> t[i := \<lparr>link = [], target = [], used = False\<rparr>]"
  shows "links_ok t'" and "link_map t' = (link_map t)(l := None)"
proof -
  note I = find_symlink_Some [OF i]
  have old: "used_links t = used_links (take i t) @ [l] @ used_links (drop (Suc i) t)" using used_links_take_drop I by auto
  have new: "used_links t' = used_links (take i t) @ used_links (drop (Suc i) t)"
    using used_links_update I by (simp add: t'_def)
  show k: "links_ok t'" using ok old new by (auto simp: links_ok_def t'_def)
  have "link_map t' n = Some x \<longleftrightarrow> ((link_map t)(l := None)) n = Some x" for n x
  proof -
    have "link_map t' n = Some x \<longleftrightarrow> (\<exists>j < length t. used (t' ! j) \<and> link (t' ! j) = n \<and> target (t' ! j) = x)"
      using link_map_iff [OF k] by (simp add: t'_def)
    also have "\<dots> \<longleftrightarrow> (\<exists>j < length t. j \<noteq> i \<and> used (t ! j) \<and> link (t ! j) = n \<and> target (t ! j) = x)"
    proof (rule ex_cong1)
      fix j
      show "(j < length t \<and> used (t' ! j) \<and> link (t' ! j) = n \<and> target (t' ! j) = x) =
          (j < length t \<and> j \<noteq> i \<and> used (t ! j) \<and> link (t ! j) = n \<and> target (t ! j) = x)"
        by (cases "j = i") (auto simp: t'_def)
    qed
    also have "\<dots> \<longleftrightarrow> n \<noteq> l \<and> (\<exists>j < length t. used (t ! j) \<and> link (t ! j) = n \<and> target (t ! j) = x)"
      using find_symlink_distinct [OF ok] I i by (metis option.inject)
    also have "\<dots> \<longleftrightarrow> n \<noteq> l \<and> link_map t n = Some x" using link_map_iff [OF ok] by simp
    also have "\<dots> \<longleftrightarrow> ((link_map t)(l := None)) n = Some x" by auto
    finally show ?thesis .
  qed
  then show "link_map t' = (link_map t)(l := None)" by (metis not_Some_eq ext)
qed

section \<open>The contract\<close>

datatype link_op = Create ansi_string ansi_string | Delete ansi_string

fun link_step :: "link_op \<Rightarrow> link_table \<Rightarrow> NTSTATUS \<times> link_table" where
  "link_step (Create n d) t = xbox_IoCreateSymbolicLink t n d"
| "link_step (Delete n) t = xbox_IoDeleteSymbolicLink t n"

text \<open>What the calls promise of the finite map from names to targets.\<close>

fun link_spec :: "link_op \<Rightarrow> (string \<Rightarrow> string option) \<Rightarrow> NTSTATUS \<times> (string \<Rightarrow> string option)" where
  "link_spec (Create n d) mp =
     (let l = xbox_copy_ansi 64 n
      in if l = [] then (STATUS_INVALID_PARAMETER, mp)
         else if l \<in> dom mp then (STATUS_OBJECT_NAME_COLLISION, mp)
         else if card (dom mp) < XBOX_MAX_SYMLINKS then (STATUS_SUCCESS, mp(l \<mapsto> xbox_copy_ansi 128 d))
         else (STATUS_INSUFFICIENT_RESOURCES, mp))"
| "link_spec (Delete n) mp =
     (let l = xbox_copy_ansi 64 n
      in if n = None then (STATUS_INVALID_PARAMETER, mp)
         else if l \<in> dom mp then (STATUS_SUCCESS, mp(l := None))
         else (STATUS_OBJECT_NAME_NOT_FOUND, mp))"

lemma link_dom: "l \<in> dom (link_map t) \<longleftrightarrow> xbox_find_symlink t l \<noteq> None"
  by (simp add: link_map_def xbox_LookupSymbolicLink_def dom_def)

lemma link_step_ok: "links_ok t \<Longrightarrow> links_ok (snd (link_step x t))"
proof (cases x)
  case (Create n d)
  assume ok: "links_ok t"
  show ?thesis
    using put_link(1) [OF ok, of _ "xbox_copy_ansi 64 n" "xbox_copy_ansi 128 d"] ok link_dom [of "xbox_copy_ansi 64 n" t]
    by (auto simp: Create xbox_IoCreateSymbolicLink_def Let_def dom_def split: option.splits)
next
  case (Delete n)
  assume ok: "links_ok t"
  show ?thesis
    using drop_link(1) [OF ok, of "xbox_copy_ansi 64 n"] ok
    by (auto simp: Delete xbox_IoDeleteSymbolicLink_def split: option.splits)
qed

lemma link_step_abs: "links_ok t \<Longrightarrow> link_spec x (link_map t) = (fst (link_step x t), link_map (snd (link_step x t)))"
proof (cases x)
  case (Create n d)
  assume ok: "links_ok t"
  let ?l = "xbox_copy_ansi 64 n"
  have none: "n = None \<Longrightarrow> ?l = []" by (simp add: xbox_copy_ansi_def)
  have free: "first_free t = None \<longleftrightarrow> \<not> card (dom (link_map t)) < 32"
  proof -
    have "length (used_links t) \<le> length t" unfolding used_links_def by simp
    then show ?thesis using first_free_None [of t] card_link_map [OF ok] ok by (simp add: links_ok_def)
  qed
  show ?thesis
  proof (cases "?l = [] \<or> ?l \<in> dom (link_map t)")
    case True
    then show ?thesis using none link_dom [of ?l t] by (auto simp: Create xbox_IoCreateSymbolicLink_def Let_def)
  next
    case False
    then have l: "?l \<noteq> []" "link_map t ?l = None" by (auto simp: dom_def)
    show ?thesis
    proof (cases "first_free t")
      case None
      then show ?thesis using False none free link_dom [of ?l t] by (auto simp: Create xbox_IoCreateSymbolicLink_def Let_def)
    next
      case (Some i)
      then show ?thesis using False none free link_dom [of ?l t] put_link(2) [OF ok Some l]
        by (auto simp: Create xbox_IoCreateSymbolicLink_def Let_def)
    qed
  qed
next
  case (Delete n)
  assume ok: "links_ok t"
  show ?thesis
    using drop_link(2) [OF ok, of "xbox_copy_ansi 64 n"] link_dom [of "xbox_copy_ansi 64 n" t]
    by (auto simp: Delete xbox_IoDeleteSymbolicLink_def Let_def split: option.splits)
qed

interpretation links: step_refinement links_ok link_map link_step link_spec
  by unfold_locales (fact link_step_ok, fact link_step_abs)

lemma no_links_ok: "links_ok no_links" "link_map no_links = Map.empty"
proof -
  have u: "used_links no_links = []" by (simp add: no_links_def used_links_def)
  show "links_ok no_links" by (simp add: links_ok_def u) (simp add: no_links_def)
  show "link_map no_links = Map.empty" using link_map_None [of no_links] by (auto simp: u)
qed

text \<open>
  Claim C12: Any sequence of link creations and deletions, from the empty table, returns the
  statuses and reaches the contents of a finite map from names to targets that holds at most
  32 of them.
\<close>

theorem link_calls_refine_a_finite_map:
  "run link_spec ops Map.empty = (fst (run link_step ops no_links), link_map (snd (run link_step ops no_links)))"
  using links.run_abs [OF no_links_ok(1), of ops] by (simp add: no_links_ok(2))

text \<open>
  Claim C34: After any sequence of calls the table has 32 slots, no name twice, no empty
  name in use, and at most 32 names.
\<close>

theorem link_table_invariant:
  "links_ok (snd (run link_step ops no_links)) \<and> card (dom (link_map (snd (run link_step ops no_links)))) \<le> XBOX_MAX_SYMLINKS"
proof -
  have ok: "links_ok (snd (run link_step ops no_links))" by (rule links.run_ok [OF no_links_ok(1)])
  have "length (used_links t) \<le> length t" for t unfolding used_links_def by simp
  then show ?thesis using ok card_link_map [OF ok] by (metis links_ok_def)
qed

end
