(* ===== verification/Kernel_Path.thy ===== *)
theory Kernel_Path
  imports Kernel_Links
begin

text \<open>
  The device-path translation of \<open>src/kernel/kernel_path.c\<close>, in its POSIX form: the drive letters a
  title mapped for itself, the table of rules, and the host path built from the first rule that
  matches. C strings are lists without NUL; \<open>xbox_LookupSymbolicLink\<close> is the argument \<open>lookup\<close>,
  the directory, environment and \<open>getcwd\<close> results are the record \<open>host_env\<close>, and the directories
  created are recorded in the order of the \<open>mkdir\<close> calls. Tracing is left out.
\<close>

section \<open>Characters and prefixes\<close>

abbreviation NUL :: char where "NUL \<equiv> CHR 0x00"
abbreviation bs :: char where "bs \<equiv> CHR 0x5C"
abbreviation slash :: char where "slash \<equiv> CHR ''/''"
abbreviation (input) MAX_PATH :: nat where "MAX_PATH \<equiv> 260"

text \<open>Rule literals are written with slashes and read with backslashes.\<close>

definition backslashed :: "string \<Rightarrow> string" where
  "backslashed s = map (\<lambda>c. if c = slash then bs else c) s"

definition to_slash :: "char \<Rightarrow> char" where
  "to_slash c = (if c = bs then slash else c)"

definition c_tolower :: "char \<Rightarrow> char" where
  "c_tolower c = (let n = of_char c :: nat in if 65 \<le> n \<and> n \<le> 90 then char_of (n + 32) else c)"

definition c_toupper :: "char \<Rightarrow> char" where
  "c_toupper c = (let n = of_char c :: nat in if 97 \<le> n \<and> n \<le> 122 then char_of (n - 32) else c)"

definition char_at :: "string \<Rightarrow> nat \<Rightarrow> char" where
  "char_at s i = (if i < length s then s ! i else NUL)"

fun match_from :: "nat \<Rightarrow> string \<Rightarrow> string \<Rightarrow> nat" where
  "match_from i path [] = i"
| "match_from i [] (c # cs) = 0"
| "match_from i (p # ps) (c # cs) = (if c_tolower p \<noteq> c_tolower c then 0 else match_from (i + 1) ps cs)"

definition match_prefix :: "string \<Rightarrow> string \<Rightarrow> nat" where
  "match_prefix path pre = match_from 0 path pre"

section \<open>The rules\<close>

record path_rule =
  prefix :: string
  to_save :: bool
  sub_win :: "string option"
  sub_posix :: "string option"

definition rule :: "string \<Rightarrow> bool \<Rightarrow> string option \<Rightarrow> path_rule" where
  "rule p save sub = \<lparr>prefix = backslashed p, to_save = save, sub_win = map_option backslashed sub, sub_posix = sub\<rparr>"

definition s_rules :: "path_rule list" where
  "s_rules =
    [rule ''/Device/CdRom0/'' False None,
     rule ''/Device/Harddisk0/Partition1/'' True None,
     rule ''/Device/Harddisk0/Partition2/'' False None,
     rule ''C:/'' False None,
     rule ''/??/C:/'' False None,
     rule ''/Device/Harddisk0/Partition2'' True (Some ''/SystemData''),
     rule ''/Device/Harddisk0/Partition3'' True (Some ''/Cache''),
     rule ''/Device/Harddisk0/Partition4'' True (Some ''/Cache''),
     rule ''/Device/Harddisk0/Partition5'' True (Some ''/Cache''),
     rule ''D:/'' False None,
     rule ''d:/'' False None,
     rule ''Y:/'' False None,
     rule ''y:/'' False None,
     rule ''T:/'' True (Some ''/TitleData''),
     rule ''U:/'' True (Some ''/UserData''),
     rule ''Z:/'' True (Some ''/Cache''),
     rule ''/??/D:/'' False None,
     rule ''/??/Y:/'' False None,
     rule ''/??/y:/'' False None,
     rule ''/??/T:/'' True (Some ''/TitleData'')]"

definition find_rule :: "string \<Rightarrow> path_rule option" where
  "find_rule path = find (\<lambda>r. match_prefix path (prefix r) \<noteq> 0) s_rules"

section \<open>Drive letters the title mapped\<close>

definition strip_dos :: "string \<Rightarrow> string" where
  "strip_dos path =
     (if match_prefix path (backslashed ''/??/'') \<noteq> 0 \<and> char_at path 4 \<noteq> NUL \<and> char_at path 5 = CHR '':'' then drop 4 path else path)"

definition resolve_symlink :: "(string \<Rightarrow> string option) \<Rightarrow> string option \<Rightarrow> nat \<Rightarrow> string option" where
  "resolve_symlink lookup xbox_path out_size =
     (case xbox_path of None \<Rightarrow> None
      | Some path \<Rightarrow>
          if out_size = 0 then None
          else let path = strip_dos path
               in if char_at path 0 = NUL \<or> char_at path 1 \<noteq> CHR '':'' then None
                  else case lookup (backslashed ''/??/'' @ [c_toupper (char_at path 0), CHR '':'']) of
                         None \<Rightarrow> None
                       | Some tgt \<Rightarrow>
                           if tgt = [] then None
                           else let rest = dropWhile (\<lambda>c. c = bs \<or> c = slash) (drop 2 path)
                                in if length tgt + length rest + 2 > out_size then None
                                   else let out = tgt @ (if last tgt \<noteq> bs \<and> last tgt \<noteq> slash then [bs] else []) @ rest
                                        in if find_rule out \<noteq> None then Some out else None)"

section \<open>The host directories\<close>

record host_env =
  cwd :: "string option"
  xdg_data_home :: "string option"
  home :: "string option"

record path_state =
  s_game_dir :: string
  s_save_dir :: string
  s_initialized :: bool
  made :: "string list"

text \<open>\<open>snprintf\<close> of a string into a buffer of a given size.\<close>

definition snprintf :: "nat \<Rightarrow> string \<Rightarrow> string" where
  "snprintf bufsz s = take (bufsz - 1) s"

definition strip_trailing_slash :: "string \<Rightarrow> string" where
  "strip_trailing_slash s = (if length s > 1 \<and> last s = slash then butlast s else s)"

definition mkdir_p :: "string \<Rightarrow> string list" where
  "mkdir_p path =
     (if path = [] \<or> length path \<ge> MAX_PATH then []
      else map (\<lambda>i. take i path) (filter (\<lambda>i. path ! i = slash) [1..<length path]) @ [path])"

definition xbox_path_save_root :: "path_state \<Rightarrow> string option" where
  "xbox_path_save_root st = (if s_save_dir st \<noteq> [] then Some (s_save_dir st) else None)"

definition xbox_path_init :: "host_env \<Rightarrow> string option \<Rightarrow> string option \<Rightarrow> path_state \<Rightarrow> path_state" where
  "xbox_path_init env game_dir save_dir st =
     (let game = (case game_dir of
                    Some g \<Rightarrow> snprintf MAX_PATH g
                  | None \<Rightarrow> snprintf MAX_PATH ((case cwd env of Some c \<Rightarrow> c | None \<Rightarrow> ''.'') @ ''/game''));
          save = (case save_dir of
                    Some s \<Rightarrow> snprintf MAX_PATH s
                  | None \<Rightarrow> (case xdg_data_home env of
                        Some x \<Rightarrow> if x \<noteq> [] then snprintf MAX_PATH (x @ ''/xboxrecomp'')
                                 else snprintf MAX_PATH ((case home env of Some h \<Rightarrow> if h \<noteq> [] then h else ''.'' | None \<Rightarrow> ''.'') @ ''/.local/share/xboxrecomp'')
                      | None \<Rightarrow> snprintf MAX_PATH ((case home env of Some h \<Rightarrow> if h \<noteq> [] then h else ''.'' | None \<Rightarrow> ''.'') @ ''/.local/share/xboxrecomp'')))
      in st\<lparr>s_game_dir := strip_trailing_slash game, s_save_dir := strip_trailing_slash save, s_initialized := True\<rparr>)"

section \<open>Translation\<close>

function strip_slashes :: "string \<Rightarrow> string" where
  "strip_slashes s = (if length s > 1 \<and> last s = slash then strip_slashes (butlast s) else s)"
  by auto
termination by (relation "measure length") auto

declare strip_slashes.simps [simp del]

definition place_path :: "string \<Rightarrow> nat \<Rightarrow> path_state \<Rightarrow> string \<times> path_state" where
  "place_path path bufsz st =
     (case find_rule path of
        None \<Rightarrow> (map to_slash (snprintf bufsz path), st)
      | Some r \<Rightarrow>
          let remainder = map to_slash (snprintf MAX_PATH (drop (match_prefix path (prefix r)) path));
              base = (if to_save r then s_save_dir st else s_game_dir st)
          in case sub_posix r of
               Some sub \<Rightarrow> (strip_slashes (snprintf bufsz (base @ sub @ [slash] @ remainder)),
                           st\<lparr>made := made st @ mkdir_p (snprintf MAX_PATH (base @ sub))\<rparr>)
             | None \<Rightarrow> (strip_slashes (snprintf bufsz (base @ [slash] @ remainder)), st))"

text \<open>
  The buffer is \<open>None\<close> for a null pointer. The inner option is the C result with the buffer's
  contents, the outer one is \<open>None\<close> when the recursion through the links never ends.
\<close>

partial_function (option) xbox_translate_path ::
    "host_env \<Rightarrow> (string \<Rightarrow> string option) \<Rightarrow> string option \<Rightarrow> nat option \<Rightarrow> path_state \<Rightarrow> (string option \<times> path_state) option" where
  "xbox_translate_path env lookup xbox_path host_buf st =
     (case (xbox_path, host_buf) of
        (Some path, Some bufsz) \<Rightarrow>
          if bufsz = 0 then Some (None, st)
          else let st = (if s_initialized st then st else xbox_path_init env None None st)
               in (case resolve_symlink lookup xbox_path 512 of
                     Some linked \<Rightarrow> xbox_translate_path env lookup (Some linked) host_buf st
                   | None \<Rightarrow> let (host, st) = place_path path bufsz st in Some (Some host, st))
      | _ \<Rightarrow> Some (None, st))"

section \<open>Prefixes\<close>

lemma match_from: "match_from i path p = (if length p \<le> length path \<and> map c_tolower (take (length p) path) = map c_tolower p then i + length p else 0)"
  by (induction i path p rule: match_from.induct) auto

lemma match_prefix: "match_prefix path p = (if length p \<le> length path \<and> map c_tolower (take (length p) path) = map c_tolower p then length p else 0)"
  by (simp add: match_prefix_def match_from)

lemma match_prefix_append: "match_prefix path p \<noteq> 0 \<Longrightarrow> match_prefix (path @ rest) p = match_prefix path p"
  by (auto simp: match_prefix split: if_splits)

lemma find_append: "find P (xs @ ys) = (case find P xs of Some x \<Rightarrow> Some x | None \<Rightarrow> find P ys)"
  by (induction xs) auto

lemmas eval_rule = find_rule_def s_rules_def rule_def backslashed_def match_prefix_def c_tolower_def char_of_def

lemma partition2_rules:
  "find_rule (backslashed ''/Device/Harddisk0/Partition2/'' @ rest) = Some (rule ''/Device/Harddisk0/Partition2/'' False None)"
  "find_rule (backslashed ''/Device/Harddisk0/Partition2'') = Some (rule ''/Device/Harddisk0/Partition2'' True (Some ''/SystemData''))"
  by (simp_all add: eval_rule)

lemma tolower_nonletter:
  assumes "c_tolower c = d" "\<not> (97 \<le> (of_char d :: nat) \<and> (of_char d :: nat) \<le> 122)"
  shows "c = d"
proof (rule ccontr)
  assume "c \<noteq> d"
  then have c: "65 \<le> (of_char c :: nat)" "(of_char c :: nat) \<le> 90" "d = char_of (of_char c + 32 :: nat)"
    using assms(1) by (auto simp: c_tolower_def Let_def split: if_splits)
  then have "(of_char d :: nat) = of_char c + 32" by (simp add: of_char_of)
  then show False using assms(2) c by linarith
qed

lemma device_chars:
  assumes "match_prefix p (backslashed ''/Device/'') \<noteq> 0"
  shows "\<exists>d r. p = bs # d # r \<and> d \<noteq> CHR '':'' \<and> d \<noteq> CHR ''?''"
proof -
  obtain a b r where p: "p = a # b # r"
    using assms by (cases p; cases "tl p") (auto simp: match_prefix backslashed_def split: if_splits)
  have "c_tolower a = c_tolower bs" "c_tolower b = c_tolower (CHR ''D'')"
    using assms by (auto simp: p match_prefix backslashed_def split: if_splits)
  then have a: "c_tolower a = bs" and b: "c_tolower b = CHR ''d''"
    by (simp_all add: c_tolower_def [of bs] c_tolower_def [of "CHR ''D''"] char_of_def bit_Suc_0_iff)
  have "a = bs" by (rule tolower_nonletter [OF a]) simp
  moreover have "b \<noteq> CHR '':''" "b \<noteq> CHR ''?''" using b by (auto simp: c_tolower_def)
  ultimately show ?thesis using p by blast
qed

lemma device_path_unlinked:
  assumes "match_prefix p (backslashed ''/Device/'') \<noteq> 0"
  shows "resolve_symlink lookup (Some p) n = None"
proof -
  obtain d r where p: "p = bs # d # r" "d \<noteq> CHR '':''" "d \<noteq> CHR ''?''" using device_chars [OF assms] by blast
  have "c_tolower d \<noteq> c_tolower (CHR ''?'')"
    using p(3) tolower_nonletter [of d "CHR ''?''"] by (auto simp: c_tolower_def [of "CHR ''?''"])
  then have "strip_dos p = p" by (simp add: strip_dos_def match_prefix p(1) backslashed_def)
  then show ?thesis using p by (simp add: resolve_symlink_def char_at_def)
qed

lemma resolve_shape:
  assumes "resolve_symlink lookup (Some p) n = Some out"
  shows "\<exists>l tgt rest. lookup l = Some tgt \<and> tgt \<noteq> [] \<and> out = tgt @ rest \<and> find_rule out \<noteq> None \<and> length out < n"
  using assms unfolding resolve_symlink_def
  by (auto simp: Let_def split: if_splits option.splits; blast)

lemma strip_slashes_props:
  "length (strip_slashes s) \<le> length s \<and> set (strip_slashes s) \<subseteq> set s \<and> (1 < length (strip_slashes s) \<longrightarrow> last (strip_slashes s) \<noteq> slash)"
proof (induction s rule: strip_slashes.induct)
  case (1 s)
  show ?case
  proof (cases "length s > 1 \<and> last s = slash")
    case True
    then show ?thesis using 1 strip_slashes.simps [of s] by (auto dest: in_set_butlastD)
  next
    case False
    then have "strip_slashes s = s" using strip_slashes.simps [of s] by argo
    then show ?thesis using False by auto
  qed
qed

lemma find_rule_in: "find_rule p = Some r \<Longrightarrow> r \<in> set s_rules \<and> match_prefix p (prefix r) \<noteq> 0"
  by (auto simp: find_rule_def find_Some_iff)

lemma rule_subs: "r \<in> set s_rules \<Longrightarrow> sub_posix r = Some sub \<Longrightarrow> bs \<notin> set sub"
  by (auto simp: s_rules_def rule_def)

lemma to_slash_bs: "bs \<notin> set (map to_slash s)"
  by (auto simp: to_slash_def)

lemma set_snprintf: "c \<in> set (snprintf n s) \<Longrightarrow> c \<in> set s"
  by (auto simp: snprintf_def dest: in_set_takeD)

lemma place_path_shape:
  assumes "place_path path n st = (h, st')" "0 < n" "bs \<notin> set (s_game_dir st)" "bs \<notin> set (s_save_dir st)"
  shows "length h < n" "bs \<notin> set h" "find_rule path \<noteq> None \<Longrightarrow> 1 < length h \<Longrightarrow> last h \<noteq> slash"
proof -
  have "length h < n \<and> bs \<notin> set h \<and> (find_rule path \<noteq> None \<longrightarrow> 1 < length h \<longrightarrow> last h \<noteq> slash)"
  proof (cases "find_rule path")
    case None
    then show ?thesis using assms(1,2) to_slash_bs by (auto simp: place_path_def snprintf_def)
  next
    case (Some r)
    define b where "b = (if to_save r then s_save_dir st else s_game_dir st) @ (case sub_posix r of Some s \<Rightarrow> s | None \<Rightarrow> [])
      @ [slash] @ map to_slash (snprintf MAX_PATH (drop (match_prefix path (prefix r)) path))"
    have h: "h = strip_slashes (snprintf n b)" using assms(1) Some by (auto simp: place_path_def b_def Let_def split: option.splits)
    have "bs \<notin> set b"
      using assms(3,4) find_rule_in [OF Some] rule_subs to_slash_bs by (auto simp: b_def split: option.splits)
    then have "bs \<notin> set (snprintf n b)" using set_snprintf by blast
    moreover have "length (snprintf n b) < n" using assms(2) by (simp add: snprintf_def)
    ultimately show ?thesis using strip_slashes_props [of "snprintf n b"] unfolding h by (meson in_mono le_less_trans)
  qed
  then show "length h < n" "bs \<notin> set h" "find_rule path \<noteq> None \<Longrightarrow> 1 < length h \<Longrightarrow> last h \<noteq> slash" by blast+
qed

section \<open>Properties\<close>

text \<open>
  Claim C15: When every link leads to a device path, translation always returns, after at
  most one rewriting, with a host path that fits the buffer and holds no backslash.
\<close>

theorem device_links_translate:
  assumes "\<forall>l t. lookup l = Some t \<longrightarrow> match_prefix t (backslashed ''/Device/'') \<noteq> 0"
    and "s_initialized st" "bs \<notin> set (s_game_dir st)" "bs \<notin> set (s_save_dir st)" "0 < n"
  shows "\<exists>h st'. xbox_translate_path env lookup (Some path) (Some n) st = Some (Some h, st')
    \<and> (h, st') = place_path (case resolve_symlink lookup (Some path) 512 of Some q \<Rightarrow> q | None \<Rightarrow> path) n st
    \<and> length h < n \<and> bs \<notin> set h"
proof -
  define q where "q = (case resolve_symlink lookup (Some path) 512 of Some q \<Rightarrow> q | None \<Rightarrow> path)"
  obtain h st' where p: "place_path q n st = (h, st')" by (cases "place_path q n st")
  have "xbox_translate_path env lookup (Some path) (Some n) st = Some (Some h, st')"
  proof (cases "resolve_symlink lookup (Some path) 512")
    case None
    then show ?thesis using assms p by (simp add: xbox_translate_path.simps q_def)
  next
    case (Some out)
    then obtain l tgt rest where o: "lookup l = Some tgt" "out = tgt @ rest" using resolve_shape by blast
    then have "match_prefix out (backslashed ''/Device/'') \<noteq> 0" using assms(1) match_prefix_append by metis
    then have "resolve_symlink lookup (Some out) 512 = None" by (rule device_path_unlinked)
    then have "xbox_translate_path env lookup (Some out) (Some n) st = Some (Some h, st')"
      using assms p Some by (simp add: xbox_translate_path.simps q_def)
    then show ?thesis using assms Some by (subst xbox_translate_path.simps) simp
  qed
  then show ?thesis using place_path_shape(1,2) [OF p assms(5,3,4)] p unfolding q_def by auto
qed

lemma no_links_translate:
  assumes "resolve_symlink lookup (Some path) 512 = None" "s_initialized st" "0 < n"
  shows "xbox_translate_path env lookup (Some path) (Some n) st = (let (h, st) = place_path path n st in Some (Some h, st))"
  using assms by (simp add: xbox_translate_path.simps)

text \<open>
  A path under the system partition's device translates under the game directory,
  not under the bare device's SystemData image that a later rule names.
\<close>

theorem partition2_is_the_game_directory:
  assumes "s_initialized st" "0 < n"
  shows "xbox_translate_path env lookup (Some (backslashed ''/Device/Harddisk0/Partition2/'' @ rest)) (Some n) st =
      Some (Some (strip_slashes (snprintf n (s_game_dir st @ [slash] @ map to_slash (snprintf MAX_PATH rest)))), st)"
proof -
  let ?p = "backslashed ''/Device/Harddisk0/Partition2/'' @ rest"
  have "match_prefix ?p (backslashed ''/Device/'') \<noteq> 0" by (simp add: match_prefix_def backslashed_def)
  then have "resolve_symlink lookup (Some ?p) 512 = None" by (rule device_path_unlinked)
  then show ?thesis
    using no_links_translate [OF _ assms] partition2_rules(1) [of rest]
    by (simp add: place_path_def rule_def match_prefix backslashed_def)
qed

lemma drive_letter_rule:
  assumes "d \<in> set ''ABCDEFGHIJKLMNOPQRSTUVWXYZ''"
  shows "find_rule (d # CHR '':'' # bs # rest) \<noteq> None \<longleftrightarrow> d \<in> set ''CDTUYZ''"
  using assms unfolding list.set insert_iff empty_iff by (elim disjE; simp add: eval_rule)

lemma self_link_resolves:
  assumes "lookup (backslashed ''/??/'' @ [d, CHR '':'']) = Some [d, CHR '':'', bs]"
    and "d \<in> set ''ABCDEFGHIJKLMNOPQRSTUVWXYZ''" "rest = [] \<or> hd rest \<notin> {bs, slash}"
  shows "resolve_symlink lookup (Some (d # CHR '':'' # bs # rest)) 512 =
    (if d \<in> set ''CDTUYZ'' \<and> length rest \<le> 507 then Some (d # CHR '':'' # bs # rest) else None)"
proof -
  let ?p = "d # CHR '':'' # bs # rest"
  have dos: "strip_dos ?p = ?p" using assms(2) by (auto simp: strip_dos_def match_prefix_def backslashed_def c_tolower_def char_of_def)
  have nz: "d \<noteq> NUL" using assms(2) by auto
  have up: "c_toupper d = d" using assms(2) by (auto simp: c_toupper_def)
  have rest: "dropWhile (\<lambda>c. c = bs \<or> c = slash) (bs # rest) = rest" using assms(3) by (cases rest) auto
  show ?thesis
    using assms(1) drive_letter_rule [OF assms(2), of rest] rest nz
    by (auto simp: resolve_symlink_def Let_def dos char_at_def up split: if_splits)
qed


section \<open>Links and paths together\<close>

lemma created_link:
  assumes "links_ok t" "fst (xbox_IoCreateSymbolicLink t name device) = STATUS_SUCCESS"
  shows "xbox_LookupSymbolicLink (snd (xbox_IoCreateSymbolicLink t name device)) (Some (xbox_copy_ansi 64 name)) = Some (xbox_copy_ansi 128 device)"
proof -
  have "link_spec (Create name device) (link_map t) =
      (STATUS_SUCCESS, link_map (snd (xbox_IoCreateSymbolicLink t name device)))"
    using link_step_abs [OF assms(1), of "Create name device"] assms(2) by simp
  then have "link_map (snd (xbox_IoCreateSymbolicLink t name device)) = (link_map t)(xbox_copy_ansi 64 name \<mapsto> xbox_copy_ansi 128 device)"
    by (simp add: Let_def split: if_splits)
  from fun_cong [OF this, of "xbox_copy_ansi 64 name"] show ?thesis by (simp add: link_map_def [of "snd _"])
qed

abbreviation z_name :: string where "z_name \<equiv> backslashed ''/??/Z:''"
abbreviation data_volume :: string where "data_volume \<equiv> backslashed ''/Device/Harddisk0/Partition1/''"

text \<open>
  Claim C13: Once a title has linked \??\Z: to the data partition, every path on z: or Z:
  translates under the save directory, whatever the static rule for Z: says.
\<close>

theorem mounted_drive_reaches_the_data_volume:
  assumes "links_ok t" "fst (xbox_IoCreateSymbolicLink t (Some (Some z_name)) (Some (Some data_volume))) = STATUS_SUCCESS"
    and "s_initialized st" "0 < n" "z \<in> set ''zZ''" "length rest \<le> 480" "rest = [] \<or> hd rest \<notin> {bs, slash}"
  shows "xbox_translate_path env
      (\<lambda>l. xbox_LookupSymbolicLink (snd (xbox_IoCreateSymbolicLink t (Some (Some z_name)) (Some (Some data_volume)))) (Some l))
      (Some (z # CHR '':'' # bs # rest)) (Some n) st =
    Some (Some (strip_slashes (snprintf n (s_save_dir st @ [slash] @ map to_slash (snprintf MAX_PATH rest)))), st)"
proof -
  let ?t = "snd (xbox_IoCreateSymbolicLink t (Some (Some z_name)) (Some (Some data_volume)))"
  let ?p = "z # CHR '':'' # bs # rest" and ?q = "data_volume @ rest"
  have copies: "xbox_copy_ansi 64 (Some (Some z_name)) = z_name" "xbox_copy_ansi 128 (Some (Some data_volume)) = data_volume"
    by (simp_all add: xbox_copy_ansi_def c_string_def backslashed_def)
  have l: "xbox_LookupSymbolicLink ?t (Some z_name) = Some data_volume"
    using created_link [OF assms(1,2)] unfolding copies .
  have dos: "strip_dos ?p = ?p" using assms(5) by (auto simp: strip_dos_def match_prefix_def backslashed_def c_tolower_def char_of_def)
  have nz: "z \<noteq> NUL" using assms(5) by auto
  have up: "c_toupper z = CHR ''Z''" using assms(5) by (auto simp: c_toupper_def char_of_def bit_Suc_0_iff)
  have name: "backslashed ''/??/'' @ [CHR ''Z'', CHR '':''] = z_name" by (simp add: backslashed_def)
  have rest: "dropWhile (\<lambda>c. c = bs \<or> c = slash) (bs # rest) = rest" using assms(7) by (cases rest) auto
  have r: "find_rule ?q = Some (rule ''/Device/Harddisk0/Partition1/'' True None)" by (simp add: eval_rule)
  have v: "data_volume \<noteq> []" "last data_volume = bs" "length data_volume = 29" by (simp_all add: backslashed_def)
  have "resolve_symlink (\<lambda>l. xbox_LookupSymbolicLink ?t (Some l)) (Some ?p) 512 = Some ?q"
    using l v assms(6) nz rest by (simp add: resolve_symlink_def Let_def dos char_at_def up name r)
  moreover have "match_prefix ?q (backslashed ''/Device/'') \<noteq> 0" by (simp add: match_prefix_def backslashed_def)
  then have "resolve_symlink (\<lambda>l. xbox_LookupSymbolicLink ?t (Some l)) (Some ?q) 512 = None" by (rule device_path_unlinked)
  moreover have "place_path ?q n st = (strip_slashes (snprintf n (s_save_dir st @ [slash] @ map to_slash (snprintf MAX_PATH rest))), st)"
    by (simp add: place_path_def r) (simp add: rule_def match_prefix backslashed_def)
  ultimately show ?thesis
    using assms(3,4) no_links_translate [of _ ?q st n env] by (subst xbox_translate_path.simps) simp
qed

definition wit_path_state :: path_state where
  "wit_path_state = \<lparr>s_game_dir = ''/g'', s_save_dir = ''/s'', s_initialized = True, made = []\<rparr>"

definition wit_host_env :: host_env where
  "wit_host_env = \<lparr>cwd = None, xdg_data_home = None, home = None\<rparr>"

theorem device_links_translate_witness:
  "\<exists>h st'. xbox_translate_path wit_host_env (\<lambda>l. if l = z_name then Some data_volume else None) (Some ''z:/a'') (Some 100) wit_path_state = Some (Some h, st')
    \<and> length h < 100 \<and> bs \<notin> set h"
proof -
  have "match_prefix data_volume (backslashed ''/Device/'') \<noteq> 0" by (simp add: match_prefix_def backslashed_def)
  then have l: "\<forall>l t. (if l = z_name then Some data_volume else None) = Some t \<longrightarrow> match_prefix t (backslashed ''/Device/'') \<noteq> 0"
    by simp
  have st: "s_initialized wit_path_state" "bs \<notin> set (s_game_dir wit_path_state)" "bs \<notin> set (s_save_dir wit_path_state)"
    by (simp_all add: wit_path_state_def)
  show ?thesis
    using device_links_translate [where lookup = "\<lambda>l. if l = z_name then Some data_volume else None" and n = 100
      and env = wit_host_env and path = "''z:/a''", OF l st] by fastforce
qed

theorem partition2_witness:
  "xbox_translate_path wit_host_env Map.empty (Some (backslashed ''/Device/Harddisk0/Partition2/'' @ backslashed ''xb/dash.xip'')) (Some 100) wit_path_state =
     Some (Some ''/g/xb/dash.xip'', wit_path_state)"
  using partition2_is_the_game_directory [of wit_path_state 100 wit_host_env Map.empty "backslashed ''xb/dash.xip''"]
  by (simp add: wit_path_state_def backslashed_def snprintf_def to_slash_def strip_slashes.simps)


theorem mounted_drive_witness:
  "xbox_translate_path wit_host_env
      (\<lambda>l. xbox_LookupSymbolicLink (snd (xbox_IoCreateSymbolicLink no_links (Some (Some z_name)) (Some (Some data_volume)))) (Some l))
      (Some (CHR ''z'' # CHR '':'' # bs # ''a.adx'')) (Some 100) wit_path_state = Some (Some ''/s/a.adx'', wit_path_state)"
proof -
  have "xbox_find_symlink no_links l = None" for l by (simp add: find_symlink_None used_links_def no_links_def)
  moreover have "first_free no_links = Some 0" by (simp add: no_links_def numeral_eq_Suc)
  ultimately have "fst (xbox_IoCreateSymbolicLink no_links (Some (Some z_name)) (Some (Some data_volume))) = STATUS_SUCCESS"
    by (simp add: xbox_IoCreateSymbolicLink_def xbox_copy_ansi_def c_string_def backslashed_def)
  from mounted_drive_reaches_the_data_volume [OF no_links_ok(1) this, of wit_path_state 100 "CHR ''z''" "''a.adx''" wit_host_env]
  show ?thesis by (simp add: wit_path_state_def snprintf_def to_slash_def strip_slashes.simps)
qed

end
