(* ===== verification/Mmio_Decode.thy ===== *)
theory Mmio_Decode
  imports Prelude
begin

text \<open>
  The trapped-MMIO instruction decoder of \<open>src/platform/mmio_decode.h\<close>. The bytes at the faulting
  instruction are a list that ends where the mapped code ends; reading past it is the outer
  \<open>None\<close>. The device is any state with a read that may change it and a write. The sixteen general
  registers are a list in the encoding's order.
\<close>

section \<open>State\<close>

record CONTEXT =
  regs :: "u64 list"
  Rip :: u64
  EFlags :: u32

type_synonym 'd mmio_read_fn = "'d \<Rightarrow> u32 \<Rightarrow> nat \<Rightarrow> u64 \<times> 'd"
type_synonym 'd mmio_write_fn = "'d \<Rightarrow> u32 \<Rightarrow> u64 \<Rightarrow> nat \<Rightarrow> 'd"

definition mmio_ctx_reg :: "CONTEXT \<Rightarrow> nat \<Rightarrow> u64" where
  "mmio_ctx_reg c r = regs c ! (r mod 16)"

definition set_ctx_reg :: "CONTEXT \<Rightarrow> nat \<Rightarrow> u64 \<Rightarrow> CONTEXT" where
  "set_ctx_reg c r v = c\<lparr>regs := (regs c)[r mod 16 := v]\<rparr>"

definition code_at :: "u8 list \<Rightarrow> nat \<Rightarrow> u8 option" where
  "code_at code i = (if i < length code then Some (code ! i) else None)"

section \<open>Decoding\<close>

definition mmio_modrm_len :: "u8 \<Rightarrow> bool \<Rightarrow> nat" where
  "mmio_modrm_len modrm rex_b =
     (let md = drop_bit 6 modrm AND 3;
          rm = (modrm AND 7) OR (if rex_b then 8 else 0);
          len = (1 :: nat)
      in if md = 3 then 1
         else let len = (if rm AND 7 = 4 then len + 1 else len)
              in if md = 0 \<and> rm AND 7 = 5 then len + 4
                 else if md = 1 then len + 1
                 else if md = 2 then len + 4
                 else len)"

definition modrm_reg :: "u8 \<Rightarrow> bool \<Rightarrow> nat" where
  "modrm_reg modrm rex_r = unat ((drop_bit 3 modrm AND 7) OR (if rex_r then 8 else 0))"

text \<open>The prefixes from position \<open>i\<close> on: their number, the operand-size flag and the last REX byte.\<close>

fun mmio_prefixes :: "u8 list \<Rightarrow> nat \<Rightarrow> bool \<Rightarrow> u8 option \<Rightarrow> (nat \<times> bool \<times> u8 option) option" where
  "mmio_prefixes [] i has66 rex = None"
| "mmio_prefixes (b # bs) i has66 rex =
     (if b = 0x66 then mmio_prefixes bs (i + 1) True rex
      else if b = 0xF2 \<or> b = 0xF3 then mmio_prefixes bs (i + 1) has66 rex
      else if 0x40 \<le> b \<and> b \<le> 0x4F then mmio_prefixes bs (i + 1) has66 (Some b)
      else Some (i, has66, rex))"

definition size_mask :: "nat \<Rightarrow> u64" where
  "size_mask s = (if s < 8 then push_bit (s * 8) 1 - 1 else NOT 0)"

definition mmio_set_flags :: "CONTEXT \<Rightarrow> u64 \<Rightarrow> nat \<Rightarrow> bool \<Rightarrow> CONTEXT" where
  "mmio_set_flags ctx result sz carry =
     (let fl = EFlags ctx AND NOT (0x0001 OR 0x0040 OR 0x0080 OR 0x0800);
          result = (if sz < 8 then result AND (push_bit (sz * 8) 1 - 1) else result);
          fl = (if result = 0 then fl OR 0x0040 else fl);
          fl = (if result AND push_bit (sz * 8 - 1) 1 \<noteq> 0 then fl OR 0x0080 else fl);
          fl = (if carry then fl OR 0x0001 else fl)
      in ctx\<lparr>EFlags := fl\<rparr>)"

text \<open>What a load does to its destination register.\<close>

definition load_reg :: "u64 \<Rightarrow> u64 \<Rightarrow> nat \<Rightarrow> u64" where
  "load_reg dst v sz =
     (if sz = 1 then (dst AND NOT 0xFF) OR (v AND 0xFF)
      else if sz = 2 then (dst AND NOT 0xFFFF) OR (v AND 0xFFFF)
      else if sz = 4 then v AND 0xFFFFFFFF
      else v)"

definition advance :: "CONTEXT \<Rightarrow> nat \<Rightarrow> CONTEXT" where
  "advance ctx n = ctx\<lparr>Rip := Rip ctx + of_nat n\<rparr>"

definition imm32_at :: "u8 list \<Rightarrow> nat \<Rightarrow> u32 option" where
  "imm32_at code i = (if i + 3 < length code then Some (le32 (code ! i) (code ! (i + 1)) (code ! (i + 2)) (code ! (i + 3))) else None)"

section \<open>Servicing one access\<close>

definition mmio_emulate ::
    "u8 list \<Rightarrow> CONTEXT \<Rightarrow> u32 \<Rightarrow> 'd \<Rightarrow> 'd mmio_read_fn option \<Rightarrow> 'd mmio_write_fn option \<Rightarrow> (bool \<times> CONTEXT \<times> 'd) option" where
  "mmio_emulate code ctx off dev rdf wrf =
     (case (rdf, wrf) of
        (Some rd, Some wr) \<Rightarrow>
          (case mmio_prefixes code 0 False None of
             None \<Rightarrow> None
           | Some (pre, has66, rex) \<Rightarrow>
               let rex_w = (case rex of Some r \<Rightarrow> r AND 0x08 \<noteq> 0 | None \<Rightarrow> False);
                   rex_r = (case rex of Some r \<Rightarrow> r AND 0x04 \<noteq> 0 | None \<Rightarrow> False);
                   rex_b = (case rex of Some r \<Rightarrow> r AND 0x01 \<noteq> 0 | None \<Rightarrow> False);
                   sz = (if has66 then 2 else if rex_w then 8 else 4 :: nat);
                   op = code ! pre;
                   modrm = (\<lambda>k. map_option (\<lambda>m. (m, mmio_modrm_len m rex_b, modrm_reg m rex_r)) (code_at code (pre + k)))
               in if op = 0x88 \<or> op = 0x89
                  then (let sz = (if op = 0x88 then 1 else sz)
                        in case modrm 1 of None \<Rightarrow> None
                           | Some (m, mlen, reg) \<Rightarrow>
                               Some (True, advance ctx (pre + 1 + mlen), wr dev off (mmio_ctx_reg ctx reg) sz))
                  else if op = 0xC7
                  then (case modrm 1 of None \<Rightarrow> None
                        | Some (m, mlen, reg) \<Rightarrow>
                            (case imm32_at code (pre + 1 + mlen) of None \<Rightarrow> None
                             | Some v \<Rightarrow> Some (True, advance ctx (pre + 1 + mlen + 4), wr dev off (ucast v) sz)))
                  else if op = 0xC6
                  then (case modrm 1 of None \<Rightarrow> None
                        | Some (m, mlen, reg) \<Rightarrow>
                            (case code_at code (pre + 1 + mlen) of None \<Rightarrow> None
                             | Some v \<Rightarrow> Some (True, advance ctx (pre + 1 + mlen + 1), wr dev off (ucast v) 1)))
                  else if op = 0x8A \<or> op = 0x8B
                  then (let sz = (if op = 0x8A then 1 else sz)
                        in case modrm 1 of None \<Rightarrow> None
                           | Some (m, mlen, reg) \<Rightarrow>
                               (let (v, dev) = rd dev off sz
                                in Some (True, advance (set_ctx_reg ctx reg (load_reg (mmio_ctx_reg ctx reg) v sz)) (pre + 1 + mlen), dev)))
                  else if op = 0x84 \<or> op = 0x85
                  then (let sz = (if op = 0x84 then 1 else sz)
                        in case modrm 1 of None \<Rightarrow> None
                           | Some (m, mlen, reg) \<Rightarrow>
                               (let (v, dev) = rd dev off sz
                                in Some (True, advance (mmio_set_flags ctx (v AND mmio_ctx_reg ctx reg) sz False) (pre + 1 + mlen), dev)))
                  else if op = 0x38 \<or> op = 0x39
                  then (let sz = (if op = 0x38 then 1 else sz)
                        in case modrm 1 of None \<Rightarrow> None
                           | Some (m, mlen, reg) \<Rightarrow>
                               (let (v, dev) = rd dev off sz; r = mmio_ctx_reg ctx reg;
                                    mask = size_mask sz; v = v AND mask; r = r AND mask
                                in Some (True, advance (mmio_set_flags ctx (v - r) sz (v < r)) (pre + 1 + mlen), dev)))
                  else if op = 0x08 \<or> op = 0x09
                  then (let sz = (if op = 0x08 then 1 else sz)
                        in case modrm 1 of None \<Rightarrow> None
                           | Some (m, mlen, reg) \<Rightarrow>
                               (let (v, dev) = rd dev off sz
                                in Some (True, advance ctx (pre + 1 + mlen), wr dev off (v OR mmio_ctx_reg ctx reg) sz)))
                  else if op = 0x20 \<or> op = 0x21
                  then (let sz = (if op = 0x20 then 1 else sz)
                        in case modrm 1 of None \<Rightarrow> None
                           | Some (m, mlen, reg) \<Rightarrow>
                               (let (v, dev) = rd dev off sz
                                in Some (True, advance ctx (pre + 1 + mlen), wr dev off (v AND mmio_ctx_reg ctx reg) sz)))
                  else if op = 0x0F
                  then (case code_at code (pre + 1) of None \<Rightarrow> None
                        | Some op1 \<Rightarrow>
                            if op1 = 0xB6 \<or> op1 = 0xB7
                            then (let s = (if op1 = 0xB6 then 1 else 2 :: nat)
                                  in case modrm 2 of None \<Rightarrow> None
                                     | Some (m, mlen, reg) \<Rightarrow>
                                         (let (v, dev) = rd dev off s
                                          in Some (True, advance (set_ctx_reg ctx reg (v AND (push_bit (s * 8) 1 - 1))) (pre + 2 + mlen), dev)))
                            else Some (False, ctx, dev))
                  else Some (False, ctx, dev))
      | _ \<Rightarrow> Some (False, ctx, dev))"

section \<open>Flags and masks\<close>

lemma exp_mask: "push_bit n 1 - 1 = (mask n :: u64)"
  by (simp add: mask_eq_exp_minus_1)

lemma flag_bits:
  "bit (0x8C1 :: u32) n \<longleftrightarrow> n \<in> {0, 6, 7, 11}" "bit (0x40 :: u32) n \<longleftrightarrow> n = 6" "bit (0x80 :: u32) n \<longleftrightarrow> n = 7"
proof -
  have e: "(0x8C1 :: u32) = 1 OR push_bit 6 1 OR push_bit 7 1 OR push_bit 11 1" "(0x40 :: u32) = push_bit 6 1" "(0x80 :: u32) = push_bit 7 1"
    by simp_all
  show "bit (0x8C1 :: u32) n \<longleftrightarrow> n \<in> {0, 6, 7, 11}" "bit (0x40 :: u32) n \<longleftrightarrow> n = 6" "bit (0x80 :: u32) n \<longleftrightarrow> n = 7"
    by (simp only: e bit_or_iff bit_push_bit_iff bit_1_iff; auto simp: possible_bit_def)+
qed

lemma mmio_set_flags_bits:
  assumes "sz \<in> {1, 2, 4, 8}" "n < 32"
  shows "bit (EFlags (mmio_set_flags ctx result sz carry)) n \<longleftrightarrow>
    (if n = 0 then carry else if n = 6 then take_bit (sz * 8) result = 0 else if n = 7 then bit result (sz * 8 - 1)
     else if n = 11 then False else bit (EFlags ctx) n)"
proof -
  have c: "(1 OR 0x40 OR 0x80 OR 0x800 :: u32) = 0x8C1" by simp
  have r: "(if sz < 8 then result AND (push_bit (sz * 8) 1 - 1) else result) = take_bit (sz * 8) result"
    using assms(1) unfolding exp_mask by (auto simp: take_bit_eq_mask [symmetric] take_bit_word_eq_self)
  have s: "take_bit (sz * 8) result AND push_bit (sz * 8 - 1) 1 \<noteq> 0 \<longleftrightarrow> bit result (sz * 8 - 1)"
    using assms(1) unfolding bit_iff_and_push_bit_not_eq_0 [symmetric] by (auto simp: bit_take_bit_iff)
  have nb: "bit (- 2242 :: u32) n = (\<not> bit (0x8C1 :: u32) n)" using bit_not_iff [of "0x8C1 :: u32" n] assms(2) by simp
  have "n = 0 \<or> n = 6 \<or> n = 7 \<or> n = 11 \<or> n \<notin> {0, 6, 7, 11}" by auto
  then show ?thesis
    unfolding mmio_set_flags_def Let_def r s c using assms(2) flag_bits [of n] nb
    by (auto simp: bit_or_iff bit_and_iff bit_not_iff bit_1_iff simp del: One_nat_def)
qed

lemma load_reg_bits:
  assumes "sz \<in> {1, 2, 4, 8}" "n < 64"
  shows "bit (load_reg dst v sz) n \<longleftrightarrow> (if n < 8 * sz then bit v n else sz < 4 \<and> bit dst n)"
proof -
  have m: "(0xFF :: u64) = mask 8" "(0xFFFF :: u64) = mask 16" "(0xFFFFFFFF :: u64) = mask 32" by (simp_all add: mask_eq_exp_minus_1)
  show ?thesis using assms
    unfolding load_reg_def m by (auto simp: bit_or_iff bit_and_iff bit_not_iff bit_mask_iff)
qed

section \<open>Instruction lengths\<close>

text \<open>The length of an instruction as the architecture defines it, for the opcodes serviced here.\<close>

definition x86_modrm_len :: "u8 \<Rightarrow> u8 \<Rightarrow> nat" where
  "x86_modrm_len modrm sib =
     (let md = drop_bit 6 modrm AND 3; rm = modrm AND 7
      in 1 + (if md \<noteq> 3 \<and> rm = 4 then 1 else 0)
           + (if md = 1 then 1 else if md = 2 then 4
              else if md = 0 \<and> (rm = 5 \<or> rm = 4 \<and> sib AND 7 = 5) then 4 else 0))"

definition x86_length :: "u8 list \<Rightarrow> nat \<Rightarrow> bool \<Rightarrow> nat" where
  "x86_length code pre has66 =
     (let op = code ! pre; esc = (if op = 0x0F then 1 else 0)
      in pre + 1 + esc + x86_modrm_len (code ! (pre + 1 + esc)) (code ! (pre + 2 + esc))
         + (if op = 0xC7 then (if has66 then 2 else 4) else if op = 0xC6 then 1 else 0))"

text \<open>The two encodings whose length the decoder gets wrong.\<close>

definition sib_disp32 :: "u8 list \<Rightarrow> nat \<Rightarrow> bool" where
  "sib_disp32 code pre =
     (let esc = (if code ! pre = 0x0F then 1 else 0); m = code ! (pre + 1 + esc)
      in drop_bit 6 m AND 3 = 0 \<and> m AND 7 = 4 \<and> code ! (pre + 2 + esc) AND 7 = 5)"

lemma rm_low: "((m AND 7) OR (if b then 8 else 0)) AND 7 = (m AND 7 :: u8)"
  by (simp add: bit.conj_disj_distrib2 and.assoc)

lemma modrm_len_agrees:
  assumes "\<not> (drop_bit 6 m AND 3 = 0 \<and> m AND 7 = 4 \<and> sib AND 7 = 5)"
  shows "mmio_modrm_len m b = x86_modrm_len m sib"
proof -
  have "unat (drop_bit 6 m AND 3) < 4" using word_and_le1 [of "drop_bit 6 m" 3] by (simp add: word_le_nat_alt)
  then have "unat (drop_bit 6 m AND 3) = 0 \<or> unat (drop_bit 6 m AND 3) = 1 \<or> unat (drop_bit 6 m AND 3) = 2 \<or> unat (drop_bit 6 m AND 3) = 3"
    by linarith
  then have "drop_bit 6 m AND 3 \<in> {0, 1, 2, 3}" by (auto simp: word_unat_eq_iff simp del: unat_eq_zero)
  then show ?thesis
    using assms unfolding mmio_modrm_len_def x86_modrm_len_def Let_def rm_low by auto
qed

lemma prefixes_length: "mmio_prefixes bs i h r = Some (pre, h', r') \<Longrightarrow> i \<le> pre \<and> pre - i < length bs"
proof (induction bs arbitrary: i h r)
  case (Cons b bs)
  show ?case using Cons.prems Cons.IH [of "i + 1"] by (fastforce split: if_splits)
qed simp

section \<open>Properties\<close>

definition rex_bit :: "u8 option \<Rightarrow> u8 \<Rightarrow> bool" where
  "rex_bit rex k = (case rex of Some r \<Rightarrow> r AND k \<noteq> 0 | None \<Rightarrow> False)"

definition operand_size :: "bool \<Rightarrow> u8 option \<Rightarrow> nat" where
  "operand_size has66 rex = (if has66 then 2 else if rex_bit rex 8 then 8 else 4)"

text \<open>The emulation once the prefixes are known, with the common parts named.\<close>

lemma emulate_cases:
  assumes "mmio_emulate code ctx off dev (Some rd) (Some wr) = Some (ok, ctx', dev')"
    and "mmio_prefixes code 0 False None = Some (pre, has66, rex)"
  obtains "\<not> ok" "ctx' = ctx" "dev' = dev"
  | "ok" "code ! pre \<in> {0x88, 0x89, 0x8A, 0x8B, 0x84, 0x85, 0x38, 0x39, 0x08, 0x09, 0x20, 0x21}" "pre + 1 < length code"
      "Rip ctx' = Rip ctx + of_nat (pre + 1 + mmio_modrm_len (code ! (pre + 1)) (rex_bit rex 1))"
  | "ok" "code ! pre \<in> {0xC6, 0xC7}" "pre + 1 < length code"
      "Rip ctx' = Rip ctx + of_nat (pre + 1 + mmio_modrm_len (code ! (pre + 1)) (rex_bit rex 1) + (if code ! pre = 0xC7 then 4 else 1))"
  | "ok" "code ! pre = 0x0F" "pre + 2 < length code"
      "Rip ctx' = Rip ctx + of_nat (pre + 2 + mmio_modrm_len (code ! (pre + 2)) (rex_bit rex 1))"
  using assms(1) unfolding mmio_emulate_def assms(2) option.case prod.case rex_bit_def [symmetric] Let_def case_prod_unfold
  by (auto simp: code_at_def advance_def set_ctx_reg_def mmio_set_flags_def Let_def split: if_splits option.splits)


lemma emulate_prefixes:
  assumes "mmio_emulate code ctx off dev (Some rd) (Some wr) = Some r"
  obtains pre has66 rex where "mmio_prefixes code 0 False None = Some (pre, has66, rex)"
  using assms by (cases "mmio_prefixes code 0 False None") (auto simp: mmio_emulate_def)

text \<open>
  Claim C19: When the decoder declines an instruction, neither a register, a flag, the
  instruction pointer nor the device has changed, so the fault can be reported.
\<close>

theorem unserviced_changes_nothing:
  assumes "mmio_emulate code ctx off dev rd wr = Some (False, ctx', dev')"
  shows "ctx' = ctx \<and> dev' = dev"
proof (cases "rd = None \<or> wr = None")
  case True
  then show ?thesis using assms by (auto simp: mmio_emulate_def split: option.splits)
next
  case False
  then obtain rd' wr' where f: "rd = Some rd'" "wr = Some wr'" by auto
  note a = assms [unfolded f]
  obtain pre has66 rex where "mmio_prefixes code 0 False None = Some (pre, has66, rex)" using emulate_prefixes [OF a] .
  from emulate_cases [OF a this] show ?thesis by cases auto
qed

text \<open>
  Claim C20: A serviced instruction advances the instruction pointer by its architectural
  length, but for the two encodings the decoder misreads (a SIB byte without base, and a
  16-bit immediate store).
\<close>

theorem serviced_steps_over_the_instruction:
  assumes "mmio_emulate code ctx off dev (Some rd) (Some wr) = Some (True, ctx', dev')"
    and "mmio_prefixes code 0 False None = Some (pre, has66, rex)"
    and "\<not> sib_disp32 code pre" "\<not> (has66 \<and> code ! pre = 0xC7)"
  shows "Rip ctx' = Rip ctx + of_nat (x86_length code pre has66)"
  using emulate_cases [OF assms(1,2)]
proof cases
  case 2
  then have l: "mmio_modrm_len (code ! (pre + 1)) (rex_bit rex 1) = x86_modrm_len (code ! (pre + 1)) (code ! (pre + 2))"
    using assms(3) by (intro modrm_len_agrees) (auto simp: sib_disp32_def Let_def)
  show ?thesis unfolding 2(4) l using 2(2) by (auto simp: x86_length_def Let_def)
next
  case 3
  then have l: "mmio_modrm_len (code ! (pre + 1)) (rex_bit rex 1) = x86_modrm_len (code ! (pre + 1)) (code ! (pre + 2))"
    using assms(3) by (intro modrm_len_agrees) (auto simp: sib_disp32_def Let_def)
  show ?thesis unfolding 3(4) l using 3(2) assms(4) by (auto simp: x86_length_def Let_def)
next
  case 4
  then have l: "mmio_modrm_len (code ! (pre + 2)) (rex_bit rex 1) = x86_modrm_len (code ! (pre + 2)) (code ! (pre + 3))"
    using assms(3) by (intro modrm_len_agrees) (auto simp: sib_disp32_def Let_def numeral_3_eq_3)
  show ?thesis unfolding 4(4) l using 4(2) by (auto simp: x86_length_def Let_def numeral_3_eq_3)
qed simp

lemma regs_set_flags [simp]: "regs (mmio_set_flags ctx result sz carry) = regs ctx"
  by (simp add: mmio_set_flags_def Let_def)

lemma take_bit_diff_0:
  assumes "k \<le> 64"
  shows "take_bit k (m - r) = 0 \<longleftrightarrow> take_bit k m = take_bit k (r :: u64)"
proof -
  have "uint (take_bit k (m - r)) = take_bit k (uint m - uint r)"
    using assms by (simp add: unsigned_take_bit_eq uint_word_arith_bintrs(2) min_def)
  then have "take_bit k (m - r) = 0 \<longleftrightarrow> take_bit k (uint m - uint r) = 0" by (metis uint_0_iff)
  also have "\<dots> \<longleftrightarrow> take_bit k (uint m) = take_bit k (uint r)"
    by (simp add: take_bit_eq_mod mod_eq_dvd_iff mod_eq_0_iff_dvd)
  also have "\<dots> \<longleftrightarrow> take_bit k m = take_bit k r" by (simp flip: unsigned_take_bit_eq add: word_uint_eq_iff)
  finally show ?thesis .
qed

text \<open>The operands of a compare or a test and the access they come from.\<close>

lemma size_mask_take: "sz \<in> {1, 2, 4, 8} \<Longrightarrow> x AND size_mask sz = take_bit (sz * 8) x"
  unfolding size_mask_def exp_mask by (auto simp: take_bit_eq_mask [symmetric] take_bit_word_eq_self)

text \<open>
  Claim C21: A serviced CMP reads the device once at the operand size and sets ZF, CF and SF
  to the unsigned comparison and sign of that many bits, keeping every other flag but OF.
\<close>

theorem compare_sets_the_poll_flags:
  assumes "mmio_prefixes code 0 False None = Some (pre, has66, rex)" "code ! pre \<in> {0x38, 0x39}" "pre + 1 < length code"
    and "sz = (if code ! pre = 0x38 then 1 else operand_size has66 rex)"
    and "rd dev off sz = (v, dev1)" "m = take_bit (sz * 8) v"
    and "r = take_bit (sz * 8) (mmio_ctx_reg ctx (modrm_reg (code ! (pre + 1)) (rex_bit rex 4)))"
  shows "case mmio_emulate code ctx off dev (Some rd) (Some wr) of
      None \<Rightarrow> False
    | Some (ok, ctx', dev') \<Rightarrow> ok \<and> dev' = dev1 \<and> regs ctx' = regs ctx
        \<and> (bit (EFlags ctx') 6 \<longleftrightarrow> m = r) \<and> (bit (EFlags ctx') 0 \<longleftrightarrow> unat m < unat r)
        \<and> (bit (EFlags ctx') 7 \<longleftrightarrow> bit (m - r) (sz * 8 - 1))
        \<and> (\<forall>n < 32. n \<notin> {0, 6, 7, 11} \<longrightarrow> bit (EFlags ctx') n = bit (EFlags ctx) n)"
proof -
  have sz: "sz \<in> {1, 2, 4, 8}" using assms(4) by (auto simp: operand_size_def)
  have e: "mmio_emulate code ctx off dev (Some rd) (Some wr) = Some (True,
      advance (mmio_set_flags ctx (m - r) sz (m < r)) (pre + 1 + mmio_modrm_len (code ! (pre + 1)) (rex_bit rex 1)), dev1)"
    using assms(2,3,4,5) size_mask_take [OF sz] unfolding assms(6,7)
    unfolding mmio_emulate_def assms(1) option.case prod.case rex_bit_def [symmetric] operand_size_def
    by (auto simp: code_at_def Let_def)
  have z: "take_bit (sz * 8) (m - r) = 0 \<longleftrightarrow> m = r"
    using sz take_bit_diff_0 [of "sz * 8" m r] by (auto simp: assms(6,7))
  show ?thesis
    unfolding e using mmio_set_flags_bits [OF sz, where ctx = ctx and result = "m - r" and carry = "m < r"] z
    by (simp add: advance_def word_less_nat_alt)
qed

text \<open>
  A serviced load changes only its destination register: the low bits at the
  operand size come from the device, 8- and 16-bit loads keep the rest and 32-bit loads
  clear it.
\<close>

theorem loads_merge_into_the_register:
  assumes "mmio_prefixes code 0 False None = Some (pre, has66, rex)" "code ! pre \<in> {0x8A, 0x8B}" "pre + 1 < length code"
    and "sz = (if code ! pre = 0x8A then 1 else operand_size has66 rex)" "rd dev off sz = (v, dev1)" "length (regs ctx) = 16"
    and "d = modrm_reg (code ! (pre + 1)) (rex_bit rex 4)"
  shows "case mmio_emulate code ctx off dev (Some rd) (Some wr) of
      None \<Rightarrow> False
    | Some (ok, ctx', dev') \<Rightarrow> ok \<and> dev' = dev1 \<and> EFlags ctx' = EFlags ctx
        \<and> (\<forall>r < 16. r \<noteq> d \<longrightarrow> mmio_ctx_reg ctx' r = mmio_ctx_reg ctx r)
        \<and> (\<forall>n < 64. bit (mmio_ctx_reg ctx' d) n = (if n < 8 * sz then bit v n else sz < 4 \<and> bit (mmio_ctx_reg ctx d) n))"
proof -
  have sz: "sz \<in> {1, 2, 4, 8}" using assms(4) by (auto simp: operand_size_def)
  have d: "d < 16"
  proof -
    have "(drop_bit 3 (code ! (pre + 1)) AND 7) OR (if rex_bit rex 4 then 8 else 0) = ((drop_bit 3 (code ! (pre + 1)) AND 7) OR (if rex_bit rex 4 then 8 else 0)) AND 15"
      by (simp add: bit.conj_disj_distrib2 and.assoc)
    also have "\<dots> \<le> 15" by (rule word_and_le1)
    finally show ?thesis unfolding assms(7) modrm_reg_def by (simp add: word_le_nat_alt)
  qed
  have e: "mmio_emulate code ctx off dev (Some rd) (Some wr) = Some (True,
      advance (set_ctx_reg ctx d (load_reg (mmio_ctx_reg ctx d) v sz)) (pre + 1 + mmio_modrm_len (code ! (pre + 1)) (rex_bit rex 1)), dev1)"
    using assms(2,3,4,5) unfolding assms(7)
    unfolding mmio_emulate_def assms(1) option.case prod.case rex_bit_def [symmetric] operand_size_def
    by (auto simp: code_at_def Let_def)
  show ?thesis
    unfolding e using load_reg_bits [OF sz] d assms(6) by (simp add: advance_def set_ctx_reg_def mmio_ctx_reg_def)
qed

definition wit_ctx :: CONTEXT where
  "wit_ctx = \<lparr>regs = map (\<lambda>i. of_nat i * 0x1111111111111111) [0..<16], Rip = 0x1000, EFlags = 0x202\<rparr>"

definition wit_rd :: "nat mmio_read_fn" where "wit_rd d off sz = (0xAABBCCDD, d + 1)"
definition wit_wr :: "nat mmio_write_fn" where "wit_wr d off v sz = d + 100"

theorem unserviced_witness:
  "mmio_emulate [0xF3, 0xA5] wit_ctx 0 (7 :: nat) (Some wit_rd) (Some wit_wr) = Some (False, wit_ctx, 7)"
proof -
  have p: "mmio_prefixes [0xF3, 0xA5] 0 False None = Some (1, False, None)" by simp
  obtain c d where e: "mmio_emulate [0xF3, 0xA5] wit_ctx 0 (7 :: nat) (Some wit_rd) (Some wit_wr) = Some (False, c, d)"
    unfolding mmio_emulate_def option.case prod.case p by (simp add: Let_def)
  then show ?thesis using unserviced_changes_nothing [OF e] by simp
qed

theorem serviced_steps_witness:
  "case mmio_emulate [0x44, 0x89, 0x48, 0x10] wit_ctx 0 (7 :: nat) (Some wit_rd) (Some wit_wr) of
     Some (True, c, d) \<Rightarrow> Rip c = 0x1004 \<and> d = 107 | _ \<Rightarrow> False"
proof -
  have p: "mmio_prefixes [0x44, 0x89, 0x48, 0x10] 0 False None = Some (1, False, Some 0x44)" by simp
  have e: "mmio_emulate [0x44, 0x89, 0x48, 0x10] wit_ctx 0 (7 :: nat) (Some wit_rd) (Some wit_wr) =
      Some (True, advance wit_ctx (1 + 1 + mmio_modrm_len 0x48 False), 107)"
    unfolding mmio_emulate_def option.case prod.case p by (simp add: Let_def code_at_def wit_wr_def)
  have "\<not> sib_disp32 [0x44, 0x89, 0x48, 0x10] 1" by (simp add: sib_disp32_def)
  then have "Rip (advance wit_ctx (1 + 1 + mmio_modrm_len 0x48 False)) = Rip wit_ctx + of_nat (x86_length [0x44, 0x89, 0x48, 0x10] 1 False)"
    by (intro serviced_steps_over_the_instruction [OF e p]) simp_all
  then show ?thesis unfolding e by (simp add: wit_ctx_def x86_length_def x86_modrm_len_def Let_def numeral_3_eq_3)
qed

theorem compare_witness:
  "case mmio_emulate [0x39, 0x08] wit_ctx 0 (7 :: nat) (Some wit_rd) (Some wit_wr) of
     Some (ok, c, d) \<Rightarrow> ok \<and> d = 8 \<and> \<not> bit (EFlags c) 6 \<and> \<not> bit (EFlags c) 0 | None \<Rightarrow> False"
proof -
  have p: "mmio_prefixes [0x39, 0x08] 0 False None = Some (0, False, None)" by simp
  have r: "mmio_ctx_reg wit_ctx (modrm_reg 8 False) = 0x1111111111111111" by (simp add: modrm_reg_def mmio_ctx_reg_def wit_ctx_def)
  have t: "take_bit 32 (0xAABBCCDD :: u64) = 0xAABBCCDD" "take_bit 32 (0x1111111111111111 :: u64) = 0x11111111" by simp_all
  show ?thesis
    using compare_sets_the_poll_flags [OF p, of 4 wit_rd 7 0 "0xAABBCCDD" 8 "0xAABBCCDD" "0x11111111" wit_ctx wit_wr]
    by (auto simp: operand_size_def rex_bit_def wit_rd_def r t split: option.splits prod.splits)
qed

theorem loads_witness:
  "case mmio_emulate [0x66, 0x8B, 0x08] wit_ctx 0 (7 :: nat) (Some wit_rd) (Some wit_wr) of
     Some (ok, c, d) \<Rightarrow> ok \<and> d = 8 \<and> EFlags c = 0x202 \<and> mmio_ctx_reg c 2 = 0x2222222222222222 | None \<Rightarrow> False"
proof -
  have p: "mmio_prefixes [0x66, 0x8B, 0x08] 0 False None = Some (1, True, None)" by simp
  have r: "modrm_reg 8 False = 1" by (simp add: modrm_reg_def)
  have l: "length (regs wit_ctx) = 16" by (simp add: wit_ctx_def)
  have "mmio_ctx_reg wit_ctx 2 = 0x2222222222222222" "EFlags wit_ctx = 0x202" by (simp_all add: mmio_ctx_reg_def wit_ctx_def)
  then show ?thesis
    using loads_merge_into_the_register [OF p, of 2 wit_rd 7 0 "0xAABBCCDD" 8 wit_ctx 1 wit_wr]
    by (auto simp: operand_size_def rex_bit_def wit_rd_def r l split: option.splits prod.splits)
qed

end
