(* ===== verification/Frame_Pool.thy ===== *)
theory Frame_Pool
  imports Prelude
begin

text \<open>
  The frame pool of \<open>src/kernel/frame_pool.h\<close>: five slots, of which one is published, some are
  held by readers on other threads and some are being filled. Each function is split at the
  boundaries of its locked sections, and the threads interleave as steps of a relation. Pixel
  storage is a list of as many bytes as were allocated; a \<open>realloc\<close> that succeeds brings the new
  contents, one that fails is \<open>None\<close>. The index -1 is \<open>None\<close>, and the count of readers, which the code
  never takes below zero, is a natural number.
\<close>

section \<open>The pool\<close>

abbreviation (input) FRAME_POOL_SLOTS :: nat where "FRAME_POOL_SLOTS \<equiv> 5"

record FramePoolSlot =
  px :: "u8 list option"
  cap :: u64
  fw :: u32
  fh :: u32
  fbpp :: u32
  foffset :: u32
  fseq :: u64
  readers :: nat
  writing :: bool

record FramePool =
  slots :: "FramePoolSlot list"
  published :: "nat option"
  pool_seq :: u64
  publishes :: u64
  dropped :: u64
  acquires :: u64
  empty_acquires :: u64
  ready :: bool

definition zero_slot :: FramePoolSlot where
  "zero_slot = \<lparr>px = None, cap = 0, fw = 0, fh = 0, fbpp = 0, foffset = 0, fseq = 0, readers = 0, writing = False\<rparr>"

definition FRAME_POOL_INIT :: FramePool where
  "FRAME_POOL_INIT = \<lparr>slots = replicate FRAME_POOL_SLOTS zero_slot, published = None, pool_seq = 0, publishes = 0,
     dropped = 0, acquires = 0, empty_acquires = 0, ready = True\<rparr>"

definition frame_pool_init :: "FramePool \<Rightarrow> FramePool" where
  "frame_pool_init p = (if ready p then p else FRAME_POOL_INIT)"

definition upd_slot :: "nat \<Rightarrow> (FramePoolSlot \<Rightarrow> FramePoolSlot) \<Rightarrow> FramePool \<Rightarrow> FramePool" where
  "upd_slot i f p = p\<lparr>slots := (slots p)[i := f (slots p ! i)]\<rparr>"

text \<open>The bytes a frame of these dimensions takes, in the \<open>size_t\<close> arithmetic of the host.\<close>

definition frame_bytes :: "u32 \<Rightarrow> u32 \<Rightarrow> u32 \<Rightarrow> u64" where
  "frame_bytes w h bpp = ucast w * ucast h * ucast bpp"

section \<open>The producer\<close>

text \<open>The locked choice of a slot, then the growth of its storage outside the lock.\<close>

definition frame_pool_pick :: "FramePool \<Rightarrow> nat option" where
  "frame_pool_pick p =
     find (\<lambda>i. readers (slots p ! i) = 0 \<and> \<not> writing (slots p ! i) \<and> published p \<noteq> Some i) [0..<FRAME_POOL_SLOTS]"

definition frame_pool_choose :: "FramePool \<Rightarrow> u32 \<Rightarrow> u32 \<Rightarrow> u32 \<Rightarrow> nat option \<times> FramePool" where
  "frame_pool_choose p w h bpp =
     (if w = 0 \<or> h = 0 \<or> bpp = 0 then (None, p)
      else let p = frame_pool_init p
           in case frame_pool_pick p of
                None \<Rightarrow> (None, p\<lparr>dropped := dropped p + 1\<rparr>)
              | Some i \<Rightarrow> (Some i, upd_slot i (\<lambda>s. s\<lparr>writing := True\<rparr>) p))"

definition frame_pool_grow :: "FramePool \<Rightarrow> nat \<Rightarrow> u64 \<Rightarrow> u8 list option \<Rightarrow> nat option \<times> FramePool" where
  "frame_pool_grow p i need alloc =
     (if cap (slots p ! i) < need
      then case alloc of
             None \<Rightarrow> (None, (upd_slot i (\<lambda>s. s\<lparr>writing := False\<rparr>) p)\<lparr>dropped := dropped p + 1\<rparr>)
           | Some b \<Rightarrow> (Some i, upd_slot i (\<lambda>s. s\<lparr>px := Some b, cap := need\<rparr>) p)
      else (Some i, p))"

definition frame_pool_begin :: "FramePool \<Rightarrow> u32 \<Rightarrow> u32 \<Rightarrow> u32 \<Rightarrow> u8 list option \<Rightarrow> nat option \<times> FramePool" where
  "frame_pool_begin p w h bpp alloc =
     (case frame_pool_choose p w h bpp of
        (None, p) \<Rightarrow> (None, p)
      | (Some i, p) \<Rightarrow> frame_pool_grow p i (frame_bytes w h bpp) alloc)"

definition frame_pool_publish :: "FramePool \<Rightarrow> nat option \<Rightarrow> u32 \<Rightarrow> u32 \<Rightarrow> u32 \<Rightarrow> u32 \<Rightarrow> FramePool" where
  "frame_pool_publish p s w h bpp offset =
     (case s of None \<Rightarrow> p
      | Some i \<Rightarrow>
          if frame_bytes w h bpp > cap (slots p ! i)
          then (upd_slot i (\<lambda>s. s\<lparr>writing := False\<rparr>) p)\<lparr>dropped := dropped p + 1\<rparr>
          else let n = pool_seq p + 1
               in (upd_slot i (\<lambda>s. s\<lparr>fw := w, fh := h, fbpp := bpp, foffset := offset, fseq := n, writing := False\<rparr>) p)
                    \<lparr>pool_seq := n, published := Some i, publishes := publishes p + 1\<rparr>)"

definition frame_pool_abandon :: "FramePool \<Rightarrow> nat option \<Rightarrow> FramePool" where
  "frame_pool_abandon p s = (case s of None \<Rightarrow> p | Some i \<Rightarrow> upd_slot i (\<lambda>s. s\<lparr>writing := False\<rparr>) p)"

section \<open>The readers\<close>

definition frame_pool_acquire :: "FramePool \<Rightarrow> nat option \<times> FramePool" where
  "frame_pool_acquire p =
     (let p = frame_pool_init p; p = p\<lparr>acquires := acquires p + 1\<rparr>
      in case published p of
           Some i \<Rightarrow> (Some i, upd_slot i (\<lambda>s. s\<lparr>readers := readers s + 1\<rparr>) p)
         | None \<Rightarrow> (None, p\<lparr>empty_acquires := empty_acquires p + 1\<rparr>))"

definition frame_pool_release :: "FramePool \<Rightarrow> nat option \<Rightarrow> FramePool" where
  "frame_pool_release p s =
     (case s of None \<Rightarrow> p
      | Some i \<Rightarrow> if readers (slots p ! i) > 0 then upd_slot i (\<lambda>s. s\<lparr>readers := readers s - 1\<rparr>) p else p)"

definition frame_pool_reacquire :: "FramePool \<Rightarrow> nat option \<Rightarrow> nat option \<times> FramePool" where
  "frame_pool_reacquire p held = (let (next, p) = frame_pool_acquire p in (next, frame_pool_release p held))"

definition frame_pool_free :: "FramePool \<Rightarrow> FramePool" where
  "frame_pool_free p =
     (if ready p then p\<lparr>slots := map (\<lambda>s. s\<lparr>px := None, cap := 0\<rparr>) (slots p), published := None\<rparr> else p)"

section \<open>The threads\<close>

text \<open>What a reader sees of a slot.\<close>

definition frame_of :: "FramePoolSlot \<Rightarrow> u8 list option \<times> u32 \<times> u32 \<times> u32 \<times> u32 \<times> u64" where
  "frame_of s = (px s, fw s, fh s, fbpp s, foffset s, fseq s)"

text \<open>How far a producer has come with a slot.\<close>

datatype stage = Idle | Growing u64 | Filling

text \<open>
  A state of the system: the pool, the producer's stage for each slot, and the frames held, each
  with what its reader saw when it took it. \<open>last_frame\<close> is the frame published last.
\<close>

type_synonym frame = "u8 list option \<times> u32 \<times> u32 \<times> u32 \<times> u32 \<times> u64"

record pool_sys =
  pool :: FramePool
  prod_stage :: "nat \<Rightarrow> stage"
  handles :: "(nat \<times> frame) list"
  last_frame :: "frame option"

definition pool_start :: pool_sys where
  "pool_start = \<lparr>pool = FRAME_POOL_INIT, prod_stage = (\<lambda>_. Idle), handles = [], last_frame = None\<rparr>"

inductive pool_step :: "pool_sys \<Rightarrow> pool_sys \<Rightarrow> bool" where
  choose: "frame_pool_choose (pool s) w h bpp = (Some i, p) \<Longrightarrow>
    pool_step s (s\<lparr>pool := p, prod_stage := (prod_stage s)(i := Growing (frame_bytes w h bpp))\<rparr>)"
| choose_none: "frame_pool_choose (pool s) w h bpp = (None, p) \<Longrightarrow> pool_step s (s\<lparr>pool := p\<rparr>)"
| grow: "prod_stage s i = Growing need \<Longrightarrow> (\<forall>b. alloc = Some b \<longrightarrow> length b = unat need) \<Longrightarrow>
    frame_pool_grow (pool s) i need alloc = (r, p) \<Longrightarrow>
    pool_step s (s\<lparr>pool := p, prod_stage := (prod_stage s)(i := if r = None then Idle else Filling)\<rparr>)"
| fill: "prod_stage s i = Filling \<Longrightarrow> px (slots (pool s) ! i) = Some old \<Longrightarrow> length new = length old \<Longrightarrow>
    pool_step s (s\<lparr>pool := upd_slot i (\<lambda>x. x\<lparr>px := Some new\<rparr>) (pool s)\<rparr>)"
| publish: "prod_stage s i = Filling \<Longrightarrow> p = frame_pool_publish (pool s) (Some i) w h bpp offset \<Longrightarrow>
    pool_step s (s\<lparr>pool := p, prod_stage := (prod_stage s)(i := Idle),
      last_frame := if frame_bytes w h bpp > cap (slots (pool s) ! i) then last_frame s else Some (frame_of (slots p ! i))\<rparr>)"
| abandon: "prod_stage s i = Filling \<Longrightarrow>
    pool_step s (s\<lparr>pool := frame_pool_abandon (pool s) (Some i), prod_stage := (prod_stage s)(i := Idle)\<rparr>)"
| acquire: "frame_pool_acquire (pool s) = (Some i, p) \<Longrightarrow>
    pool_step s (s\<lparr>pool := p, handles := (i, frame_of (slots p ! i)) # handles s\<rparr>)"
| acquire_none: "frame_pool_acquire (pool s) = (None, p) \<Longrightarrow> pool_step s (s\<lparr>pool := p\<rparr>)"
| release: "handles s = xs @ (i, f) # ys \<Longrightarrow>
    pool_step s (s\<lparr>pool := frame_pool_release (pool s) (Some i), handles := xs @ ys\<rparr>)"

abbreviation pool_reaches :: "pool_sys \<Rightarrow> pool_sys \<Rightarrow> bool" where "pool_reaches \<equiv> pool_step\<^sup>*\<^sup>*"

section \<open>The invariant\<close>

definition fits :: "FramePoolSlot \<Rightarrow> bool" where
  "fits x \<longleftrightarrow> frame_bytes (fw x) (fh x) (fbpp x) \<le> cap x"

definition storage_ok :: "FramePoolSlot \<Rightarrow> bool" where
  "storage_ok x \<longleftrightarrow> (case px x of None \<Rightarrow> cap x = 0 | Some b \<Rightarrow> length b = unat (cap x))"

lemma slot_frame_simps [simp]:
  "storage_ok (x\<lparr>writing := b\<rparr>) = storage_ok x" "storage_ok (x\<lparr>readers := n\<rparr>) = storage_ok x"
  "storage_ok (x\<lparr>fw := w, fh := h, fbpp := bpp, foffset := offset, fseq := q, writing := b\<rparr>) = storage_ok x"
  "storage_ok (x\<lparr>fw := w, fh := h, fbpp := bpp, foffset := offset, fseq := q\<rparr>) = storage_ok x"
  "storage_ok (x\<lparr>px := Some bs, cap := c\<rparr>) \<longleftrightarrow> length bs = unat c"
  "frame_of (x\<lparr>writing := b\<rparr>) = frame_of x" "frame_of (x\<lparr>readers := n\<rparr>) = frame_of x"
  "fits (x\<lparr>writing := b\<rparr>) = fits x" "fits (x\<lparr>readers := n\<rparr>) = fits x"
  by (simp_all add: storage_ok_def frame_of_def fits_def split: option.splits)

definition holders :: "nat \<Rightarrow> (nat \<times> frame) list \<Rightarrow> nat" where
  "holders i hs = length (filter (\<lambda>h. fst h = i) hs)"

definition slot_ok :: "FramePoolSlot \<Rightarrow> nat option \<Rightarrow> stage \<Rightarrow> (nat \<times> frame) list \<Rightarrow> frame option \<Rightarrow> nat \<Rightarrow> bool" where
  "slot_ok x pub st hs lf i \<longleftrightarrow>
     readers x = holders i hs \<and> (writing x \<longleftrightarrow> st \<noteq> Idle) \<and> (writing x \<longrightarrow> readers x = 0 \<and> pub \<noteq> Some i) \<and> storage_ok x
     \<and> (\<forall>f. (i, f) \<in> set hs \<longrightarrow> f = frame_of x \<and> fits x) \<and> (pub = Some i \<longrightarrow> lf = Some (frame_of x) \<and> fits x)"

definition pool_inv :: "pool_sys \<Rightarrow> bool" where
  "pool_inv s \<longleftrightarrow> ready (pool s) \<and> length (slots (pool s)) = 5
     \<and> (\<forall>i < 5. slot_ok (slots (pool s) ! i) (published (pool s)) (prod_stage s i) (handles s) (last_frame s) i)
     \<and> (\<forall>i \<ge> 5. prod_stage s i = Idle) \<and> (\<forall>h \<in> set (handles s). fst h < 5) \<and> (\<forall>i. published (pool s) = Some i \<longrightarrow> i < 5)"

lemma upd_slot_simps [simp]:
  "length (slots (upd_slot i f p)) = length (slots p)" "published (upd_slot i f p) = published p"
  "ready (upd_slot i f p) = ready p" "pool_seq (upd_slot i f p) = pool_seq p"
  by (simp_all add: upd_slot_def)

lemma slots_upd_slot: "j < length (slots p) \<Longrightarrow> slots (upd_slot i f p) ! j = (if j = i then f (slots p ! i) else slots p ! j)"
  by (auto simp: upd_slot_def)

lemma pick_Some: "frame_pool_pick p = Some i \<Longrightarrow>
    i < 5 \<and> readers (slots p ! i) = 0 \<and> \<not> writing (slots p ! i) \<and> published p \<noteq> Some i"
  by (auto simp: frame_pool_pick_def find_Some_iff simp del: upt_rec_numeral)

lemma holders_0: "holders i hs = 0 \<Longrightarrow> (i, f) \<notin> set hs"
  by (auto simp: holders_def filter_empty_conv)

lemma holders_simps [simp]: "holders i [] = 0" "holders i (h # hs) = (if fst h = i then Suc (holders i hs) else holders i hs)"
    "holders i (xs @ ys) = holders i xs + holders i ys"
  by (simp_all add: holders_def)

lemma inv_D:
  assumes "pool_inv s" "i < 5"
  shows "slot_ok (slots (pool s) ! i) (published (pool s)) (prod_stage s i) (handles s) (last_frame s) i"
  using assms by (simp add: pool_inv_def)

lemma inv_stage: "pool_inv s \<Longrightarrow> prod_stage s i \<noteq> Idle \<Longrightarrow> i < 5"
  by (metis pool_inv_def not_less)

text \<open>A step that changes one slot and nothing of the others keeps the invariant if it keeps that slot's.\<close>

lemma inv_one_slot:
  assumes "pool_inv s" "i < 5" "ready p" "length (slots p) = 5"
    and "\<And>j. j < 5 \<Longrightarrow> j \<noteq> i \<Longrightarrow> slots p ! j = slots (pool s) ! j"
    and "published p = published (pool s)"
    and "slot_ok (slots p ! i) (published p) st (handles s) (last_frame s) i"
  shows "pool_inv (s\<lparr>pool := p, prod_stage := (prod_stage s)(i := st)\<rparr>)"
  using assms unfolding pool_inv_def by auto

lemma pool_inv_step:
  assumes "pool_step s s'" "pool_inv s"
  shows "pool_inv s'"
  using assms
proof cases
  case (choose w h bpp i p)
  have r: "frame_pool_init (pool s) = pool s" using assms(2) by (simp add: pool_inv_def frame_pool_init_def)
  from choose have pk: "frame_pool_pick (pool s) = Some i" and p: "p = upd_slot i (\<lambda>s. s\<lparr>writing := True\<rparr>) (pool s)"
    by (auto simp: frame_pool_choose_def Let_def r split: if_splits option.splits)
  note I = pick_Some [OF pk]
  have l: "length (slots (pool s)) = 5" "ready (pool s)" using assms(2) by (simp_all add: pool_inv_def)
  show ?thesis
    unfolding choose(1)
    by (rule inv_one_slot [OF assms(2)])
      (use I l inv_D [OF assms(2), of i] in \<open>auto simp: p slots_upd_slot slot_ok_def\<close>)
next
  case (choose_none w h bpp p)
  then have "slots p = slots (pool s) \<and> published p = published (pool s) \<and> ready p"
    using assms(2) by (auto simp: frame_pool_choose_def frame_pool_init_def pool_inv_def Let_def split: if_splits option.splits)
  then show ?thesis using assms(2) by (simp add: choose_none(1) pool_inv_def)
next
  case (grow i need alloc r p)
  have i: "i < 5" using inv_stage [OF assms(2)] grow by simp
  have l: "length (slots (pool s)) = 5" "ready (pool s)" using assms(2) by (simp_all add: pool_inv_def)
  have w: "\<not> (readers (slots (pool s) ! i) \<noteq> 0 \<or> published (pool s) = Some i)" "holders i (handles s) = 0" "writing (slots (pool s) ! i)"
    using inv_D [OF assms(2) i] grow by (auto simp: slot_ok_def)
  note nh = holders_0 [OF w(2)]
  show ?thesis
    unfolding grow(1)
    by (rule inv_one_slot [OF assms(2) i])
      (use grow i l w nh inv_D [OF assms(2) i] in
        \<open>auto simp: frame_pool_grow_def slots_upd_slot slot_ok_def split: if_splits option.splits\<close>)
next
  case (fill i old new)
  have i: "i < 5" using inv_stage [OF assms(2)] fill by simp
  have l: "length (slots (pool s)) = 5" "ready (pool s)" using assms(2) by (simp_all add: pool_inv_def)
  have w: "holders i (handles s) = 0" "published (pool s) \<noteq> Some i" using inv_D [OF assms(2) i] fill by (auto simp: slot_ok_def)
  note nh = holders_0 [OF w(1)]
  have "pool_inv (s\<lparr>pool := upd_slot i (\<lambda>x. x\<lparr>px := Some new\<rparr>) (pool s), prod_stage := (prod_stage s)(i := Filling)\<rparr>)"
    by (rule inv_one_slot [OF assms(2) i])
      (use fill i l w nh inv_D [OF assms(2) i] in \<open>auto simp: slots_upd_slot slot_ok_def storage_ok_def\<close>)
  moreover have "(prod_stage s)(i := Filling) = prod_stage s" using fill by auto
  ultimately show ?thesis by (simp add: fill(1))
next
  case (publish i p w h bpp offset)
  have i: "i < 5" using inv_stage [OF assms(2)] publish by simp
  have l: "length (slots (pool s)) = 5" "ready (pool s)" using assms(2) by (simp_all add: pool_inv_def)
  have w: "holders i (handles s) = 0" "published (pool s) \<noteq> Some i" using inv_D [OF assms(2) i] publish by (auto simp: slot_ok_def)
  note nh = holders_0 [OF w(1)]
  show ?thesis
  proof (cases "frame_bytes w h bpp > cap (slots (pool s) ! i)")
    case True
    have "pool_inv (s\<lparr>pool := p, prod_stage := (prod_stage s)(i := Idle)\<rparr>)"
      by (rule inv_one_slot [OF assms(2) i])
        (use publish True i l w nh inv_D [OF assms(2) i] in \<open>auto simp: frame_pool_publish_def slots_upd_slot slot_ok_def\<close>)
    then show ?thesis using True by (simp add: publish(1))
  next
    case False
    have p: "slots p ! j = (if j = i then (slots (pool s) ! i)\<lparr>fw := w, fh := h, fbpp := bpp, foffset := offset,
        fseq := pool_seq (pool s) + 1, writing := False\<rparr> else slots (pool s) ! j)" if "j < 5" for j
      using False publish that l by (simp add: frame_pool_publish_def Let_def slots_upd_slot)
    have q: "published p = Some i" "ready p" "length (slots p) = 5" using False publish l by (simp_all add: frame_pool_publish_def Let_def)
    have "slot_ok (slots p ! j) (Some i) (((prod_stage s)(i := Idle)) j) (handles s) (Some (frame_of (slots p ! i))) j" if "j < 5" for j
      using inv_D [OF assms(2) that] p [OF that] w nh False by (auto simp: slot_ok_def fits_def)
    then show ?thesis using assms(2) q i False unfolding publish(1) pool_inv_def by simp
  qed
next
  case (abandon i)
  have i: "i < 5" using inv_stage [OF assms(2)] abandon by simp
  have l: "length (slots (pool s)) = 5" "ready (pool s)" using assms(2) by (simp_all add: pool_inv_def)
  have w: "holders i (handles s) = 0" "published (pool s) \<noteq> Some i" using inv_D [OF assms(2) i] abandon by (auto simp: slot_ok_def)
  note nh = holders_0 [OF w(1)]
  show ?thesis
    unfolding abandon(1)
    by (rule inv_one_slot [OF assms(2) i])
      (use i l w nh inv_D [OF assms(2) i] in \<open>auto simp: frame_pool_abandon_def slots_upd_slot slot_ok_def\<close>)
next
  case (acquire i p)
  have r: "frame_pool_init (pool s) = pool s" using assms(2) by (simp add: pool_inv_def frame_pool_init_def)
  have l: "length (slots (pool s)) = 5" "ready (pool s)" using assms(2) by (simp_all add: pool_inv_def)
  from acquire have pub: "published (pool s) = Some i"
      and p: "p = upd_slot i (\<lambda>s. s\<lparr>readers := readers s + 1\<rparr>) (pool s\<lparr>acquires := acquires (pool s) + 1\<rparr>)"
    by (auto simp: frame_pool_acquire_def Let_def r split: option.splits)
  have i: "i < 5" using pub assms(2) by (simp add: pool_inv_def)
  have sl: "slots p ! j = (if j = i then (slots (pool s) ! i)\<lparr>readers := readers (slots (pool s) ! i) + 1\<rparr> else slots (pool s) ! j)"
    if "j < 5" for j using that l by (simp add: p slots_upd_slot)
  have "slot_ok (slots p ! j) (Some i) (prod_stage s j) ((i, frame_of (slots p ! i)) # handles s) (last_frame s) j" if "j < 5" for j
    using inv_D [OF assms(2) that] inv_D [OF assms(2) i] sl [OF that] sl [OF i] pub
    by (auto simp: slot_ok_def)
  then show ?thesis using assms(2) i l pub unfolding acquire(1) pool_inv_def by (simp add: p)
next
  case (acquire_none p)
  then have "slots p = slots (pool s) \<and> published p = published (pool s) \<and> ready p"
    using assms(2) by (auto simp: frame_pool_acquire_def frame_pool_init_def pool_inv_def Let_def split: if_splits option.splits)
  then show ?thesis using assms(2) by (simp add: acquire_none(1) pool_inv_def)
next
  case (release xs i f ys)
  have l: "length (slots (pool s)) = 5" "ready (pool s)" using assms(2) by (simp_all add: pool_inv_def)
  have i: "i < 5" using release assms(2) by (force simp: pool_inv_def)
  have rd: "readers (slots (pool s) ! i) = Suc (holders i (xs @ ys))" using inv_D [OF assms(2) i] release by (simp add: slot_ok_def)
  define p where "p = frame_pool_release (pool s) (Some i)"
  have sl: "slots p ! j = (if j = i then (slots (pool s) ! i)\<lparr>readers := readers (slots (pool s) ! i) - 1\<rparr> else slots (pool s) ! j)"
    if "j < 5" for j using that l rd by (simp add: p_def frame_pool_release_def slots_upd_slot)
  have q: "published p = published (pool s)" "ready p" "length (slots p) = 5" using l rd by (simp_all add: p_def frame_pool_release_def)
  have "slot_ok (slots p ! j) (published (pool s)) (prod_stage s j) (xs @ ys) (last_frame s) j" if "j < 5" for j
    using inv_D [OF assms(2) that] sl [OF that] rd release by (auto simp: slot_ok_def)
  then show ?thesis using assms(2) q release(2) unfolding release(1) p_def [symmetric] pool_inv_def by auto
qed

lemma pool_inv_start: "pool_inv pool_start"
  by (auto simp: pool_inv_def pool_start_def FRAME_POOL_INIT_def slot_ok_def zero_slot_def storage_ok_def)

lemma pool_inv_reachable: "pool_reaches pool_start s \<Longrightarrow> pool_inv s"
  by (induction rule: rtranclp_induct) (auto intro: pool_inv_start pool_inv_step)

section \<open>Properties\<close>

text \<open>
  Claim C3: Whatever the interleaving of producers and readers, a frame a reader holds keeps
  the pixels, dimensions, surface and sequence number it was taken with, is not being
  written, and has storage for all its bytes.
\<close>

theorem held_frames_never_change:
  assumes "pool_reaches pool_start s" "(i, f) \<in> set (handles s)"
  shows "f = frame_of (slots (pool s) ! i) \<and> \<not> writing (slots (pool s) ! i)
    \<and> (case f of (bytes, w, h, bpp, _) \<Rightarrow> unat (frame_bytes w h bpp) \<le> (case bytes of None \<Rightarrow> 0 | Some b \<Rightarrow> length b))"
proof -
  have inv: "pool_inv s" by (rule pool_inv_reachable [OF assms(1)])
  have i: "i < 5" using inv assms(2) by (force simp: pool_inv_def)
  note I = inv_D [OF inv i]
  have f: "f = frame_of (slots (pool s) ! i)" "fits (slots (pool s) ! i)" "storage_ok (slots (pool s) ! i)"
    using I assms(2) unfolding slot_ok_def by blast+
  have "holders i (handles s) \<noteq> 0" using holders_0 assms(2) by blast
  then have "\<not> writing (slots (pool s) ! i)" using I by (auto simp: slot_ok_def)
  then show ?thesis
    using f by (auto simp: frame_of_def fits_def storage_ok_def word_le_nat_alt split: option.splits)
qed

lemma published_iff_last:
  assumes "pool_reaches pool_start s"
  shows "published (pool s) = None \<longleftrightarrow> last_frame s = None"
  using assms
proof (induction rule: rtranclp_induct)
  case base
  show ?case by (simp add: pool_start_def FRAME_POOL_INIT_def)
next
  case (step s t)
  have r: "frame_pool_init (pool s) = pool s"
    using pool_inv_reachable [OF step.hyps(1)] by (simp add: pool_inv_def frame_pool_init_def)
  from step.hyps(2) step.IH show ?case
    by cases (auto simp: frame_pool_choose_def frame_pool_grow_def frame_pool_publish_def frame_pool_abandon_def
        frame_pool_acquire_def frame_pool_release_def r Let_def split: if_splits option.splits)
qed

text \<open>
  Claim C28: placeholder
\<close>

theorem readers_get_the_last_published_frame:
  assumes "pool_reaches pool_start s" "frame_pool_acquire (pool s) = (r, p)"
  shows "case r of None \<Rightarrow> last_frame s = None
    | Some i \<Rightarrow> last_frame s = Some (frame_of (slots p ! i)) \<and> \<not> writing (slots p ! i)
        \<and> (case frame_of (slots p ! i) of (bytes, w, h, bpp, _) \<Rightarrow>
             unat (frame_bytes w h bpp) \<le> (case bytes of None \<Rightarrow> 0 | Some b \<Rightarrow> length b))"
proof (cases r)
  case None
  have "frame_pool_init (pool s) = pool s"
    using pool_inv_reachable [OF assms(1)] by (simp add: pool_inv_def frame_pool_init_def)
  then have "published (pool s) = None"
    using assms(2) None by (auto simp: frame_pool_acquire_def Let_def split: option.splits)
  then show ?thesis using None published_iff_last [OF assms(1)] by simp
next
  case (Some i)
  have st: "pool_step s (s\<lparr>pool := p, handles := (i, frame_of (slots p ! i)) # handles s\<rparr>)"
    using pool_step.acquire [of s i p] assms(2) Some by simp
  then have inv: "pool_inv (s\<lparr>pool := p, handles := (i, frame_of (slots p ! i)) # handles s\<rparr>)"
    using pool_inv_step pool_inv_reachable [OF assms(1)] by blast
  have "frame_pool_init (pool s) = pool s"
    using pool_inv_reachable [OF assms(1)] by (simp add: pool_inv_def frame_pool_init_def)
  then have pub: "published p = Some i" using assms(2) Some by (auto simp: frame_pool_acquire_def Let_def split: option.splits)
  then have "i < 5" using inv by (simp add: pool_inv_def)
  then have ok: "slot_ok (slots p ! i) (Some i) (prod_stage s i) ((i, frame_of (slots p ! i)) # handles s) (last_frame s) i"
    using inv_D [OF inv, of i] pub by simp
  then have "last_frame s = Some (frame_of (slots p ! i))" "\<not> writing (slots p ! i)" "fits (slots p ! i)" "storage_ok (slots p ! i)"
    by (auto simp: slot_ok_def)
  then show ?thesis using Some
    by (auto simp: frame_of_def fits_def storage_ok_def word_le_nat_alt split: option.splits)
qed


definition wit_begun :: pool_sys where
  "wit_begun = pool_start\<lparr>pool := upd_slot 0 (\<lambda>s. s\<lparr>writing := True\<rparr>) FRAME_POOL_INIT, prod_stage := (\<lambda>_. Idle)(0 := Growing 4)\<rparr>"

definition wit_filling :: pool_sys where
  "wit_filling = wit_begun\<lparr>pool := upd_slot 0 (\<lambda>s. s\<lparr>px := Some [1, 2, 3, 4], cap := 4\<rparr>) (pool wit_begun),
     prod_stage := (prod_stage wit_begun)(0 := Filling)\<rparr>"

definition wit_published :: pool_sys where
  "wit_published = wit_filling\<lparr>pool := frame_pool_publish (pool wit_filling) (Some 0) 1 1 4 0x100, prod_stage := (prod_stage wit_filling)(0 := Idle),
     last_frame := Some (Some [1, 2, 3, 4], 1, 1, 4, 0x100, 1)\<rparr>"

definition wit_held :: pool_sys where
  "wit_held = wit_published\<lparr>pool := snd (frame_pool_acquire (pool wit_published)), handles := [(0, Some [1, 2, 3, 4], 1, 1, 4, 0x100, 1)]\<rparr>"

lemma wit_reaches: "pool_reaches pool_start wit_published" "pool_reaches pool_start wit_held"
proof -
  have pk: "frame_pool_pick FRAME_POOL_INIT = Some 0"
    by (simp add: frame_pool_pick_def FRAME_POOL_INIT_def zero_slot_def upt_rec [of 0 5])
  have "pool_step pool_start wit_begun"
    using pool_step.choose [of pool_start 1 1 4 0 "upd_slot 0 (\<lambda>s. s\<lparr>writing := True\<rparr>) FRAME_POOL_INIT"] pk
    by (simp add: frame_pool_choose_def pool_start_def frame_pool_init_def wit_begun_def frame_bytes_def FRAME_POOL_INIT_def)
  moreover have "pool_step wit_begun wit_filling"
    using pool_step.grow [of wit_begun 0 4 "Some [1, 2, 3, 4]" "Some 0" "pool wit_filling"]
    by (simp add: wit_begun_def wit_filling_def frame_pool_grow_def upd_slot_def FRAME_POOL_INIT_def zero_slot_def)
  moreover have "pool_step wit_filling wit_published"
    using pool_step.publish [of wit_filling 0 "pool wit_published" 1 1 4 "0x100"]
    by (simp add: wit_begun_def wit_filling_def wit_published_def frame_pool_publish_def upd_slot_def FRAME_POOL_INIT_def zero_slot_def
        frame_bytes_def frame_of_def)
  ultimately show p: "pool_reaches pool_start wit_published" by (meson converse_rtranclp_into_rtranclp rtranclp.rtrancl_refl)
  have "pool_step wit_published wit_held"
    using pool_step.acquire [of wit_published 0 "pool wit_held"]
    by (simp add: wit_held_def wit_begun_def wit_filling_def wit_published_def frame_pool_publish_def upd_slot_def FRAME_POOL_INIT_def
        zero_slot_def frame_bytes_def frame_of_def frame_pool_acquire_def frame_pool_init_def pool_start_def)
  with p show "pool_reaches pool_start wit_held" by simp
qed

theorem held_frames_witness:
  "frame_of (slots (pool wit_held) ! 0) = (Some [1, 2, 3, 4], 1, 1, 4, 0x100, 1) \<and> \<not> writing (slots (pool wit_held) ! 0)"
  using held_frames_never_change [OF wit_reaches(2), of 0 "(Some [1, 2, 3, 4], 1, 1, 4, 0x100, 1)"] by (simp add: wit_held_def)

theorem readers_get_witness:
  "last_frame wit_published = Some (frame_of (slots (snd (frame_pool_acquire (pool wit_published))) ! 0))"
proof -
  obtain r p where a: "frame_pool_acquire (pool wit_published) = (r, p)" by (cases "frame_pool_acquire (pool wit_published)")
  have "r = Some 0"
    using a by (auto simp: wit_begun_def wit_filling_def wit_published_def frame_pool_publish_def upd_slot_def FRAME_POOL_INIT_def
        zero_slot_def frame_bytes_def frame_pool_acquire_def frame_pool_init_def pool_start_def)
  then show ?thesis using readers_get_the_last_published_frame [OF wit_reaches(1) a] a by simp
qed


end
