(* ===== verification/D3d8_Swizzle.thy ===== *)
theory D3d8_Swizzle
  imports Nv2a_Texture_Decode
begin

text \<open>
  The texture swizzling of \<open>src/d3d/d3d8_swizzle.h\<close>: the interleaving masks, the deposit of a
  coordinate into a mask, the row walk with masked increments in both directions, and the volume
  form. The coordinates and offsets are 32-bit words as in
  the code; a buffer is a list of bytes. The copies of 1, 2 and 4 bytes are written as the general
  copy, which moves the same bytes. The mask loop doubles a 32-bit word until it passes both
  extents and never ends above \<open>2 ^ 31\<close>; it is a partial function.
\<close>

section \<open>Interleaving\<close>

definition swizzle_spread :: "u32 \<Rightarrow> u32" where
  "swizzle_spread v =
     (let v = (v OR push_bit 8 v) AND 0x00FF00FF; v = (v OR push_bit 4 v) AND 0x0F0F0F0F;
          v = (v OR push_bit 2 v) AND 0x33333333; v = (v OR push_bit 1 v) AND 0x55555555 in v)"

definition swizzle_compact :: "u32 \<Rightarrow> u32" where
  "swizzle_compact v =
     (let v = v AND 0x55555555; v = (v OR drop_bit 1 v) AND 0x33333333; v = (v OR drop_bit 2 v) AND 0x0F0F0F0F;
          v = (v OR drop_bit 4 v) AND 0x00FF00FF; v = (v OR drop_bit 8 v) AND 0x0000FFFF in v)"

lemma clear_lowest_less: "m \<noteq> 0 \<Longrightarrow> m AND (m - 1) < (m :: u32)"
proof -
  assume m: "m \<noteq> 0"
  have "m AND (m - 1) \<le> m - 1" by (rule word_and_le1)
  moreover have "unat (m - 1) < unat m" using unat_minus_one [OF m] m by (simp add: unat_gt_0)
  ultimately show ?thesis by (simp add: word_le_nat_alt word_less_nat_alt)
qed

function deposit_loop :: "u32 \<Rightarrow> u32 \<Rightarrow> u32 \<Rightarrow> u32 \<Rightarrow> u32" where
  "deposit_loop v mask' result bit' =
     (if mask' = 0 then result
      else let low = mask' AND (NOT mask' + 1); result = (if v AND bit' \<noteq> 0 then result OR low else result)
           in deposit_loop v (mask' AND (mask' - 1)) result (push_bit 1 bit'))"
  by pat_completeness auto
termination
  by (relation "measure (\<lambda>(v, m, r, b). unat m)") (use clear_lowest_less in \<open>auto simp: word_less_nat_alt\<close>)

declare deposit_loop.simps [simp del]

definition swizzle_deposit :: "u32 \<Rightarrow> u32 \<Rightarrow> u32" where
  "swizzle_deposit v mask' = deposit_loop v mask' 0 1"

partial_function (option) swizzle_masks_loop ::
    "u32 \<Rightarrow> u32 \<Rightarrow> u32 \<Rightarrow> u32 \<Rightarrow> u32 \<Rightarrow> u32 \<Rightarrow> (u32 \<times> u32) option" where
  "swizzle_masks_loop width height x y bit' mask_bit =
     (if bit' < width \<or> bit' < height
      then let (x, mask_bit) = (if bit' < width then (x OR mask_bit, push_bit 1 mask_bit) else (x, mask_bit));
               (y, mask_bit) = (if bit' < height then (y OR mask_bit, push_bit 1 mask_bit) else (y, mask_bit))
           in swizzle_masks_loop width height x y (push_bit 1 bit') mask_bit
      else Some (x, y))"

definition xbox_swizzle_masks :: "u32 \<Rightarrow> u32 \<Rightarrow> (u32 \<times> u32) option" where
  "xbox_swizzle_masks width height = swizzle_masks_loop width height 0 0 1 1"

definition swizzle_offset :: "u32 \<Rightarrow> u32 \<Rightarrow> u32 \<Rightarrow> u32 \<Rightarrow> u32 option" where
  "swizzle_offset x y width height =
     map_option (\<lambda>(mask_x, mask_y). swizzle_deposit x mask_x OR swizzle_deposit y mask_y) (xbox_swizzle_masks width height)"

section \<open>The row walk\<close>

text \<open>The byte offset of column \<open>x\<close> in its row: pointer arithmetic for 1, 2 and 4 bytes, a 32-bit product otherwise.\<close>

definition column_offset :: "u32 \<Rightarrow> nat \<Rightarrow> nat" where
  "column_offset bpp x = (if bpp \<in> {1, 2, 4} then x * unat bpp else unat (of_nat x * bpp))"

definition copy_bytes :: "u8 list \<Rightarrow> nat \<Rightarrow> u8 list \<Rightarrow> nat \<Rightarrow> nat \<Rightarrow> u8 list" where
  "copy_bytes d at s from n = memcpy_at d at (take n (drop from s))"

definition swizzle_walk ::
    "(u8 list \<Rightarrow> nat \<Rightarrow> nat \<Rightarrow> u8 list) \<Rightarrow> u32 \<Rightarrow> u32 \<Rightarrow> u32 \<Rightarrow> u32 \<Rightarrow> u32 \<Rightarrow> u8 list \<Rightarrow> u8 list" where
  "swizzle_walk copy width height bpp mask_x mask_y dst =
     fst (fold (\<lambda>y (d, off_y).
       let row = unat (of_nat y * width * bpp);
           (d, _) = fold (\<lambda>x (d, off_x).
             let swiz_off = (off_y + off_x) * bpp
             in (copy d (row + column_offset bpp x) (unat swiz_off), (off_x - mask_x) AND mask_x)) [0..<unat width] (d, 0 :: u32)
       in (d, (off_y - mask_y) AND mask_y)) [0..<unat height] (dst, 0 :: u32))"

definition xbox_unswizzle_rect :: "u8 list \<Rightarrow> u8 list \<Rightarrow> u32 \<Rightarrow> u32 \<Rightarrow> u32 \<Rightarrow> u8 list option" where
  "xbox_unswizzle_rect dst src width height bpp =
     map_option (\<lambda>(mask_x, mask_y).
       swizzle_walk (\<lambda>d linear swiz. copy_bytes d linear src swiz (unat bpp)) width height bpp mask_x mask_y dst)
       (xbox_swizzle_masks width height)"

definition xbox_swizzle_rect :: "u8 list \<Rightarrow> u8 list \<Rightarrow> u32 \<Rightarrow> u32 \<Rightarrow> u32 \<Rightarrow> u8 list option" where
  "xbox_swizzle_rect dst src width height bpp =
     map_option (\<lambda>(mask_x, mask_y).
       swizzle_walk (\<lambda>d linear swiz. copy_bytes d swiz src linear (unat bpp)) width height bpp mask_x mask_y dst)
       (xbox_swizzle_masks width height)"

section \<open>Volumes\<close>

function swizzle_3d_loop :: "u32 \<Rightarrow> u32 \<Rightarrow> u32 \<Rightarrow> u32 \<Rightarrow> u32 \<Rightarrow> u32 \<Rightarrow> u32 \<Rightarrow> u32 \<Rightarrow> u32" where
  "swizzle_3d_loop x y z w h d bit' pos =
     (if w > 1 \<or> h > 1 \<or> d > 1
      then let (x, w, bit', pos) = (if w > 1 then (drop_bit 1 x, drop_bit 1 w, push_bit 1 bit', if x AND 1 \<noteq> 0 then pos OR bit' else pos)
                                   else (x, w, bit', pos));
               (y, h, bit', pos) = (if h > 1 then (drop_bit 1 y, drop_bit 1 h, push_bit 1 bit', if y AND 1 \<noteq> 0 then pos OR bit' else pos)
                                   else (y, h, bit', pos));
               (z, d, bit', pos) = (if d > 1 then (drop_bit 1 z, drop_bit 1 d, push_bit 1 bit', if z AND 1 \<noteq> 0 then pos OR bit' else pos)
                                   else (z, d, bit', pos))
           in swizzle_3d_loop x y z w h d bit' pos
      else pos)"
  by pat_completeness auto
termination
proof (relation "measure (\<lambda>(x, y, z, w, h, d, b, p). unat w + unat h + unat d)", goal_cases)
  case (2 x y z w h d bit' pos p1 x1 p2 w1 p3 b1 pos1 q1 y1 q2 h1 q3 b2 pos2 r1 z1 r2 d1 r3 b3 pos3)
  have half: "unat (drop_bit 1 v) \<le> unat v" "1 < v \<Longrightarrow> unat (drop_bit 1 v) < unat v" for v :: u32
    unfolding unat_drop_bit_eq word_less_nat_alt by (simp_all add: drop_bit_Suc)
  show ?case using 2 half [of w] half [of h] half [of d] by (cases "1 < w"; cases "1 < h"; cases "1 < d") simp_all
qed simp

declare swizzle_3d_loop.simps [simp del]

definition xbox_swizzle_offset_3d :: "u32 \<Rightarrow> u32 \<Rightarrow> u32 \<Rightarrow> u32 \<Rightarrow> u32 \<Rightarrow> u32 \<Rightarrow> u32" where
  "xbox_swizzle_offset_3d x y z width height depth = swizzle_3d_loop x y z width height depth 1 0"

definition box_walk :: "(u8 list \<Rightarrow> nat \<Rightarrow> nat \<Rightarrow> u8 list) \<Rightarrow> u32 \<Rightarrow> u32 \<Rightarrow> u32 \<Rightarrow> u32 \<Rightarrow> u8 list \<Rightarrow> u8 list" where
  "box_walk copy width height depth bpp dst =
     (let face_size = ucast width * ucast height * ucast bpp :: u64
      in fold (\<lambda>z. fold (\<lambda>y. fold (\<lambda>x d.
           let swiz = xbox_swizzle_offset_3d (of_nat x) (of_nat y) (of_nat z) width height depth;
               linear = of_nat z * face_size + (of_nat y * ucast width + of_nat x) * ucast bpp
           in copy d (unat linear) (unat (ucast swiz * ucast bpp :: u64)))
           [0..<unat width]) [0..<unat height]) [0..<unat depth] dst)"

definition xbox_unswizzle_box :: "u8 list \<Rightarrow> u8 list \<Rightarrow> u32 \<Rightarrow> u32 \<Rightarrow> u32 \<Rightarrow> u32 \<Rightarrow> u8 list" where
  "xbox_unswizzle_box dst src width height depth bpp =
     box_walk (\<lambda>d linear swiz. copy_bytes d linear src swiz (unat bpp)) width height depth bpp dst"

definition xbox_swizzle_box :: "u8 list \<Rightarrow> u8 list \<Rightarrow> u32 \<Rightarrow> u32 \<Rightarrow> u32 \<Rightarrow> u32 \<Rightarrow> u8 list" where
  "xbox_swizzle_box dst src width height depth bpp =
     box_walk (\<lambda>d linear swiz. copy_bytes d swiz src linear (unat bpp)) width height depth bpp dst"

section \<open>Depositing bits\<close>

text \<open>The deposit on natural numbers, by recursion on the mask.\<close>

fun ndep :: "nat \<Rightarrow> nat \<Rightarrow> nat" where
  "ndep m x = (if m = 0 then 0 else if even m then 2 * ndep (m div 2) x else x mod 2 + 2 * ndep (m div 2) (x div 2))"

fun npop :: "nat \<Rightarrow> nat" where
  "npop m = (if m = 0 then 0 else m mod 2 + npop (m div 2))"

declare ndep.simps [simp del] npop.simps [simp del]

lemma ndep_0 [simp]: "ndep 0 x = 0" by (simp add: ndep.simps)
lemma npop_0 [simp]: "npop 0 = 0" by (simp add: npop.simps)

lemma ndep_double: "ndep (2 * k) x = 2 * ndep k x" by (cases "k = 0") (simp_all add: ndep.simps [of "2 * k"])
lemma ndep_odd: "ndep (Suc (2 * k)) x = x mod 2 + 2 * ndep k (x div 2)" by (simp add: ndep.simps [of "Suc (2 * k)"])
lemma npop_double: "npop (2 * k) = npop k" by (cases "k = 0") (simp_all add: npop.simps [of "2 * k"])
lemma npop_odd: "npop (Suc (2 * k)) = Suc (npop k)" by (simp add: npop.simps [of "Suc (2 * k)"])

lemma nat_bits_induct [case_names zero even odd]:
  assumes "P (0 :: nat)" "\<And>k. P k \<Longrightarrow> k \<noteq> 0 \<Longrightarrow> P (2 * k)" "\<And>k. P k \<Longrightarrow> P (Suc (2 * k))"
  shows "P n"
proof (induction n rule: less_induct)
  case (less n)
  show ?case
  proof (cases "n = 0")
    case False
    then have h: "P (n div 2)" using less by simp
    show ?thesis
    proof (cases "even n")
      case True
      then have "n = 2 * (n div 2)" "n div 2 \<noteq> 0" using False by auto
      then show ?thesis using assms(2) [OF h] by simp
    next
      case False
      then have "n = Suc (2 * (n div 2))" by simp
      then show ?thesis using assms(3) [OF h] by simp
    qed
  qed (simp add: assms(1))
qed

lemma and_double_int: "(2 * a) AND (2 * b) = 2 * (a AND b)" "(2 * a + 1) AND (2 * b) = 2 * (a AND b)"
    "(2 * a) AND (2 * b + 1) = 2 * (a AND b)" "(2 * a + 1) AND (2 * b + 1) = 2 * (a AND b) + 1" for a b :: int
  by (simp_all add: and_rec [of "2 * a"] and_rec [of "2 * a + 1"])

lemma int_ndep_odd:
  "int (ndep (Suc (2 * k)) x) = (if even x then 2 * int (ndep k (x div 2)) else 2 * int (ndep k (x div 2)) + 1)"
  by (simp add: ndep_odd odd_iff_mod_2_eq_one)

lemma int_double: "int (2 * k) = 2 * int k" "int (Suc (2 * k)) = 2 * int k + 1"
  by simp_all

lemma ndep_subset: "int (ndep m x) AND int m = int (ndep m x)"
proof (induction m arbitrary: x rule: nat_bits_induct)
  case (even k)
  show ?case unfolding ndep_double int_double and_double_int even(1) ..
next
  case (odd k)
  show ?case
  proof (cases "even x")
    case True
    show ?thesis unfolding int_ndep_odd if_P [OF True] int_double and_double_int odd ..
  next
    case False
    show ?thesis unfolding int_ndep_odd if_not_P [OF False] int_double and_double_int odd ..
  qed
qed simp

lemma masked_increment: "(int (ndep m x) - int m) AND int m = int (ndep m (x + 1))"
proof (induction m arbitrary: x rule: nat_bits_induct)
  case (even k)
  have "int (2 * ndep k x) - 2 * int k = 2 * (int (ndep k x) - int k)" by simp
  then show ?case unfolding ndep_double int_double by (simp only: and_double_int even(1))
next
  case (odd k)
  let ?d = "int (ndep k (x div 2))"
  show ?case
  proof (cases "even x")
    case True
    have e: "\<not> even (x + 1)" "(x + 1) div 2 = x div 2" using True by simp_all
    have "?d AND NOT (int k) = (?d AND int k) AND NOT (int k)" by (simp only: ndep_subset)
    then have z: "?d AND NOT (int k) = 0" by (simp add: and.assoc)
    have "?d + NOT (int k) = ?d OR NOT (int k)" using z by (rule disjunctive_add_eq_or)
    then have "(?d + NOT (int k)) AND int k = (?d OR NOT (int k)) AND int k" by (simp only:)
    also have "\<dots> = (?d AND int k) OR (NOT (int k) AND int k)" by (rule bit.conj_disj_distrib2)
    also have "\<dots> = ?d" by (simp only: ndep_subset bit.conj_cancel_left or.right_neutral)
    finally have "(?d + NOT (int k)) AND int k = ?d" .
    then have f: "(?d - int k - 1) AND int k = ?d" by (simp add: not_int_def algebra_simps)
    have "2 * ?d - (2 * int k + 1) = 2 * (?d - int k - 1) + 1" by simp
    then show ?thesis unfolding int_ndep_odd if_P [OF True] if_not_P [OF e(1)] int_double e(2) by (simp only: and_double_int f)
  next
    case False
    have e: "even (x + 1)" "(x + 1) div 2 = x div 2 + 1" using False by presburger+
    have "2 * ?d + 1 - (2 * int k + 1) = 2 * (?d - int k)" by simp
    then show ?thesis unfolding int_ndep_odd if_not_P [OF False] if_P [OF e(1)] int_double e(2) by (simp only: and_double_int odd)
  qed
qed simp

lemma ndep_top:
  "m < 2 ^ p \<Longrightarrow> ndep (m + 2 ^ p) x = ndep m x + (if bit x (npop m) then 2 ^ p else 0)"
proof (induction p arbitrary: m x)
  case 0
  then show ?case using ndep_odd [of 0 x] by (simp add: bit_0 odd_iff_mod_2_eq_one)
next
  case (Suc p)
  have half: "m div 2 < 2 ^ p" using Suc.prems by simp
  note IH = Suc.IH [OF half]
  show ?case
  proof (cases "even m")
    case True
    then obtain k where k: "m = 2 * k" by blast
    have e: "m + 2 ^ Suc p = 2 * (k + 2 ^ p)" by (simp add: k)
    show ?thesis unfolding e ndep_double using IH k by (simp add: ndep_double npop_double)
  next
    case False
    then obtain k where k: "m = Suc (2 * k)" by (metis oddE Suc_eq_plus1)
    have e: "m + 2 ^ Suc p = Suc (2 * (k + 2 ^ p))" by (simp add: k)
    show ?thesis unfolding e ndep_odd using IH [of "x div 2"] k by (simp add: ndep_odd npop_odd bit_Suc)
  qed
qed

lemma npop_top: "m < 2 ^ p \<Longrightarrow> npop (m + 2 ^ p) = npop m + 1"
proof (induction p arbitrary: m)
  case 0
  then show ?case using npop_odd [of 0] by simp
next
  case (Suc p)
  have half: "m div 2 < 2 ^ p" using Suc.prems by simp
  note IH = Suc.IH [OF half]
  show ?case
  proof (cases "even m")
    case True
    then obtain k where k: "m = 2 * k" by blast
    have e: "m + 2 ^ Suc p = 2 * (k + 2 ^ p)" by (simp add: k)
    show ?thesis unfolding e npop_double using IH k by (simp add: npop_double)
  next
    case False
    then obtain k where k: "m = Suc (2 * k)" by (metis oddE Suc_eq_plus1)
    have e: "m + 2 ^ Suc p = Suc (2 * (k + 2 ^ p))" by (simp add: k)
    show ?thesis unfolding e npop_odd using IH k by (simp add: npop_odd)
  qed
qed

lemma ndep_le: "ndep m x \<le> m"
proof -
  have "int (ndep m x) AND int m \<le> int m" by (rule AND_upper2) simp
  then show ?thesis unfolding ndep_subset by simp
qed

lemma uint_unat: "uint w = int (unat w)" by simp

lemma unat_u32: "unat (m :: u32) < 2 ^ 32"
proof -
  have "unat m < 2 ^ LENGTH(32)" by (rule unsigned_less)
  then show ?thesis by simp
qed

lemma take_bit_uint: "take_bit 32 (uint (m :: u32)) = uint m"
proof (rule take_bit_int_eq_self)
  have "uint m < 2 ^ LENGTH(32)" by (rule unsigned_less)
  then show "uint m < 2 ^ 32" by simp
qed simp

lemma masked_increment_word:
  fixes o' m :: u32
  assumes "unat o' = ndep (unat m) x"
  shows "unat ((o' - m) AND m) = ndep (unat m) (x + 1)"
proof -
  have "uint ((o' - m) AND m) = take_bit 32 (uint o' - uint m) AND uint m"
    by (simp add: unsigned_and_eq uint_word_arith_bintrs(2))
  also have "\<dots> = take_bit 32 ((uint o' - uint m) AND uint m)"
    by (simp only: take_bit_and take_bit_uint)
  also have "\<dots> = take_bit 32 (int (ndep (unat m) (x + 1)))"
    unfolding uint_unat assms masked_increment ..
  also have "\<dots> = int (ndep (unat m) (x + 1))"
  proof (rule take_bit_int_eq_self)
    have "ndep (unat m) (x + 1) < 2 ^ 32" using ndep_le [of "unat m" "x + 1"] unat_u32 [of m] by simp
    then show "int (ndep (unat m) (x + 1)) < 2 ^ 32" by simp
  qed simp
  finally show ?thesis unfolding uint_unat of_nat_eq_iff .
qed

lemma ndep_lowest:
  "m \<noteq> 0 \<Longrightarrow> int (ndep m y) = (if odd y then int m AND - int m else 0) + int (ndep (nat (int m AND (int m - 1))) (y div 2))"
proof (induction m arbitrary: y rule: nat_bits_induct)
  case (even k)
  have l: "int (2 * k) AND - int (2 * k) = 2 * (int k AND - int k)"
    using and_double_int(1) [of "int k" "- int k"] by simp
  have "2 * int k - 1 = 2 * (int k - 1) + 1" by simp
  then have "int (2 * k) AND (int (2 * k) - 1) = 2 * (int k AND (int k - 1))"
    unfolding int_double by (simp only: and_double_int)
  then have n: "nat (int (2 * k) AND (int (2 * k) - 1)) = 2 * nat (int k AND (int k - 1))" by (simp add: nat_mult_distrib)
  show ?case unfolding ndep_double n l using even(1) [of y] even(2) by simp
next
  case (odd k)
  have "- (2 * int k + 1) = 2 * (NOT (int k)) + 1" by (simp add: not_int_def)
  then have l: "int (Suc (2 * k)) AND - int (Suc (2 * k)) = 1"
    unfolding int_double by (simp only: and_double_int) simp
  have "int (Suc (2 * k)) AND (int (Suc (2 * k)) - 1) = 2 * int k"
    unfolding int_double using and_double_int(2) [of "int k" "int k"] by simp
  then have n: "nat (int (Suc (2 * k)) AND (int (Suc (2 * k)) - 1)) = 2 * k" by simp
  show ?case unfolding n l ndep_double int_ndep_odd by simp
qed simp

lemma lowest_word:
  fixes m :: u32
  assumes "m \<noteq> 0"
  shows "of_nat (ndep (unat m) y) = (if odd y then m AND - m else 0) + of_nat (ndep (unat (m AND (m - 1))) (y div 2))"
proof -
  have n0: "unat m \<noteq> 0" using assms by (simp only: unat_eq_zero not_False_eq_True)
  have u1: "uint (m - 1) = uint m - 1"
    unfolding uint_unat unat_minus_one [OF assms] using n0 by linarith
  have c: "nat (int (unat m) AND (int (unat m) - 1)) = unat (m AND (m - 1))"
  proof -
    have "uint (m AND (m - 1)) = uint m AND (uint m - 1)" unfolding unsigned_and_eq u1 ..
    then show ?thesis unfolding uint_unat [symmetric] by (metis nat_int uint_unat)
  qed
  have "(of_int (int (ndep (unat m) y)) :: u32) = of_int ((if odd y then uint m AND - uint m else 0) + int (ndep (unat (m AND (m - 1))) (y div 2)))"
    using ndep_lowest [OF n0, of y] unfolding c by (simp add: uint_unat del: uint_nat)
  then show ?thesis by (simp add: of_int_and_eq)
qed

lemma deposit_loop_ndep:
  "r AND m = 0 \<Longrightarrow> deposit_loop v m r (push_bit j 1) = r + of_nat (ndep (unat m) (unat v div 2 ^ j))"
proof (induction v m r "push_bit j 1 :: u32" arbitrary: j rule: deposit_loop.induct)
  case (1 v m r)
  show ?case
  proof (cases "m = 0")
    case True
    then show ?thesis by (subst deposit_loop.simps) simp
  next
    case False
    define low where "low = m AND - m"
    define r' where "r' = (if bit v j then r OR low else r)"
    have bitv: "(v AND push_bit j 1 \<noteq> 0) = bit v j" by (simp add: bit_iff_and_push_bit_not_eq_0)
    have bo: "bit v j = odd (unat v div 2 ^ j)" by (simp add: bit_iff_odd [symmetric] bit_unsigned_iff)
    have neg: "NOT m + 1 = - m" by (simp add: minus_eq_not_plus_1)
    have disj: "low AND (m AND (m - 1)) = 0"
      unfolding low_def minus_eq_not_minus_1 [of m] by (simp add: ac_simps)
    have rm: "r AND low = 0" "r AND (m AND (m - 1)) = 0" using 1(2) by (simp_all add: low_def and.assoc [symmetric])
    have r0: "r' AND (m AND (m - 1)) = 0" using disj rm by (simp add: r'_def bit.conj_disj_distrib2)
    have rp: "r' = r + (if odd (unat v div 2 ^ j) then low else 0)"
      using rm by (simp add: r'_def bo disjunctive_add_eq_or)
    have "deposit_loop v m r (push_bit j 1) = deposit_loop v (m AND (m - 1)) r' (push_bit (Suc j) 1)"
      using False by (subst deposit_loop.simps) (simp only: Let_def if_False bitv neg low_def [symmetric] r'_def [symmetric] push_bit_push_bit plus_1_eq_Suc)
    also have "\<dots> = r' + of_nat (ndep (unat (m AND (m - 1))) (unat v div 2 ^ Suc j))"
      by (rule 1(1) [OF False]) (use r0 bitv neg in \<open>simp_all add: r'_def low_def\<close>)
    also have "\<dots> = r + of_nat (ndep (unat m) (unat v div 2 ^ j))"
      unfolding rp lowest_word [OF False, of "unat v div 2 ^ j"] low_def [symmetric] by (simp add: div_mult2_eq [symmetric] mult.commute)
    finally show ?thesis .
  qed
qed

lemma unat_deposit: "unat (swizzle_deposit v m) = ndep (unat m) (unat v)"
proof -
  have "ndep (unat m) (unat v) < 2 ^ 32" using ndep_le [of "unat m" "unat v"] unat_u32 [of m] by simp
  then show ?thesis using deposit_loop_ndep [of 0 m v 0] by (simp add: swizzle_deposit_def unat_of_nat take_bit_nat_eq_self)
qed

section \<open>The masks describe the interleaving\<close>

lemma power_word: "k < 32 \<Longrightarrow> unat ((2 :: u32) ^ k) = 2 ^ k"
proof -
  assume "k < 32"
  then have "(2 :: nat) ^ k < 2 ^ 32" by (rule power_strict_increasing) simp
  then have "unat (of_nat (2 ^ k) :: u32) = 2 ^ k" by (simp add: unat_of_nat take_bit_nat_eq_self del: of_nat_power of_nat_numeral)
  then show ?thesis by simp
qed

lemma power_word_less: "k < 32 \<Longrightarrow> a < 32 \<Longrightarrow> (2 :: u32) ^ k < 2 ^ a \<longleftrightarrow> k < a"
  by (simp add: word_less_nat_alt power_word)

text \<open>A mask below \<open>2 ^ s\<close> that gets the bit \<open>s\<close>.\<close>

lemma add_mask_bit:
  assumes "xm < 2 ^ s" "s < 32" "npop xm = c"
  shows "(of_nat xm OR 2 ^ s :: u32) = of_nat (xm + 2 ^ s)" "npop (xm + 2 ^ s) = c + 1" "xm + 2 ^ s < 2 ^ (s + 1)"
    "ndep (xm + 2 ^ s) X = (if bit X c then ndep xm X OR 2 ^ s else ndep xm X)"
proof -
  have "(of_nat (xm OR 2 ^ s) :: u32) = of_nat xm OR 2 ^ s" by (simp add: of_nat_or_eq)
  then show "(of_nat xm OR 2 ^ s :: u32) = of_nat (xm + 2 ^ s)" using or_new_bit [OF assms(1)] by simp
  show "npop (xm + 2 ^ s) = c + 1" using npop_top [OF assms(1)] assms(3) by simp
  show "xm + 2 ^ s < 2 ^ (s + 1)" using assms(1) by simp
  have "ndep xm X < 2 ^ s" using ndep_le [of xm X] assms(1) by simp
  then show "ndep (xm + 2 ^ s) X = (if bit X c then ndep xm X OR 2 ^ s else ndep xm X)"
    using ndep_top [OF assms(1), of X] assms(3) by (simp add: or_new_bit)
qed

lemma or_disjoint_bits: "(xm :: nat) AND ym = 0 \<Longrightarrow> ym < 2 ^ s \<Longrightarrow> xm < 2 ^ s \<Longrightarrow> (xm + 2 ^ s) AND ym = 0 \<and> xm AND (ym + 2 ^ s) = 0"
proof -
  assume a: "xm AND ym = 0" "ym < 2 ^ s" "xm < 2 ^ s"
  have z: "\<not> bit z s" if "z < 2 ^ s" for z :: nat using that by (simp add: bit_iff_odd)
  have c: "\<not> (bit xm n \<and> bit ym n)" for n using arg_cong [OF a(1), of "\<lambda>z. bit z n"] by (simp add: bit_and_iff)
  have "(xm OR 2 ^ s) AND ym = 0" "xm AND (ym OR 2 ^ s) = 0"
    by (rule bit_eqI; use z [OF a(2)] z [OF a(3)] c in \<open>auto simp: bit_and_iff bit_or_iff bit_exp_iff\<close>)+
  then show ?thesis using or_new_bit a(2,3) by simp
qed

lemma masks_loop_morton:
  assumes "a + b < 32"
  shows "k \<le> max a b \<Longrightarrow> s = min k a + min k b \<Longrightarrow> xm < 2 ^ s \<Longrightarrow> ym < 2 ^ s \<Longrightarrow> xm AND ym = 0 \<Longrightarrow>
    npop xm = min k a \<Longrightarrow> npop ym = min k b \<Longrightarrow>
    \<exists>mx my. swizzle_masks_loop (2 ^ a) (2 ^ b) (of_nat xm) (of_nat ym) (2 ^ k) (2 ^ s) = Some (of_nat mx, of_nat my)
      \<and> mx < 2 ^ (a + b) \<and> my < 2 ^ (a + b) \<and> mx AND my = 0 \<and> npop mx = a \<and> npop my = b
      \<and> (\<forall>X Y. ndep mx X OR ndep my Y = morton_loop X Y (2 ^ a) (2 ^ b) k (ndep xm X OR ndep ym Y) s)"
proof (induction "max a b - k" arbitrary: k s xm ym)
  case 0
  then have k: "k = max a b" by linarith
  then have "\<not> ((2 :: u32) ^ k < 2 ^ a) \<and> \<not> ((2 :: u32) ^ k < 2 ^ b)" using assms by (simp add: power_word_less)
  moreover have "\<not> ((2 :: nat) ^ k < 2 ^ a) \<and> \<not> ((2 :: nat) ^ k < 2 ^ b)" using k by simp
  moreover have "s = a + b" using 0(3) k by simp
  ultimately show ?case using 0 k by (subst swizzle_masks_loop.simps, subst morton_loop.simps) auto
next
  case (Suc n)
  have k: "k < max a b" "k < 32" using Suc(2) assms by auto
  have s: "s < 32" using Suc(4) assms by simp
  define xm' where "xm' = (if k < a then xm + 2 ^ s else xm)"
  define s1 where "s1 = (if k < a then s + 1 else s)"
  define ym' where "ym' = (if k < b then ym + 2 ^ s1 else ym)"
  define s2 where "s2 = (if k < b then s1 + 1 else s1)"
  have s1: "s1 = min (Suc k) a + min k b" and s2: "s2 = min (Suc k) a + min (Suc k) b" using Suc(4) by (auto simp: s1_def s2_def min_def)
  have s1_32: "k < b \<Longrightarrow> s1 < 32" using assms by (simp add: s1 min_def split: if_splits)
  note X = add_mask_bit [OF Suc(5) s Suc(8)]
  have le1: "(2 :: nat) ^ s \<le> 2 ^ s1" by (simp add: s1_def)
  have ym1: "ym < 2 ^ s1" using Suc(6) le1 by (rule less_le_trans)
  have xm1: "xm' < 2 ^ s1" using X(3) Suc(5) by (simp add: xm'_def s1_def)
  have pop1: "npop xm' = min (Suc k) a" using X(2) Suc(8) by (simp add: xm'_def min_def)
  have dis1: "xm' AND ym = 0" using or_disjoint_bits [OF Suc(7,6,5)] Suc(7) by (simp add: xm'_def)
  have xm2: "xm' < 2 ^ s2" "ym' < 2 ^ s2" "npop ym' = min (Suc k) b" "xm' AND ym' = 0"
  proof -
    have le2: "(2 :: nat) ^ s1 \<le> 2 ^ s2" by (simp add: s2_def)
    show "xm' < 2 ^ s2" using xm1 le2 by (rule less_le_trans)
    show "ym' < 2 ^ s2" using ym1 by (simp add: ym'_def s2_def)
    show "npop ym' = min (Suc k) b" using npop_top [OF ym1] Suc(9) by (simp add: ym'_def min_def)
    show "xm' AND ym' = 0" using or_disjoint_bits [OF dis1 ym1 xm1] dis1 by (simp add: ym'_def)
  qed
  have w1: "(if (2 :: u32) ^ k < 2 ^ a then (of_nat xm OR 2 ^ s :: u32, push_bit 1 (2 ^ s) :: u32) else (of_nat xm, 2 ^ s)) = (of_nat xm', 2 ^ s1)"
    using k assms X(1) by (simp add: power_word_less xm'_def s1_def mult.commute)
  have w2: "(if (2 :: u32) ^ k < 2 ^ b then (of_nat ym OR 2 ^ s1 :: u32, push_bit 1 (2 ^ s1) :: u32) else (of_nat ym, 2 ^ s1)) = (of_nat ym', 2 ^ s2)"
    using k assms add_mask_bit(1) [OF ym1 s1_32 Suc(9)] by (simp add: power_word_less ym'_def s2_def mult.commute)
  have m1: "swizzle_masks_loop (2 ^ a) (2 ^ b) (of_nat xm) (of_nat ym) (2 ^ k) (2 ^ s) =
      swizzle_masks_loop (2 ^ a) (2 ^ b) (of_nat xm') (of_nat ym') (2 ^ Suc k) (2 ^ s2)"
  proof -
    have "(2 :: u32) ^ k < 2 ^ a \<or> (2 :: u32) ^ k < 2 ^ b" using k assms by (auto simp: power_word_less)
    then show ?thesis using w1 w2 by (subst swizzle_masks_loop.simps) (simp add: Let_def mult.commute split: prod.splits)
  qed
  have m2: "morton_loop XX YY (2 ^ a) (2 ^ b) k (ndep xm XX OR ndep ym YY) s =
      morton_loop XX YY (2 ^ a) (2 ^ b) (Suc k) (ndep xm' XX OR ndep ym' YY) s2" for XX YY
  proof -
    define i1 where "i1 = (if k < a \<and> bit XX k then (ndep xm XX OR ndep ym YY) OR 2 ^ s else ndep xm XX OR ndep ym YY)"
    have i1: "i1 = ndep xm' XX OR ndep ym YY" using X(4) [of XX] by (simp add: i1_def xm'_def min_def ac_simps)
    define i2 where "i2 = (if k < b \<and> bit YY k then i1 OR 2 ^ s1 else i1)"
    have i2: "i2 = ndep xm' XX OR ndep ym' YY"
      using add_mask_bit(4) [OF ym1 s1_32 Suc(9), of YY] by (simp add: i2_def i1 ym'_def min_def ac_simps)
    have "(2 :: nat) ^ k < 2 ^ a \<or> (2 :: nat) ^ k < 2 ^ b" using k by auto
    then have "morton_loop XX YY (2 ^ a) (2 ^ b) k (ndep xm XX OR ndep ym YY) s = morton_loop XX YY (2 ^ a) (2 ^ b) (Suc k) i2 s2"
      by (subst morton_loop.simps) (simp add: Let_def nat_and_power_nz i1_def i2_def s1_def s2_def split: prod.splits)
    then show ?thesis by (simp add: i2)
  qed
  have n: "n = max a b - Suc k" "Suc k \<le> max a b" using Suc(2) by linarith+
  show ?case unfolding m1 m2
    by (rule Suc(1) [OF n s2 xm2(1,2,4) pop1 xm2(3)])
qed

lemma masks_power:
  assumes "a + b < 32"
  obtains mx my where "xbox_swizzle_masks (2 ^ a) (2 ^ b) = Some (mx, my)" "mx AND my = 0"
    "\<And>X Y. ndep (unat mx) X OR ndep (unat my) Y = nv2a_texture_morton X Y (2 ^ a) (2 ^ b)"
proof -
  obtain mx my where m: "swizzle_masks_loop (2 ^ a) (2 ^ b) (of_nat 0) (of_nat 0) (2 ^ 0) (2 ^ 0) = Some (of_nat mx, of_nat my)"
      "mx < 2 ^ (a + b)" "my < 2 ^ (a + b)" "mx AND my = 0"
      "\<And>X Y. ndep mx X OR ndep my Y = morton_loop X Y (2 ^ a) (2 ^ b) 0 (ndep 0 X OR ndep 0 Y) 0"
    using masks_loop_morton [OF assms, of 0 0 0 0] by auto
  have "(2 :: nat) ^ (a + b) \<le> 2 ^ 32" using assms by (intro power_increasing) simp_all
  then have u: "unat (of_nat mx :: u32) = mx" "unat (of_nat my :: u32) = my" using m(2,3) by (simp_all add: unat_of_nat take_bit_nat_eq_self)
  show ?thesis
  proof (rule that)
    show "xbox_swizzle_masks (2 ^ a) (2 ^ b) = Some (of_nat mx, of_nat my)" using m(1) by (simp add: xbox_swizzle_masks_def)
    have "(of_nat (mx AND my) :: u32) = 0" using m(4) by simp
    then show "(of_nat mx AND of_nat my :: u32) = 0" by (simp add: of_nat_and_eq)
    show "\<And>X Y. ndep (unat (of_nat mx :: u32)) X OR ndep (unat (of_nat my :: u32)) Y = nv2a_texture_morton X Y (2 ^ a) (2 ^ b)"
      unfolding u using m(5) by (simp add: nv2a_texture_morton_def)
  qed
qed

section \<open>The row walk visits the deposits\<close>

lemma fold_walk:
  "fold (\<lambda>x (d, off). (G x off d, step off)) [0..<n] (d, off0) = (fold (\<lambda>x. G x ((step ^^ x) off0)) [0..<n] d, (step ^^ n) off0)"
  by (induction n) simp_all

lemma walk_deposit:
  fixes m :: u32
  shows "unat (((\<lambda>off. (off - m) AND m) ^^ n) 0) = ndep (unat m) n"
proof (induction n)
  case 0
  have "ndep k 0 = 0" for k by (induction k rule: nat_bits_induct) (simp_all add: ndep_double ndep_odd)
  then show ?case by simp
next
  case (Suc n)
  then show ?case using masked_increment_word [OF Suc] by simp
qed

lemma ndep_part:
  fixes o1 m :: u32
  assumes "unat o1 = ndep (unat m) x"
  shows "o1 AND m = o1"
proof -
  have "uint (o1 AND m) = uint o1 AND uint m" by (rule unsigned_and_eq)
  also have "\<dots> = uint o1" unfolding uint_unat assms by (rule ndep_subset)
  finally show ?thesis by (simp only: word_uint_eq_iff)
qed

lemma unat_sum_or:
  fixes o1 o2 mx my :: u32
  assumes "unat o1 = ndep (unat mx) x" "unat o2 = ndep (unat my) y" "mx AND my = 0"
  shows "unat (o2 + o1 :: u32) = unat o1 OR unat o2"
proof -
  have "o2 AND o1 = (o2 AND my) AND (o1 AND mx)" using ndep_part [OF assms(1)] ndep_part [OF assms(2)] by simp
  also have "\<dots> = (o2 AND o1) AND (mx AND my)" by (simp add: ac_simps)
  finally have "o2 AND o1 = 0" using assms(3) by simp
  then have "o2 + o1 = o2 OR o1" by (rule disjunctive_add_eq_or)
  then show ?thesis by (simp add: unsigned_or_eq or.commute)
qed

lemma fold_concat_map: "fold f (concat (map g xs)) d = fold (\<lambda>x. fold f (g x)) xs d"
  by (induction xs arbitrary: d) simp_all

lemma len32: "LENGTH(32) = 32" by simp

lemma walk_is_pixel_fold:
  assumes "a + b < 32" "2 ^ a * 2 ^ b * unat bpp < 2 ^ 32"
    and "xbox_swizzle_masks (2 ^ a) (2 ^ b) = Some (mx, my)" "mx AND my = 0"
    and "\<And>X Y. ndep (unat mx) X OR ndep (unat my) Y = nv2a_texture_morton X Y (2 ^ a) (2 ^ b)"
  shows "swizzle_walk copy (2 ^ a) (2 ^ b) bpp mx my dst =
    fold (\<lambda>(x, y) d. copy d ((y * 2 ^ a + x) * unat bpp) (nv2a_texture_morton x y (2 ^ a) (2 ^ b) * unat bpp)) (pixels_of (2 ^ a) (2 ^ b)) dst"
proof -
  let ?B = "unat bpp" and ?ox = "\<lambda>x. ((\<lambda>off. (off - mx) AND mx) ^^ x) 0" and ?oy = "\<lambda>y. ((\<lambda>off. (off - my) AND my) ^^ y) 0"
  have w: "unat ((2 :: u32) ^ a) = 2 ^ a" "unat ((2 :: u32) ^ b) = 2 ^ b" using assms(1) by (simp_all add: power_word)
  have swiz: "unat ((?oy y + ?ox x) * bpp) = nv2a_texture_morton x y (2 ^ a) (2 ^ b) * ?B" for x y
  proof -
    have "unat (?oy y + ?ox x) = nv2a_texture_morton x y (2 ^ a) (2 ^ b)"
      unfolding unat_sum_or [OF walk_deposit walk_deposit assms(4)] walk_deposit assms(5) ..
    moreover have "nv2a_texture_morton x y (2 ^ a) (2 ^ b) * ?B \<le> 2 ^ a * 2 ^ b * ?B"
      using morton_below [of x y a b] by (intro mult_right_mono) simp_all
    then have "nv2a_texture_morton x y (2 ^ a) (2 ^ b) * ?B < 2 ^ 32" using assms(2) by (rule le_less_trans)
    then have "nv2a_texture_morton x y (2 ^ a) (2 ^ b) * ?B < 2 ^ LENGTH(32)" by simp
    ultimately show ?thesis unfolding unat_word_ariths(2) by (simp only: mod_less)
  qed
  have lin: "unat (of_nat y * 2 ^ a * bpp :: u32) + column_offset bpp x = (y * 2 ^ a + x) * ?B" if "x < 2 ^ a" "y < 2 ^ b" for x y
  proof -
    have "y * 2 ^ a \<le> 2 ^ a * 2 ^ b" using that by (simp add: mult.commute)
    then have "y * 2 ^ a * ?B \<le> 2 ^ a * 2 ^ b * ?B" by (rule mult_le_mono1)
    then have y: "y * 2 ^ a * ?B < 2 ^ 32" using assms(2) by (rule le_less_trans)
    have "x \<le> 2 ^ a * 2 ^ b" using mult_le_mono [of x "2 ^ a" 1 "2 ^ b"] that(1) by simp
    then have "x * ?B \<le> 2 ^ a * 2 ^ b * ?B" by (rule mult_le_mono1)
    then have x: "x * ?B < 2 ^ 32" using assms(2) by (rule le_less_trans)
    have "unat (of_nat y * 2 ^ a * bpp :: u32) = y * 2 ^ a * ?B"
    proof -
      have "(of_nat (y * 2 ^ a * ?B) :: u32) = of_nat y * 2 ^ a * bpp" by simp
      then have "unat (of_nat y * 2 ^ a * bpp :: u32) = unat (of_nat (y * 2 ^ a * ?B) :: u32)" by (simp only:)
      also have "\<dots> = y * 2 ^ a * ?B" unfolding unat_of_nat using y by (simp only: len32 mod_less)
      finally show ?thesis .
    qed
    moreover have "column_offset bpp x = x * ?B"
    proof -
      have "(of_nat (x * ?B) :: u32) = of_nat x * bpp" by simp
      then have "unat (of_nat x * bpp :: u32) = unat (of_nat (x * ?B) :: u32)" by (simp only:)
      also have "\<dots> = x * ?B" unfolding unat_of_nat using x by (simp only: len32 mod_less)
      finally show ?thesis by (simp add: column_offset_def)
    qed
    ultimately show ?thesis by (simp add: algebra_simps)
  qed
  have "swizzle_walk copy (2 ^ a) (2 ^ b) bpp mx my dst =
      fold (\<lambda>y. fold (\<lambda>x d. copy d (unat (of_nat y * 2 ^ a * bpp) + column_offset bpp x) (unat ((?oy y + ?ox x) * bpp))) [0..<2 ^ a]) [0..<2 ^ b] dst"
    unfolding swizzle_walk_def Let_def w
    unfolding fold_walk [where step = "\<lambda>off. (off - mx) AND mx" and G = "\<lambda>x off d. copy d (C + column_offset bpp x) (unat ((D + off) * bpp))" for C D] prod.case
    unfolding fold_walk [where step = "\<lambda>off. (off - my) AND my" and G = "\<lambda>y off d. fold (\<lambda>x. (\<lambda>d. copy d (unat (of_nat y * 2 ^ a * bpp) + column_offset bpp x) (unat ((off + ?ox x) * bpp)))) [0..<2 ^ a] d"]
    by simp
  also have "\<dots> = fold (\<lambda>y. fold (\<lambda>x d. copy d ((y * 2 ^ a + x) * ?B) (nv2a_texture_morton x y (2 ^ a) (2 ^ b) * ?B)) [0..<2 ^ a]) [0..<2 ^ b] dst"
    unfolding swiz by (intro fold_cong refl ext) (auto simp: lin)
  also have "\<dots> = fold (\<lambda>(x, y) d. copy d ((y * 2 ^ a + x) * ?B) (nv2a_texture_morton x y (2 ^ a) (2 ^ b) * ?B)) (pixels_of (2 ^ a) (2 ^ b)) dst"
    by (simp add: pixels_of_def fold_concat_map fold_map comp_def)
  finally show ?thesis .
qed

section \<open>Copying every texel\<close>

lemma fold_copies:
  assumes "distinct ps" "inj_on f (set ps)" "\<And>p. p \<in> set ps \<Longrightarrow> f p * B + B \<le> length d" "\<And>p. p \<in> set ps \<Longrightarrow> length (g p) = B"
  shows "length (fold (\<lambda>p d. memcpy_at d (f p * B) (g p)) ps d) = length d
    \<and> (\<forall>p \<in> set ps. \<forall>k < B. fold (\<lambda>p d. memcpy_at d (f p * B) (g p)) ps d ! (f p * B + k) = g p ! k)
    \<and> (\<forall>i < length d. (\<forall>p \<in> set ps. i div B \<noteq> f p) \<longrightarrow> fold (\<lambda>p d. memcpy_at d (f p * B) (g p)) ps d ! i = d ! i)"
  using assms
proof (induction ps arbitrary: d)
  case (Cons p ps)
  define d1 where "d1 = memcpy_at d (f p * B) (g p)"
  have fit: "f p * B + B \<le> length d" "length (g p) = B" using Cons.prems by simp_all
  have l1: "length d1 = length d" using fit by (simp add: d1_def length_memcpy_at)
  have new: "d1 ! (f p * B + k) = g p ! k" if "k < B" for k using fit that by (simp add: d1_def memcpy_at_def nth_append)
  have old: "d1 ! i = d ! i" if "i < length d" "i div B \<noteq> f p" for i
  proof -
    have "i < f p * B \<or> f p * B + B \<le> i"
    proof (rule ccontr)
      assume "\<not> (i < f p * B \<or> f p * B + B \<le> i)"
      then have "i div B = f p" by (intro div_nat_eqI) (simp_all add: mult.commute)
      then show False using that by simp
    qed
    then show ?thesis using fit that by (auto simp: d1_def memcpy_at_def nth_append)
  qed
  have IH: "length (fold (\<lambda>p d. memcpy_at d (f p * B) (g p)) ps d1) = length d1
    \<and> (\<forall>p \<in> set ps. \<forall>k < B. fold (\<lambda>p d. memcpy_at d (f p * B) (g p)) ps d1 ! (f p * B + k) = g p ! k)
    \<and> (\<forall>i < length d1. (\<forall>p \<in> set ps. i div B \<noteq> f p) \<longrightarrow> fold (\<lambda>p d. memcpy_at d (f p * B) (g p)) ps d1 ! i = d1 ! i)"
    by (rule Cons.IH) (use Cons.prems l1 in auto)
  have own: "fold (\<lambda>p d. memcpy_at d (f p * B) (g p)) ps d1 ! (f p * B + k) = g p ! k" if "k < B" for k
  proof -
    have "(f p * B + k) div B = f p" using that by simp
    moreover have "\<forall>q \<in> set ps. f p \<noteq> f q" using Cons.prems(1,2) by auto
    ultimately have "fold (\<lambda>p d. memcpy_at d (f p * B) (g p)) ps d1 ! (f p * B + k) = d1 ! (f p * B + k)"
      using IH fit that l1 by simp
    then show ?thesis using new [OF that] by simp
  qed
  show ?case using IH own old l1 by (auto simp: d1_def [symmetric])
qed simp

lemma linear_block:
  assumes "x < w" "y < h"
  shows "(y * w + x) * B + B \<le> w * h * (B :: nat)"
proof -
  have "Suc y * w \<le> h * w" using assms(2) by (intro mult_le_mono1) simp
  then have "y * w + x < h * w" using assms(1) by simp
  then have "Suc (y * w + x) \<le> w * h" by (simp add: mult.commute)
  then have "Suc (y * w + x) * B \<le> w * h * B" by (rule mult_le_mono1)
  then show ?thesis by (simp add: algebra_simps)
qed

lemma morton_block: "nv2a_texture_morton x y (2 ^ a) (2 ^ b) * B + B \<le> 2 ^ a * 2 ^ b * B"
proof -
  have "Suc (nv2a_texture_morton x y (2 ^ a) (2 ^ b)) * B \<le> 2 ^ a * 2 ^ b * B"
    using morton_below [of x y a b] by (intro mult_le_mono1) simp
  then show ?thesis by (simp add: algebra_simps)
qed

lemma linear_inj: "inj_on (\<lambda>(x, y). y * w + x) (set (pixels_of w h))"
proof (rule inj_onI)
  fix p q assume "p \<in> set (pixels_of w h)" "q \<in> set (pixels_of w h)" and e: "(\<lambda>(x, y). y * w + x) p = (\<lambda>(x, y). y * w + x) q"
  then obtain x y x' y' where p: "p = (x, y)" "q = (x', y')" "x < w" "x' < w" by (auto simp: pixels_of_props)
  have e2: "y * w + x = y' * w + x'" using e p(1,2) by simp
  have d: "(y * w + x) div w = y" "(y' * w + x') div w = y'" using p(3,4) by simp_all
  have "y = y'" using d e2 by simp
  moreover have "x = x'" using e2 \<open>y = y'\<close> by simp
  ultimately show "p = q" using p by simp
qed

lemma morton_inj: "inj_on (\<lambda>(x, y). nv2a_texture_morton x y w h) (set (pixels_of w h))"
proof (rule inj_onI)
  fix p q assume "p \<in> set (pixels_of w h)" "q \<in> set (pixels_of w h)"
    and e: "(\<lambda>(x, y). nv2a_texture_morton x y w h) p = (\<lambda>(x, y). nv2a_texture_morton x y w h) q"
  then obtain x y x' y' where p: "p = (x, y)" "q = (x', y')" "x < w" "y < h" "x' < w" "y' < h" by (auto simp: pixels_of_props)
  have e2: "nv2a_texture_morton x y w h = nv2a_texture_morton x' y' w h" using e p(1,2) by simp
  then show "p = q" using morton_inject [of x w y h x' y'] p by blast
qed

section \<open>Properties\<close>

text \<open>
  Claim C16: Interleaving the coordinates through the masks, as the samplers do, gives the
  very texel index the texture decoder computes bit by bit, for every power-of-two texture.
\<close>

theorem swizzle_offset_is_the_decoder_address:
  assumes "a + b < 32"
  shows "\<exists>i. swizzle_offset x y (2 ^ a) (2 ^ b) = Some i \<and> unat i = nv2a_texture_morton (unat x) (unat y) (2 ^ a) (2 ^ b)"
proof -
  obtain mx my where m: "xbox_swizzle_masks (2 ^ a) (2 ^ b) = Some (mx, my)" "mx AND my = 0"
    "\<And>X Y. ndep (unat mx) X OR ndep (unat my) Y = nv2a_texture_morton X Y (2 ^ a) (2 ^ b)"
    using masks_power [OF assms] by blast
  define i where "i = swizzle_deposit x mx OR swizzle_deposit y my"
  have "unat i = ndep (unat mx) (unat x) OR ndep (unat my) (unat y)"
    unfolding i_def unsigned_or_eq unat_deposit ..
  then have "unat i = nv2a_texture_morton (unat x) (unat y) (2 ^ a) (2 ^ b)" unfolding m(3) .
  moreover have "swizzle_offset x y (2 ^ a) (2 ^ b) = Some i"
    unfolding swizzle_offset_def m(1) i_def option.map prod.case ..
  ultimately show ?thesis by blast
qed

lemma unswizzle_every_texel:
  assumes "a + b < 32" "2 ^ a * 2 ^ b * unat bpp < 2 ^ 32" "length src = 2 ^ a * 2 ^ b * unat bpp" "length dst = length src"
  shows "\<exists>out. xbox_unswizzle_rect dst src (2 ^ a) (2 ^ b) bpp = Some out \<and> length out = length src
    \<and> (\<forall>x < 2 ^ a. \<forall>y < 2 ^ b. \<forall>k < unat bpp.
        out ! ((y * 2 ^ a + x) * unat bpp + k) = src ! (nv2a_texture_morton x y (2 ^ a) (2 ^ b) * unat bpp + k))"
proof -
  obtain mx my where m: "xbox_swizzle_masks (2 ^ a) (2 ^ b) = Some (mx, my)" "mx AND my = 0"
    "\<And>X Y. ndep (unat mx) X OR ndep (unat my) Y = nv2a_texture_morton X Y (2 ^ a) (2 ^ b)"
    using masks_power [OF assms(1)] by blast
  let ?B = "unat bpp" and ?w = "2 ^ a :: nat" and ?h = "2 ^ b :: nat"
  let ?f = "\<lambda>(x, y). y * ?w + x" and ?g = "\<lambda>(x, y). take ?B (drop (nv2a_texture_morton x y ?w ?h * ?B) src)"
  define out where "out = fold (\<lambda>p d. memcpy_at d (?f p * ?B) (?g p)) (pixels_of ?w ?h) dst"
  have u: "xbox_unswizzle_rect dst src (2 ^ a) (2 ^ b) bpp = Some out"
    unfolding xbox_unswizzle_rect_def m(1) out_def
    by (simp add: walk_is_pixel_fold [OF assms(1,2) m] copy_bytes_def case_prod_unfold)
  have glen: "length (?g p) = ?B" for p
    using morton_block [of "fst p" "snd p" a b ?B] assms(3) by (simp add: case_prod_unfold)
  have c: "length out = length dst \<and> (\<forall>p \<in> set (pixels_of ?w ?h). \<forall>k < ?B. out ! (?f p * ?B + k) = ?g p ! k)"
    unfolding out_def using fold_copies [OF pixels_of_props(1) linear_inj, of ?w ?h ?B dst ?g] glen linear_block assms(3,4)
    by (auto simp: pixels_of_props)
  have "out ! ((y * ?w + x) * ?B + k) = src ! (nv2a_texture_morton x y ?w ?h * ?B + k)" if "x < ?w" "y < ?h" "k < ?B" for x y k
  proof -
    have "(x, y) \<in> set (pixels_of ?w ?h)" using that by (simp add: pixels_of_props)
    then have "out ! ((y * ?w + x) * ?B + k) = ?g (x, y) ! k" using c that by force
    moreover have "nv2a_texture_morton x y ?w ?h * ?B \<le> length src" using morton_block [of x y a b ?B] assms(3) by linarith
    ultimately show ?thesis using that(3) by (simp add: nth_drop)
  qed
  then show ?thesis using u c assms(4) by auto
qed

lemma pixel_split:
  assumes "i < w * h * (B :: nat)"
  shows "\<exists>x y k. x < w \<and> y < h \<and> k < B \<and> i = (y * w + x) * B + k"
proof -
  have B: "0 < B" "0 < w" using assms by (auto intro: gr0I)
  have "i div B < h * w" using assms by (intro less_mult_imp_div_less) (simp only: mult.commute [of h])
  then have "i div B div w < h" by (rule less_mult_imp_div_less)
  moreover have "i div B mod w < w" "i mod B < B" using B by simp_all
  moreover have "i = (i div B div w * w + i div B mod w) * B + i mod B" by (simp only: div_mult_mod_eq)
  ultimately show ?thesis by blast
qed

text \<open>
  Claim C9: Swizzling an image and unswizzling the result gives the image back, whatever the
  two destination buffers held, for every power-of-two size and texel size whose image fits
  32 bits.
\<close>

theorem swizzle_round_trip:
  assumes "a + b < 32" "2 ^ a * 2 ^ b * unat bpp < 2 ^ 32" "length img = 2 ^ a * 2 ^ b * unat bpp"
    and "length buf = length img" "length out = length img"
  shows "\<exists>swz. xbox_swizzle_rect buf img (2 ^ a) (2 ^ b) bpp = Some swz \<and> xbox_unswizzle_rect out swz (2 ^ a) (2 ^ b) bpp = Some img"
proof -
  obtain mx my where m: "xbox_swizzle_masks (2 ^ a) (2 ^ b) = Some (mx, my)" "mx AND my = 0"
    "\<And>X Y. ndep (unat mx) X OR ndep (unat my) Y = nv2a_texture_morton X Y (2 ^ a) (2 ^ b)"
    using masks_power [OF assms(1)] by blast
  let ?B = "unat bpp" and ?w = "2 ^ a :: nat" and ?h = "2 ^ b :: nat"
  let ?f = "\<lambda>(x, y). nv2a_texture_morton x y ?w ?h" and ?g = "\<lambda>(x, y). take ?B (drop ((y * ?w + x) * ?B) img)"
  define swz where "swz = fold (\<lambda>p d. memcpy_at d (?f p * ?B) (?g p)) (pixels_of ?w ?h) buf"
  have u: "xbox_swizzle_rect buf img (2 ^ a) (2 ^ b) bpp = Some swz"
    unfolding xbox_swizzle_rect_def m(1) swz_def
    by (simp add: walk_is_pixel_fold [OF assms(1,2) m] copy_bytes_def case_prod_unfold)
  have glen: "length (?g p) = ?B" if "p \<in> set (pixels_of ?w ?h)" for p
    using that linear_block [of "fst p" ?w "snd p" ?h ?B] assms(3) by (auto simp: pixels_of_props case_prod_unfold)
  have fit: "?f p * ?B + ?B \<le> length buf" for p
    using morton_block [of "fst p" "snd p" a b ?B] assms(3,4) by (simp add: case_prod_unfold)
  have c: "length swz = length buf \<and> (\<forall>p \<in> set (pixels_of ?w ?h). \<forall>k < ?B. swz ! (?f p * ?B + k) = ?g p ! k)"
    unfolding swz_def using fold_copies [OF pixels_of_props(1) morton_inj, of ?w ?h ?B buf ?g] glen fit by blast
  have len: "length swz = ?w * ?h * ?B" "length out = length swz" using c assms(3-5) by simp_all
  obtain res where r: "xbox_unswizzle_rect out swz (2 ^ a) (2 ^ b) bpp = Some res" "length res = length swz"
    "\<And>x y k. x < ?w \<Longrightarrow> y < ?h \<Longrightarrow> k < ?B \<Longrightarrow> res ! ((y * ?w + x) * ?B + k) = swz ! (nv2a_texture_morton x y ?w ?h * ?B + k)"
    using unswizzle_every_texel [OF assms(1,2) len] by blast
  have "res = img"
  proof (rule nth_equalityI)
    show "length res = length img" using r(2) len assms(3) by simp
    fix i assume "i < length res"
    then have "i < ?w * ?h * ?B" using r(2) len by simp
    from pixel_split [OF this] obtain x y k where i: "x < ?w" "y < ?h" "k < ?B" "i = (y * ?w + x) * ?B + k" by blast
    have p: "(x, y) \<in> set (pixels_of ?w ?h)" using i by (simp add: pixels_of_props)
    have "res ! i = swz ! (?f (x, y) * ?B + k)" unfolding i(4) using r(3) [OF i(1-3)] by simp
    also have "\<dots> = ?g (x, y) ! k" using c p i(3) by blast
    also have "\<dots> = img ! i" unfolding i(4) prod.case nth_take [OF i(3)]
      by (rule nth_drop) (use linear_block [OF i(1,2), of ?B] assms(3) in linarith)
    finally show "res ! i = img ! i" .
  qed
  then show ?thesis using u r(1) by blast
qed

theorem sampler_address_witness:
  "\<exists>i. swizzle_offset 3 5 (2 ^ 2) (2 ^ 3) = Some i \<and> unat i = nv2a_texture_morton 3 5 4 8"
  using swizzle_offset_is_the_decoder_address [of 2 3 3 5] by simp

theorem swizzle_round_trip_witness:
  "\<exists>swz. xbox_swizzle_rect (replicate 16 0) [1, 2, 3, 4, 5, 6, 7, 8, 9, 10, 11, 12, 13, 14, 15, 16] (2 ^ 2) (2 ^ 1) 2 = Some swz
    \<and> xbox_unswizzle_rect (replicate 16 255) swz (2 ^ 2) (2 ^ 1) 2 = Some [1, 2, 3, 4, 5, 6, 7, 8, 9, 10, 11, 12, 13, 14, 15, 16]"
  using swizzle_round_trip [of 2 1 2 "[1, 2, 3, 4, 5, 6, 7, 8, 9, 10, 11, 12, 13, 14, 15, 16]" "replicate 16 0" "replicate 16 255"]
  by simp

text \<open>
  Claim C1: The mask generator never returns for an extent above \<open>2 ^ 31\<close>: its doubling bit
  reaches zero, which stays below every extent.
\<close>

theorem huge_extent_never_returns:
  assumes "0x80000000 < width"
  shows "xbox_swizzle_masks width height = None"
proof (rule ccontr)
  assume "xbox_swizzle_masks width height \<noteq> None"
  then obtain r where r: "swizzle_masks_loop width height 0 0 1 1 = Some r" by (auto simp: xbox_swizzle_masks_def)
  have "\<not> (width = width \<and> (\<exists>k. (1 :: u32) = push_bit k 1))"
  proof (rule swizzle_masks_loop.raw_induct [where P = "\<lambda>w h x y b m r. \<not> (w = width \<and> (\<exists>k. b = push_bit k 1))"
      and xa = "(((((width, height), 0), 0), 1), 1)", unfolded prod.case, OF _ r])
    fix f w h x y b m r
    assume IH: "\<And>w h x y b m r. f w h x y b m = Some r \<Longrightarrow> \<not> (w = width \<and> (\<exists>k. b = push_bit k 1))"
      and body: "(if b < w \<or> b < h
        then let (x, m) = (if b < w then (x OR m, push_bit 1 m) else (x, m));
                 (y, m) = (if b < h then (y OR m, push_bit 1 m) else (y, m))
             in f w h x y (push_bit 1 b) m
        else Some (x, y)) = Some r"
    show "\<not> (w = width \<and> (\<exists>k. b = push_bit k 1))"
    proof
      assume a: "w = width \<and> (\<exists>k. b = push_bit k 1)"
      then obtain k where k: "b = push_bit k 1" by blast
      have "b \<le> 0x80000000"
      proof (cases "k < 32")
        case True
        then have "unat b = 2 ^ k" unfolding k by (simp add: power_word push_bit_eq_mult)
        moreover have "(2 :: nat) ^ k \<le> 2 ^ 31" using True by (intro power_increasing) simp_all
        ultimately have "unat b \<le> 2 ^ 31" by (simp only:)
        then show ?thesis by (simp add: word_le_nat_alt)
      next
        case False
        then have "b = 0" unfolding k by (intro bit_word_eqI) (simp add: bit_simps)
        then show ?thesis by simp
      qed
      then have "b < w" using a assms by simp
      then have "\<exists>x' y' m'. f w h x' y' (push_bit 1 b) m' = Some r"
        using body by (cases "b < h") (simp_all add: Let_def, blast+)
      then obtain x' y' m' where "f w h x' y' (push_bit 1 b) m' = Some r" by blast
      from IH [OF this] have "\<nexists>k. push_bit 1 b = push_bit k 1" using a by blast
      moreover have "push_bit 1 b = push_bit (Suc k) 1" unfolding k by simp
      ultimately show False by blast
    qed
  qed
  then show False using push_bit_of_0 by (metis push_bit_0_id id_apply)
qed

theorem huge_extent_witness: "xbox_swizzle_masks 0x80000001 4 = None"
  by (rule huge_extent_never_returns) simp

end
