(* ===== verification/D3d8_Dxt.thy ===== *)
theory D3d8_Dxt
  imports D3d8_Swizzle
begin

text \<open>
  The block formats of \<open>src/d3d/d3d8_swizzle.h\<close>: the texel decoder the software sampler uses for
  DXT1, DXT3 and DXT5, and the classification of formats into swizzled and not. The words are
  32 bits as in the code and a texture is a list of bytes. The decoder is compared with the
  texture upload's decoder of \<open>Nv2a_Texture_Decode\<close>: alpha is the same, a colour channel is the
  same or one lower.
\<close>

section \<open>Block formats\<close>

definition d3d8_expand_channel :: "u32 \<Rightarrow> nat \<Rightarrow> u32" where
  "d3d8_expand_channel v bits = v * 255 div (push_bit bits 1 - 1)"

definition d3d8_format_dxt_block_bytes :: "u32 \<Rightarrow> u32" where
  "d3d8_format_dxt_block_bytes fmt = (if fmt = 0x0C then 8 else if fmt = 0x0E then 16 else if fmt = 0x0F then 16 else 0)"

text \<open>A byte read into a 32-bit word.\<close>

definition dxt_byte :: "u8 list \<Rightarrow> nat \<Rightarrow> u32" where
  "dxt_byte b i = ucast (b ! i)"

definition dxt3_alpha :: "u8 list \<Rightarrow> nat \<Rightarrow> nat \<Rightarrow> u32" where
  "dxt3_alpha base b texel =
     (let nib = dxt_byte base (b + texel div 2)
      in d3d8_expand_channel (if odd texel then drop_bit 4 nib else nib AND 0x0F) 4)"

definition dxt5_alpha_table :: "u32 \<Rightarrow> u32 \<Rightarrow> u32 list" where
  "dxt5_alpha_table a0 a1 =
     (if a0 > a1 then a0 # a1 # map (\<lambda>i. ((7 - of_nat i) * a0 + of_nat i * a1) div 7) [1..<7]
      else a0 # a1 # map (\<lambda>i. ((5 - of_nat i) * a0 + of_nat i * a1) div 5) [1..<5] @ [0, 255])"

definition dxt5_alpha :: "u8 list \<Rightarrow> nat \<Rightarrow> nat \<Rightarrow> u32" where
  "dxt5_alpha base b texel =
     (let bits = fold (\<lambda>i bits. bits OR push_bit (8 * i) (ucast (base ! (b + 2 + i)))) [0..<6] (0 :: u64);
          sel = unat (drop_bit (3 * texel) bits AND 7)
      in dxt5_alpha_table (dxt_byte base b) (dxt_byte base (b + 1)) ! sel)"

definition dxt_endpoint :: "u32 \<Rightarrow> u32" where
  "dxt_endpoint rgb =
     push_bit 16 (d3d8_expand_channel (drop_bit 11 rgb AND 0x1F) 5) OR
     push_bit 8 (d3d8_expand_channel (drop_bit 5 rgb AND 0x3F) 6) OR
     d3d8_expand_channel (rgb AND 0x1F) 5"

text \<open>
  The two interpolated colours. The code builds them channel by channel in two words that start
  uninitialised; their starting contents are the arguments \<open>u2\<close> and \<open>u3\<close>.
\<close>

definition dxt_set_channel :: "nat \<Rightarrow> u32 \<Rightarrow> u32 \<Rightarrow> u32" where
  "dxt_set_channel sh v c = (c AND NOT (push_bit sh 0xFF)) OR push_bit sh v"

definition dxt_palette :: "bool \<Rightarrow> u32 \<Rightarrow> u32 \<Rightarrow> u32 \<Rightarrow> u32 \<Rightarrow> u32 list" where
  "dxt_palette four p0 p1 u2 u3 =
     (let m0 = \<lambda>sh. drop_bit sh p0 AND 0xFF; m1 = \<lambda>sh. drop_bit sh p1 AND 0xFF
      in if four
         then [p0, p1, fold (\<lambda>sh. dxt_set_channel sh ((2 * m0 sh + m1 sh) div 3)) [0, 8, 16] u2,
                       fold (\<lambda>sh. dxt_set_channel sh ((m0 sh + 2 * m1 sh) div 3)) [0, 8, 16] u3]
         else [p0, p1, fold (\<lambda>sh. dxt_set_channel sh ((m0 sh + m1 sh) div 2)) [0, 8, 16] u2, 0])"

definition dxt_colour_word :: "u8 list \<Rightarrow> nat \<Rightarrow> u32" where
  "dxt_colour_word base at = dxt_byte base at OR push_bit 8 (dxt_byte base (at + 1))"

definition dxt_index :: "u8 list \<Rightarrow> nat \<Rightarrow> nat \<Rightarrow> nat" where
  "dxt_index base b texel =
     unat (drop_bit (2 * texel) (dxt_byte base (b + 4) OR push_bit 8 (dxt_byte base (b + 5)) OR
       push_bit 16 (dxt_byte base (b + 6)) OR push_bit 24 (dxt_byte base (b + 7))) AND 3)"

definition d3d8_dxt_decode_texel :: "u32 \<Rightarrow> u32 \<Rightarrow> u8 list \<Rightarrow> u32 \<Rightarrow> u32 \<Rightarrow> u32 \<Rightarrow> u32 \<Rightarrow> u32 option" where
  "d3d8_dxt_decode_texel u2 u3 base fmt u v width =
     (let block_bytes = d3d8_format_dxt_block_bytes fmt; blocks_per_row = (width + 3) div 4;
          texel = unat ((v AND 3) * 4 + (u AND 3))
      in if block_bytes = 0 \<or> blocks_per_row = 0 then None
         else let b = unat ((ucast (drop_bit 2 v) * ucast blocks_per_row + ucast (drop_bit 2 u)) * ucast block_bytes :: u64);
                  (alpha, b) = (if block_bytes = 16
                    then (if fmt = 0x0E then dxt3_alpha base b texel else dxt5_alpha base b texel, b + 8)
                    else (255, b));
                  c0 = dxt_colour_word base b; c1 = dxt_colour_word base (b + 2);
                  c = dxt_palette (c0 > c1 \<or> block_bytes = 16) (dxt_endpoint c0) (dxt_endpoint c1) u2 u3;
                  idx = dxt_index base b texel;
                  alpha = (if block_bytes = 8 \<and> c0 \<le> c1 \<and> idx = 3 then 0 else alpha)
              in Some (push_bit 24 alpha OR (c ! idx AND 0x00FFFFFF)))"

definition d3d8_format_is_swizzled :: "u32 \<Rightarrow> bool" where
  "d3d8_format_is_swizzled fmt \<longleftrightarrow>
     \<not> (fmt \<in> {0x10, 0x11, 0x12, 0x13, 0x14, 0x15, 0x16, 0x17, 0x18, 0x1B, 0x1C, 0x1D, 0x1E, 0x1F, 0x20,
               0x2E, 0x2F, 0x30, 0x31, 0x35, 0x36, 0x37, 0x3D, 0x3E, 0x3F, 0x40, 0x41,
               0x5B, 0x5C, 0x5D, 0x5E, 0x5F, 0x60, 0x61, 0x62, 0x63, 0x79, 0x7A, 0x67, 0x68,
               0x69, 0x6A, 0x6B, 0x6C, 0x6D, 0x6E, 0x6F, 0x70, 0x71, 0x72, 0x73, 0x74, 0x75, 0x76, 0x77, 0x78}) \<and>
     fmt \<notin> {0x0C, 0x0E, 0x0F, 0x57, 0x59, 0x5A, 0x58} \<and>
     fmt \<notin> {101, 102, 0x2A, 0x2B, 0x2C, 0x2D, 0x54, 0x55, 0x56} \<and>
     fmt \<notin> {0x24, 0x25}"

subsection \<open>Channels of a packed colour\<close>

lemma ff_mask: "(0xFF :: u32) = mask 8" "(0x00FFFFFF :: u32) = mask 24"
  by (simp_all add: mask_eq_exp_minus_1)

lemma byte_bits:
  assumes "v < (256 :: u32)" "bit v n"
  shows "n < 8"
proof (rule ccontr)
  assume "\<not> n < 8"
  then have "(2 :: nat) ^ 8 \<le> 2 ^ n" by (intro power_increasing) simp_all
  moreover have "unat v < 2 ^ 8" using assms(1) by (simp add: word_less_nat_alt)
  ultimately have "unat v < 2 ^ n" by linarith
  then have "\<not> bit (unat v) n" by (simp add: bit_iff_odd)
  then show False using assms(2) by (simp add: bit_unsigned_iff)
qed

lemma packed_channels:
  assumes "r < 256" "g < 256" "b < (256 :: u32)"
  shows "drop_bit 16 (push_bit 16 r OR push_bit 8 g OR b) AND 0xFF = r"
    "drop_bit 8 (push_bit 16 r OR push_bit 8 g OR b) AND 0xFF = g"
    "drop_bit 0 (push_bit 16 r OR push_bit 8 g OR b) AND 0xFF = b"
  using byte_bits [OF assms(1)] byte_bits [OF assms(2)] byte_bits [OF assms(3)]
  by (auto intro!: bit_word_eqI simp: ff_mask bit_simps) (fastforce | linarith)+

lemma set_channels:
  assumes "v0 < 256" "v1 < 256" "v2 < (256 :: u32)"
  shows "dxt_set_channel 16 v2 (dxt_set_channel 8 v1 (dxt_set_channel 0 v0 u)) AND 0x00FFFFFF = push_bit 16 v2 OR push_bit 8 v1 OR v0"
  using byte_bits [OF assms(1)] byte_bits [OF assms(2)] byte_bits [OF assms(3)]
  by (auto intro!: bit_word_eqI simp: dxt_set_channel_def ff_mask bit_simps) (fastforce | linarith)+


definition chan :: "nat \<Rightarrow> u32 \<Rightarrow> nat" where "chan sh c = unat (drop_bit sh c AND 0xFF)"

lemma chan_pack:
  assumes "r < 256" "g < 256" "b < (256 :: u32)"
  shows "chan 16 (push_bit 24 a OR ((push_bit 16 r OR push_bit 8 g OR b) AND 0x00FFFFFF)) = unat r"
    "chan 8 (push_bit 24 a OR ((push_bit 16 r OR push_bit 8 g OR b) AND 0x00FFFFFF)) = unat g"
    "chan 0 (push_bit 24 a OR ((push_bit 16 r OR push_bit 8 g OR b) AND 0x00FFFFFF)) = unat b"
    "drop_bit 24 (push_bit 24 a OR ((push_bit 16 r OR push_bit 8 g OR b) AND 0x00FFFFFF)) = a AND 0xFF"
proof -
  have "drop_bit sh (push_bit 24 a OR ((push_bit 16 r OR push_bit 8 g OR b) AND 0x00FFFFFF)) AND 0xFF =
      drop_bit sh (push_bit 16 r OR push_bit 8 g OR b) AND 0xFF" if "sh \<le> 16" for sh
    using that by (auto intro!: bit_word_eqI simp: ff_mask bit_simps)
  then have k: "chan sh (push_bit 24 a OR ((push_bit 16 r OR push_bit 8 g OR b) AND 0x00FFFFFF)) =
      unat (drop_bit sh (push_bit 16 r OR push_bit 8 g OR b) AND 0xFF)" if "sh \<le> 16" for sh
    unfolding chan_def using that by (simp only:)
  show "chan 16 (push_bit 24 a OR ((push_bit 16 r OR push_bit 8 g OR b) AND 0x00FFFFFF)) = unat r"
    "chan 8 (push_bit 24 a OR ((push_bit 16 r OR push_bit 8 g OR b) AND 0x00FFFFFF)) = unat g"
    "chan 0 (push_bit 24 a OR ((push_bit 16 r OR push_bit 8 g OR b) AND 0x00FFFFFF)) = unat b"
    using packed_channels [OF assms] by (simp_all only: k order_refl numeral_le_iff semiring_norm zero_le)
  show "drop_bit 24 (push_bit 24 a OR ((push_bit 16 r OR push_bit 8 g OR b) AND 0x00FFFFFF)) = a AND 0xFF"
    by (auto intro!: bit_word_eqI simp: ff_mask bit_simps)
qed

lemma unat_div_word: "unat (a div b :: u32) = unat a div unat b"
  by (rule unat_div)

lemma expand_channel:
  "unat v \<le> 31 \<Longrightarrow> unat (d3d8_expand_channel v 5) = unat v * 255 div 31 \<and> d3d8_expand_channel v 5 < 256"
  "unat v \<le> 63 \<Longrightarrow> unat (d3d8_expand_channel v 6) = unat v * 255 div 63 \<and> d3d8_expand_channel v 6 < 256"
  "unat v \<le> 15 \<Longrightarrow> unat (d3d8_expand_channel v 4) = unat v * 255 div 15 \<and> d3d8_expand_channel v 4 < 256"
proof -
  have m: "unat (v * 255) = unat v * 255" if "unat v \<le> 63" using that by (simp add: unat_word_ariths)
  show "unat v \<le> 31 \<Longrightarrow> unat (d3d8_expand_channel v 5) = unat v * 255 div 31 \<and> d3d8_expand_channel v 5 < 256"
    using m by (simp add: d3d8_expand_channel_def unat_div word_less_nat_alt push_bit_eq_mult)
  show "unat v \<le> 63 \<Longrightarrow> unat (d3d8_expand_channel v 6) = unat v * 255 div 63 \<and> d3d8_expand_channel v 6 < 256"
    using m by (simp add: d3d8_expand_channel_def unat_div word_less_nat_alt push_bit_eq_mult)
  show "unat v \<le> 15 \<Longrightarrow> unat (d3d8_expand_channel v 4) = unat v * 255 div 15 \<and> d3d8_expand_channel v 4 < 256"
    using m by (simp add: d3d8_expand_channel_def unat_div word_less_nat_alt push_bit_eq_mult)
qed

definition endpoint_channels :: "u32 \<Rightarrow> u32 \<times> u32 \<times> u32" where
  "endpoint_channels rgb = (d3d8_expand_channel (drop_bit 11 rgb AND 0x1F) 5,
     d3d8_expand_channel (drop_bit 5 rgb AND 0x3F) 6, d3d8_expand_channel (rgb AND 0x1F) 5)"

lemma and_small: "unat (v AND 0x1F :: u32) \<le> 31" "unat (v AND 0x3F :: u32) \<le> 63" "unat (v AND 0x0F :: u32) \<le> 15"
proof -
  have "unat (v AND m) \<le> unat m" for m using word_and_le1 [of v m] by (simp only: word_le_nat_alt)
  from this [of "0x1F"] this [of "0x3F"] this [of "0x0F"]
  show "unat (v AND 0x1F :: u32) \<le> 31" "unat (v AND 0x3F :: u32) \<le> 63" "unat (v AND 0x0F :: u32) \<le> 15"
    by simp_all
qed

lemma endpoint_split:
  assumes "endpoint_channels rgb = (r, g, b)"
  shows "dxt_endpoint rgb = push_bit 16 r OR push_bit 8 g OR b" "r < 256" "g < 256" "b < 256"
    "unpack565 (unat rgb) = (unat r, unat g, unat b)"
proof -
  have c: "r = d3d8_expand_channel (drop_bit 11 rgb AND 0x1F) 5" "g = d3d8_expand_channel (drop_bit 5 rgb AND 0x3F) 6"
    "b = d3d8_expand_channel (rgb AND 0x1F) 5"
    using assms by (simp_all add: endpoint_channels_def)
  note e = expand_channel(1) [OF and_small(1), of "drop_bit 11 rgb"] expand_channel(2) [OF and_small(2), of "drop_bit 5 rgb"]
    expand_channel(1) [OF and_small(1), of rgb]
  show "dxt_endpoint rgb = push_bit 16 r OR push_bit 8 g OR b" by (simp only: c dxt_endpoint_def)
  show "r < 256" "g < 256" "b < 256" using e unfolding c by blast+
  have "unat (drop_bit 11 rgb AND 0x1F) = drop_bit 11 (unat rgb) AND 31" "unat (drop_bit 5 rgb AND 0x3F) = drop_bit 5 (unat rgb) AND 63"
    "unat (rgb AND 0x1F) = unat rgb AND 31"
    by (simp_all add: unsigned_and_eq unsigned_drop_bit_eq take_bit_nat_eq_self [OF unat_u32])
  then show "unpack565 (unat rgb) = (unat r, unat g, unat b)"
    unfolding unpack565_def c e [THEN conjunct1] by (simp only:)
qed


text \<open>A palette entry: the channels are whole-number mixes of the endpoints' channels.\<close>

definition mix_down :: "bool \<Rightarrow> nat \<Rightarrow> nat \<Rightarrow> nat \<Rightarrow> nat" where
  "mix_down four idx a b =
     (if idx = 0 then a else if idx = 1 then b
      else if four then (if idx = 2 then (2 * a + b) div 3 else (a + 2 * b) div 3)
      else if idx = 2 then (a + b) div 2 else 0)"

lemma mix_down_entries: "mix_down True 2 a b = (2 * a + b) div 3" "mix_down True 3 a b = (a + 2 * b) div 3"
    "mix_down False 2 a b = (a + b) div 2"
  by (simp_all add: mix_down_def)

lemma word_mixes:
  assumes "p < 256" "q < (256 :: u32)"
  shows "unat ((2 * p + q) div 3) = (2 * unat p + unat q) div 3 \<and> (2 * p + q) div 3 < 256"
    "unat ((p + 2 * q) div 3) = (unat p + 2 * unat q) div 3 \<and> (p + 2 * q) div 3 < 256"
    "unat ((p + q) div 2) = (unat p + unat q) div 2 \<and> (p + q) div 2 < 256"
proof -
  have b: "unat p < 256" "unat q < 256" using assms by (simp_all add: word_less_nat_alt)
  then have "unat (2 * p + q) = 2 * unat p + unat q" "unat (p + 2 * q) = unat p + 2 * unat q" "unat (p + q) = unat p + unat q"
    by (simp_all add: unat_word_ariths)
  then show "unat ((2 * p + q) div 3) = (2 * unat p + unat q) div 3 \<and> (2 * p + q) div 3 < 256"
    "unat ((p + 2 * q) div 3) = (unat p + 2 * unat q) div 3 \<and> (p + 2 * q) div 3 < 256"
    "unat ((p + q) div 2) = (unat p + unat q) div 2 \<and> (p + q) div 2 < 256"
    using b by (simp_all add: unat_div word_less_nat_alt)
qed

lemma four_entries: "[a, b, c, d] ! 2 = c" "[a, b, c, d] ! 3 = d" by simp_all

lemma palette_entry:
  assumes "endpoint_channels w0 = (r0, g0, b0)" "endpoint_channels w1 = (r1, g1, b1)" "idx < 4"
  shows "\<exists>r g b. dxt_palette four (dxt_endpoint w0) (dxt_endpoint w1) u2 u3 ! idx AND 0x00FFFFFF
      = (push_bit 16 r OR push_bit 8 g OR b) AND 0x00FFFFFF \<and> r < 256 \<and> g < 256 \<and> b < 256
    \<and> unat r = mix_down four idx (unat r0) (unat r1) \<and> unat g = mix_down four idx (unat g0) (unat g1)
    \<and> unat b = mix_down four idx (unat b0) (unat b1)"
proof -
  note e0 = endpoint_split [OF assms(1)] and e1 = endpoint_split [OF assms(2)]
  note x0 = packed_channels [OF e0(2-4)] and x1 = packed_channels [OF e1(2-4)]
  note wr = word_mixes [OF e0(2) e1(2)] and wg = word_mixes [OF e0(3) e1(3)] and wb = word_mixes [OF e0(4) e1(4)]
  have masked: "v AND 0x00FFFFFF = c AND 0x00FFFFFF" if "v AND 0x00FFFFFF = c" for v c :: u32
    unfolding that [symmetric] by (simp add: and.assoc)
  have p: "dxt_palette True (dxt_endpoint w0) (dxt_endpoint w1) u2 u3 ! 2 AND 0x00FFFFFF =
      push_bit 16 ((2 * r0 + r1) div 3) OR push_bit 8 ((2 * g0 + g1) div 3) OR (2 * b0 + b1) div 3"
    "dxt_palette True (dxt_endpoint w0) (dxt_endpoint w1) u2 u3 ! 3 AND 0x00FFFFFF =
      push_bit 16 ((r0 + 2 * r1) div 3) OR push_bit 8 ((g0 + 2 * g1) div 3) OR (b0 + 2 * b1) div 3"
    "dxt_palette False (dxt_endpoint w0) (dxt_endpoint w1) u2 u3 ! 2 AND 0x00FFFFFF =
      push_bit 16 ((r0 + r1) div 2) OR push_bit 8 ((g0 + g1) div 2) OR (b0 + b1) div 2"
    using set_channels [OF wb(1) [THEN conjunct2] wg(1) [THEN conjunct2] wr(1) [THEN conjunct2], of u2]
      set_channels [OF wb(2) [THEN conjunct2] wg(2) [THEN conjunct2] wr(2) [THEN conjunct2], of u3]
      set_channels [OF wb(3) [THEN conjunct2] wg(3) [THEN conjunct2] wr(3) [THEN conjunct2], of u2]
    unfolding dxt_palette_def e0(1) e1(1) Let_def if_True if_False fold_simps x0 x1 four_entries by (simp_all only:)
  consider "idx = 0" | "idx = 1" | "idx = 2" "four" | "idx = 3" "four" | "idx = 2" "\<not> four" | "idx = 3" "\<not> four"
    using assms(3) by linarith
  then show ?thesis
  proof cases
    case 1 then show ?thesis using e0 by (intro exI [of _ r0] exI [of _ g0] exI [of _ b0]) (simp add: dxt_palette_def mix_down_def Let_def)
  next
    case 2 then show ?thesis using e1 by (intro exI [of _ r1] exI [of _ g1] exI [of _ b1]) (simp add: dxt_palette_def mix_down_def Let_def)
  next
    case 3
    then show ?thesis using wr(1) wg(1) wb(1) masked [OF p(1)] mix_down_entries
      by (intro exI [of _ "(2 * r0 + r1) div 3"] exI [of _ "(2 * g0 + g1) div 3"] exI [of _ "(2 * b0 + b1) div 3"]) simp
  next
    case 4
    then show ?thesis using wr(2) wg(2) wb(2) masked [OF p(2)] mix_down_entries
      by (intro exI [of _ "(r0 + 2 * r1) div 3"] exI [of _ "(g0 + 2 * g1) div 3"] exI [of _ "(b0 + 2 * b1) div 3"]) simp
  next
    case 5
    then show ?thesis using wr(3) wg(3) wb(3) masked [OF p(3)] mix_down_entries
      by (intro exI [of _ "(r0 + r1) div 2"] exI [of _ "(g0 + g1) div 2"] exI [of _ "(b0 + b1) div 2"]) simp
  next
    case 6 then show ?thesis by (intro exI [of _ 0]) (simp add: dxt_palette_def mix_down_def Let_def)
  qed
qed

section \<open>The two block decoders agree\<close>

lemma unat_of_nat_small: "x < 2 ^ LENGTH('a) \<Longrightarrow> unat (of_nat x :: 'a::len word) = x"
  by (simp add: unat_of_nat)

lemma block_offset:
  assumes "x < w" "w + 3 < 2 ^ 32" "y < 2 ^ 32" "unat (bytes :: u32) \<le> 16"
  shows "unat ((ucast (drop_bit 2 (of_nat y :: u32)) * ucast ((of_nat w + 3) div 4 :: u32) + ucast (drop_bit 2 (of_nat x :: u32))) * ucast bytes :: u64)
    = (y div 4) * (unat bytes * blocks w) + (x div 4) * unat bytes"
proof -
  have u: "unat (drop_bit 2 (of_nat y :: u32)) = y div 4" "unat (drop_bit 2 (of_nat x :: u32)) = x div 4"
    using assms(1-3) unat_of_nat_small [of y, where 'a = 32] unat_of_nat_small [of x, where 'a = 32]
    by (simp_all add: unsigned_drop_bit_eq take_bit_nat_eq_self drop_bit_eq_div unat_div)
  have "unat (of_nat w + 3 :: u32) = w + 3"
    using assms(2) by (metis of_nat_add of_nat_numeral unat_of_nat_small len32)
  then have bl: "unat ((of_nat w + 3) div 4 :: u32) = blocks w" by (simp add: unat_div blocks_def)
  have "Suc (y div 4) \<le> 2 ^ 30" "blocks w \<le> 2 ^ 30" using assms(1-3) by (simp_all add: blocks_def)
  then have "Suc (y div 4) * blocks w \<le> 2 ^ 30 * 2 ^ 30" by (rule mult_le_mono)
  moreover have "x div 4 < blocks w" using assms(1) by (simp add: blocks_def)
  ultimately have l1: "y div 4 * blocks w + x div 4 < 2 ^ 60" by simp
  have "(y div 4 * blocks w + x div 4) * unat bytes \<le> (y div 4 * blocks w + x div 4) * 16"
    using assms(4) by (rule mult_le_mono2)
  moreover have "(y div 4 * blocks w + x div 4) * 16 < 2 ^ 60 * 16" using l1 by (intro mult_strict_right_mono) simp_all
  ultimately have "(y div 4 * blocks w + x div 4) * unat bytes < 2 ^ 60 * 16" by (rule le_less_trans)
  then have l2: "(y div 4 * blocks w + x div 4) * unat bytes < 2 ^ 64" by simp
  have "(of_nat (y div 4 * blocks w + x div 4) * of_nat (unat bytes) :: u64) =
      (ucast (drop_bit 2 (of_nat y :: u32)) * ucast ((of_nat w + 3) div 4 :: u32) + ucast (drop_bit 2 (of_nat x :: u32))) * ucast bytes"
    unfolding u [symmetric] bl [symmetric] by (simp only: of_nat_add of_nat_mult of_nat_unat)
  then have w: "(ucast (drop_bit 2 (of_nat y :: u32)) * ucast ((of_nat w + 3) div 4 :: u32) + ucast (drop_bit 2 (of_nat x :: u32))) * ucast bytes
      = (of_nat ((y div 4 * blocks w + x div 4) * unat bytes) :: u64)"
    unfolding of_nat_mult by (rule sym)
  have "(y div 4 * blocks w + x div 4) * unat bytes < 2 ^ LENGTH(64)" using l2 by simp
  then have "unat ((ucast (drop_bit 2 (of_nat y :: u32)) * ucast ((of_nat w + 3) div 4 :: u32) + ucast (drop_bit 2 (of_nat x :: u32))) * ucast bytes :: u64)
      = (y div 4 * blocks w + x div 4) * unat bytes"
    unfolding w by (rule unat_of_nat_small)
  then show ?thesis by (simp add: algebra_simps)
qed

lemma word_of_bytes:
  "unat (dxt_byte base i) = byte_at base i"
  "unat (dxt_colour_word base i) = half_at base i"
proof -
  show b: "unat (dxt_byte base i) = byte_at base i" for i by (simp add: dxt_byte_def byte_at_def unat_ucast_up)
  have lt: "byte_at base i < 2 ^ 8" for i using unsigned_less [of "base ! i", where 'a = nat] by (simp add: byte_at_def)
  have "push_bit 8 (byte_at base (i + 1)) < 2 ^ 32" using lt [of "i + 1"] by (simp add: push_bit_eq_mult)
  then show "unat (dxt_colour_word base i) = half_at base i"
    by (simp add: dxt_colour_word_def half_at_def unsigned_or_eq unsigned_push_bit_eq b take_bit_nat_eq_self del: One_nat_def add_Suc_right)
qed

lemma index_of_bytes: "dxt_index base b ((y AND 3) * 4 + (x AND 3)) = block_pick base b x y"
proof -
  have lt: "byte_at base i < 2 ^ 8" for i using unsigned_less [of "base ! i", where 'a = nat] by (simp add: byte_at_def)
  have "push_bit 8 (byte_at base i) < 2 ^ 32" "push_bit 16 (byte_at base i) < 2 ^ 32" "push_bit 24 (byte_at base i) < 2 ^ 32" "byte_at base i < 2 ^ 32" for i
    using lt [of i] by (simp_all add: push_bit_eq_mult)
  then show ?thesis
    by (simp add: dxt_index_def block_pick_def unsigned_or_eq unsigned_and_eq unsigned_push_bit_eq unsigned_drop_bit_eq word_of_bytes
      take_bit_nat_eq_self take_bit_or)
qed

lemma and_3_le: "x AND 3 \<le> (3 :: nat)"
proof -
  have "x AND 3 = x mod 4" using take_bit_eq_mask [of 2 x] by (simp add: take_bit_eq_mod mask_eq_exp_minus_1)
  then show ?thesis by simp
qed

lemma texel_word: "unat (((of_nat y AND 3) * 4 + (of_nat x AND 3)) :: u32) = (y AND 3) * 4 + (x AND 3)"
proof -
  have three: "(3 :: nat) = mask 2" by (simp add: mask_eq_exp_minus_1)
  have "unat (of_nat y AND 3 :: u32) = y AND 3" for y
  proof -
    have "unat (of_nat y AND 3 :: u32) = take_bit 32 y AND 3" by (simp add: unsigned_and_eq unat_of_nat take_bit_eq_mod)
    also have "\<dots> = y AND 3" unfolding three by (rule bit_eqI) (auto simp: bit_simps)
    finally show ?thesis .
  qed
  moreover have "y AND 3 \<le> 3" "x AND 3 \<le> 3" by (simp_all add: and_3_le)
  ultimately show ?thesis by (simp add: unat_word_ariths)
qed

definition just_below :: "nat \<Rightarrow> nat \<Rightarrow> bool" where
  "just_below p q \<longleftrightarrow> p \<le> q \<and> q \<le> p + 1"

lemma mixes_round:
  "just_below ((2 * a + b) div 3) (mix 2 3 a b)" "just_below ((a + 2 * b) div 3) (mix 1 3 a b)"
  "just_below ((a + b) div 2) (mix 1 2 a b)" "just_below a a"
  by (simp_all add: just_below_def mix_def) linarith+

definition mix_up :: "bool \<Rightarrow> nat \<Rightarrow> nat \<Rightarrow> nat \<Rightarrow> nat" where
  "mix_up four idx a b =
     (if idx = 0 then a else if idx = 1 then b else if \<not> four \<and> idx = 3 then 0
      else if \<not> four then mix 1 2 a b else if idx = 2 then mix 2 3 a b else mix 1 3 a b)"

lemma mix_down_up: "idx < 4 \<Longrightarrow> just_below (mix_down four idx a b) (mix_up four idx a b)"
  using mixes_round by (simp add: mix_down_def mix_up_def del: One_nat_def)

lemma half_less: "half_at base i \<le> half_at base j \<longleftrightarrow> dxt_colour_word base i \<le> dxt_colour_word base j"
  by (simp add: word_le_nat_alt word_of_bytes)

lemma block_pick_below: "block_pick base b x y < 4"
  unfolding block_pick_def by (rule le_less_trans [OF and_3_le]) simp

lemma blocks_nonzero:
  assumes "x < w" "w + 3 < 2 ^ 32"
  shows "(of_nat w + 3) div 4 \<noteq> (0 :: u32)"
proof
  assume "(of_nat w + 3) div 4 = (0 :: u32)"
  then have "unat ((of_nat w + 3) div 4 :: u32) = 0" by simp
  moreover have "(of_nat w + 3 :: u32) = of_nat (w + 3)" by simp
  then have "unat (of_nat w + 3 :: u32) = w + 3" using unat_of_nat_small [of "w + 3", where 'a = 32] assms(2) by simp
  ultimately show False using assms(1) by (simp add: unat_div)
qed

lemma block_colour:
  assumes "idx < 4" "unpack565 (half_at base at) = (R0, G0, B0)" "unpack565 (half_at base (at + 2)) = (R1, G1, B1)"
  shows "\<exists>r g b. dxt_palette four (dxt_endpoint (dxt_colour_word base at)) (dxt_endpoint (dxt_colour_word base (at + 2))) u2 u3 ! idx
        AND 0x00FFFFFF = (push_bit 16 r OR push_bit 8 g OR b) AND 0x00FFFFFF
    \<and> r < 256 \<and> g < 256 \<and> b < 256 \<and> just_below (unat r) (mix_up four idx R0 R1)
    \<and> just_below (unat g) (mix_up four idx G0 G1) \<and> just_below (unat b) (mix_up four idx B0 B1)"
proof -
  let ?w0 = "dxt_colour_word base at" and ?w1 = "dxt_colour_word base (at + 2)"
  obtain r0 g0 b0 r1 g1 b1 where ch: "endpoint_channels ?w0 = (r0, g0, b0)" "endpoint_channels ?w1 = (r1, g1, b1)"
    by (meson prod_cases3)
  have "(unat r0, unat g0, unat b0) = (R0, G0, B0)" "(unat r1, unat g1, unat b1) = (R1, G1, B1)"
    using endpoint_split(5) [OF ch(1)] endpoint_split(5) [OF ch(2)] assms(2,3) by (simp_all only: word_of_bytes)
  then have un: "unat r0 = R0" "unat g0 = G0" "unat b0 = B0" "unat r1 = R1" "unat g1 = G1" "unat b1 = B1" by simp_all
  obtain r g b where "dxt_palette four (dxt_endpoint ?w0) (dxt_endpoint ?w1) u2 u3 ! idx AND 0x00FFFFFF
      = (push_bit 16 r OR push_bit 8 g OR b) AND 0x00FFFFFF" "r < 256" "g < 256" "b < 256"
      "unat r = mix_down four idx R0 R1" "unat g = mix_down four idx G0 G1" "unat b = mix_down four idx B0 B1"
    using palette_entry [OF ch assms(1), of four u2 u3] unfolding un by blast
  then show ?thesis using mix_down_up [OF assms(1), of four] by (intro exI [of _ r] exI [of _ g] exI [of _ b]) (simp only: simp_thms)
qed

text \<open>
  Claim C22: For every texel of a DXT1 image, the sampler's block decoder and the texture
  upload's decoder give the same alpha, and each colour channel of the sampler is the
  upload's or one below it (it truncates the mixes the upload rounds), whatever its
  uninitialised palette words held before.
\<close>

theorem dxt1_sampler_agrees_with_upload:
  assumes "x < w" "w + 3 < 2 ^ 32" "y < 2 ^ 32" "pixel_dxt1 base n (8 * blocks w) x y = Some (r, g, b, a)"
  shows "\<exists>c. d3d8_dxt_decode_texel u2 u3 base 0x0C (of_nat x) (of_nat y) (of_nat w) = Some c
    \<and> unat (drop_bit 24 c) = a \<and> just_below (chan 16 c) r \<and> just_below (chan 8 c) g \<and> just_below (chan 0 c) b"
proof -
  define at where "at = y div 4 * (8 * blocks w) + x div 4 * 8"
  define idx where "idx = block_pick base at x y"
  let ?w0 = "dxt_colour_word base at" and ?w1 = "dxt_colour_word base (at + 2)"
  let ?four = "?w1 < ?w0"
  obtain R0 G0 B0 R1 G1 B1 where un: "unpack565 (half_at base at) = (R0, G0, B0)" "unpack565 (half_at base (at + 2)) = (R1, G1, B1)"
    by (meson prod_cases3)
  have i4: "idx < 4" unfolding idx_def by (rule block_pick_below)
  obtain r' g' b' where e: "dxt_palette ?four (dxt_endpoint ?w0) (dxt_endpoint ?w1) u2 u3 ! idx AND 0x00FFFFFF
      = (push_bit 16 r' OR push_bit 8 g' OR b') AND 0x00FFFFFF" "r' < 256" "g' < 256" "b' < 256"
    "just_below (unat r') (mix_up ?four idx R0 R1)" "just_below (unat g') (mix_up ?four idx G0 G1)"
    "just_below (unat b') (mix_up ?four idx B0 B1)"
    using block_colour [OF i4 un, of ?four u2 u3] by blast
  define alpha where "alpha = (if ?w0 \<le> ?w1 \<and> idx = 3 then 0 else 255 :: u32)"
  let ?c = "push_bit 24 alpha OR ((push_bit 16 r' OR push_bit 8 g' OR b') AND 0x00FFFFFF)"
  have d: "d3d8_dxt_decode_texel u2 u3 base 0x0C (of_nat x) (of_nat y) (of_nat w) = Some ?c"
    unfolding d3d8_dxt_decode_texel_def d3d8_format_dxt_block_bytes_def e(1) [symmetric]
    using blocks_nonzero [OF assms(1,2)] block_offset [OF assms(1-3), of 8]
    by (simp add: Let_def texel_word index_of_bytes at_def [symmetric] idx_def [symmetric] alpha_def)
  have "at + 7 < n" using assms(4) pixel_None(1) [of base n "8 * blocks w" x y] by (auto simp: at_def)
  then have px: "(if idx = 0 then (R0, G0, B0, 255) else if idx = 1 then (R1, G1, B1, 255)
      else if \<not> ?four \<and> idx = 3 then (0, 0, 0, 0)
      else let (n, d) = (if \<not> ?four then (1, 2) else if idx = 2 then (2, 3) else (1, 3))
           in (mix n d R0 R1, mix n d G0 G1, mix n d B0 B1, 255)) = (r, g, b, a)"
    using assms(4) unfolding pixel_dxt1_def Let_def at_def [symmetric] idx_def [symmetric] un prod.case half_less not_less
    by (simp only: if_False not_le [symmetric] option.inject)
  have "drop_bit 24 ?c = alpha AND 0xFF" by (rule chan_pack(4) [OF e(2-4)])
  moreover have "unat (alpha AND 0xFF) = a" using px
    by (cases "\<not> ?four \<and> idx = 3") (auto simp: alpha_def not_less split: if_splits)
  moreover have "r = mix_up ?four idx R0 R1" "g = mix_up ?four idx G0 G1" "b = mix_up ?four idx B0 B1"
    using px by (auto simp: mix_up_def split: if_splits)
  ultimately show ?thesis unfolding d using chan_pack(1-3) [OF e(2-4)] e(5-7) by simp
qed

theorem dxt1_sampler_agrees_with_upload_witness:
  "\<exists>c. d3d8_dxt_decode_texel 7 9 [0, 0xF8, 0x1F, 0, 0xE4, 0, 0, 0] 0x0C 2 0 4 = Some c
    \<and> unat (drop_bit 24 c) = 255 \<and> just_below (chan 16 c) 170 \<and> just_below (chan 8 c) 0 \<and> just_below (chan 0 c) 85"
  using dxt1_sampler_agrees_with_upload [of 2 4 0 "[0, 0xF8, 0x1F, 0, 0xE4, 0, 0, 0]" 8 170 0 85 255 7 9]
  by (simp add: pixel_dxt1_def Let_def half_at_def byte_at_def unpack565_def block_pick_def mix_def blocks_def)

lemma dxt3_alpha_byte:
  "unat (dxt3_alpha base at t AND 0xFF) = (drop_bit (4 * (t AND 1)) (byte_at base (at + t div 2)) AND 15) * 255 div 15"
proof -
  let ?nib = "dxt_byte base (at + t div 2)"
  define v where "v = (if odd t then drop_bit 4 ?nib else ?nib AND 0x0F)"
  have lt: "byte_at base (at + t div 2) < 2 ^ 8" using unsigned_less [of "base ! (at + t div 2)", where 'a = nat] by (simp add: byte_at_def)
  have "unat (drop_bit 4 ?nib) = byte_at base (at + t div 2) div 16"
    by (simp add: drop_bit_eq_div unat_div word_of_bytes)
  moreover have "unat (?nib AND 0x0F) = byte_at base (at + t div 2) AND 15" by (simp add: unsigned_and_eq word_of_bytes)
  moreover have "t AND 1 = (if odd t then 1 else 0)" by (simp add: and_one_eq odd_iff_mod_2_eq_one)
  moreover have "k AND 15 = k mod 16" for k :: nat using take_bit_eq_mask [of 4 k] by (simp add: take_bit_eq_mod mask_eq_exp_minus_1)
  moreover have "byte_at base (at + t div 2) div 16 < 16" using lt by (intro less_mult_imp_div_less) simp
  ultimately have v: "unat v = drop_bit (4 * (t AND 1)) (byte_at base (at + t div 2)) AND 15" "unat v \<le> 15"
    by (auto simp: v_def drop_bit_eq_div)
  have "d3d8_expand_channel v 4 AND 0xFF = d3d8_expand_channel v 4"
    using byte_bits [of "d3d8_expand_channel v 4"] expand_channel(3) [OF v(2)]
    by (auto intro!: bit_word_eqI simp: ff_mask bit_simps)
  then show ?thesis using expand_channel(3) [OF v(2)] by (simp add: dxt3_alpha_def Let_def v_def [symmetric] v(1))
qed

lemma dxt3_decoders_agree:
  assumes "x < w" "w + 3 < 2 ^ 32" "y < 2 ^ 32" "pixel_dxt3 base n (16 * blocks w) x y = Some (r, g, b, a)"
  shows "\<exists>c. d3d8_dxt_decode_texel u2 u3 base 0x0E (of_nat x) (of_nat y) (of_nat w) = Some c
    \<and> unat (drop_bit 24 c) = a \<and> just_below (chan 16 c) r \<and> just_below (chan 8 c) g \<and> just_below (chan 0 c) b"
proof -
  define at where "at = y div 4 * (16 * blocks w) + x div 4 * 16"
  define idx where "idx = block_pick base (at + 8) x y"
  let ?w0 = "dxt_colour_word base (at + 8)" and ?w1 = "dxt_colour_word base (at + 8 + 2)"
  obtain R0 G0 B0 R1 G1 B1 where un: "unpack565 (half_at base (at + 8)) = (R0, G0, B0)"
    "unpack565 (half_at base (at + 8 + 2)) = (R1, G1, B1)"
    by (meson prod_cases3)
  have i4: "idx < 4" unfolding idx_def by (rule block_pick_below)
  obtain r' g' b' where e: "dxt_palette True (dxt_endpoint ?w0) (dxt_endpoint ?w1) u2 u3 ! idx AND 0x00FFFFFF
      = (push_bit 16 r' OR push_bit 8 g' OR b') AND 0x00FFFFFF" "r' < 256" "g' < 256" "b' < 256"
    "just_below (unat r') (mix_up True idx R0 R1)" "just_below (unat g') (mix_up True idx G0 G1)"
    "just_below (unat b') (mix_up True idx B0 B1)"
    using block_colour [OF i4 un, of True u2 u3] by blast
  let ?t = "(y AND 3) * 4 + (x AND 3)"
  define alpha where "alpha = dxt3_alpha base at ?t"
  let ?c = "push_bit 24 alpha OR ((push_bit 16 r' OR push_bit 8 g' OR b') AND 0x00FFFFFF)"
  have d: "d3d8_dxt_decode_texel u2 u3 base 0x0E (of_nat x) (of_nat y) (of_nat w) = Some ?c"
    unfolding d3d8_dxt_decode_texel_def d3d8_format_dxt_block_bytes_def e(1) [symmetric]
    using blocks_nonzero [OF assms(1,2)] block_offset [OF assms(1-3), of 16]
    by (simp add: Let_def texel_word index_of_bytes at_def [symmetric] idx_def [symmetric] alpha_def del: add_Suc_right)
  have "at + 15 < n" using assms(4) pixel_None(2) [of base n "16 * blocks w" x y] by (auto simp: at_def)
  then have px: "(let a8 = (drop_bit (4 * (?t AND 1)) (byte_at base (at + ?t div 2)) AND 15) * 255 div 15 in
      if idx = 0 then (R0, G0, B0, a8) else if idx = 1 then (R1, G1, B1, a8)
      else let (n, d) = (if idx = 2 then (2, 3) else (1, 3))
           in (mix n d R0 R1, mix n d G0 G1, mix n d B0 B1, a8)) = (r, g, b, a)"
    using assms(4) unfolding pixel_dxt3_def Let_def at_def [symmetric] idx_def [symmetric] un prod.case
    by (simp only: if_False not_le [symmetric] option.inject)
  have "drop_bit 24 ?c = alpha AND 0xFF" by (rule chan_pack(4) [OF e(2-4)])
  moreover have "unat (alpha AND 0xFF) = a"
    unfolding alpha_def dxt3_alpha_byte using px by (auto simp only: Let_def split: if_splits)
  moreover have "r = mix_up True idx R0 R1" "g = mix_up True idx G0 G1" "b = mix_up True idx B0 B1"
    using px by (auto simp: mix_up_def Let_def split: if_splits)
  ultimately show ?thesis unfolding d using chan_pack(1-3) [OF e(2-4)] e(5-7) by simp
qed

end
