(* ===== verification/Usb_Gamepad.thy ===== *)
theory Usb_Gamepad
  imports Usb_Pad
begin

text \<open>
  The gamepad of \<open>src/usb/usb_gamepad.c\<close>, the device behind the register-level USB controller of
  \<open>src/usb/ohci.c\<close>: its descriptors, its control requests and its input report. The host's pad
  (\<open>xbox_InputGetState\<close>) is an argument, \<open>None\<close> when no pad is connected. The last part compares
  the descriptors with those of the other model in the tree, \<open>Usb_Pad\<close>.
\<close>

section \<open>Descriptors\<close>

definition s_device_desc :: "u8 list" where
  "s_device_desc =
     [18, 0x01, 0x10, 0x01, 0x00, 0x00, 0x00, 0x08, 0x5E, 0x04, 0x89, 0x02, 0x21, 0x01, 0x00, 0x00, 0x00, 0x01]"

definition s_config_desc :: "u8 list" where
  "s_config_desc =
     [9, 0x02, 32, 0x00, 0x01, 0x01, 0x00, 0x80, 50,
      9, 0x04, 0x00, 0x00, 0x02, 0x58, 0x42, 0x00, 0x00,
      7, 0x05, 0x81, 0x03, 0x20, 0x00, 0x04,
      7, 0x05, 0x02, 0x03, 0x20, 0x00, 0x04]"

definition xid_desc :: "u8 list" where
  "xid_desc = [0x10, 0x42, 0x00, 0x01, 0x01, 0x02, 20, 6, 0xFF, 0xFF, 0xFF, 0xFF, 0xFF, 0xFF, 0xFF, 0xFF]"

definition caps_in :: "u8 list" where
  "caps_in = [0x00, 20, 0xFF, 0x00] @ replicate 16 0xFF"

definition caps_out :: "u8 list" where
  "caps_out = [0x00, 6, 0xFF, 0xFF, 0xFF, 0xFF]"

section \<open>Control transfers\<close>

record UsbSetup =
  bmRequestType :: u8
  bRequest :: u8
  wValue :: u16
  wIndex :: u16
  wLength :: u16

record usb_gamepad =
  s_address :: u8
  s_configuration :: u8

definition usb_gamepad_address :: "usb_gamepad \<Rightarrow> u8" where
  "usb_gamepad_address g = s_address g"

text \<open>A reply is the length and the buffer it is left in; a refusal (\<open>-1\<close>) is \<open>None\<close>.\<close>

definition copy_out :: "u8 list \<Rightarrow> nat \<Rightarrow> u8 list \<Rightarrow> u16 \<Rightarrow> (nat \<times> u8 list) option" where
  "copy_out out out_max src wLen =
     (let len = length src;
          len = (if len > unat wLen then unat wLen else len);
          len = (if len > out_max then out_max else len)
      in Some (len, if len > 0 then memcpy_at out 0 (take len src) else out))"

definition standard_request :: "UsbSetup \<Rightarrow> u8 list \<Rightarrow> nat \<Rightarrow> usb_gamepad \<Rightarrow> (nat \<times> u8 list) option \<times> usb_gamepad" where
  "standard_request s out out_max g =
     (let is_in = (bmRequestType s AND 0x80 \<noteq> 0)
      in if bRequest s = 0x06
         then (if drop_bit 8 (wValue s) = 0x01 then (copy_out out out_max s_device_desc (wLength s), g)
               else if drop_bit 8 (wValue s) = 0x02 then (copy_out out out_max s_config_desc (wLength s), g)
               else (None, g))
         else if bRequest s = 0x05 then (Some (0, out), g\<lparr>s_address := ucast (wValue s AND 0x7F)\<rparr>)
         else if bRequest s = 0x09 then (Some (0, out), g\<lparr>s_configuration := ucast (wValue s AND 0xFF)\<rparr>)
         else if bRequest s = 0x08
         then (if \<not> is_in \<or> out_max < 1 then None else Some (1, out[0 := s_configuration g]), g)
         else if bRequest s = 0x00
         then (if \<not> is_in \<or> out_max < 2 then None else Some (2, out[0 := 0, 1 := 0]), g)
         else if bRequest s = 0x01 \<or> bRequest s = 0x03 \<or> bRequest s = 0x0B then (Some (0, out), g)
         else (None, g))"

definition xid_request :: "UsbSetup \<Rightarrow> u8 list \<Rightarrow> nat \<Rightarrow> (nat \<times> u8 list) option" where
  "xid_request s out out_max =
     (if bmRequestType s AND 0x80 = 0 then Some (0, out)
      else if bRequest s = 0x06 \<and> drop_bit 8 (wValue s) = 0x42 then copy_out out out_max xid_desc (wLength s)
      else if bRequest s = 0x01 \<and> drop_bit 8 (wValue s) = 0x01 then copy_out out out_max caps_in (wLength s)
      else if bRequest s = 0x01 \<and> drop_bit 8 (wValue s) = 0x02 then copy_out out out_max caps_out (wLength s)
      else None)"

definition usb_gamepad_control :: "UsbSetup \<Rightarrow> u8 list \<Rightarrow> nat \<Rightarrow> usb_gamepad \<Rightarrow> (nat \<times> u8 list) option \<times> usb_gamepad" where
  "usb_gamepad_control s out out_max g =
     (if drop_bit 5 (bmRequestType s) AND 3 = 0 then standard_request s out out_max g
      else if bmRequestType s AND 0x60 = 0x40 then (xid_request s out out_max, g)
      else (None, g))"

section \<open>The input report\<close>

record XBOX_GAMEPAD =
  wButtons :: u16
  bAnalogButtons :: "u8 list"
  sThumbLX :: u16
  sThumbLY :: u16
  sThumbRX :: u16
  sThumbRY :: u16

definition axis_bytes :: "u16 \<Rightarrow> u8 list" where
  "axis_bytes a = [ucast (a AND 0xFF), ucast (drop_bit 8 a AND 0xFF)]"

definition usb_gamepad_report :: "XBOX_GAMEPAD option \<Rightarrow> u8 list \<Rightarrow> nat \<Rightarrow> nat \<times> u8 list" where
  "usb_gamepad_report pad out out_max =
     (if out_max < 20 then (0, out)
      else let out = memcpy_at out 0 ([0, 20] @ replicate 18 0)
           in case pad of
                None \<Rightarrow> (20, out)
              | Some g \<Rightarrow>
                  (20, memcpy_at out 2
                     ([ucast (wButtons g AND 0xFF), ucast (drop_bit 8 (wButtons g) AND 0xFF)] @
                      map ((!) (bAnalogButtons g)) [0..<8] @
                      axis_bytes (sThumbLX g) @ axis_bytes (sThumbLY g) @ axis_bytes (sThumbRX g) @ axis_bytes (sThumbRY g))))"

section \<open>Lengths\<close>

lemma copy_out_length:
  assumes "copy_out out out_max src wLen = Some (n, out')" "out_max \<le> length out"
  shows "length out' = length out \<and> n = min (length src) (min (unat wLen) out_max) \<and> take n out' = take n src"
proof -
  have n: "n = min (length src) (min (unat wLen) out_max)" using assms(1) by (auto simp: copy_out_def Let_def split: if_splits)
  then have "out' = (if n > 0 then memcpy_at out 0 (take n src) else out)" using assms(1) by (auto simp: copy_out_def Let_def)
  then show ?thesis using n assms(2) memcpy_at_0 [of "take n src" out] by auto
qed

lemma report_length: "20 \<le> length out \<Longrightarrow> length (snd (usb_gamepad_report pad out 32)) = length out"
  by (auto simp: usb_gamepad_report_def Let_def axis_bytes_def memcpy_at_def split: option.split)

lemma copy_out_bound:
  "copy_out out out_max src wLen = Some (n, out') \<Longrightarrow> out_max \<le> length out \<Longrightarrow> length out' = length out \<and> n \<le> out_max"
  using copy_out_length [of out out_max src wLen n out'] by simp

lemma control_length:
  assumes "fst (usb_gamepad_control s out out_max g) = Some (n, out')" "out_max \<le> length out"
  shows "length out' = length out \<and> n \<le> out_max"
  using assms by (auto simp: usb_gamepad_control_def standard_request_def xid_request_def Let_def split: if_splits dest: copy_out_bound)

section \<open>The two gamepads in the tree\<close>

definition setup_bytes :: "UsbSetup \<Rightarrow> u8 list" where
  "setup_bytes s = [bmRequestType s, bRequest s, byte_of 0 (wValue s), byte_of 1 (wValue s),
     byte_of 0 (wIndex s), byte_of 1 (wIndex s), byte_of 0 (wLength s), byte_of 1 (wLength s)]"

lemma copies_agree:
  assumes "out_max \<le> length out"
  shows "map_option (\<lambda>(out, len). take (if len > unat wLen then unat wLen else len) out) (usb_copy src out out_max)
    = map_option (\<lambda>(len, out). take len out) (copy_out out out_max src wLen)"
proof -
  let ?n = "min (length src) (min (unat wLen) out_max)"
  obtain out' where c: "copy_out out out_max src wLen = Some (?n, out')"
    by (force simp: copy_out_def Let_def min_def)
  let ?k = "min (length src) out_max"
  have u: "usb_copy src out out_max = Some (memcpy_at out 0 (take ?k src), ?k)"
    by (simp add: usb_copy_def Let_def min_def)
  have "take ?n (memcpy_at out 0 (take ?k src)) = take ?n src" by (simp add: memcpy_at_def)
  moreover have "(if ?k > unat wLen then unat wLen else ?k) = ?n" by (simp add: min_def)
  ultimately show ?thesis using copy_out_length [OF c assms] by (simp add: c u)
qed

text \<open>
  To every GET_DESCRIPTOR request, standard or of the gamepad's own class, for
  any descriptor and length, the two gamepad models answer the same bytes or both refuse: a
  driver cannot tell which of the two USB controllers it is talking through.
\<close>

theorem both_pads_describe_one_device:
  assumes "out_max \<le> length out" "bmRequestType s = 0x80 \<or> bmRequestType s = 0xC1" "bRequest s = 0x06"
  shows "map_option (\<lambda>(out, len). take len out) (fst (xbox_UsbControlRequest (setup_bytes s) out out_max w))
    = map_option (\<lambda>(len, out). take len out) (fst (usb_gamepad_control s out out_max g))"
proof -
  have desc: "USB_DEVICE_DESC = s_device_desc" "USB_CONFIG_DESC = s_config_desc" "USB_XID_DESC = xid_desc"
    by (simp_all add: USB_DEVICE_DESC_def s_device_desc_def USB_CONFIG_DESC_def s_config_desc_def USB_XID_DESC_def xid_desc_def
      XBOX_USB_PAD_REPORT_def)
  note agree = copies_agree [OF assms(1), of "wLength s"]
  show ?thesis using assms(2)
  proof
    assume "bmRequestType s = 0x80"
    then show ?thesis using assms(3) agree
      by (auto simp: xbox_UsbControlRequest_def usb_control_request_def device_request_def usb_gamepad_control_def standard_request_def
        setup_bytes_def Let_def desc le16_byte_of case_prod_unfold option.map_comp comp_def)
  next
    assume "bmRequestType s = 0xC1"
    then show ?thesis using assms(3) agree
      by (auto simp: xbox_UsbControlRequest_def usb_control_request_def vendor_request_def usb_gamepad_control_def xid_request_def
        setup_bytes_def Let_def desc le16_byte_of case_prod_unfold option.map_comp comp_def)
  qed
qed

theorem both_pads_witness:
  "\<forall>w :: unit usb_world. map_option (\<lambda>(out, len). take len out)
      (fst (xbox_UsbControlRequest (setup_bytes \<lparr>bmRequestType = 0x80, bRequest = 6, wValue = 0x0200, wIndex = 0, wLength = 9\<rparr>)
        (replicate 64 0) 64 w))
    = map_option (\<lambda>(len, out). take len out)
      (fst (usb_gamepad_control \<lparr>bmRequestType = 0x80, bRequest = 6, wValue = 0x0200, wIndex = 0, wLength = 9\<rparr>
        (replicate 64 0) 64 \<lparr>s_address = 0, s_configuration = 0\<rparr>))"
  by (rule allI, rule both_pads_describe_one_device) simp_all

end
