(* ===== verification/Hc_Controller.thy ===== *)
theory Hc_Controller
  imports Usb_Gamepad Mmio_Decode
begin

text \<open>
  The register-level USB host controllers of \<open>src/usb/ohci.c\<close>: register reads and writes, the walk
  over the endpoint and transfer descriptors a driver builds in guest memory, the done queue, and
  the interrupt worker. The file's globals are the record \<open>hc_world\<close>; an array of two controllers
  is a function from its index, a register file a list of 25 words. Guest memory is a function
  from the guest address to a byte, and an address is followed only where \<open>guest_ok\<close> allows it.
  \<open>xbox_GetMappedSize\<close> and the host's pad are fields of the world. Trace output and counters of
  the traces are left out.
\<close>

section \<open>State\<close>

abbreviation (input) HcRevision :: nat where "HcRevision \<equiv> 0x00"
abbreviation (input) HcControl :: nat where "HcControl \<equiv> 0x04"
abbreviation (input) HcCommandStatus :: nat where "HcCommandStatus \<equiv> 0x08"
abbreviation (input) HcInterruptStatus :: nat where "HcInterruptStatus \<equiv> 0x0C"
abbreviation (input) HcInterruptEnable :: nat where "HcInterruptEnable \<equiv> 0x10"
abbreviation (input) HcInterruptDisable :: nat where "HcInterruptDisable \<equiv> 0x14"
abbreviation (input) HcHCCA :: nat where "HcHCCA \<equiv> 0x18"
abbreviation (input) HcControlHeadED :: nat where "HcControlHeadED \<equiv> 0x20"
abbreviation (input) HcBulkHeadED :: nat where "HcBulkHeadED \<equiv> 0x28"
abbreviation (input) HcDoneHead :: nat where "HcDoneHead \<equiv> 0x30"
abbreviation (input) HcFmInterval :: nat where "HcFmInterval \<equiv> 0x34"
abbreviation (input) HcFmRemaining :: nat where "HcFmRemaining \<equiv> 0x38"
abbreviation (input) HcFmNumber :: nat where "HcFmNumber \<equiv> 0x3C"
abbreviation (input) HcPeriodicStart :: nat where "HcPeriodicStart \<equiv> 0x40"
abbreviation (input) HcLSThreshold :: nat where "HcLSThreshold \<equiv> 0x44"
abbreviation (input) HcRhDescriptorA :: nat where "HcRhDescriptorA \<equiv> 0x48"
abbreviation (input) HcRhPortStatus1 :: nat where "HcRhPortStatus1 \<equiv> 0x54"
abbreviation (input) HcRhPortStatus2 :: nat where "HcRhPortStatus2 \<equiv> 0x58"
abbreviation (input) OHCI_REG_MAX :: nat where "OHCI_REG_MAX \<equiv> 0x64"

abbreviation (input) CS_HCR :: u32 where "CS_HCR \<equiv> 0x00000001"
abbreviation (input) INTR_WDH :: u32 where "INTR_WDH \<equiv> 0x00000002"
abbreviation (input) INTR_SF :: u32 where "INTR_SF \<equiv> 0x00000004"
abbreviation (input) INTR_RHSC :: u32 where "INTR_RHSC \<equiv> 0x00000040"
abbreviation (input) INTR_MIE :: u32 where "INTR_MIE \<equiv> 0x80000000"
abbreviation (input) PORT_CCS :: u32 where "PORT_CCS \<equiv> 0x00000001"
abbreviation (input) PORT_PES :: u32 where "PORT_PES \<equiv> 0x00000002"
abbreviation (input) PORT_PPS :: u32 where "PORT_PPS \<equiv> 0x00000100"
abbreviation (input) PORT_CSC :: u32 where "PORT_CSC \<equiv> 0x00010000"
abbreviation (input) PORT_PRSC :: u32 where "PORT_PRSC \<equiv> 0x00100000"
abbreviation (input) HCCA_DONE_HEAD :: u32 where "HCCA_DONE_HEAD \<equiv> 0x84"
abbreviation (input) ED_PTR_MASK :: u32 where "ED_PTR_MASK \<equiv> 0xFFFFFFF0"

record OhciController =
  hc_base :: u32
  hc_reg :: "u32 list"
  hc_reads :: u32
  hc_writes :: u32
  decode_fail :: u32

record hc_world =
  s_hc :: "nat \<Rightarrow> OhciController"
  s_enabled :: bool
  g_setup_pending :: bool
  g_setup :: UsbSetup
  g_ctrl_buf :: "u8 list"
  g_ctrl_len :: int
  g_ctrl_sent :: int
  pad_device :: usb_gamepad
  host_pad :: "XBOX_GAMEPAD option"
  guest_ram :: host_memory
  mapped_size :: nat

definition rg :: "OhciController \<Rightarrow> nat \<Rightarrow> u32" where
  "rg c off = hc_reg c ! (off div 4)"

definition set_rg :: "nat \<Rightarrow> u32 \<Rightarrow> OhciController \<Rightarrow> OhciController" where
  "set_rg off v c = c\<lparr>hc_reg := (hc_reg c)[off div 4 := v]\<rparr>"

definition with_hc :: "nat \<Rightarrow> (OhciController \<Rightarrow> OhciController) \<Rightarrow> hc_world \<Rightarrow> hc_world" where
  "with_hc i f w = w\<lparr>s_hc := (s_hc w)(i := f (s_hc w i))\<rparr>"

section \<open>Guest memory\<close>

abbreviation (input) OHCI_CONTIG_BASE :: nat where "OHCI_CONTIG_BASE \<equiv> 0x80000000"
abbreviation (input) OHCI_CONTIG_SIZE :: nat where "OHCI_CONTIG_SIZE \<equiv> 64 * 1024 * 1024"

definition guest_ok :: "hc_world \<Rightarrow> u32 \<Rightarrow> nat \<Rightarrow> bool" where
  "guest_ok w va bytes \<longleftrightarrow>
     \<not> (va = 0 \<or> mapped_size w = 0) \<and>
     (OHCI_CONTIG_BASE \<le> unat va \<and> unat va + bytes \<le> OHCI_CONTIG_BASE + OHCI_CONTIG_SIZE
      \<or> unat va + bytes \<le> mapped_size w)"

definition rd32 :: "hc_world \<Rightarrow> u32 \<Rightarrow> u32" where
  "rd32 w va = (if \<not> guest_ok w va 4 then 0 else load32 (guest_ram w) (unat va))"

definition wr32 :: "u32 \<Rightarrow> u32 \<Rightarrow> hc_world \<Rightarrow> hc_world" where
  "wr32 va v w = (if \<not> guest_ok w va 4 then w else w\<lparr>guest_ram := store32 (guest_ram w) (unat va) v\<rparr>)"

definition guest_ptr :: "hc_world \<Rightarrow> u32 \<Rightarrow> nat \<Rightarrow> nat option" where
  "guest_ptr w va bytes = (if guest_ok w va bytes then Some (unat va) else None)"

section \<open>Registers\<close>

definition reg_of :: "nat \<Rightarrow> bool" where
  "reg_of off \<longleftrightarrow> off < OHCI_REG_MAX"

definition aligned :: "u32 \<Rightarrow> nat" where
  "aligned off = unat (off AND NOT 3)"

definition ohci_read :: "nat \<Rightarrow> hc_world \<Rightarrow> u32 \<Rightarrow> nat \<Rightarrow> u64 \<times> hc_world" where
  "ohci_read i w off sz =
     (let al = aligned off; c = s_hc w i;
          v = (if reg_of al then rg c al else 0);
          c = c\<lparr>hc_reads := hc_reads c + 1\<rparr>;
          v = (if al = HcFmNumber then drop_bit 3 (hc_reads c) AND 0xFFFF
               else if al = HcFmRemaining then (hc_reads c * 977) AND 0x3FFF else v);
          v = (if sz < 4 then drop_bit (unat (off AND 3) * 8) v else v);
          v = (if sz = 1 then v AND 0xFF else if sz = 2 then v AND 0xFFFF else v)
      in (ucast v, w\<lparr>s_hc := (s_hc w)(i := c)\<rparr>))"

text \<open>A write to one of the two port status registers.\<close>

definition port_write :: "nat \<Rightarrow> u32 \<Rightarrow> OhciController \<Rightarrow> OhciController" where
  "port_write al v c =
     (let ps = rg c al;
          ps = ps AND NOT (v AND 0xFFFF0000);
          ps = (if v AND 0x00000001 \<noteq> 0 then ps AND NOT PORT_PES else ps);
          ps = (if v AND 0x00000002 \<noteq> 0 then ps OR (if ps AND PORT_CCS \<noteq> 0 then PORT_PES else 0) else ps);
          ps = (if v AND 0x00000100 \<noteq> 0 then ps OR PORT_PPS else ps);
          ps = (if v AND 0x00000200 \<noteq> 0 then ps AND NOT PORT_PPS else ps)
      in if v AND 0x00000010 \<noteq> 0
         then let ps = (if ps AND PORT_CCS \<noteq> 0 then ps OR PORT_PES else ps); ps = ps OR PORT_PRSC;
                  c = set_rg al ps c
              in set_rg HcInterruptStatus (rg c HcInterruptStatus OR INTR_RHSC) c
         else set_rg al ps c)"

definition store_reg :: "nat \<Rightarrow> u32 \<Rightarrow> u32 \<Rightarrow> nat \<Rightarrow> OhciController \<Rightarrow> OhciController" where
  "store_reg al off v sz c =
     (if sz = 4 then set_rg al v c
      else let shift = unat (off AND 3) * 8; m = push_bit shift (if sz = 1 then 0xFF else 0xFFFF)
           in set_rg al ((rg c al AND NOT m) OR (push_bit shift v AND m)) c)"

definition command_write :: "u32 \<Rightarrow> OhciController \<Rightarrow> OhciController" where
  "command_write v c =
     (let c = set_rg HcCommandStatus (rg c HcCommandStatus OR v) c
      in if rg c HcCommandStatus AND CS_HCR \<noteq> 0
         then let c = set_rg HcCommandStatus (rg c HcCommandStatus AND NOT CS_HCR) c;
                  c = set_rg HcControl (rg c HcControl AND NOT 0xC0) c;
                  c = set_rg HcInterruptStatus 0 c
              in set_rg HcInterruptEnable 0 c
         else c)"

definition status_write :: "nat \<Rightarrow> u32 \<Rightarrow> hc_world \<Rightarrow> hc_world" where
  "status_write i v w =
     (let c = s_hc w i;
          w = (if v AND INTR_WDH \<noteq> 0 \<and> rg c HcInterruptStatus AND INTR_WDH \<noteq> 0
               then let hcca = rg c HcHCCA; w = (if hcca \<noteq> 0 then wr32 (hcca + HCCA_DONE_HEAD) 0 w else w)
                    in with_hc i (set_rg HcDoneHead 0) w
               else w)
      in with_hc i (\<lambda>c. set_rg HcInterruptStatus (rg c HcInterruptStatus AND NOT v) c) w)"

definition ohci_write :: "nat \<Rightarrow> hc_world \<Rightarrow> u32 \<Rightarrow> u64 \<Rightarrow> nat \<Rightarrow> hc_world" where
  "ohci_write i w off val sz =
     (let al = aligned off; v = ucast val :: u32; w = with_hc i (\<lambda>c. c\<lparr>hc_writes := hc_writes c + 1\<rparr>) w
      in if \<not> reg_of al then w
         else if al = HcRevision then w
         else if al = HcCommandStatus then with_hc i (command_write v) w
         else if al = HcInterruptStatus then status_write i v w
         else if al = HcInterruptEnable then with_hc i (\<lambda>c. set_rg HcInterruptEnable (rg c HcInterruptEnable OR v) c) w
         else if al = HcInterruptDisable then with_hc i (\<lambda>c. set_rg HcInterruptEnable (rg c HcInterruptEnable AND NOT v) c) w
         else if al = HcFmNumber \<or> al = HcFmRemaining then w
         else if al = HcRhDescriptorA
         then with_hc i (\<lambda>c. set_rg al ((rg c al AND 0x000000FF) OR (v AND NOT 0x000000FF)) c) w
         else if al = HcRhPortStatus1 \<or> al = HcRhPortStatus2 then with_hc i (port_write al v) w
         else with_hc i (store_reg al off v sz) w)"

section \<open>Transfer descriptors\<close>

abbreviation (input) TD_CC_NOERROR :: u32 where "TD_CC_NOERROR \<equiv> 0"
abbreviation (input) TD_CC_STALL :: u32 where "TD_CC_STALL \<equiv> 4"

definition setup_at :: "host_memory \<Rightarrow> nat \<Rightarrow> UsbSetup" where
  "setup_at m p =
     \<lparr>bmRequestType = m p, bRequest = m (p + 1), wValue = le16 (m (p + 2)) (m (p + 3)),
      wIndex = le16 (m (p + 4)) (m (p + 5)), wLength = le16 (m (p + 6)) (m (p + 7))\<rparr>"

definition put_guest :: "u32 \<Rightarrow> u8 list \<Rightarrow> hc_world \<Rightarrow> hc_world" where
  "put_guest va bs w =
     (case guest_ptr w va (length bs) of
        None \<Rightarrow> w
      | Some p \<Rightarrow> if length bs > 0 then w\<lparr>guest_ram := store_bytes (guest_ram w) p bs\<rparr> else w)"

text \<open>
  The three kinds of transfer. Each gives the bytes moved, or \<open>None\<close> with a condition code where
  the code returns before it writes the descriptor back.
\<close>

definition td_setup_packet :: "u32 \<Rightarrow> int \<Rightarrow> hc_world \<Rightarrow> (u32 + int) \<times> hc_world" where
  "td_setup_packet cbp len w =
     (if len \<ge> 8
      then (case guest_ptr w cbp 8 of
              None \<Rightarrow> (Inl TD_CC_NOERROR, w)
            | Some p \<Rightarrow> (Inr 8, w\<lparr>g_setup := setup_at (guest_ram w) p, g_setup_pending := True,
                g_ctrl_len := -1, g_ctrl_sent := 0\<rparr>))
      else (Inr 0, w))"

definition ctrl_answer :: "hc_world \<Rightarrow> bool \<times> hc_world" where
  "ctrl_answer w =
     (if g_ctrl_len w < 0
      then (case usb_gamepad_control (g_setup w) (g_ctrl_buf w) 64 (pad_device w) of
              (None, g) \<Rightarrow> (False, w\<lparr>pad_device := g, g_ctrl_len := -1, g_setup_pending := False\<rparr>)
            | (Some (n, buf), g) \<Rightarrow>
                (True, w\<lparr>pad_device := g, g_ctrl_buf := buf, g_ctrl_len := int n, g_ctrl_sent := 0\<rparr>))
      else (True, w))"

definition td_in_control :: "u32 \<Rightarrow> int \<Rightarrow> hc_world \<Rightarrow> (u32 + int) \<times> hc_world" where
  "td_in_control cbp len w =
     (if \<not> g_setup_pending w then (Inl TD_CC_NOERROR, w)
      else case ctrl_answer w of
             (False, w) \<Rightarrow> (Inl TD_CC_STALL, w)
           | (True, w) \<Rightarrow>
               let n = g_ctrl_len w - g_ctrl_sent w;
                   n = (if n > len then len else n);
                   n = (if n < 0 then 0 else n);
                   w = put_guest cbp (take (nat n) (drop (nat (g_ctrl_sent w)) (g_ctrl_buf w))) w
               in (Inr n, w\<lparr>g_ctrl_sent := g_ctrl_sent w + n\<rparr>))"

definition td_in_report :: "u32 \<Rightarrow> int \<Rightarrow> hc_world \<Rightarrow> (u32 + int) \<times> hc_world" where
  "td_in_report cbp len w =
     (let (n, rep) = usb_gamepad_report (host_pad w) (replicate 32 0) 32;
          n = (if int n > len then len else int n)
      in (Inr n, put_guest cbp (take (nat n) rep) w))"

definition ohci_do_td :: "u32 \<Rightarrow> u32 \<Rightarrow> hc_world \<Rightarrow> u32 \<times> hc_world" where
  "ohci_do_td ed0 td w =
     (let info = rd32 w td; cbp = rd32 w (td + 4); be = rd32 w (td + 12);
          dp = drop_bit 19 info AND 3;
          len = (if cbp \<noteq> 0 \<and> cbp \<le> be then sint (be - cbp + 1) else 0);
          endpoint = drop_bit 7 ed0 AND 0xF;
          (r, w) = (if dp = 0 then td_setup_packet cbp len w
                    else if dp = 2
                    then (if endpoint = 0 then td_in_control cbp len w else td_in_report cbp len w)
                    else (Inr len, w\<lparr>g_setup_pending := False\<rparr>))
      in case r of
           Inl cc \<Rightarrow> (cc, w)
         | Inr moved \<Rightarrow> (TD_CC_NOERROR, wr32 (td + 4) (if moved \<ge> len then 0 else cbp + of_int moved) w))"

section \<open>Endpoint lists\<close>

text \<open>
  The transfer descriptors of one endpoint: at most as many as the guard has left. The state of
  the walk is the head, the done queue and the number completed.
\<close>

fun walk_tds :: "nat \<Rightarrow> u32 \<Rightarrow> u32 \<Rightarrow> u32 \<times> u32 \<times> nat \<Rightarrow> hc_world \<Rightarrow> (u32 \<times> u32 \<times> nat) \<times> hc_world" where
  "walk_tds 0 ed0 tail s w = (s, w)"
| "walk_tds (Suc k) ed0 tail (head, done, completed) w =
     (let td = head AND ED_PTR_MASK
      in if \<not> (td \<noteq> tail \<and> guest_ok w td 16) then ((head, done, completed), w)
         else let next = rd32 w (td + 8) AND ED_PTR_MASK;
                  (cc, w) = ohci_do_td ed0 td w;
                  w = wr32 td ((rd32 w td AND 0x0FFFFFFF) OR push_bit 28 cc) w;
                  w = wr32 (td + 8) done w;
                  head = next OR (head AND 2)
              in if cc \<noteq> TD_CC_NOERROR then ((head OR 1, td, completed + 1), w)
                 else walk_tds k ed0 tail (head, td, completed + 1) w)"

fun walk_eds :: "nat \<Rightarrow> u32 \<Rightarrow> u32 \<times> nat \<Rightarrow> hc_world \<Rightarrow> (u32 \<times> nat) \<times> hc_world" where
  "walk_eds 0 ed s w = (s, w)"
| "walk_eds (Suc k) ed (done, completed) w =
     (if \<not> guest_ok w ed 16 then ((done, completed), w)
      else let ed0 = rd32 w ed; tail = rd32 w (ed + 4) AND ED_PTR_MASK; head = rd32 w (ed + 8)
           in if ed0 AND push_bit 14 1 \<noteq> 0 \<or> head AND 1 \<noteq> 0
              then walk_eds k (rd32 w (ed + 12) AND ED_PTR_MASK) (done, completed) w
              else let ((head, done, completed), w) = walk_tds 63 ed0 tail (head, done, completed) w;
                       w = wr32 (ed + 8) head w
                   in walk_eds k (rd32 w (ed + 12) AND ED_PTR_MASK) (done, completed) w)"

definition ohci_walk_eds :: "u32 \<Rightarrow> u32 \<Rightarrow> hc_world \<Rightarrow> (u32 \<times> nat) \<times> hc_world" where
  "ohci_walk_eds ed done w = walk_eds 63 ed (done, 0) w"

definition ohci_publish_done :: "nat \<Rightarrow> u32 \<Rightarrow> hc_world \<Rightarrow> hc_world" where
  "ohci_publish_done i done w =
     (let hcca = rg (s_hc w i) HcHCCA;
          w = (if hcca \<noteq> 0 then wr32 (hcca + HCCA_DONE_HEAD) done w else w);
          w = with_hc i (set_rg HcDoneHead done) w
      in with_hc i (\<lambda>c. set_rg HcInterruptStatus (rg c HcInterruptStatus OR INTR_WDH) c) w)"

definition ohci_run_control_list :: "nat \<Rightarrow> hc_world \<Rightarrow> nat \<times> hc_world" where
  "ohci_run_control_list i w =
     (let ((done, completed), w) = ohci_walk_eds (rg (s_hc w i) HcControlHeadED AND ED_PTR_MASK) 0 w
      in (completed, if completed > 0 then ohci_publish_done i done w else w))"

definition ohci_run_periodic_list :: "nat \<Rightarrow> hc_world \<Rightarrow> nat \<times> hc_world" where
  "ohci_run_periodic_list i w =
     (let hcca = rg (s_hc w i) HcHCCA
      in if hcca = 0 then (0, w)
         else let ((done, completed), w) =
                fold (\<lambda>slot ((done, completed), w).
                  let ed = rd32 w (hcca + of_nat slot * 4) AND ED_PTR_MASK
                  in if ed \<noteq> 0
                     then let ((done, n), w) = ohci_walk_eds ed done w in ((done, completed + n), w)
                     else ((done, completed), w)) [0..<32] ((0, 0), w)
              in (completed, if completed > 0 then ohci_publish_done i done w else w))"

section \<open>Interrupts\<close>

record guest_regs =
  g_eax :: u32
  g_ecx :: u32
  g_edx :: u32
  g_ebx :: u32
  g_esi :: u32
  g_edi :: u32
  g_esp :: u32
  g_fs_base :: u32

text \<open>
  What the rest of the runtime provides to the worker: the connected interrupt object, the
  translation of a guest routine, and the stack slice it may use (\<open>None\<close> when none is free).
\<close>

record isr_env =
  connected_interrupt :: u32
  recomp_lookup :: "u32 \<Rightarrow> (guest_regs \<times> hc_world \<Rightarrow> guest_regs \<times> hc_world) option"
  worker_stack_top :: "u32 option"

definition push_arg :: "u32 \<Rightarrow> guest_regs \<times> hc_world \<Rightarrow> guest_regs \<times> hc_world" where
  "push_arg v = (\<lambda>(t, w). let sp = g_esp t - 4 in (t\<lparr>g_esp := sp\<rparr>, w\<lparr>guest_ram := store32 (guest_ram w) (unat sp) v\<rparr>))"

definition ohci_call_isr :: "isr_env \<Rightarrow> guest_regs \<times> hc_world \<Rightarrow> int \<times> guest_regs \<times> hc_world" where
  "ohci_call_isr e = (\<lambda>(t, w).
     (let k = connected_interrupt e
      in if k = 0 then (-1, t, w)
         else let routine = load32 (guest_ram w) (unat k); ctxt = load32 (guest_ram w) (unat k + 4)
              in if routine = 0 then (-1, t, w)
                 else case recomp_lookup e routine of
                        None \<Rightarrow> (-1, t, w)
                      | Some fn \<Rightarrow>
                          (case worker_stack_top e of
                             None \<Rightarrow> (-1, t, w)
                           | Some sp0 \<Rightarrow>
                               let t = t\<lparr>g_esp := sp0, g_eax := 0, g_ecx := 0, g_edx := 0, g_ebx := 0, g_esi := 0, g_edi := 0\<rparr>;
                                   (t, w) = fn (push_arg 0xDEADBEEF (push_arg k (push_arg ctxt (t, w))))
                               in (uint (g_eax t AND 1), t, w))))"

definition ohci_raise :: "isr_env \<Rightarrow> nat \<Rightarrow> u32 \<Rightarrow> guest_regs \<times> hc_world \<Rightarrow> guest_regs \<times> hc_world" where
  "ohci_raise e i source = (\<lambda>(t, w).
     (let enable = rg (s_hc w i) HcInterruptEnable;
          w = with_hc i (\<lambda>c. set_rg HcInterruptStatus (rg c HcInterruptStatus OR source) c) w
      in if enable AND INTR_MIE = 0 \<or> enable AND source = 0 then (t, w)
         else snd (ohci_call_isr e (t, w))))"

section \<open>Bring-up\<close>

definition ohci_reset :: "u32 \<Rightarrow> OhciController" where
  "ohci_reset base =
     (let c = \<lparr>hc_base = base, hc_reg = replicate 25 0, hc_reads = 0, hc_writes = 0, decode_fail = 0\<rparr>;
          c = set_rg HcRevision 0x00000010 c;
          c = set_rg HcFmInterval 0x27782EDF c;
          c = set_rg HcPeriodicStart 0x00003E67 c;
          c = set_rg HcLSThreshold 0x00000628 c;
          c = set_rg HcRhDescriptorA (2 OR push_bit 9 1) c;
          c = set_rg 0x4C 0 c;
          c = set_rg 0x50 0 c;
          c = set_rg HcRhPortStatus1 PORT_PPS c
      in set_rg HcRhPortStatus2 PORT_PPS c)"

abbreviation (input) XBOX_OHCI0_BASE :: u32 where "XBOX_OHCI0_BASE \<equiv> 0xFED00000"
abbreviation (input) XBOX_OHCI1_BASE :: u32 where "XBOX_OHCI1_BASE \<equiv> 0xFED08000"
abbreviation (input) XBOX_OHCI_SIZE :: u32 where "XBOX_OHCI_SIZE \<equiv> 0x00001000"

text \<open>
  The Windows build. \<open>usb\<close> is whether \<open>RECOMP_USB\<close> is set, \<open>mapped\<close> whether guest memory is mapped
  yet, \<open>protects\<close> whether each aperture could be made inaccessible. The result says whether the
  worker thread is started.
\<close>

definition xbox_OhciInit :: "bool \<Rightarrow> bool \<Rightarrow> (nat \<Rightarrow> bool) \<Rightarrow> bool \<times> hc_world \<Rightarrow> bool \<times> bool \<times> hc_world" where
  "xbox_OhciInit usb is_mapped protects = (\<lambda>(inited, w).
     (if inited then (False, True, w)
      else if \<not> usb then (False, True, w)
      else let w = w\<lparr>s_enabled := True, s_hc := (s_hc w)(0 := ohci_reset XBOX_OHCI0_BASE, 1 := ohci_reset XBOX_OHCI1_BASE)\<rparr>
           in if \<not> is_mapped \<or> \<not> protects 0 \<or> \<not> protects 1 then (False, True, w\<lparr>s_enabled := False\<rparr>)
              else (True, True, w)))"

definition hc_for :: "hc_world \<Rightarrow> u32 \<Rightarrow> nat option" where
  "hc_for w va =
     (if \<not> s_enabled w then None
      else find (\<lambda>i. hc_base (s_hc w i) \<le> va \<and> va < hc_base (s_hc w i) + XBOX_OHCI_SIZE) [0..<2])"

definition xbox_OhciOwnsAddress :: "hc_world \<Rightarrow> u32 \<Rightarrow> bool" where
  "xbox_OhciOwnsAddress w va \<longleftrightarrow> hc_for w va \<noteq> None"

definition xbox_OhciHandleMmio :: "u8 list \<Rightarrow> CONTEXT \<Rightarrow> u32 \<Rightarrow> hc_world \<Rightarrow> (bool \<times> CONTEXT \<times> hc_world) option" where
  "xbox_OhciHandleMmio code ctx va w =
     (case hc_for w va of
        None \<Rightarrow> Some (False, ctx, w)
      | Some i \<Rightarrow>
          map_option (\<lambda>(ok, ctx, w). (ok, ctx, if ok then w else with_hc i (\<lambda>c. c\<lparr>decode_fail := decode_fail c + 1\<rparr>) w))
            (mmio_emulate code ctx (va - hc_base (s_hc w i)) w (Some (ohci_read i)) (Some (ohci_write i))))"

section \<open>The interrupt worker\<close>

record hc_worker =
  waited :: u32
  plugged :: bool
  last_status :: u32
  repeats :: u32

definition hc_worker_start :: hc_worker where
  "hc_worker_start = \<lparr>waited = 0, plugged = False, last_status = 0, repeats = 0\<rparr>"

definition plug_in :: "u32 option \<Rightarrow> hc_world \<Rightarrow> hc_world" where
  "plug_in spec w =
     (let port = (case spec of None \<Rightarrow> 0 | Some p \<Rightarrow> p); port = (if port > 1 then 1 else port);
          al = HcRhPortStatus1 + unat port * 4
      in with_hc 0 (\<lambda>c. let c = set_rg al (rg c al OR (PORT_CCS OR PORT_CSC)) c
                        in set_rg HcInterruptStatus (rg c HcInterruptStatus OR INTR_RHSC) c) w)"

definition frame_clock :: "hc_world \<Rightarrow> hc_world" where
  "frame_clock w =
     (let hcca = rg (s_hc w 0) HcHCCA;
          w = with_hc 0 (\<lambda>c. set_rg HcFmNumber ((rg c HcFmNumber + 20) AND 0xFFFF) c) w;
          w = (if hcca \<noteq> 0 then wr32 (hcca + 0x80) (rg (s_hc w 0) HcFmNumber) w else w)
      in with_hc 0 (\<lambda>c. set_rg HcInterruptStatus (rg c HcInterruptStatus OR INTR_SF) c) w)"

definition run_bulk_list :: "hc_world \<Rightarrow> hc_world" where
  "run_bulk_list w =
     (let head = rg (s_hc w 0) HcBulkHeadED AND ED_PTR_MASK
      in if \<not> guest_ok w head 16 then w
         else let ((done, completed), w) = ohci_walk_eds head 0 w
              in if completed > 0
                 then with_hc 0 (\<lambda>c. set_rg HcCommandStatus (rg c HcCommandStatus AND NOT 0x04) c) (ohci_publish_done 0 done w)
                 else w)"

definition serve_control_list :: "hc_world \<Rightarrow> hc_world" where
  "serve_control_list w =
     (if \<not> guest_ok w (rg (s_hc w 0) HcControlHeadED AND ED_PTR_MASK) 16 then w
      else let (completed, w) = ohci_run_control_list 0 w
           in if completed > 0 then with_hc 0 (\<lambda>c. set_rg HcCommandStatus (rg c HcCommandStatus AND NOT 0x02) c) w else w)"

definition serve_lists :: "u32 \<Rightarrow> hc_world \<Rightarrow> hc_world" where
  "serve_lists control w =
     (let w = (if control AND 0x04 \<noteq> 0 then snd (ohci_run_periodic_list 0 w) else w);
          w = (if control AND 0x20 \<noteq> 0 then run_bulk_list w else w)
      in if control AND 0x10 \<noteq> 0 then serve_control_list w else w)"

text \<open>
  One turn of the thread's loop after its sleep; \<open>None\<close> for the worker is the thread ending.
\<close>

definition ohci_thread :: "isr_env \<Rightarrow> u32 option \<Rightarrow> hc_worker \<times> guest_regs \<times> hc_world \<Rightarrow> hc_worker option \<times> guest_regs \<times> hc_world" where
  "ohci_thread e spec = (\<lambda>(k, t, w).
     (let control = rg (s_hc w 0) HcControl; enable = rg (s_hc w 0) HcInterruptEnable
      in if control AND 0xC0 \<noteq> 0x80
         then (let k = k\<lparr>waited := waited k + 1\<rparr> in (if waited k > 1500 then None else Some k, t, w))
         else if enable AND INTR_MIE = 0 then (Some k, t, w)
         else let (k, w) = (if \<not> plugged k \<and> enable AND INTR_RHSC \<noteq> 0 then (k\<lparr>plugged := True\<rparr>, plug_in spec w) else (k, w));
                  w = frame_clock w;
                  w = serve_lists control w;
                  status = rg (s_hc w 0) HcInterruptStatus AND enable AND 0x7F
              in if status = 0 then (Some k, t, w)
                 else if status = last_status k
                 then (let k = k\<lparr>repeats := repeats k + 1\<rparr>
                       in if repeats k > 200 then (None, t, w) else (Some k, ohci_raise e 0 status (t, w)))
                 else (Some (k\<lparr>last_status := status, repeats := 0\<rparr>), ohci_raise e 0 status (t, w))))"

end
