(* ===== verification/Hc_Invariant.thy ===== *)
theory Hc_Invariant
  imports Hc_Controller
begin

text \<open>
  The invariant of the register-level USB controller: what every access a title makes, every step
  of the walk and every turn of the worker keep, from bring-up on. The worker's turn is one step;
  the code runs it on its own thread, without a lock, so a guest access that falls inside a turn is
  not covered.
\<close>

section \<open>The register file\<close>

lemma rg_set_rg: "length (hc_reg c) = 25 \<Longrightarrow> off < 0x64 \<Longrightarrow> rg (set_rg off v c) off' = (if off div 4 = off' div 4 then v else rg c off')"
  by (auto simp: rg_def set_rg_def)

lemma length_set_rg [simp]: "length (hc_reg (set_rg off v c)) = length (hc_reg c)"
  by (simp add: set_rg_def)

lemma hc_base_set_rg [simp]: "hc_base (set_rg off v c) = hc_base c"
  by (simp add: set_rg_def)

lemma rg_counts [simp]: "rg (c\<lparr>hc_reads := n\<rparr>) off = rg c off" "rg (c\<lparr>hc_writes := n\<rparr>) off = rg c off"
    "rg (c\<lparr>decode_fail := n\<rparr>) off = rg c off"
  by (simp_all add: rg_def)

lemma with_hc_sel [simp]: "s_hc (with_hc i f w) = (s_hc w)(i := f (s_hc w i))" "guest_ram (with_hc i f w) = guest_ram w"
    "mapped_size (with_hc i f w) = mapped_size w" "s_enabled (with_hc i f w) = s_enabled w"
    "g_setup_pending (with_hc i f w) = g_setup_pending w" "g_ctrl_buf (with_hc i f w) = g_ctrl_buf w"
    "g_ctrl_len (with_hc i f w) = g_ctrl_len w" "g_ctrl_sent (with_hc i f w) = g_ctrl_sent w"
  by (simp_all add: with_hc_def)

lemma wr32_sel [simp]: "s_hc (wr32 va v w) = s_hc w" "mapped_size (wr32 va v w) = mapped_size w"
    "s_enabled (wr32 va v w) = s_enabled w" "g_setup_pending (wr32 va v w) = g_setup_pending w"
    "g_ctrl_buf (wr32 va v w) = g_ctrl_buf w" "g_ctrl_len (wr32 va v w) = g_ctrl_len w" "g_ctrl_sent (wr32 va v w) = g_ctrl_sent w"
  by (simp_all add: wr32_def)

lemma put_guest_sel [simp]: "s_hc (put_guest va bs w) = s_hc w" "mapped_size (put_guest va bs w) = mapped_size w"
    "s_enabled (put_guest va bs w) = s_enabled w" "g_setup_pending (put_guest va bs w) = g_setup_pending w"
    "g_ctrl_buf (put_guest va bs w) = g_ctrl_buf w" "g_ctrl_len (put_guest va bs w) = g_ctrl_len w"
    "g_ctrl_sent (put_guest va bs w) = g_ctrl_sent w"
  by (simp_all add: put_guest_def split: option.split)

lemma guest_ok_cong: "mapped_size w = mapped_size w' \<Longrightarrow> guest_ok w va n = guest_ok w' va n"
  by (simp add: guest_ok_def)

section \<open>What every operation keeps\<close>

text \<open>
  The revision reads 1.0, the root hub has two ports, the reset bit is never left set, and a
  port is enabled only when something is connected to it.
\<close>

definition port_ok :: "u32 \<Rightarrow> bool" where
  "port_ok ps \<longleftrightarrow> (bit ps 1 \<longrightarrow> bit ps 0)"

definition hc_ok :: "OhciController \<Rightarrow> bool" where
  "hc_ok c \<longleftrightarrow> length (hc_reg c) = 25 \<and> rg c HcRevision = 0x10 \<and> rg c HcRhDescriptorA AND 0xFF = 2 \<and>
     \<not> bit (rg c HcCommandStatus) 0 \<and> port_ok (rg c HcRhPortStatus1) \<and> port_ok (rg c HcRhPortStatus2)"

text \<open>The answer of a control transfer fits its buffer, and no more of it is sent than there is.\<close>

definition ctrl_ok :: "hc_world \<Rightarrow> bool" where
  "ctrl_ok w \<longleftrightarrow> length (g_ctrl_buf w) = 64 \<and> g_ctrl_len w \<le> 64 \<and> 0 \<le> g_ctrl_sent w \<and>
     g_ctrl_sent w \<le> max 0 (g_ctrl_len w)"

definition hc_world_ok :: "hc_world \<Rightarrow> bool" where
  "hc_world_ok w \<longleftrightarrow> hc_ok (s_hc w 0) \<and> hc_ok (s_hc w 1) \<and> ctrl_ok w"

lemma hc_ok_counts [simp]: "hc_ok (c\<lparr>hc_reads := n\<rparr>) = hc_ok c" "hc_ok (c\<lparr>hc_writes := n\<rparr>) = hc_ok c"
    "hc_ok (c\<lparr>decode_fail := n\<rparr>) = hc_ok c"
  by (simp_all add: hc_ok_def)

lemma port_bits: "bit (0x00000002 :: u32) n \<longleftrightarrow> n = 1" "bit (0x00000001 :: u32) n \<longleftrightarrow> n = 0"
    "bit (0x00000100 :: u32) n \<longleftrightarrow> n = 8" "bit (0x00100000 :: u32) n \<longleftrightarrow> n = 20" "bit (0x00010000 :: u32) n \<longleftrightarrow> n = 16"
    "bit (0x00000010 :: u32) n \<longleftrightarrow> n = 4" "bit (0x00000040 :: u32) n \<longleftrightarrow> n = 6"
proof -
  have p: "(2 :: u32) ^ k = push_bit k 1" for k by (simp add: push_bit_eq_mult)
  have b: "bit ((2 :: u32) ^ k) n \<longleftrightarrow> n = k" if "k < 32" for k
    using that by (auto simp: bit_exp_iff)
  show "bit (0x00000002 :: u32) n \<longleftrightarrow> n = 1" "bit (0x00000001 :: u32) n \<longleftrightarrow> n = 0"
    "bit (0x00000100 :: u32) n \<longleftrightarrow> n = 8" "bit (0x00100000 :: u32) n \<longleftrightarrow> n = 20" "bit (0x00010000 :: u32) n \<longleftrightarrow> n = 16"
    "bit (0x00000010 :: u32) n \<longleftrightarrow> n = 4" "bit (0x00000040 :: u32) n \<longleftrightarrow> n = 6"
    using b [of 1] b [of 0] b [of 8] b [of 20] b [of 16] b [of 4] b [of 6] by simp_all
qed

lemma high_half: "\<not> bit (v AND 0xFFFF0000 :: u32) 0" "\<not> bit (v AND 0xFFFF0000 :: u32) (Suc 0)"
  unfolding mask_literals(8) bit_and_iff bit_not_iff bit_mask_iff by simp_all


lemma hc_ok_set_rg:
  "hc_ok c \<Longrightarrow> off < 0x64 \<Longrightarrow> off div 4 \<notin> {0, 2, 18, 21, 22} \<Longrightarrow> hc_ok (set_rg off v c)"
  by (auto simp: hc_ok_def rg_set_rg)

lemma hc_ok_port: "hc_ok c \<Longrightarrow> al \<in> {0x54, 0x58} \<Longrightarrow> port_ok v \<Longrightarrow> hc_ok (set_rg al v c)"
  by (auto simp: hc_ok_def rg_set_rg)

lemma port_ok_steps:
  "port_ok ps \<Longrightarrow> port_ok (ps AND NOT (v AND 0xFFFF0000))"
  "port_ok (ps AND NOT 0x00000002)"
  "port_ok ps \<Longrightarrow> port_ok (ps OR (if ps AND 0x00000001 \<noteq> 0 then 0x00000002 else 0))"
  "port_ok ps \<Longrightarrow> port_ok (ps OR 0x00000100)"
  "port_ok ps \<Longrightarrow> port_ok (ps AND NOT 0x00000100)"
  "port_ok ps \<Longrightarrow> port_ok (if ps AND 0x00000001 \<noteq> 0 then ps OR 0x00000002 else ps)"
  "port_ok ps \<Longrightarrow> port_ok (ps OR 0x00100000)"
  "port_ok ps \<Longrightarrow> port_ok (ps OR (0x00000001 OR 0x00010000))"
proof -
  have ccs: "v AND 0x00000001 \<noteq> 0 \<longleftrightarrow> bit v 0" for v :: u32
    using word_nz_single_bit [of v 0] by simp
  have pb: "possible_bit TYPE(32 word) 0" by simp
  note b = port_ok_def bit_and_iff bit_or_iff bit_not_iff port_bits
  show "port_ok ps \<Longrightarrow> port_ok (ps AND NOT (v AND 0xFFFF0000))"
    using high_half [of v] pb unfolding port_ok_def bit_and_iff bit_not_iff One_nat_def by blast
  show "port_ok (ps AND NOT 0x00000002)" "port_ok ps \<Longrightarrow> port_ok (ps OR 0x00000100)"
    "port_ok ps \<Longrightarrow> port_ok (ps AND NOT 0x00000100)" "port_ok ps \<Longrightarrow> port_ok (ps OR 0x00100000)"
    "port_ok ps \<Longrightarrow> port_ok (ps OR (0x00000001 OR 0x00010000))"
    unfolding b by simp_all
  show "port_ok ps \<Longrightarrow> port_ok (ps OR (if ps AND 0x00000001 \<noteq> 0 then 0x00000002 else 0))"
    "port_ok ps \<Longrightarrow> port_ok (if ps AND 0x00000001 \<noteq> 0 then ps OR 0x00000002 else ps)"
    unfolding ccs port_ok_def bit_or_iff if_distrib [of "\<lambda>w. bit w _"] port_bits by (simp_all split: if_splits) blast
qed

lemma hc_ok_port_write: "hc_ok c \<Longrightarrow> al \<in> {0x54, 0x58} \<Longrightarrow> hc_ok (port_write al v c)"
proof -
  assume c: "hc_ok c" and al: "al \<in> {0x54, 0x58}"
  have ps0: "port_ok (rg c al)" using c al by (auto simp: hc_ok_def)
  define ps where "ps = (let ps = rg c al; ps = ps AND NOT (v AND 0xFFFF0000);
      ps = (if v AND 0x00000001 \<noteq> 0 then ps AND NOT 0x00000002 else ps);
      ps = (if v AND 0x00000002 \<noteq> 0 then ps OR (if ps AND 0x00000001 \<noteq> 0 then 0x00000002 else 0) else ps);
      ps = (if v AND 0x00000100 \<noteq> 0 then ps OR 0x00000100 else ps)
    in if v AND 0x00000200 \<noteq> 0 then ps AND NOT 0x00000100 else ps)"
  have cond: "port_ok x \<Longrightarrow> port_ok y \<Longrightarrow> port_ok (if b then x else y)" for b x y by simp
  note s1 = port_ok_steps(1) [OF ps0, of v]
  note s2 = cond [OF port_ok_steps(2) s1, of "v AND 0x00000001 \<noteq> 0"]
  note s3 = cond [OF port_ok_steps(3) [OF s2] s2, of "v AND 0x00000002 \<noteq> 0"]
  note s4 = cond [OF port_ok_steps(4) [OF s3] s3, of "v AND 0x00000100 \<noteq> 0"]
  have ps: "port_ok ps" unfolding ps_def Let_def by (rule cond [OF port_ok_steps(5) [OF s4] s4])
  have "port_write al v c = (if v AND 0x00000010 \<noteq> 0
      then let c = set_rg al ((if ps AND 0x00000001 \<noteq> 0 then ps OR 0x00000002 else ps) OR 0x00100000) c
           in set_rg HcInterruptStatus (rg c HcInterruptStatus OR 0x00000040) c
      else set_rg al ps c)"
    unfolding port_write_def ps_def Let_def ..
  then show ?thesis
    using hc_ok_port [OF c al ps] hc_ok_port [OF c al port_ok_steps(7) [OF port_ok_steps(6) [OF ps]]]
    by (simp add: Let_def hc_ok_set_rg)
qed

lemma hcr_clear: "\<not> bit (x AND NOT 0x00000001 :: u32) 0" "\<not> bit x 0 \<Longrightarrow> \<not> bit (x AND NOT m :: u32) 0"
  unfolding bit_and_iff bit_not_iff port_bits by simp_all

lemma hcr_nz: "(x :: u32) AND 0x00000001 \<noteq> 0 \<longleftrightarrow> bit x 0"
  using word_nz_single_bit [of x 0] by simp

lemma hc_ok_command: "hc_ok c \<Longrightarrow> \<not> bit v 0 \<Longrightarrow> hc_ok (set_rg HcCommandStatus v c)"
  by (auto simp: hc_ok_def rg_set_rg)

lemma hc_ok_command_write: "hc_ok c \<Longrightarrow> hc_ok (command_write v c)"
proof -
  assume c: "hc_ok c"
  have len: "length (hc_reg c) = 25" using c by (simp add: hc_ok_def)
  let ?cs = "rg c HcCommandStatus OR v"
  have r: "rg (set_rg HcCommandStatus ?cs c) HcCommandStatus = ?cs" using len by (simp add: rg_set_rg)
  show ?thesis
  proof (cases "bit ?cs 0")
    case False
    then have "command_write v c = set_rg HcCommandStatus ?cs c"
      unfolding command_write_def Let_def r hcr_nz by (simp only: if_False)
    then show ?thesis using hc_ok_command [OF c False] by (simp only:)
  next
    case True
    have "set_rg HcCommandStatus (?cs AND NOT 0x00000001) (set_rg HcCommandStatus ?cs c) = set_rg HcCommandStatus (?cs AND NOT 0x00000001) c"
      by (simp add: set_rg_def)
    then have "command_write v c =
        (let c = set_rg HcCommandStatus (?cs AND NOT 0x00000001) c; c = set_rg HcControl (rg c HcControl AND NOT 0xC0) c;
             c = set_rg HcInterruptStatus 0 c in set_rg HcInterruptEnable 0 c)"
      unfolding command_write_def Let_def r hcr_nz using True by (simp only: if_True)
    then show ?thesis using hc_ok_command [OF c hcr_clear(1), of ?cs] by (simp add: Let_def hc_ok_set_rg)
  qed
qed

lemma hc_ok_descriptor_a: "hc_ok c \<Longrightarrow> hc_ok (set_rg HcRhDescriptorA ((rg c HcRhDescriptorA AND 0xFF) OR (v AND NOT 0xFF)) c)"
proof -
  assume c: "hc_ok c"
  have "((rg c HcRhDescriptorA AND 0xFF) OR (v AND NOT 0xFF)) AND 0xFF = rg c HcRhDescriptorA AND 0xFF"
    unfolding mask_literals(1) by (rule bit_word_eqI) (auto simp: bit_and_iff bit_or_iff bit_not_iff)
  then show ?thesis using c by (auto simp: hc_ok_def rg_set_rg)
qed

lemma hc_ok_store_reg: "hc_ok c \<Longrightarrow> al < 0x64 \<Longrightarrow> al div 4 \<notin> {0, 2, 18, 21, 22} \<Longrightarrow> hc_ok (store_reg al off v sz c)"
  by (auto simp: store_reg_def Let_def hc_ok_set_rg)

lemma aligned_slots: "aligned off mod 4 = 0"
proof -
  have three: "(3 :: u32) = mask 2" by (simp add: mask_eq_exp_minus_1)
  have "off AND NOT 3 = push_bit 2 (drop_bit 2 off)"
    unfolding three
  proof (rule bit_word_eqI)
    fix n assume "n < LENGTH(32)"
    moreover have "2 \<le> n \<Longrightarrow> 2 + (n - 2) = n" by simp
    ultimately show "bit (off AND NOT (mask 2)) n = bit (push_bit 2 (drop_bit 2 off)) n"
      unfolding bit_and_iff bit_not_iff bit_mask_iff bit_push_bit_iff bit_drop_bit_eq comp_def by auto
  qed
  then have "aligned off = take_bit 32 (push_bit 2 (unat (drop_bit 2 off)))" by (simp add: aligned_def unsigned_push_bit_eq)
  then have "take_bit 2 (aligned off) = 0" by (simp add: take_bit_push_bit)
  then show ?thesis by (simp add: take_bit_eq_mod)
qed


lemma slot_apart: "al mod 4 = 0 \<Longrightarrow> al \<notin> {0, 8, 0x48, 0x54, 0x58} \<Longrightarrow> al div 4 \<notin> {0, 2, 18, 21, 22 :: nat}"
  by auto

definition keeps_hc :: "(hc_world \<Rightarrow> hc_world) \<Rightarrow> bool" where
  "keeps_hc f \<longleftrightarrow> (\<forall>w. hc_world_ok w \<longrightarrow> hc_world_ok (f w))"

lemma ok_with_hc: "hc_world_ok w \<Longrightarrow> (\<And>c. hc_ok c \<Longrightarrow> hc_ok (f c)) \<Longrightarrow> i < 2 \<Longrightarrow> hc_world_ok (with_hc i f w)"
  by (drule less_2_cases) (auto simp: hc_world_ok_def ctrl_ok_def)

lemma ok_wr32: "hc_world_ok w \<Longrightarrow> hc_world_ok (wr32 va v w)"
  by (simp add: hc_world_ok_def ctrl_ok_def)

lemma ok_counts: "hc_world_ok w \<Longrightarrow> hc_world_ok (w\<lparr>guest_ram := m\<rparr>) \<and> hc_world_ok (w\<lparr>host_pad := p\<rparr>)"
  by (simp add: hc_world_ok_def ctrl_ok_def)

lemma ok_read: "hc_world_ok w \<Longrightarrow> hc_world_ok (snd (ohci_read i w off sz))"
  by (cases "i = 0"; cases "i = 1") (simp_all add: ohci_read_def Let_def hc_world_ok_def ctrl_ok_def)

lemma ok_status_write: "hc_world_ok w \<Longrightarrow> i < 2 \<Longrightarrow> hc_world_ok (status_write i v w)"
  by (auto simp: status_write_def Let_def intro!: ok_with_hc ok_wr32 hc_ok_set_rg)

lemma ok_write: "hc_world_ok w \<Longrightarrow> i < 2 \<Longrightarrow> hc_world_ok (ohci_write i w off val sz)"
proof -
  assume w: "hc_world_ok w" and i: "i < 2"
  define al where "al = aligned off"
  have al4: "al mod 4 = 0" by (simp add: al_def aligned_slots)
  define w1 where "w1 = with_hc i (\<lambda>c. c\<lparr>hc_writes := hc_writes c + 1\<rparr>) w"
  have w1: "hc_world_ok w1" unfolding w1_def by (rule ok_with_hc [OF w _ i]) simp
  show ?thesis
    unfolding ohci_write_def Let_def al_def [symmetric] w1_def [symmetric] reg_of_def
    using w1 i slot_apart [OF al4] ok_with_hc [OF w1 hc_ok_descriptor_a i]
    by (cases "al = 0x48") (simp, auto intro!: ok_with_hc ok_status_write hc_ok_command_write hc_ok_set_rg hc_ok_port_write hc_ok_store_reg)
qed


section \<open>The walk\<close>

definition in_guest :: "hc_world \<Rightarrow> nat \<Rightarrow> bool" where
  "in_guest w a \<longleftrightarrow> mapped_size w \<noteq> 0 \<and> (a < mapped_size w \<or> OHCI_CONTIG_BASE \<le> a \<and> a < OHCI_CONTIG_BASE + OHCI_CONTIG_SIZE)"

text \<open>A step of the walk leaves the registers and all memory the guest does not have alone.\<close>

definition list_step :: "hc_world \<Rightarrow> hc_world \<Rightarrow> bool" where
  "list_step w w' \<longleftrightarrow> s_hc w' = s_hc w \<and> s_enabled w' = s_enabled w \<and> mapped_size w' = mapped_size w \<and>
     (\<forall>a. \<not> in_guest w a \<longrightarrow> guest_ram w' a = guest_ram w a) \<and> (ctrl_ok w \<longrightarrow> ctrl_ok w')"

lemma list_step_refl [simp]: "list_step w w" by (simp add: list_step_def)

lemma list_step_trans [trans]: "list_step w w' \<Longrightarrow> list_step w' w'' \<Longrightarrow> list_step w w''"
  by (auto simp: list_step_def in_guest_def)

lemma guest_ok_in_guest: "guest_ok w va n \<Longrightarrow> unat va \<le> a \<Longrightarrow> a < unat va + n \<Longrightarrow> in_guest w a"
  by (auto simp: guest_ok_def in_guest_def)

lemma wr32_step: "list_step w (wr32 va v w)"
  using guest_ok_in_guest [of w va 4]
  by (auto simp: list_step_def wr32_def ctrl_ok_def intro!: store32_outside) (metis not_less)

lemma put_guest_step: "list_step w (put_guest va bs w)"
  using guest_ok_in_guest [of w va "length bs"]
  by (auto simp: list_step_def put_guest_def guest_ptr_def ctrl_ok_def intro!: store_bytes_outside) (metis not_less)

lemma td_setup_packet_step: "list_step w (snd (td_setup_packet cbp len w))"
  by (auto simp: td_setup_packet_def list_step_def ctrl_ok_def in_guest_def split: option.split)

lemma ctrl_answer_step: "ctrl_ok w \<Longrightarrow> ctrl_ok (snd (ctrl_answer w))"
  using control_length [of "g_setup w" "g_ctrl_buf w" 64 "pad_device w"]
  by (auto simp: ctrl_answer_def ctrl_ok_def split: prod.split option.split) 

lemma ctrl_answer_frame: "list_step w (snd (ctrl_answer w))"
  using ctrl_answer_step [of w]
  by (auto simp: list_step_def ctrl_answer_def split: prod.split option.split)

lemma ctrl_answer_len: "ctrl_ok w \<Longrightarrow> fst (ctrl_answer w) \<Longrightarrow> 0 \<le> g_ctrl_len (snd (ctrl_answer w))"
  by (auto simp: ctrl_answer_def split: prod.splits option.splits if_splits)

lemma td_in_control_step: "list_step w (snd (td_in_control cbp len w))"
proof (cases "g_setup_pending w")
  case True
  obtain ok w1 where a: "ctrl_answer w = (ok, w1)" by force
  note f = ctrl_answer_frame [of w, unfolded a snd_conv]
  show ?thesis
  proof (cases ok)
    case t: True
    define n where "n = (let n = g_ctrl_len w1 - g_ctrl_sent w1; n = (if n > len then len else n) in if n < 0 then 0 else n)"
    define w2 where "w2 = put_guest cbp (take (nat n) (drop (nat (g_ctrl_sent w1)) (g_ctrl_buf w1))) w1"
    have r: "snd (td_in_control cbp len w) = w2\<lparr>g_ctrl_sent := g_ctrl_sent w1 + n\<rparr>"
      using True t by (simp add: td_in_control_def a n_def w2_def Let_def)
    have n: "0 \<le> n \<and> (n = 0 \<or> n \<le> g_ctrl_len w1 - g_ctrl_sent w1)" by (simp add: n_def Let_def)
    have s2: "list_step w1 w2" unfolding w2_def by (rule put_guest_step)
    have "list_step w1 (w2\<lparr>g_ctrl_sent := g_ctrl_sent w1 + n\<rparr>)"
      using s2 n by (auto simp: list_step_def ctrl_ok_def w2_def)
    then show ?thesis unfolding r using f by (rule list_step_trans [rotated])
  qed (use True f in \<open>simp add: td_in_control_def a\<close>)
qed (simp add: td_in_control_def)

lemma td_in_report_step: "list_step w (snd (td_in_report cbp len w))"
  by (simp add: td_in_report_def Let_def case_prod_unfold put_guest_step)

lemma do_td_step: "list_step w (snd (ohci_do_td ed0 td w))"
proof -
  have pend: "list_step w (w\<lparr>g_setup_pending := False\<rparr>)" by (simp add: list_step_def ctrl_ok_def)
  have fin: "list_step w (snd (case r of Inl cc \<Rightarrow> (cc, w') | Inr m \<Rightarrow> (0, wr32 va (f m) w')))" if "list_step w w'" for r w' va f
    using that by (cases r) (auto intro: list_step_trans wr32_step)
  show ?thesis unfolding ohci_do_td_def Let_def case_prod_unfold
    by (rule fin) (auto simp: td_setup_packet_step td_in_control_step td_in_report_step pend)
qed

lemma walk_tds_step: "list_step w (snd (walk_tds k ed0 tail s w))"
proof (induction k arbitrary: s w)
  case (Suc k)
  obtain head "done" completed where s: "s = (head, done, completed)" by (cases s)
  define td where "td = head AND ED_PTR_MASK"
  obtain cc w1 where d: "ohci_do_td ed0 td w = (cc, w1)" by force
  define w3 where "w3 = wr32 (td + 8) done (wr32 td ((rd32 w1 td AND 0x0FFFFFFF) OR push_bit 28 cc) w1)"
  have "list_step w w1" using do_td_step [of w ed0 td] d by simp
  then have s3: "list_step w w3" unfolding w3_def by (meson list_step_trans wr32_step)
  show ?case
    unfolding s walk_tds.simps Let_def td_def [symmetric] d prod.case w3_def [symmetric]
    using s3 by (auto intro: list_step_trans Suc.IH)
qed simp

lemma walk_eds_step: "list_step w (snd (walk_eds k ed s w))"
proof (induction k arbitrary: ed s w)
  case (Suc k)
  obtain "done" completed where s: "s = (done, completed)" by (cases s)
  define ed0 tail head where "ed0 = rd32 w ed" and "tail = rd32 w (ed + 4) AND ED_PTR_MASK" and "head = rd32 w (ed + 8)"
  obtain h d c w1 where t: "walk_tds 63 ed0 tail (head, done, completed) w = ((h, d, c), w1)" by (metis prod.exhaust)
  have "list_step w w1" using walk_tds_step [of w 63 ed0 tail "(head, done, completed)"] t by simp
  then have w2: "list_step w (wr32 (ed + 8) h w1)" by (rule list_step_trans) (rule wr32_step)
  show ?case
    unfolding s walk_eds.simps Let_def ed0_def [symmetric] tail_def [symmetric] head_def [symmetric] t prod.case
    using w2 by (auto intro: list_step_trans Suc.IH)
qed simp


section \<open>The worker's turn\<close>

text \<open>A step of the controller: the invariant is kept and only the guest's memory changes.\<close>

definition hc_frame :: "hc_world \<Rightarrow> hc_world \<Rightarrow> bool" where
  "hc_frame w w' \<longleftrightarrow> mapped_size w' = mapped_size w \<and> (\<forall>a. \<not> in_guest w a \<longrightarrow> guest_ram w' a = guest_ram w a) \<and>
     (hc_world_ok w \<longrightarrow> hc_world_ok w')"

lemma hc_frame_refl [simp]: "hc_frame w w" by (simp add: hc_frame_def)

lemma hc_frame_trans [trans]: "hc_frame w w' \<Longrightarrow> hc_frame w' w'' \<Longrightarrow> hc_frame w w''"
  by (auto simp: hc_frame_def in_guest_def)

lemma list_step_frame: "list_step w w' \<Longrightarrow> hc_frame w w'"
  by (auto simp: list_step_def hc_frame_def hc_world_ok_def)

lemma with_hc_frame: "(\<And>c. hc_ok c \<Longrightarrow> hc_ok (f c)) \<Longrightarrow> i < 2 \<Longrightarrow> hc_frame w (with_hc i f w)"
  by (auto simp: hc_frame_def ok_with_hc)

lemma wr32_frame: "hc_frame w (wr32 va v w)"
  by (rule list_step_frame) (rule wr32_step)

lemma frame_with: "hc_frame w w' \<Longrightarrow> (\<And>c. hc_ok c \<Longrightarrow> hc_ok (f c)) \<Longrightarrow> i < 2 \<Longrightarrow> hc_frame w (with_hc i f w')"
  by (meson hc_frame_trans with_hc_frame)

lemma frame_if: "(b \<Longrightarrow> hc_frame w x) \<Longrightarrow> (\<not> b \<Longrightarrow> hc_frame w y) \<Longrightarrow> hc_frame w (if b then x else y)"
  by simp

lemma publish_frame: "i < 2 \<Longrightarrow> hc_frame w (ohci_publish_done i done w)"
  unfolding ohci_publish_done_def Let_def
  by (intro frame_with frame_if wr32_frame hc_frame_refl) (simp_all add: hc_ok_set_rg)

lemma walk_frame: "hc_frame w (snd (ohci_walk_eds ed done w))"
  unfolding ohci_walk_eds_def by (rule list_step_frame) (rule walk_eds_step)

lemma control_frame: "i < 2 \<Longrightarrow> hc_frame w (snd (ohci_run_control_list i w))"
proof -
  assume i: "i < 2"
  obtain d n w1 where k: "ohci_walk_eds (rg (s_hc w i) HcControlHeadED AND ED_PTR_MASK) 0 w = ((d, n), w1)" by (metis prod.exhaust)
  have "hc_frame w w1" using walk_frame [of w "rg (s_hc w i) HcControlHeadED AND ED_PTR_MASK" 0] k by simp
  then show ?thesis unfolding ohci_run_control_list_def k prod.case Let_def snd_conv
    by (intro frame_if) (blast intro: hc_frame_trans publish_frame [OF i])+
qed

definition periodic_slot :: "u32 \<Rightarrow> nat \<Rightarrow> (u32 \<times> nat) \<times> hc_world \<Rightarrow> (u32 \<times> nat) \<times> hc_world" where
  "periodic_slot hcca = (\<lambda>slot ((done, completed), w).
     let ed = rd32 w (hcca + of_nat slot * 4) AND ED_PTR_MASK
     in if ed \<noteq> 0 then let ((done, n), w) = ohci_walk_eds ed done w in ((done, completed + n), w) else ((done, completed), w))"

lemma periodic_slot_frame: "hc_frame (snd s) (snd (periodic_slot hcca slot s))"
proof -
  obtain d c w where s: "s = ((d, c), w)" by (metis prod.exhaust)
  show ?thesis unfolding s periodic_slot_def Let_def prod.case
    using walk_frame by (auto simp: case_prod_unfold)
qed

lemma periodic_fold_frame: "hc_frame (snd s) (snd (fold (periodic_slot hcca) slots s))"
proof (induction slots arbitrary: s)
  case (Cons a slots)
  show ?case using hc_frame_trans [OF periodic_slot_frame [of s hcca a] Cons.IH] by simp
qed simp

lemma periodic_list_run:
  "fold (periodic_slot (rg (s_hc w i) HcHCCA)) [0..<32] ((0, 0), w) = ((d, n), w1) \<Longrightarrow>
    snd (ohci_run_periodic_list i w) = (if rg (s_hc w i) HcHCCA = 0 then w else if n > 0 then ohci_publish_done i d w1 else w1)"
  unfolding ohci_run_periodic_list_def periodic_slot_def Let_def by simp

lemma periodic_frame: "i < 2 \<Longrightarrow> hc_frame w (snd (ohci_run_periodic_list i w))"
proof -
  assume i: "i < 2"
  let ?hcca = "rg (s_hc w i) HcHCCA"
  obtain d n w1 where k: "fold (periodic_slot ?hcca) [0..<32] ((0, 0), w) = ((d, n), w1)" by (metis prod.exhaust)
  have "hc_frame w w1" using periodic_fold_frame [of "((0, 0), w)" ?hcca "[0..<32]"] k by simp
  then have "hc_frame w (if n > 0 then ohci_publish_done i d w1 else w1)"
    by (intro frame_if) (blast intro: hc_frame_trans publish_frame [OF i])+
  then show ?thesis unfolding periodic_list_run [OF k] by simp
qed

lemma clear_bit_frame: "hc_ok c \<Longrightarrow> hc_ok (set_rg HcCommandStatus (rg c HcCommandStatus AND NOT m) c)"
  by (rule hc_ok_command) (simp_all add: hc_ok_def hcr_clear(2) del: bit_0)

lemma bulk_frame: "hc_frame w (run_bulk_list w)"
proof -
  let ?h = "rg (s_hc w 0) HcBulkHeadED AND ED_PTR_MASK"
  obtain d n w1 where k: "ohci_walk_eds ?h 0 w = ((d, n), w1)" by (metis prod.exhaust)
  have f: "hc_frame w w1" using walk_frame [of w ?h 0] k by simp
  then have "hc_frame w (ohci_publish_done 0 d w1)" using publish_frame [of 0 w1 d] by (auto intro: hc_frame_trans)
  then show ?thesis unfolding run_bulk_list_def Let_def k prod.case
    by (intro frame_if frame_with clear_bit_frame) (simp_all add: f)
qed

lemma serve_control_frame: "hc_frame w (serve_control_list w)"
proof -
  obtain n w1 where k: "ohci_run_control_list 0 w = (n, w1)" by force
  have "hc_frame w w1" using control_frame [of 0 w] k by simp
  then show ?thesis unfolding serve_control_list_def k prod.case Let_def
    by (intro frame_if frame_with clear_bit_frame) auto
qed

lemma serve_lists_frame: "hc_frame w (serve_lists control w)"
proof -
  define w1 where "w1 = (if control AND 0x04 \<noteq> 0 then snd (ohci_run_periodic_list 0 w) else w)"
  define w2 where "w2 = (if control AND 0x20 \<noteq> 0 then run_bulk_list w1 else w1)"
  have "hc_frame w w1" unfolding w1_def by (intro frame_if periodic_frame) simp_all
  also have "hc_frame w1 w2" unfolding w2_def by (intro frame_if bulk_frame) simp_all
  also have "hc_frame w2 (serve_lists control w)"
    unfolding serve_lists_def Let_def w1_def [symmetric] w2_def [symmetric] by (intro frame_if serve_control_frame) simp_all
  finally show ?thesis .
qed

lemma frame_clock_frame: "hc_frame w (frame_clock w)"
  unfolding frame_clock_def Let_def
  by (intro frame_with frame_if hc_frame_trans [OF frame_with wr32_frame] hc_frame_refl) (simp_all add: hc_ok_set_rg)

lemma plug_frame: "hc_frame w (plug_in spec w)"
proof -
  define port where "port = (let p = (case spec of None \<Rightarrow> 0 :: u32 | Some p \<Rightarrow> p) in if p > 1 then 1 else p)"
  define al where "al = HcRhPortStatus1 + unat port * 4"
  have small: "p = 0" if "\<not> 1 < p" "p \<noteq> 1" for p :: u32
    using that by (auto simp: word_less_nat_alt word_unat_eq_iff not_less)
  have "port = 0 \<or> port = 1" unfolding port_def Let_def using small by (auto split: option.split)
  then have al: "al \<in> {0x54, 0x58}" by (auto simp: al_def)
  have "hc_ok (set_rg HcInterruptStatus v (set_rg al (rg c al OR (0x00000001 OR 0x00010000)) c))" if "hc_ok c" for c v
  proof -
    have p: "port_ok (rg c al)" using that al by (auto simp: hc_ok_def)
    show ?thesis by (rule hc_ok_set_rg [OF hc_ok_port [OF that al port_ok_steps(8) [OF p]]]) simp_all
  qed
  then show ?thesis
    unfolding plug_in_def Let_def port_def [unfolded Let_def, symmetric] al_def [symmetric]
    by (intro with_hc_frame) simp_all
qed

section \<open>Everything that happens to the controller\<close>

text \<open>
  A title's trapped access, a store of the title or the host to guest memory, a change of the
  host's pad, and a turn of the worker. The interrupt service routine the worker calls is the
  title's: whatever it does to the controller it does by such steps too.
\<close>

inductive hc_step :: "hc_world \<Rightarrow> hc_world \<Rightarrow> bool" where
  trapped: "xbox_OhciHandleMmio code ctx va w = Some (ok, ctx', w') \<Longrightarrow> hc_step w w'"
| ram: "hc_step w (w\<lparr>guest_ram := m\<rparr>)"
| pad: "hc_step w (w\<lparr>host_pad := p\<rparr>)"
| turn: "(\<And>r fn t w. recomp_lookup e r = Some fn \<Longrightarrow> hc_step\<^sup>*\<^sup>* w (snd (fn (t, w)))) \<Longrightarrow>
    ohci_thread e spec (k, t, w) = (k', t', w') \<Longrightarrow> hc_step w w'"

lemma hc_for_range: "hc_for w va = Some i \<Longrightarrow> i < 2"
  by (auto simp: hc_for_def find_Some_iff split: if_splits)

lemma find_range: "find P [0..<2] = Some i \<Longrightarrow> i < 2"
  by (auto simp: find_Some_iff)

lemma emulate_keeps:
  assumes "P d" "\<And>d off sz. P d \<Longrightarrow> P (snd (rd d off sz))" "\<And>d off v sz. P d \<Longrightarrow> P (wr d off v sz)"
    and "mmio_emulate code ctx off d (Some rd) (Some wr) = Some (ok, ctx', d')"
  shows "P d'"
proof -
  obtain pre has66 rex where p: "mmio_prefixes code 0 False None = Some (pre, has66, rex)" using emulate_prefixes [OF assms(4)] .
  show ?thesis
    using assms(1,4) unfolding mmio_emulate_def p option.case prod.case Let_def case_prod_unfold
    by (auto simp: code_at_def intro: assms split: if_splits option.splits)
qed

section \<open>The invariant over every run\<close>

lemma ok_decode_fail: "hc_world_ok w \<Longrightarrow> i < 2 \<Longrightarrow> hc_world_ok (with_hc i (\<lambda>c. c\<lparr>decode_fail := decode_fail c + 1\<rparr>) w)"
  by (rule ok_with_hc) simp_all

lemma trapped_ok: "xbox_OhciHandleMmio code ctx va w = Some (ok, ctx', w') \<Longrightarrow> hc_world_ok w \<Longrightarrow> hc_world_ok w'"
proof -
  assume h: "xbox_OhciHandleMmio code ctx va w = Some (ok, ctx', w')" and w: "hc_world_ok w"
  show ?thesis
  proof (cases "hc_for w va")
    case (Some i)
    note i = hc_for_range [OF Some]
    obtain ok1 c1 w1 where e: "mmio_emulate code ctx (va - hc_base (s_hc w i)) w (Some (ohci_read i)) (Some (ohci_write i)) = Some (ok1, c1, w1)"
        "w' = (if ok1 then w1 else with_hc i (\<lambda>c. c\<lparr>decode_fail := decode_fail c + 1\<rparr>) w1)"
      using h by (auto simp: xbox_OhciHandleMmio_def Some)
    have "hc_world_ok w1" by (rule emulate_keeps [OF w ok_read ok_write [OF _ i] e(1)])
    then show ?thesis using ok_decode_fail [OF _ i] by (simp add: e(2))
  qed (use h w in \<open>simp add: xbox_OhciHandleMmio_def\<close>)
qed

text \<open>The worker's turn up to the interrupt, and the interrupt given what the routine keeps.\<close>

definition isr_keeps :: "isr_env \<Rightarrow> bool" where
  "isr_keeps e \<longleftrightarrow> (\<forall>r fn t w. recomp_lookup e r = Some fn \<longrightarrow> hc_world_ok w \<longrightarrow> hc_world_ok (snd (fn (t, w))))"

lemma isr_ok:
  assumes "isr_keeps e"
  shows "hc_world_ok w \<Longrightarrow> hc_world_ok (snd (snd (ohci_call_isr e (t, w))))"
  using assms [unfolded isr_keeps_def, rule_format] ok_counts
  by (auto simp: ohci_call_isr_def push_arg_def Let_def case_prod_unfold split: option.split)

lemma raise_ok:
  assumes "isr_keeps e" "i < 2"
  shows "hc_world_ok w \<Longrightarrow> hc_world_ok (snd (ohci_raise e i source (t, w)))"
  unfolding ohci_raise_def Let_def prod.case
  using assms(2) by (auto intro!: isr_ok [OF assms(1)] ok_with_hc hc_ok_set_rg)

lemma turn_ok:
  assumes "isr_keeps e"
  shows "hc_world_ok w \<Longrightarrow> hc_world_ok (snd (snd (ohci_thread e spec (k, t, w))))"
proof -
  assume w: "hc_world_ok w"
  have s: "hc_world_ok (serve_lists c (frame_clock v))" if "hc_world_ok v" for c v
    using hc_frame_trans [OF frame_clock_frame serve_lists_frame, of v c] that by (simp add: hc_frame_def)
  have p: "hc_world_ok (plug_in spec w)" using plug_frame w by (simp add: hc_frame_def)
  note r = raise_ok [OF assms, of 0, simplified]
  show ?thesis
    unfolding ohci_thread_def Let_def prod.case using w s [OF w] s [OF p] r [OF s [OF w]] r [OF s [OF p]]
    by (auto split: if_splits)
qed

lemma steps_ok_star: "(\<lambda>a b. hc_step a b \<and> (hc_world_ok a \<longrightarrow> hc_world_ok b))\<^sup>*\<^sup>* w w' \<Longrightarrow> hc_world_ok w \<Longrightarrow> hc_world_ok w'"
  by (induction rule: rtranclp_induct) auto

lemma step_ok: "hc_step w w' \<Longrightarrow> hc_world_ok w \<longrightarrow> hc_world_ok w'"
proof (induction rule: hc_step.induct)
  case (trapped code ctx va w ok ctx' w')
  then show ?case using trapped_ok by blast
next
  case (turn e spec k t w k' t' w')
  have "isr_keeps e" unfolding isr_keeps_def using turn(1) steps_ok_star by blast
  from turn_ok [OF this, where w = w and spec = spec and k = k and t = t] turn(2) show ?case by simp
qed (simp_all add: ok_counts)

lemma steps_ok: "hc_step\<^sup>*\<^sup>* w w' \<Longrightarrow> hc_world_ok w \<Longrightarrow> hc_world_ok w'"
  by (induction rule: rtranclp_induct) (auto dest: step_ok)

text \<open>The file's statics as the program starts.\<close>

definition hc_statics :: "hc_world \<Rightarrow> bool" where
  "hc_statics w \<longleftrightarrow> \<not> g_setup_pending w \<and> g_ctrl_buf w = replicate 64 0 \<and> g_ctrl_len w = -1 \<and> g_ctrl_sent w = 0"

lemma reset_ok: "hc_ok (ohci_reset base)"
  by (simp add: hc_ok_def ohci_reset_def Let_def rg_def set_rg_def port_ok_def del: bit_0)

lemma init_ok: "hc_statics w0 \<Longrightarrow> xbox_OhciInit True True (\<lambda>_. True) (False, w0) = (run, inited, w1) \<Longrightarrow> hc_world_ok w1"
  by (auto simp: xbox_OhciInit_def hc_world_ok_def hc_statics_def ctrl_ok_def reset_ok)

text \<open>
  Claim C17: From bring-up, whatever the title writes, whatever memory holds and whatever
  the worker and the interrupt routine do, both register-level controllers read as OHCI 1.0
  with two ports, no reset is ever left pending, a port is enabled only with a device on it,
  and a control transfer never sends more than its answer or past its buffer.
\<close>

theorem controller_stays_sane:
  assumes "hc_statics w0" "xbox_OhciInit True True (\<lambda>_. True) (False, w0) = (run, inited, w1)" "hc_step\<^sup>*\<^sup>* w1 w"
  shows "hc_world_ok w"
  using steps_ok [OF assms(3) init_ok [OF assms(1,2)]] .

text \<open>A world as the program starts, for the witnesses.\<close>

definition hc_example :: hc_world where
  "hc_example = \<lparr>s_hc = (\<lambda>_. \<lparr>hc_base = 0, hc_reg = replicate 25 0, hc_reads = 0, hc_writes = 0, decode_fail = 0\<rparr>),
     s_enabled = False, g_setup_pending = False,
     g_setup = \<lparr>bmRequestType = 0, bRequest = 0, wValue = 0, wIndex = 0, wLength = 0\<rparr>,
     g_ctrl_buf = replicate 64 0, g_ctrl_len = -1, g_ctrl_sent = 0,
     pad_device = \<lparr>s_address = 0, s_configuration = 0\<rparr>, host_pad = None, guest_ram = (\<lambda>_. 0), mapped_size = 0x4000000\<rparr>"

definition hc_booted :: hc_world where
  "hc_booted = snd (snd (xbox_OhciInit True True (\<lambda>_. True) (False, hc_example)))"

text \<open>The title resets the controller by a trapped \<open>mov [eax], eax\<close>.\<close>

theorem controller_stays_sane_witness:
  "hc_world_ok (snd (snd (the (xbox_OhciHandleMmio [0x89, 0x00] \<lparr>regs = replicate 16 1, Rip = 0, EFlags = 0\<rparr> 0xFED00008 hc_booted))))"
proof -
  have f: "hc_for hc_booted 0xFED00008 = Some 0"
    by (simp add: hc_booted_def hc_for_def xbox_OhciInit_def ohci_reset_def Let_def set_rg_def upt_rec)
  have "xbox_OhciHandleMmio [0x89, 0x00] \<lparr>regs = replicate 16 1, Rip = 0, EFlags = 0\<rparr> 0xFED00008 hc_booted \<noteq> None"
    by (simp add: xbox_OhciHandleMmio_def f mmio_emulate_def Let_def code_at_def)
  then obtain ok ctx' w' where h: "xbox_OhciHandleMmio [0x89, 0x00] \<lparr>regs = replicate 16 1, Rip = 0, EFlags = 0\<rparr> 0xFED00008 hc_booted = Some (ok, ctx', w')"
    by (metis not_None_eq prod.exhaust)
  have s: "hc_step\<^sup>*\<^sup>* hc_booted w'" using hc_step.trapped [OF h] by (rule r_into_rtranclp)
  have i: "xbox_OhciInit True True (\<lambda>_. True) (False, hc_example) = (True, True, hc_booted)" by (simp add: hc_booted_def xbox_OhciInit_def)
  have "hc_statics hc_example" by (simp add: hc_statics_def hc_example_def)
  from controller_stays_sane [OF this i s] show ?thesis by (simp add: h)
qed

end
