(* ===== verification/Hc_Properties.thy ===== *)
theory Hc_Properties
  imports Hc_Invariant
begin

text \<open>
  What a driver of the register-level USB controller relies on: a turn of the worker writes only
  memory the guest has, a control read hands out consecutive slices of the answer, a port reset
  and an acknowledgement leave the state the driver polls for. Three behaviours that a driver
  would not expect are theorems too: the control list replaces the done queue of the periodic
  list, the frame register does not follow the frame clock, and a worker that only delivers
  start-of-frame interrupts ends itself.
\<close>

section \<open>What the walk may touch\<close>

text \<open>
  Claim C27: A turn of the worker writes no byte outside the memory the guest has, wherever
  the driver's lists, descriptors, buffers and communication area point.
\<close>

theorem turn_writes_only_guest_memory:
  assumes "\<not> in_guest w a"
  shows "guest_ram (serve_lists control (frame_clock w)) a = guest_ram w a"
  using hc_frame_trans [OF frame_clock_frame serve_lists_frame, of w control] assms by (simp add: hc_frame_def)

theorem turn_writes_only_witness:
  "guest_ram (serve_lists 0x34 (frame_clock hc_booted)) 0x90000000 = guest_ram hc_booted 0x90000000"
  by (rule turn_writes_only_guest_memory) (simp add: in_guest_def hc_booted_def xbox_OhciInit_def hc_example_def)

section \<open>The data stage of a control transfer\<close>

text \<open>
  A driver's IN descriptors on endpoint 0, one after the other: what each left in its buffer when
  it was retired.
\<close>

fun in_stage :: "(u32 \<times> int) list \<Rightarrow> hc_world \<Rightarrow> u8 list \<times> hc_world" where
  "in_stage [] w = ([], w)"
| "in_stage ((cbp, len) # tds) w =
     (case td_in_control cbp len w of
        (Inl cc, w) \<Rightarrow> ([], w)
      | (Inr n, w) \<Rightarrow> (let (bs, w') = in_stage tds w in (load_bytes (guest_ram w) (unat cbp) (nat n) @ bs, w')))"

definition good_buffers :: "hc_world \<Rightarrow> (u32 \<times> int) list \<Rightarrow> bool" where
  "good_buffers w tds \<longleftrightarrow> (\<forall>(cbp, len) \<in> set tds. 0 \<le> len \<and> guest_ok w cbp (nat len))"

text \<open>The answer is \<open>a\<close>, and its first \<open>s\<close> bytes have been sent.\<close>

definition answering :: "u8 list \<Rightarrow> nat \<Rightarrow> hc_world \<Rightarrow> bool" where
  "answering a s w \<longleftrightarrow> g_setup_pending w \<and> g_ctrl_len w = int (length a) \<and> g_ctrl_sent w = int s \<and>
     s \<le> length a \<and> length a \<le> length (g_ctrl_buf w) \<and> take (length a) (g_ctrl_buf w) = a"

lemma guest_ok_le: "guest_ok w va n \<Longrightarrow> k \<le> n \<Longrightarrow> guest_ok w va k"
  by (auto simp: guest_ok_def)

lemma slice_take: "take (length a) b = a \<Longrightarrow> s + k \<le> length a \<Longrightarrow> take k (drop s b) = take k (drop s a)"
proof -
  assume t: "take (length a) b = a" and k: "s + k \<le> length a"
  have "take k (drop s (take (length a) b)) = take k (drop s b)" using k by (simp add: take_drop)
  then show ?thesis by (simp add: t)
qed

lemma answering_step:
  assumes "answering a s w" "0 \<le> len" "guest_ok w cbp (nat len)" "k = min (nat len) (length a - s)"
  obtains w' where "td_in_control cbp len w = (Inr (int k), w')" "answering a (s + k) w'"
    "load_bytes (guest_ram w') (unat cbp) k = take k (drop s a)" "mapped_size w' = mapped_size w"
proof -
  have k: "s + k \<le> length a" using assms by (auto simp: answering_def)
  define bs where "bs = take k (drop s (g_ctrl_buf w))"
  have bs: "bs = take k (drop s a)" "length bs = k"
    using assms(1) k slice_take [of a "g_ctrl_buf w" s k] by (auto simp: bs_def answering_def)
  have ok: "guest_ok w cbp k" by (rule guest_ok_le [OF assms(3)]) (simp add: assms(4))
  define w1 where "w1 = put_guest cbp bs w"
  have "ctrl_answer w = (True, w)" using assms(1) by (simp add: ctrl_answer_def answering_def)
  moreover have "(let n = g_ctrl_len w - g_ctrl_sent w; n = (if n > len then len else n) in if n < 0 then 0 else n) = int k"
    using assms by (auto simp: answering_def Let_def min_def)
  ultimately have r: "td_in_control cbp len w = (Inr (int k), w1\<lparr>g_ctrl_sent := g_ctrl_sent w1 + int k\<rparr>)"
    using assms(1) by (simp add: td_in_control_def answering_def Let_def w1_def bs_def)
  have mem: "load_bytes (guest_ram w1) (unat cbp) k = bs"
    using load_bytes_store_bytes_same [of "guest_ram w" "unat cbp" bs] ok
    by (auto simp: w1_def put_guest_def guest_ptr_def bs(2) load_bytes_def)
  show ?thesis
    by (rule that [OF r]) (use assms(1) k mem bs in \<open>auto simp: answering_def w1_def\<close>)
qed

lemma in_stage_slices:
  assumes "answering a s w" "good_buffers w tds"
  shows "fst (in_stage tds w) = take (sum_list (map (nat \<circ> snd) tds)) (drop s a)"
  using assms
proof (induction tds arbitrary: s w)
  case (Cons d tds)
  obtain cbp len where d: "d = (cbp, len)" by force
  define k where "k = min (nat len) (length a - s)"
  have g: "0 \<le> len" "guest_ok w cbp (nat len)" "good_buffers w tds" using Cons.prems(2) by (auto simp: d good_buffers_def)
  obtain w' where w': "td_in_control cbp len w = (Inr (int k), w')" "answering a (s + k) w'"
    "load_bytes (guest_ram w') (unat cbp) k = take k (drop s a)" "mapped_size w' = mapped_size w"
    using answering_step [OF Cons.prems(1) g(1,2) k_def] .
  have "good_buffers w' tds" using g(3) w'(4) guest_ok_cong [of w' w] by (simp add: good_buffers_def)
  note ih = Cons.IH [OF w'(2) this]
  have "take k (drop s a) @ take m (drop (s + k) a) = take (nat len + m) (drop s a)" for m
  proof (cases "nat len \<le> length a - s")
    case True
    then have "k = nat len" by (simp add: k_def)
    then show ?thesis by (simp add: take_add [of "nat len" m] add.commute [of s])
  next
    case False
    then have "length a \<le> s + k" "length (drop s a) \<le> k" by (auto simp: k_def)
    then show ?thesis using False by simp
  qed
  then show ?case using ih by (simp add: d w'(1,3) case_prod_unfold)
qed simp

text \<open>
  Claim C18: After a setup packet the driver's IN descriptors receive consecutive slices of
  the device's answer, whatever their sizes: together their buffers hold the answer cut to
  their total length, never its first bytes twice.
\<close>

theorem data_stage_delivers_the_answer:
  assumes "g_setup_pending w" "g_ctrl_len w = -1" "length (g_ctrl_buf w) = 64" "good_buffers w (d # tds)"
    and "usb_gamepad_control (g_setup w) (g_ctrl_buf w) 64 (pad_device w) = (Some (n, buf), g)"
  shows "fst (in_stage (d # tds) w) = take (sum_list (map (nat \<circ> snd) (d # tds))) (take n buf)"
proof -
  define w1 where "w1 = w\<lparr>pad_device := g, g_ctrl_buf := buf, g_ctrl_len := int n, g_ctrl_sent := 0\<rparr>"
  have len: "length buf = 64 \<and> n \<le> 64"
    using control_length [of "g_setup w" "g_ctrl_buf w" 64 "pad_device w" n buf] assms(3,5) by simp
  have a: "ctrl_answer w = (True, w1)" "ctrl_answer w1 = (True, w1)"
    using assms(2,5) by (simp_all add: ctrl_answer_def w1_def)
  have "td_in_control cbp l w = td_in_control cbp l w1" for cbp l
    using assms(1) by (simp add: td_in_control_def a) (simp add: w1_def)
  then have "in_stage (d # tds) w = in_stage (d # tds) w1" by (cases d) simp
  moreover have "answering (take n buf) 0 w1" using assms(1) len by (simp add: answering_def w1_def min_absorb2)
  moreover have "good_buffers w1 (d # tds)" using assms(4) guest_ok_cong [of w1 w] by (simp add: good_buffers_def w1_def)
  ultimately show ?thesis using in_stage_slices [of "take n buf" 0 w1 "d # tds"] by simp
qed

text \<open>The 32-byte configuration descriptor in four 8-byte packets.\<close>

theorem data_stage_witness:
  "fst (in_stage [(0x1000, 8), (0x2000, 8), (0x1000, 8), (0x2000, 8)]
     (hc_booted\<lparr>g_setup_pending := True, g_setup := \<lparr>bmRequestType = 0x80, bRequest = 6, wValue = 0x0200, wIndex = 0, wLength = 32\<rparr>\<rparr>))
   = s_config_desc"
proof -
  let ?w = "hc_booted\<lparr>g_setup_pending := True, g_setup := \<lparr>bmRequestType = 0x80, bRequest = 6, wValue = 0x0200, wIndex = 0, wLength = 32\<rparr>\<rparr>"
  have c: "usb_gamepad_control (g_setup ?w) (g_ctrl_buf ?w) 64 (pad_device ?w)
      = (Some (32, s_config_desc @ replicate 32 0), pad_device ?w)"
    by (simp add: hc_booted_def xbox_OhciInit_def hc_example_def usb_gamepad_control_def standard_request_def copy_out_def
        s_config_desc_def memcpy_at_def Let_def)
  have b: "good_buffers ?w [(0x1000, 8), (0x2000, 8), (0x1000, 8), (0x2000, 8)]"
    by (simp add: good_buffers_def guest_ok_def hc_booted_def xbox_OhciInit_def hc_example_def)
  show ?thesis
    using data_stage_delivers_the_answer [OF _ _ _ b c]
    by (simp add: hc_booted_def xbox_OhciInit_def hc_example_def s_config_desc_def)
qed

section \<open>Resets, acknowledgements and the frame clock\<close>

lemma bit_nz: "bit (x :: u32) 1 \<longleftrightarrow> x AND 0x00000002 \<noteq> 0" "bit x 4 \<longleftrightarrow> x AND 0x00000010 \<noteq> 0" "bit x 2 \<longleftrightarrow> x AND 0x00000004 \<noteq> 0"
  "bit x 0 \<longleftrightarrow> x AND 0x00000001 \<noteq> 0"
  using word_nz_single_bit [of x 1] word_nz_single_bit [of x 4] word_nz_single_bit [of x 2] word_nz_single_bit [of x 0] by simp_all

lemma aligned_dword: "al \<in> {0x0C, 0x54, 0x58} \<Longrightarrow> aligned (of_nat al) = al"
  by (auto simp: aligned_def)

lemma read_port: "al \<in> {0x54, 0x58} \<Longrightarrow> fst (ohci_read i w (of_nat al) 4) = ucast (rg (s_hc w i) al)"
  using aligned_dword [of al] by (auto simp: ohci_read_def Let_def reg_of_def)

text \<open>
  A port reset is finished by the driver's next read, even when the same word
  acknowledges the reset before it: the change bit reads as set, the root-hub interrupt is
  pending, and a port with a device on it reads as enabled.
\<close>

theorem port_reset_completes_at_once:
  assumes "i < 2" "length (hc_reg (s_hc w i)) = 25" "al \<in> {0x54, 0x58}" "bit (ucast val :: u32) 4"
    and "w' = ohci_write i w (of_nat al) val 4" "r = fst (ohci_read i w' (of_nat al) 4)"
  shows "bit r 20 \<and> (bit r 0 \<longrightarrow> bit r 1) \<and> bit (rg (s_hc w' i) HcInterruptStatus) 6"
proof -
  let ?v = "ucast val :: u32"
  define c where "c = (s_hc w i)\<lparr>hc_writes := hc_writes (s_hc w i) + 1\<rparr>"
  have len: "length (hc_reg c) = 25" using assms(2) by (simp add: c_def)
  have hc: "s_hc w' i = port_write al ?v c"
    unfolding assms(5) ohci_write_def Let_def
    using assms(3) aligned_dword [of al] by (auto simp: reg_of_def c_def with_hc_def)
  obtain x where pw: "port_write al ?v c = (let c = set_rg al ((if x AND 0x00000001 \<noteq> 0 then x OR 0x00000002 else x) OR 0x00100000) c
           in set_rg HcInterruptStatus (rg c HcInterruptStatus OR 0x00000040) c)"
    using assms(4) unfolding port_write_def Let_def bit_nz by auto
  have al: "rg (port_write al ?v c) al = (if x AND 0x00000001 \<noteq> 0 then x OR 0x00000002 else x) OR 0x00100000"
    "rg (port_write al ?v c) HcInterruptStatus = rg c HcInterruptStatus OR 0x00000040"
    using assms(3) len unfolding pw by (auto simp: rg_set_rg Let_def)
  have r: "r = ucast (rg (port_write al ?v c) al)" unfolding assms(6) read_port [OF assms(3)] hc ..
  show ?thesis
    unfolding r hc al bit_nz(4) [symmetric]
    by (auto simp: bit_ucast_iff bit_or_iff port_bits simp del: bit_0)
qed


theorem port_reset_witness:
  "let w' = ohci_write 0 (plug_in None hc_booted) (of_nat 0x54) 0x01100010 4; r = fst (ohci_read 0 w' (of_nat 0x54) 4)
   in bit r 20 \<and> (bit r 0 \<longrightarrow> bit r 1) \<and> bit (rg (s_hc w' 0) HcInterruptStatus) 6"
  unfolding Let_def
  by (rule port_reset_completes_at_once [where i = 0 and w = "plug_in None hc_booted" and al = "0x54" and val = "0x01100010"])
    (simp_all add: plug_in_def hc_booted_def xbox_OhciInit_def ohci_reset_def set_rg_def with_hc_def Let_def)

lemma rd32_wr32: "guest_ok w va 4 \<Longrightarrow> rd32 (wr32 va v w) va = v"
  using guest_ok_cong [of "wr32 va v w" w] by (simp add: rd32_def) (simp add: wr32_def)

lemma rd32_with_hc [simp]: "rd32 (with_hc i f w) va = rd32 w va"
  using guest_ok_cong [of "with_hc i f w" w] by (simp add: rd32_def)

text \<open>
  Publishing a done list puts its head where the driver reads it and raises
  WritebackDoneHead; the driver's acknowledgement clears both, so no consumed list is
  offered again.
\<close>

theorem done_list_handshake:
  assumes "i < 2" "length (hc_reg (s_hc w i)) = 25" "hcca = rg (s_hc w i) HcHCCA" "hcca \<noteq> 0" "guest_ok w (hcca + 0x84) 4"
    and "w1 = ohci_publish_done i head w" "w2 = ohci_write i w1 (of_nat 0x0C) val 4" "bit (ucast val :: u32) 1"
  shows "rd32 w1 (hcca + 0x84) = head \<and> bit (rg (s_hc w1 i) HcInterruptStatus) 1 \<and>
    rd32 w2 (hcca + 0x84) = 0 \<and> rg (s_hc w2 i) HcDoneHead = 0 \<and> \<not> bit (rg (s_hc w2 i) HcInterruptStatus) 1"
proof -
  let ?v = "ucast val :: u32"
  have r1: "rg (s_hc w1 i) HcInterruptStatus = rg (s_hc w i) HcInterruptStatus OR 2" "rg (s_hc w1 i) HcHCCA = hcca"
    "length (hc_reg (s_hc w1 i)) = 25"
    using assms(2,3) by (simp_all add: assms(6) ohci_publish_done_def Let_def rg_set_rg)
  have m1: "rd32 w1 (hcca + 0x84) = head" using assms(4,5) by (simp add: assms(6) ohci_publish_done_def Let_def rd32_wr32 flip: assms(3))
  have b1: "bit (rg (s_hc w1 i) HcInterruptStatus) 1" by (simp only: r1 bit_or_iff port_bits simp_thms)
  have g1: "guest_ok w1 (hcca + 0x84) 4" using assms(5) guest_ok_cong [of w1 w] by (simp add: assms(6) ohci_publish_done_def Let_def)
  define w1' where "w1' = with_hc i (\<lambda>c. c\<lparr>hc_writes := hc_writes c + 1\<rparr>) w1"
  have g2: "guest_ok w1' (hcca + 0x84) 4" using g1 guest_ok_cong [of w1' w1] by (simp add: w1'_def)
  have r2: "rg (s_hc w1' i) off = rg (s_hc w1 i) off" "length (hc_reg (s_hc w1' i)) = 25" for off
    using r1(3) by (simp_all add: w1'_def)
  have "w2 = status_write i ?v w1'"
    using aligned_dword [of "0x0C"] by (simp add: assms(7) ohci_write_def Let_def reg_of_def w1'_def)
  then have w2: "w2 = with_hc i (\<lambda>c. set_rg HcInterruptStatus (rg c HcInterruptStatus AND NOT ?v) c)
      (with_hc i (set_rg HcDoneHead 0) (wr32 (hcca + 0x84) 0 w1'))"
    using assms(4,8) b1 unfolding status_write_def Let_def r2(1) r1(2) bit_nz(1) by simp
  have "rd32 w2 (hcca + 0x84) = 0" using g2 by (simp add: w2 rd32_wr32)
  moreover have "rg (s_hc w2 i) HcDoneHead = 0" "rg (s_hc w2 i) HcInterruptStatus = rg (s_hc w1 i) HcInterruptStatus AND NOT ?v"
    using r2 by (simp_all add: w2 rg_set_rg)
  moreover have "\<not> bit (rg (s_hc w1 i) HcInterruptStatus AND NOT ?v) 1" using assms(8) by (simp add: bit_and_iff bit_not_iff)
  ultimately show ?thesis using m1 b1 by simp
qed

theorem done_list_handshake_witness:
  "let w = with_hc 0 (set_rg HcHCCA 0x1000) hc_booted; w1 = ohci_publish_done 0 0x3000 w; w2 = ohci_write 0 w1 (of_nat 0x0C) 2 4
   in rd32 w1 (0x1000 + 0x84) = 0x3000 \<and> bit (rg (s_hc w1 0) HcInterruptStatus) 1 \<and>
    rd32 w2 (0x1000 + 0x84) = 0 \<and> rg (s_hc w2 0) HcDoneHead = 0 \<and> \<not> bit (rg (s_hc w2 0) HcInterruptStatus) 1"
  unfolding Let_def
  by (rule done_list_handshake [where i = 0 and w = "with_hc 0 (set_rg HcHCCA 0x1000) hc_booted" and hcca = "0x1000" and head = "0x3000" and val = 2])
    (simp_all add: hc_booted_def xbox_OhciInit_def hc_example_def ohci_reset_def set_rg_def with_hc_def rg_def guest_ok_def Let_def)

text \<open>
  The two frame counters a driver can read. The worker advances the one in the communication
  area; a read of the register answers the number of register reads instead.
\<close>

theorem frame_register_ignores_the_clock:
  "fst (ohci_read 0 (frame_clock w) (of_nat 0x3C) sz) = fst (ohci_read 0 w (of_nat 0x3C) sz)"
  by (simp add: ohci_read_def frame_clock_def Let_def aligned_def set_rg_def)

section \<open>The done queue of one turn\<close>

text \<open>The turn up to the control list.\<close>

definition before_control :: "u32 \<Rightarrow> hc_world \<Rightarrow> hc_world" where
  "before_control control w =
     (let w = (if control AND 0x04 \<noteq> 0 then snd (ohci_run_periodic_list 0 w) else w)
      in if control AND 0x20 \<noteq> 0 then run_bulk_list w else w)"

lemma serve_lists_split: "serve_lists control w = (if control AND 0x10 \<noteq> 0 then serve_control_list (before_control control w) else before_control control w)"
  by (simp add: serve_lists_def before_control_def Let_def)

text \<open>
  Claim C38: When the control list completes anything, the head the driver finds is that
  list's alone, built from the empty queue, whatever the periodic and bulk lists published
  earlier in the turn: their completed descriptors are on no list the driver can reach.
\<close>

theorem control_list_replaces_the_done_head:
  assumes "control AND 0x10 \<noteq> 0" "w1 = before_control control w" "head = rg (s_hc w1 0) HcControlHeadED AND ED_PTR_MASK"
    and "guest_ok w1 head 16" "ohci_walk_eds head 0 w1 = ((d, n), w2)" "n > 0"
    and "hcca = rg (s_hc w1 0) HcHCCA" "hcca \<noteq> 0" "guest_ok w1 (hcca + 0x84) 4"
  shows "rd32 (serve_lists control w) (hcca + 0x84) = d"
proof -
  have "list_step w1 w2" using walk_eds_step [of w1 63 head "(0, 0)"] assms(5) by (simp add: ohci_walk_eds_def)
  then have s: "s_hc w2 = s_hc w1" "guest_ok w2 (hcca + 0x84) 4" using assms(9) guest_ok_cong [of w2 w1] by (simp_all add: list_step_def)
  have "serve_lists control w = with_hc 0 (\<lambda>c. set_rg HcCommandStatus (rg c HcCommandStatus AND NOT 0x02) c) (ohci_publish_done 0 d w2)"
    using assms(1,4,5,6) by (simp add: serve_lists_split serve_control_list_def ohci_run_control_list_def Let_def flip: assms(2,3))
  then show ?thesis using s assms(8) by (simp add: ohci_publish_done_def Let_def rd32_wr32 flip: assms(7))
qed

text \<open>Evaluating a walk over concrete addresses.\<close>

lemma rd32_wr32_other: "unat va + 4 \<le> unat va' \<or> unat va' + 4 \<le> unat va \<Longrightarrow> rd32 (wr32 va v w) va' = rd32 w va'"
  using guest_ok_cong [of "wr32 va v w" w va' 4]
  by (auto simp: rd32_def wr32_def disjoint_ranges_def)

lemma guest_ok_frame [simp]: "guest_ok (wr32 va v w) va' n = guest_ok w va' n" "guest_ok (with_hc i f w) va' n = guest_ok w va' n"
  "guest_ok (w\<lparr>g_setup_pending := b\<rparr>) va' n = guest_ok w va' n"
  by (auto intro!: guest_ok_cong)

lemma rd32_pending [simp]: "rd32 (w\<lparr>g_setup_pending := b\<rparr>) va = rd32 w va"
  by (simp add: rd32_def)

lemma idle_slots: "(\<And>slot. slot \<in> set slots \<Longrightarrow> rd32 w (hcca + of_nat slot * 4) AND ED_PTR_MASK = 0) \<Longrightarrow>
    fold (periodic_slot hcca) slots ((d, c), w) = ((d, c), w)"
  by (induction slots) (simp_all add: periodic_slot_def Let_def)

text \<open>
  One OUT descriptor on the periodic list at 0x3000, one on the control list at 0x4000: both are
  retired, and the published queue is the second alone.
\<close>

definition two_lists :: hc_world where
  "two_lists = with_hc 0 (\<lambda>c. set_rg HcControlHeadED 0x2010 (set_rg HcHCCA 0x1000 c))
     (wr32 0x3000 0x00080000 (wr32 0x4000 0x00080000
       (wr32 0x2008 0x3000 (wr32 0x2018 0x4000 (wr32 0x1000 0x2000 hc_booted)))))"

lemma booted_memory: "rd32 hc_booted va = 0" "guest_ok hc_booted va n \<longleftrightarrow> va \<noteq> 0 \<and>
    (OHCI_CONTIG_BASE \<le> unat va \<and> unat va + n \<le> OHCI_CONTIG_BASE + OHCI_CONTIG_SIZE \<or> unat va + n \<le> 0x4000000)"
  by (simp_all add: rd32_def guest_ok_def hc_booted_def xbox_OhciInit_def hc_example_def load32_def le32_def)

lemma out_td: "rd32 w td = 0x00080000 \<Longrightarrow> rd32 w (td + 4) = 0 \<Longrightarrow> ohci_do_td ed0 td w = (0, wr32 (td + 4) 0 (w\<lparr>g_setup_pending := False\<rparr>))"
  by (simp add: ohci_do_td_def Let_def)

lemma one_td:
  assumes "rd32 w td = 0x00080000" "rd32 w (td + 4) = 0" "rd32 w (td + 8) = 0" "td AND ED_PTR_MASK = td" "td AND 2 = 0" "td \<noteq> 0" "guest_ok w td 16"
    and "rd32 (wr32 (td + 4) 0 (w\<lparr>g_setup_pending := False\<rparr>)) td = 0x00080000"
  shows "walk_tds (Suc (Suc k)) ed0 0 (td, done, c) w
    = ((0, td, c + 1), wr32 (td + 8) done (wr32 td 0x00080000 (wr32 (td + 4) 0 (w\<lparr>g_setup_pending := False\<rparr>))))"
  using assms(3-7) unfolding walk_tds.simps(2) Let_def assms(4) out_td [OF assms(1,2)] prod.case assms(8) by simp

lemma one_ed:
  assumes "guest_ok w ed 16" "rd32 w ed = 0" "rd32 w (ed + 4) = 0" "rd32 w (ed + 8) = td" "td AND 1 = 0"
    and "walk_tds 63 0 0 (td, done, c) w = ((h, d, n), w1)" "rd32 (wr32 (ed + 8) h w1) (ed + 12) = 0"
  shows "walk_eds (Suc (Suc k)) ed (done, c) w = ((d, n), wr32 (ed + 8) h w1)"
  using assms(1-5,7) unfolding walk_eds.simps(2) [of "Suc k"] by (simp add: Let_def assms(6)) (simp add: guest_ok_def)

lemma sixty_three: "(63 :: nat) = Suc (Suc 61)" by simp

definition periodic_done :: hc_world where
  "periodic_done = wr32 0x2008 0 (wr32 0x3008 0 (wr32 0x3000 0x00080000 (wr32 0x3004 0 (two_lists\<lparr>g_setup_pending := False\<rparr>))))"

definition both_done :: hc_world where
  "both_done = wr32 0x2018 0 (wr32 0x4008 0 (wr32 0x4000 0x00080000 (wr32 0x4004 0 ((ohci_publish_done 0 0x3000 periodic_done)\<lparr>g_setup_pending := False\<rparr>))))"

lemmas walk_memory = two_lists_def rd32_wr32 rd32_wr32_other booted_memory

lemma periodic_walk: "ohci_walk_eds 0x2000 0 two_lists = ((0x3000, 1), periodic_done)"
proof -
  have t: "walk_tds 63 0 0 (0x3000, 0, 0) two_lists
      = ((0, 0x3000, 1), wr32 0x3008 0 (wr32 0x3000 0x00080000 (wr32 0x3004 0 (two_lists\<lparr>g_setup_pending := False\<rparr>))))"
    unfolding sixty_three by (subst one_td) (simp_all add: walk_memory)
  show ?thesis unfolding ohci_walk_eds_def
    by (subst sixty_three, subst one_ed [OF _ _ _ _ _ t]) (simp_all add: walk_memory periodic_done_def)
qed


lemma example_registers: "rg (s_hc two_lists 0) HcHCCA = 0x1000" "rg (s_hc periodic_done 0) HcHCCA = 0x1000"
    "rg (s_hc (ohci_publish_done 0 0x3000 periodic_done) 0) HcBulkHeadED = 0"
    "rg (s_hc (ohci_publish_done 0 0x3000 periodic_done) 0) HcControlHeadED = 0x2010"
    "rg (s_hc (ohci_publish_done 0 0x3000 periodic_done) 0) HcHCCA = 0x1000"
  by (simp_all add: two_lists_def periodic_done_def hc_booted_def xbox_OhciInit_def ohci_reset_def Let_def rg_def set_rg_def ohci_publish_done_def)

lemma slots_idle: "slot \<in> set [1..<32] \<Longrightarrow> rd32 periodic_done (0x1000 + of_nat slot * 4) = 0"
proof -
  assume "slot \<in> set [1..<32]"
  then have s: "1 \<le> slot" "slot < 32" by auto
  have u: "unat (0x1000 + of_nat slot * 4 :: u32) = 0x1000 + slot * 4" using s
  proof -
    have "(0x1000 + of_nat slot * 4 :: u32) = of_nat (0x1000 + slot * 4)" by simp
    then show ?thesis using s by (simp only: unat_of_nat) (simp add: take_bit_eq_mod)
  qed
  show ?thesis unfolding periodic_done_def two_lists_def using s
    by (simp add: rd32_wr32_other u booted_memory)
qed

lemma periodic_list: "ohci_run_periodic_list 0 two_lists = (1, ohci_publish_done 0 0x3000 periodic_done)"
proof -
  have z: "[0..<32] = 0 # [1..<32]" by (simp add: upt_conv_Cons)
  have h: "rd32 two_lists 0x1000 = 0x2000" by (simp add: walk_memory)
  have "periodic_slot 0x1000 0 ((0, 0), two_lists) = ((0x3000, 1), periodic_done)"
    by (simp add: periodic_slot_def Let_def h periodic_walk)
  then have "fold (periodic_slot 0x1000) [0..<32] ((0, 0), two_lists) = ((0x3000, 1), periodic_done)"
    unfolding z fold_simps using idle_slots [of "[1..<32]" periodic_done] slots_idle by simp
  then show ?thesis unfolding ohci_run_periodic_list_def periodic_slot_def example_registers(1) Let_def by simp
qed

lemma example_before_control: "before_control 0x34 two_lists = ohci_publish_done 0 0x3000 periodic_done"
  by (simp add: before_control_def Let_def periodic_list run_bulk_list_def example_registers) (simp add: guest_ok_def)

lemma control_walk: "ohci_walk_eds 0x2010 0 (ohci_publish_done 0 0x3000 periodic_done) = ((0x4000, 1), both_done)"
proof -
  define w where "w = ohci_publish_done 0 0x3000 periodic_done"
  have m: "rd32 w va = rd32 (wr32 0x1084 0x3000 periodic_done) va" for va
    by (simp add: w_def ohci_publish_done_def Let_def example_registers)
  have g: "guest_ok w va n = guest_ok hc_booted va n" for va n
    by (simp add: w_def ohci_publish_done_def Let_def example_registers periodic_done_def two_lists_def)
  have t: "walk_tds 63 0 0 (0x4000, 0, 0) w
      = ((0, 0x4000, 1), wr32 0x4008 0 (wr32 0x4000 0x00080000 (wr32 0x4004 0 (w\<lparr>g_setup_pending := False\<rparr>))))"
    unfolding sixty_three by (subst one_td) (simp_all add: walk_memory m g periodic_done_def)
  show ?thesis unfolding ohci_walk_eds_def w_def [symmetric] both_done_def
    by (subst sixty_three, subst one_ed [OF _ _ _ _ _ t]) (simp_all add: walk_memory m g periodic_done_def)
qed

lemma replaced_queue_is_unlinked: "rd32 (serve_lists 0x34 two_lists) 0x4008 = 0"
proof -
  have i: "rg (s_hc both_done 0) HcHCCA = 0x1000" by (simp add: both_done_def example_registers)
  have "guest_ok (ohci_publish_done 0 0x3000 periodic_done) 0x2010 16"
    by (simp add: ohci_publish_done_def Let_def example_registers periodic_done_def two_lists_def booted_memory)
  then have "rd32 (serve_lists 0x34 two_lists) 0x4008 = rd32 (ohci_publish_done 0 0x4000 both_done) 0x4008"
    by (simp add: serve_lists_split example_before_control serve_control_list_def ohci_run_control_list_def example_registers control_walk)
  also have "\<dots> = rd32 (wr32 0x1084 0x4000 both_done) 0x4008" by (simp add: ohci_publish_done_def Let_def i)
  also have "\<dots> = 0"
    by (simp add: both_done_def rd32_wr32 rd32_wr32_other ohci_publish_done_def Let_def example_registers periodic_done_def walk_memory)
  finally show ?thesis .
qed

theorem control_list_replaces_witness:
  "rd32 (serve_lists 0x34 two_lists) (0x1000 + 0x84) = 0x4000 \<and> rd32 (serve_lists 0x34 two_lists) 0x4008 = 0"
proof (intro conjI replaced_queue_is_unlinked)
  have g: "guest_ok (ohci_publish_done 0 0x3000 periodic_done) va n = guest_ok hc_booted va n" for va n
    by (simp add: ohci_publish_done_def Let_def example_registers periodic_done_def two_lists_def)
  have h: "(0x2010 :: u32) = rg (s_hc (ohci_publish_done 0 0x3000 periodic_done) 0) HcControlHeadED AND ED_PTR_MASK"
    by (simp add: example_registers)
  show "rd32 (serve_lists 0x34 two_lists) (0x1000 + 0x84) = 0x4000"
    by (rule control_list_replaces_the_done_head [OF _ example_before_control [symmetric] h _ control_walk])
      (simp_all add: g booted_memory example_registers)
qed

section \<open>When the worker gives up\<close>

lemma if_or_bit: "bit (if b then x OR y else x :: u32) n \<longleftrightarrow> bit x n \<or> b \<and> bit y n"
  by (simp add: bit_or_iff)

text \<open>Serving the lists acknowledges nothing.\<close>

definition status_grows :: "hc_world \<Rightarrow> hc_world \<Rightarrow> bool" where
  "status_grows w w' \<longleftrightarrow> length (hc_reg (s_hc w' 0)) = length (hc_reg (s_hc w 0)) \<and>
     (length (hc_reg (s_hc w 0)) = 25 \<longrightarrow> (\<forall>n. bit (rg (s_hc w 0) HcInterruptStatus) n \<longrightarrow> bit (rg (s_hc w' 0) HcInterruptStatus) n))"

lemma status_grows_trans: "status_grows w w' \<Longrightarrow> status_grows w' w'' \<Longrightarrow> status_grows w w''"
  by (simp add: status_grows_def)

lemma status_grows_same: "s_hc w' = s_hc w \<Longrightarrow> status_grows w w'"
  by (simp add: status_grows_def)

lemma grows_walk: "status_grows w (snd (ohci_walk_eds ed done w))"
  using walk_eds_step [of w 63 ed "(done, 0)"] by (auto simp: ohci_walk_eds_def list_step_def intro: status_grows_same)

lemma grows_publish: "status_grows w (ohci_publish_done 0 d w)"
  by (auto simp: status_grows_def ohci_publish_done_def Let_def rg_set_rg bit_or_iff)

lemma grows_command: "status_grows w (with_hc 0 (\<lambda>c. set_rg HcCommandStatus (f c) c) w)"
  by (auto simp: status_grows_def rg_set_rg)

lemma grows_slot: "status_grows (snd s) (snd (periodic_slot hcca slot s))"
proof -
  obtain d c w where s: "s = ((d, c), w)" by (metis prod.exhaust)
  show ?thesis unfolding s periodic_slot_def Let_def prod.case
    using grows_walk by (auto simp: case_prod_unfold status_grows_def)
qed

lemma grows_slots: "status_grows (snd s) (snd (fold (periodic_slot hcca) slots s))"
proof (induction slots arbitrary: s)
  case (Cons slot slots)
  show ?case using status_grows_trans [OF grows_slot [of s hcca slot] Cons.IH] by simp
qed (simp add: status_grows_def)

lemma grows_lists: "status_grows w (serve_lists control w)"
proof -
  have refl: "status_grows v v" for v by (simp add: status_grows_def)
  note wp = status_grows_trans [OF grows_walk grows_publish]
  note wpc = status_grows_trans [OF wp grows_command]
  have per: "status_grows w (snd (ohci_run_periodic_list 0 w))"
  proof -
    obtain d n w1 where k: "fold (periodic_slot (rg (s_hc w 0) HcHCCA)) [0..<32] ((0, 0), w) = ((d, n), w1)" by (metis prod.exhaust)
    have g: "status_grows w w1" using grows_slots [of "((0, 0), w)" "rg (s_hc w 0) HcHCCA" "[0..<32]"] unfolding k by simp
    show ?thesis unfolding periodic_list_run [OF k] using g status_grows_trans [OF g grows_publish] refl by simp
  qed
  have bulk: "status_grows v (run_bulk_list v)" for v
    unfolding run_bulk_list_def Let_def case_prod_unfold using wpc grows_walk refl by auto
  have ctl: "status_grows v (serve_control_list v)" for v
    unfolding serve_control_list_def ohci_run_control_list_def Let_def case_prod_unfold using wpc wp grows_walk refl by auto
  show ?thesis unfolding serve_lists_def Let_def
    by (auto intro: per bulk ctl refl status_grows_trans [OF bulk ctl] status_grows_trans [OF per bulk]
      status_grows_trans [OF per ctl] status_grows_trans [OF status_grows_trans [OF per bulk] ctl])
qed


lemma clock_starts_a_frame: "length (hc_reg (s_hc w 0)) = 25 \<Longrightarrow> length (hc_reg (s_hc (frame_clock w) 0)) = 25 \<and> bit (rg (s_hc (frame_clock w) 0) HcInterruptStatus) 2"
proof -
  have b: "bit (x OR 4 :: u32) 2" for x
    unfolding bit_nz(3) by (simp add: bit.conj_disj_distrib2 word_bw_comms) 
  assume "length (hc_reg (s_hc w 0)) = 25"
  then show ?thesis by (simp add: frame_clock_def Let_def rg_set_rg b)
qed

text \<open>The worker runs, and of the controller's sources only start-of-frame is enabled.\<close>

definition frames_only :: "hc_world \<Rightarrow> bool" where
  "frames_only w \<longleftrightarrow> length (hc_reg (s_hc w 0)) = 25 \<and> rg (s_hc w 0) HcControl AND 0xC0 = 0x80 \<and>
     rg (s_hc w 0) HcInterruptEnable AND INTR_MIE \<noteq> 0 \<and> rg (s_hc w 0) HcInterruptEnable AND 0x7F = INTR_SF"

lemma frame_turn:
  assumes "frames_only w" "fst (ohci_thread e spec (k, t, w)) = Some k'"
  shows "last_status k' = 4 \<and> repeats k' \<le> 200 \<and> repeats k' = (if last_status k = 4 then repeats k + 1 else 0)"
proof -
  let ?en = "rg (s_hc w 0) HcInterruptEnable"
  let ?w = "serve_lists (rg (s_hc w 0) HcControl) (frame_clock w)"
  have "0x40 = (0x7F AND 0x40 :: u32)" by simp
  then have "?en AND 0x40 = (?en AND 0x7F) AND 0x40" by (metis and.assoc)
  then have noplug: "?en AND 0x40 = 0" using assms(1) by (simp add: frames_only_def)
  have b: "bit (rg (s_hc ?w 0) HcInterruptStatus) 2"
    using clock_starts_a_frame [of w] grows_lists [of "frame_clock w"] assms(1) by (auto simp: frames_only_def status_grows_def)
  have "rg (s_hc ?w 0) HcInterruptStatus AND ?en AND 0x7F = rg (s_hc ?w 0) HcInterruptStatus AND 4"
    using assms(1) by (simp add: frames_only_def and.assoc)
  also have st4: "rg (s_hc ?w 0) HcInterruptStatus AND 4 = 4"
  proof (rule bit_word_eqI)
    fix n assume "n < LENGTH(32)"
    then have "bit (4 :: u32) n \<longleftrightarrow> n = 2" using bit_exp_iff [of 2 n, where 'a = u32] by auto
    then show "bit (rg (s_hc ?w 0) HcInterruptStatus AND 4) n = bit (4 :: u32) n" using b by (auto simp: bit_and_iff)
  qed
  finally have st: "rg (s_hc ?w 0) HcInterruptStatus AND ?en AND 0x7F = 4" .
  show ?thesis
    using assms unfolding ohci_thread_def prod.case Let_def
    by (auto simp: frames_only_def noplug st st4 not_less split: if_splits)
qed

text \<open>
  Claim C39: A driver that keeps only start-of-frame enabled loses its controller: within
  202 turns of 20 ms the worker ends itself, whether or not the driver's routine
  acknowledges every interrupt, since each turn starts a frame and so delivers the same
  status again.
\<close>

theorem frame_interrupts_stop_the_worker:
  assumes "\<And>n. n < N \<Longrightarrow> frames_only (ws n)"
    and "\<And>n. n < N \<Longrightarrow> fst (ohci_thread e spec (ks n, ts n, ws n)) = Some (ks (Suc n))"
  shows "N \<le> 201"
proof (rule ccontr)
  assume "\<not> N \<le> 201"
  have turn: "last_status (ks (Suc n)) = 4 \<and> repeats (ks (Suc n)) \<le> 200 \<and>
      repeats (ks (Suc n)) = (if last_status (ks n) = 4 then repeats (ks n) + 1 else 0)" if "n < N" for n
    using frame_turn [OF assms(1) [OF that] assms(2) [OF that]] .
  have "n < N \<Longrightarrow> n \<le> unat (repeats (ks (Suc n)))" for n
  proof (induction n)
    case (Suc n)
    have "repeats (ks (Suc (Suc n))) = repeats (ks (Suc n)) + 1" "repeats (ks (Suc n)) \<le> 200"
      using turn [OF Suc.prems] conjunct1 [OF conjunct2 [OF turn [OF Suc_lessD [OF Suc.prems]]]]
      by (simp_all only: conjunct1 [OF turn [OF Suc_lessD [OF Suc.prems]]] if_True refl)
    then have "unat (repeats (ks (Suc (Suc n)))) = Suc (unat (repeats (ks (Suc n))))"
      by (simp add: unat_word_ariths word_le_nat_alt)
    then show ?case using Suc by simp
  qed simp
  from this [of 201] turn [of 201] \<open>\<not> N \<le> 201\<close> show False by (simp add: word_le_nat_alt)
qed


text \<open>A driver with no list enabled and nothing but start-of-frame unmasked.\<close>

definition frame_driver :: hc_world where
  "frame_driver = with_hc 0 (\<lambda>c. set_rg HcControl 0x80 (set_rg HcInterruptEnable 0x80000004 c)) hc_booted"

definition no_isr :: isr_env where
  "no_isr = \<lparr>connected_interrupt = 0, recomp_lookup = (\<lambda>_. None), worker_stack_top = None\<rparr>"

definition frame_worker :: "nat \<Rightarrow> hc_worker" where
  "frame_worker n = (if n = 0 then hc_worker_start else \<lparr>waited = 0, plugged = False, last_status = 4, repeats = of_nat (n - 1)\<rparr>)"

definition no_regs :: guest_regs where
  "no_regs = \<lparr>g_eax = 0, g_ecx = 0, g_edx = 0, g_ebx = 0, g_esi = 0, g_edi = 0, g_esp = 0, g_fs_base = 0\<rparr>"

lemma frame_driver_registers: "length (hc_reg (s_hc frame_driver 0)) = 25" "rg (s_hc frame_driver 0) HcControl = 0x80"
    "rg (s_hc frame_driver 0) HcInterruptEnable = 0x80000004" "rg (s_hc frame_driver 0) HcInterruptStatus = 0" "rg (s_hc frame_driver 0) HcHCCA = 0"
  by (simp_all add: frame_driver_def hc_booted_def xbox_OhciInit_def ohci_reset_def Let_def rg_def set_rg_def)

lemma frame_driver_turn: "n < 201 \<Longrightarrow> fst (ohci_thread no_isr None (frame_worker n, no_regs, frame_driver)) = Some (frame_worker (Suc n))"
proof -
  assume n: "n < 201"
  have st: "rg (s_hc (frame_clock frame_driver) 0) HcInterruptStatus = 4"
    by (simp add: frame_clock_def Let_def rg_set_rg frame_driver_registers)
  have "n \<noteq> 0 \<Longrightarrow> (of_nat (n - 1) + 1 :: u32) = of_nat n" by (cases n) simp_all
  moreover have "(of_nat n :: u32) \<le> 200" using n by (simp add: word_le_nat_alt unat_of_nat take_bit_eq_mod)
  ultimately show ?thesis
    by (simp add: ohci_thread_def Let_def frame_driver_registers serve_lists_def st frame_worker_def hc_worker_start_def not_less)
qed

theorem frame_interrupts_witness:
  "list_all (\<lambda>n. frames_only frame_driver \<and>
     fst (ohci_thread no_isr None (frame_worker n, no_regs, frame_driver)) = Some (frame_worker (Suc n))) [0..<201] \<and> 201 \<le> (201 :: nat)"
proof (rule conjI)
  have f: "frames_only frame_driver" by (simp add: frames_only_def frame_driver_registers)
  show "list_all (\<lambda>n. frames_only frame_driver \<and>
     fst (ohci_thread no_isr None (frame_worker n, no_regs, frame_driver)) = Some (frame_worker (Suc n))) [0..<201]"
    using f frame_driver_turn by (simp add: list_all_iff)
  show "201 \<le> (201 :: nat)"
    by (rule frame_interrupts_stop_the_worker [where ws = "\<lambda>_. frame_driver" and ts = "\<lambda>_. no_regs" and ks = frame_worker, OF f frame_driver_turn])
qed

end
