(* ===== verification/Debt_Watch.thy ===== *)
theory Debt_Watch
  imports Prelude
begin

text \<open>
  The debt watch of \<open>src/nv2a/nv2a_debt_watch.c\<close>, the macOS build: ranges of guest memory that the
  GPU is ahead of are made inaccessible in both host views until they are paid or first touched.
  The file's statics are the record \<open>debt_watch\<close>; its last field is the host's page protection, the
  set of addresses at which an access faults. A host address is a natural number: user addresses
  lie far below \<open>2 ^ 64\<close>, so no sum of the code wraps. Every entry point takes the file's lock for
  its whole body, so the operations are atomic steps. The report only prints.
\<close>

section \<open>State\<close>

abbreviation (input) DW_REGIONS :: nat where "DW_REGIONS \<equiv> 32"
abbreviation (input) DW_PCS :: nat where "DW_PCS \<equiv> 48"

record DwRegion =
  dw_lo :: nat
  dw_hi :: nat
  dw_kind :: int
  dw_armed :: bool
  low_released :: bool
  dw_touched :: bool

record dw_pc =
  pc_at :: nat
  pc_n :: u32
  pc_kind :: nat
  pc_write :: bool
  pc_high :: bool

record debt_watch =
  dw_regions :: "DwRegion list"
  s_on :: "bool option"
  s_configured :: bool
  s_low_base :: nat
  s_high_base :: nat
  s_heap_lo :: nat
  s_heap_hi :: nat
  s_page :: nat
  s_runtime :: "nat option"
  s_pc :: "dw_pc list"
  s_armed :: "nat \<Rightarrow> u64"
  s_paid_clean :: "nat \<Rightarrow> u64"
  s_guest_read :: "nat \<Rightarrow> u64"
  s_guest_write :: "nat \<Rightarrow> u64"
  s_runtime_read :: "nat \<Rightarrow> u64"
  s_runtime_write :: "nat \<Rightarrow> u64"
  s_neighbour :: u64
  s_high_faults :: u64
  s_low_faults :: u64
  s_full :: u64
  s_pc_full :: u64
  guarded :: "nat \<Rightarrow> bool"

definition no_region :: DwRegion where
  "no_region = \<lparr>dw_lo = 0, dw_hi = 0, dw_kind = 0, dw_armed = False, low_released = False, dw_touched = False\<rparr>"

text \<open>The statics before anything is configured.\<close>

definition debt_watch_statics :: debt_watch where
  "debt_watch_statics =
     \<lparr>dw_regions = replicate DW_REGIONS no_region, s_on = None, s_configured = False, s_low_base = 0, s_high_base = 0,
      s_heap_lo = 0, s_heap_hi = 0, s_page = 16384, s_runtime = None,
      s_pc = replicate DW_PCS \<lparr>pc_at = 0, pc_n = 0, pc_kind = 0, pc_write = False, pc_high = False\<rparr>,
      s_armed = (\<lambda>_. 0), s_paid_clean = (\<lambda>_. 0), s_guest_read = (\<lambda>_. 0), s_guest_write = (\<lambda>_. 0),
      s_runtime_read = (\<lambda>_. 0), s_runtime_write = (\<lambda>_. 0), s_neighbour = 0, s_high_faults = 0, s_low_faults = 0,
      s_full = 0, s_pc_full = 0, guarded = (\<lambda>_. False)\<rparr>"

definition set_region :: "nat \<Rightarrow> DwRegion \<Rightarrow> debt_watch \<Rightarrow> debt_watch" where
  "set_region i r s = s\<lparr>dw_regions := (dw_regions s)[i := r]\<rparr>"

definition kind_index :: "DwRegion \<Rightarrow> nat" where
  "kind_index r = nat (dw_kind r AND 1)"

definition bump :: "nat \<Rightarrow> (nat \<Rightarrow> u64) \<Rightarrow> nat \<Rightarrow> u64" where
  "bump k f = f(k := f k + 1)"

section \<open>Views and pages\<close>

definition high_of :: "debt_watch \<Rightarrow> nat \<Rightarrow> nat" where
  "high_of s p =
     (if s_high_base s = 0 \<or> p < s_low_base s then 0
      else let addr = p - s_low_base s
           in if addr < s_heap_lo s \<or> addr \<ge> s_heap_hi s then 0 else s_high_base s + addr)"

definition pg_lo :: "debt_watch \<Rightarrow> nat \<Rightarrow> nat" where
  "pg_lo s a = a div s_page s * s_page s"

definition pg_hi :: "debt_watch \<Rightarrow> nat \<Rightarrow> nat" where
  "pg_hi s a = (a + s_page s - 1) div s_page s * s_page s"

text \<open>The bytes of a region in a view, or nothing where the view does not show it.\<close>

definition view_range :: "debt_watch \<Rightarrow> bool \<Rightarrow> DwRegion \<Rightarrow> (nat \<times> nat) option" where
  "view_range s high r =
     (let lo = (if high then high_of s (dw_lo r) else dw_lo r)
      in if high \<and> lo = 0 then None else Some (lo, lo + (dw_hi r - dw_lo r)))"

definition page_needed :: "debt_watch \<Rightarrow> nat \<Rightarrow> bool \<Rightarrow> nat \<Rightarrow> bool" where
  "page_needed s pg high skip \<longleftrightarrow>
     (\<exists>i \<in> set [0..<length (dw_regions s)]. i \<noteq> skip \<and> dw_armed (dw_regions s ! i) \<and>
        (high \<or> \<not> low_released (dw_regions s ! i)) \<and>
        (case view_range s high (dw_regions s ! i) of
           None \<Rightarrow> False
         | Some (lo, hi) \<Rightarrow> pg + s_page s > pg_lo s lo \<and> pg < pg_hi s hi))"

definition mprotect :: "nat \<Rightarrow> nat \<Rightarrow> bool \<Rightarrow> debt_watch \<Rightarrow> debt_watch" where
  "mprotect at len none s = s\<lparr>guarded := (\<lambda>a. if at \<le> a \<and> a < at + len then none else guarded s a)\<rparr>"

definition protect_view :: "nat \<Rightarrow> bool \<Rightarrow> bool \<Rightarrow> debt_watch \<Rightarrow> debt_watch" where
  "protect_view i high none s =
     (case view_range s high (dw_regions s ! i) of
        None \<Rightarrow> s
      | Some (lo, hi) \<Rightarrow>
          if none then mprotect (pg_lo s lo) (pg_hi s hi - pg_lo s lo) True s
          else fold (\<lambda>pg s. if page_needed s pg high i then s else mprotect pg (s_page s) False s)
            (map (\<lambda>k. pg_lo s lo + k * s_page s) [0..<(pg_hi s hi - pg_lo s lo) div s_page s]) s)"

definition release :: "nat \<Rightarrow> debt_watch \<Rightarrow> debt_watch" where
  "release i s =
     (let s = set_region i ((dw_regions s ! i)\<lparr>dw_armed := False\<rparr>) s
      in protect_view i True False (protect_view i False False s))"

section \<open>The fault handler\<close>

fun note_pc_in :: "nat \<Rightarrow> nat \<Rightarrow> bool \<Rightarrow> bool \<Rightarrow> dw_pc list \<Rightarrow> dw_pc list option" where
  "note_pc_in pc kind write high [] = None"
| "note_pc_in pc kind write high (p # ps) =
     (if pc_n p \<noteq> 0 \<and> pc_at p = pc \<and> pc_kind p = kind \<and> pc_write p = write \<and> pc_high p = high
      then Some (p\<lparr>pc_n := pc_n p + 1\<rparr> # ps)
      else if pc_n p = 0 then Some (\<lparr>pc_at = pc, pc_n = 1, pc_kind = kind, pc_write = write, pc_high = high\<rparr> # ps)
      else map_option ((#) p) (note_pc_in pc kind write high ps))"

definition note_pc :: "nat \<Rightarrow> nat \<Rightarrow> bool \<Rightarrow> bool \<Rightarrow> debt_watch \<Rightarrow> debt_watch" where
  "note_pc pc kind write high s =
     (case note_pc_in pc kind write high (s_pc s) of
        Some ps \<Rightarrow> s\<lparr>s_pc := ps\<rparr>
      | None \<Rightarrow> s\<lparr>s_pc_full := s_pc_full s + 1\<rparr>)"

definition on_page :: "debt_watch \<Rightarrow> bool \<Rightarrow> DwRegion \<Rightarrow> nat \<Rightarrow> bool" where
  "on_page s high r f \<longleftrightarrow>
     (case view_range s high r of None \<Rightarrow> False | Some (lo, hi) \<Rightarrow> pg_lo s lo \<le> f \<and> f < pg_hi s hi)"

text \<open>The region a fault hits, and whether through the high view.\<close>

definition find_hit :: "debt_watch \<Rightarrow> nat \<Rightarrow> (nat \<times> bool) option" where
  "find_hit s f =
     (case find (\<lambda>i. dw_armed (dw_regions s ! i) \<and>
              (\<not> low_released (dw_regions s ! i) \<and> on_page s False (dw_regions s ! i) f \<or> on_page s True (dw_regions s ! i) f))
            [0..<length (dw_regions s)] of
        None \<Rightarrow> None
      | Some i \<Rightarrow> Some (i, \<not> (\<not> low_released (dw_regions s ! i) \<and> on_page s False (dw_regions s ! i) f)))"

definition count_fault :: "bool \<Rightarrow> bool \<Rightarrow> debt_watch \<Rightarrow> debt_watch" where
  "count_fault high outside s =
     (let s = (if high then s\<lparr>s_high_faults := s_high_faults s + 1\<rparr> else s\<lparr>s_low_faults := s_low_faults s + 1\<rparr>)
      in if outside then s\<lparr>s_neighbour := s_neighbour s + 1\<rparr> else s)"

definition count_runtime :: "bool \<Rightarrow> nat \<Rightarrow> debt_watch \<Rightarrow> debt_watch" where
  "count_runtime write kind s =
     (if write then s\<lparr>s_runtime_write := bump kind (s_runtime_write s)\<rparr> else s\<lparr>s_runtime_read := bump kind (s_runtime_read s)\<rparr>)"

definition count_guest :: "bool \<Rightarrow> nat \<Rightarrow> debt_watch \<Rightarrow> debt_watch" where
  "count_guest write kind s =
     (if write then s\<lparr>s_guest_write := bump kind (s_guest_write s)\<rparr> else s\<lparr>s_guest_read := bump kind (s_guest_read s)\<rparr>)"

text \<open>
  The handler on thread \<open>thread\<close>; \<open>uc\<close> is the machine context, its exception syndrome and program
  counter, when there is one. \<open>False\<close> is the previous handler's case.
\<close>

definition handler :: "nat \<Rightarrow> nat \<Rightarrow> (u64 \<times> nat) option \<Rightarrow> debt_watch \<Rightarrow> bool \<times> debt_watch" where
  "handler thread f uc s =
     (case find_hit s f of
        None \<Rightarrow> (False, s)
      | Some (hit, high) \<Rightarrow>
          let r = dw_regions s ! hit;
              lo = (if high then high_of s (dw_lo r) else dw_lo r); hi = lo + (dw_hi r - dw_lo r);
              write = (case uc of Some (esr, pc) \<Rightarrow> drop_bit 6 esr AND 1 \<noteq> 0 | None \<Rightarrow> False);
              kind = kind_index r;
              runtime = (s_runtime s = Some thread);
              s = count_fault high (f < lo \<or> f \<ge> hi) s
          in if \<not> high \<and> runtime
             then (True, protect_view hit False False (set_region hit (r\<lparr>low_released := True\<rparr>) (count_runtime write kind s)))
             else let s = note_pc (case uc of Some (esr, pc) \<Rightarrow> pc | None \<Rightarrow> 0) kind write high (count_guest write kind s)
                  in (True, release hit (set_region hit (r\<lparr>dw_touched := True\<rparr>) s)))"

section \<open>Entry points\<close>

definition ask_switch :: "bool \<Rightarrow> debt_watch \<Rightarrow> bool \<times> debt_watch" where
  "ask_switch switch s = (case s_on s of Some b \<Rightarrow> (b, s) | None \<Rightarrow> (switch, s\<lparr>s_on := Some switch\<rparr>))"

definition nv2a_debt_watch_on :: "bool \<Rightarrow> debt_watch \<Rightarrow> bool \<times> debt_watch" where
  "nv2a_debt_watch_on switch s = (let (b, s) = ask_switch switch s in (b \<and> s_configured s, s))"

definition nv2a_debt_watch_configure :: "bool \<Rightarrow> nat \<Rightarrow> bool \<Rightarrow> nat \<Rightarrow> nat \<Rightarrow> nat \<Rightarrow> nat \<Rightarrow> debt_watch \<Rightarrow> debt_watch" where
  "nv2a_debt_watch_configure switch page installed low_base high_base heap_lo heap_hi s =
     (let (b, s) = ask_switch switch s
      in if \<not> b \<or> s_configured s then s
         else let s = s\<lparr>s_low_base := low_base, s_high_base := high_base, s_heap_lo := heap_lo, s_heap_hi := heap_hi, s_page := page\<rparr>
              in if \<not> installed then s else s\<lparr>s_configured := True\<rparr>)"

definition nv2a_debt_watch_arm :: "bool \<Rightarrow> nat \<Rightarrow> nat \<Rightarrow> nat \<Rightarrow> int \<Rightarrow> debt_watch \<Rightarrow> debt_watch" where
  "nv2a_debt_watch_arm switch thread p bytes kind s =
     (let lo = p; hi = lo + bytes; (on, s) = nv2a_debt_watch_on switch s
      in if \<not> on \<or> p = 0 \<or> bytes = 0 then s
         else let s = (if s_runtime s = None then s\<lparr>s_runtime := Some thread\<rparr> else s)
              in case find (\<lambda>i. dw_armed (dw_regions s ! i) \<and> dw_lo (dw_regions s ! i) = lo \<and> dw_hi (dw_regions s ! i) = hi)
                     [0..<length (dw_regions s)] of
                   Some i \<Rightarrow>
                     if low_released (dw_regions s ! i)
                     then protect_view i False True (set_region i ((dw_regions s ! i)\<lparr>low_released := False\<rparr>) s)
                     else s
                 | None \<Rightarrow>
                     (case find (\<lambda>i. \<not> dw_armed (dw_regions s ! i)) [0..<length (dw_regions s)] of
                        None \<Rightarrow> s\<lparr>s_full := s_full s + 1\<rparr>
                      | Some slot \<Rightarrow>
                          let r = \<lparr>dw_lo = lo, dw_hi = hi, dw_kind = kind, dw_armed = True, low_released = False, dw_touched = False\<rparr>;
                              s = set_region slot r s;
                              s = protect_view slot True True (protect_view slot False True s)
                          in s\<lparr>s_armed := bump (kind_index r) (s_armed s)\<rparr>))"

text \<open>Whether the reader's function runs over the range.\<close>

definition nv2a_debt_watch_guarded_read :: "bool \<Rightarrow> nat \<Rightarrow> nat \<Rightarrow> debt_watch \<Rightarrow> bool \<times> debt_watch" where
  "nv2a_debt_watch_guarded_read switch p bytes s =
     (let lo = p; hi = lo + bytes; (on, s) = nv2a_debt_watch_on switch s
      in if \<not> on then (True, s)
         else (\<not> (\<exists>i \<in> set [0..<length (dw_regions s)]. dw_armed (dw_regions s ! i) \<and>
                 pg_lo s (dw_lo (dw_regions s ! i)) < pg_hi s hi \<and> pg_lo s lo < pg_hi s (dw_hi (dw_regions s ! i))), s))"

definition nv2a_debt_watch_paid :: "bool \<Rightarrow> nat \<Rightarrow> nat \<Rightarrow> debt_watch \<Rightarrow> debt_watch" where
  "nv2a_debt_watch_paid switch p bytes s =
     (let lo = p; hi = lo + bytes; (on, s) = nv2a_debt_watch_on switch s
      in if \<not> on \<or> p = 0 \<or> bytes = 0 then s
         else fold (\<lambda>i s. let r = dw_regions s ! i
                          in if dw_armed r \<and> dw_lo r < hi \<and> lo < dw_hi r
                             then release i (s\<lparr>s_paid_clean := bump (kind_index r) (s_paid_clean s)\<rparr>)
                             else s)
           [0..<length (dw_regions s)] s)"

definition nv2a_debt_watch_counts :: "debt_watch \<Rightarrow> u64 list" where
  "nv2a_debt_watch_counts s =
     concat (map (\<lambda>k. [s_armed s k, s_paid_clean s k, s_guest_read s k, s_guest_write s k, s_runtime_read s k, s_runtime_write s k]) [0, 1])"

section \<open>What a change of protection does\<close>

lemma guarded_update [simp]:
  "high_of (s\<lparr>guarded := g\<rparr>) p = high_of s p" "pg_lo (s\<lparr>guarded := g\<rparr>) a = pg_lo s a" "pg_hi (s\<lparr>guarded := g\<rparr>) a = pg_hi s a"
  "view_range (s\<lparr>guarded := g\<rparr>) h r = view_range s h r" "page_needed (s\<lparr>guarded := g\<rparr>) pg h i = page_needed s pg h i"
  "on_page (s\<lparr>guarded := g\<rparr>) h r a = on_page s h r a"
proof -
  show h: "high_of (s\<lparr>guarded := g\<rparr>) p = high_of s p" for p by (simp add: high_of_def Let_def)
  show v: "view_range (s\<lparr>guarded := g\<rparr>) h r = view_range s h r" for r by (simp add: view_range_def h)
  show l: "pg_lo (s\<lparr>guarded := g\<rparr>) a = pg_lo s a" "pg_hi (s\<lparr>guarded := g\<rparr>) a = pg_hi s a" for a by (simp_all add: pg_lo_def pg_hi_def)
  have e: "dw_regions (s\<lparr>guarded := g\<rparr>) = dw_regions s" "s_page (s\<lparr>guarded := g\<rparr>) = s_page s" by simp_all
  show "page_needed (s\<lparr>guarded := g\<rparr>) pg h i = page_needed s pg h i" unfolding page_needed_def v l e ..
  show "on_page (s\<lparr>guarded := g\<rparr>) h r a = on_page s h r a" unfolding on_page_def v l by simp
qed

lemma mprotect_guarded: "mprotect at len none s = s\<lparr>guarded := (\<lambda>a. if at \<le> a \<and> a < at + len then none else guarded s a)\<rparr>"
  by (rule mprotect_def)

lemma unprotect_fold:
  "fold (\<lambda>pg s. if page_needed s pg high i then s else mprotect pg (s_page s) False s) pgs s =
    s\<lparr>guarded := (\<lambda>a. guarded s a \<and> \<not> (\<exists>pg \<in> set pgs. pg \<le> a \<and> a < pg + s_page s \<and> \<not> page_needed s pg high i))\<rparr>"
proof (induction pgs arbitrary: s)
  case (Cons pg pgs)
  show ?case
    by (cases "page_needed s pg high i")
      (auto simp: Cons.IH mprotect_def fun_eq_iff intro!: arg_cong [where f = "\<lambda>g. s\<lparr>guarded := g\<rparr>"])
qed simp

text \<open>Pages.\<close>

definition aligned_page :: "debt_watch \<Rightarrow> nat \<Rightarrow> bool" where
  "aligned_page s a \<longleftrightarrow> s_page s dvd a"

lemma pg_aligned [simp]: "s_page s dvd pg_lo s a" "s_page s dvd pg_hi s a"
  by (simp_all add: pg_lo_def pg_hi_def)

lemma pg_lo_le: "pg_lo s a \<le> a"
  by (simp add: pg_lo_def)

lemma pg_lo_next: "0 < s_page s \<Longrightarrow> a < pg_lo s a + s_page s"
  by (metis add.commute div_mult_mod_eq mod_less_divisor nat_add_left_cancel_less pg_lo_def)

lemma pg_hi_ge: "0 < s_page s \<Longrightarrow> a \<le> pg_hi s a"
proof -
  assume p: "0 < s_page s"
  have "(a + s_page s - 1) mod s_page s < s_page s" using p by simp
  moreover have "(a + s_page s - 1) div s_page s * s_page s + (a + s_page s - 1) mod s_page s = a + s_page s - 1" by simp
  ultimately show ?thesis unfolding pg_hi_def using p by linarith
qed

lemma pg_lo_above: "0 < s_page s \<Longrightarrow> s_page s dvd b \<Longrightarrow> b \<le> pg_lo s a \<longleftrightarrow> b \<le> a"
proof -
  assume p: "0 < s_page s" and d: "s_page s dvd b"
  obtain k where b: "b = s_page s * k" using d by auto
  have "k \<le> a div s_page s \<longleftrightarrow> k * s_page s \<le> a" by (rule less_eq_div_iff_mult_less_eq [OF p])
  then show ?thesis using p by (simp add: b pg_lo_def mult.commute)
qed

lemma pg_lo_below: "0 < s_page s \<Longrightarrow> s_page s dvd b \<Longrightarrow> pg_lo s a < b \<longleftrightarrow> a < b"
  by (meson pg_lo_above not_le)

lemma page_index:
  assumes "0 < s_page s" "s_page s dvd l" "s_page s dvd h" "l \<le> h"
  shows "(\<exists>pg \<in> set (map (\<lambda>k. l + k * s_page s) [0..<(h - l) div s_page s]). pg \<le> a \<and> a < pg + s_page s \<and> P pg)
    \<longleftrightarrow> l \<le> a \<and> a < h \<and> P (pg_lo s a)"
proof -
  define p where "p = s_page s"
  obtain x y where l: "l = p * x" and h: "h = p * y" using assms(2,3) unfolding p_def by (auto elim!: dvdE)
  have xy: "x \<le> y" using assms(1,4) by (simp add: l h p_def)
  have n: "(h - l) div p = y - x" using assms(1) by (simp add: l h p_def flip: diff_mult_distrib2)
  have page: "p * (x + k) \<le> a \<and> a < p * (x + k) + p \<longleftrightarrow> a div p = x + k" for k
  proof
    assume "p * (x + k) \<le> a \<and> a < p * (x + k) + p"
    then show "a div p = x + k" by (intro div_nat_eqI) (simp_all add: algebra_simps)
  next
    assume "a div p = x + k"
    then show "p * (x + k) \<le> a \<and> a < p * (x + k) + p"
      using assms(1) dividend_less_times_div [of p a] times_div_less_eq_dividend [of p a] by (simp add: p_def add.commute)
  qed
  have "(\<exists>k < y - x. a div p = x + k \<and> P (p * (x + k))) \<longleftrightarrow> x \<le> a div p \<and> a div p < y \<and> P (p * (a div p))"
    by (auto simp: nat_le_iff_add)
  moreover have "x \<le> a div p \<longleftrightarrow> l \<le> a" "a div p < y \<longleftrightarrow> a < h"
    using assms(1) by (simp_all add: l h p_def less_eq_div_iff_mult_less_eq div_less_iff_less_mult mult.commute)
  moreover have "(\<exists>pg \<in> set (map (\<lambda>k. l + k * p) [0..<y - x]). pg \<le> a \<and> a < pg + p \<and> P pg) \<longleftrightarrow>
      (\<exists>k < y - x. a div p = x + k \<and> P (p * (x + k)))"
  proof -
    have "l + k * p = p * (x + k)" for k by (simp add: l algebra_simps)
    then show ?thesis by (simp only: set_map set_upt bex_simps page conj_assoc [symmetric]) (auto simp: page conj_assoc)
  qed
  moreover have "pg_lo s a = p * (a div p)" by (simp add: pg_lo_def p_def)
  ultimately show ?thesis unfolding p_def [symmetric] n by simp
qed

section \<open>Which addresses are needed\<close>

definition needed_by :: "debt_watch \<Rightarrow> bool \<Rightarrow> DwRegion \<Rightarrow> nat \<Rightarrow> bool" where
  "needed_by s high r a \<longleftrightarrow> dw_armed r \<and> (high \<or> \<not> low_released r) \<and> on_page s high r a"

text \<open>A region whose bytes, rounded to pages, lie below the high view.\<close>

definition low_range :: "debt_watch \<Rightarrow> nat \<Rightarrow> nat \<Rightarrow> bool" where
  "low_range s lo hi \<longleftrightarrow> 0 < lo \<and> lo < hi \<and> (s_high_base s = 0 \<or> pg_hi s hi \<le> pg_lo s (s_high_base s))"

lemma page_needed_address:
  assumes "0 < s_page s"
  shows "page_needed s (pg_lo s a) high i \<longleftrightarrow>
    (\<exists>j < length (dw_regions s). j \<noteq> i \<and> needed_by s high (dw_regions s ! j) a)"
proof -
  have e: "pg_lo s a + s_page s > pg_lo s lo \<and> pg_lo s a < pg_hi s hi \<longleftrightarrow> pg_lo s lo \<le> a \<and> a < pg_hi s hi" for lo hi
  proof -
    obtain x y where xy: "pg_lo s a = s_page s * x" "pg_lo s lo = s_page s * y" by (metis dvdE pg_aligned(1))
    have "pg_lo s a + s_page s > pg_lo s lo \<longleftrightarrow> pg_lo s lo \<le> pg_lo s a"
      using assms unfolding xy by (metis less_Suc_eq_le mult_Suc_right nat_mult_less_cancel1 add.commute mult_le_mono2 nat_mult_le_cancel1)
    then show ?thesis using assms by (simp add: pg_lo_above pg_lo_below)
  qed
  show ?thesis unfolding page_needed_def needed_by_def on_page_def e by auto
qed

text \<open>The two changes of protection, by address.\<close>

lemma view_order:
  assumes "0 < s_page s" "dw_lo r < dw_hi r" "view_range s high r = Some (lo, hi)"
  shows "pg_lo s lo \<le> pg_hi s hi"
proof -
  have "lo \<le> hi" using assms by (auto simp: view_range_def Let_def split: if_splits)
  then show ?thesis using pg_lo_le [of s lo] pg_hi_ge [OF assms(1), of hi] by linarith
qed

lemma guard_view:
  assumes "0 < s_page s" "dw_lo (dw_regions s ! i) < dw_hi (dw_regions s ! i)"
  shows "protect_view i high True s = s\<lparr>guarded := (\<lambda>a. guarded s a \<or> on_page s high (dw_regions s ! i) a)\<rparr>"
proof (cases "view_range s high (dw_regions s ! i)")
  case (Some v)
  obtain lo hi where v: "v = (lo, hi)" by force
  show ?thesis using view_order [OF assms Some [unfolded v]]
    by (auto simp: protect_view_def on_page_def Some v mprotect_def fun_eq_iff intro!: arg_cong [where f = "\<lambda>g. s\<lparr>guarded := g\<rparr>"])
qed (simp add: protect_view_def on_page_def)

lemma open_view:
  assumes "0 < s_page s" "dw_lo (dw_regions s ! i) < dw_hi (dw_regions s ! i)"
  shows "protect_view i high False s = s\<lparr>guarded := (\<lambda>a. guarded s a \<and>
    \<not> (on_page s high (dw_regions s ! i) a \<and> \<not> (\<exists>j < length (dw_regions s). j \<noteq> i \<and> needed_by s high (dw_regions s ! j) a)))\<rparr>"
proof (cases "view_range s high (dw_regions s ! i)")
  case (Some v)
  obtain lo hi where v: "v = (lo, hi)" by force
  have "(\<exists>pg \<in> set (map (\<lambda>k. pg_lo s lo + k * s_page s) [0..<(pg_hi s hi - pg_lo s lo) div s_page s]).
      pg \<le> a \<and> a < pg + s_page s \<and> \<not> page_needed s pg high i) \<longleftrightarrow>
    pg_lo s lo \<le> a \<and> a < pg_hi s hi \<and> \<not> page_needed s (pg_lo s a) high i" for a
    by (rule page_index [OF assms(1) pg_aligned view_order [OF assms Some [unfolded v]], where P = "\<lambda>pg. \<not> page_needed s pg high i"])
  then show ?thesis
    unfolding protect_view_def Some v option.case prod.case if_False unprotect_fold page_needed_address [OF assms(1)]
    by (auto simp: on_page_def Some v fun_eq_iff intro!: arg_cong [where f = "\<lambda>g. s\<lparr>guarded := g\<rparr>"])
qed (simp add: protect_view_def on_page_def)

text \<open>The two views have no page in common.\<close>

lemma views_apart:
  assumes "0 < s_page s" "low_range s (dw_lo r) (dw_hi r)" "on_page s False r a" "on_page s True q a"
  shows False
proof -
  obtain lo hi where v: "view_range s True q = Some (lo, hi)" "pg_lo s lo \<le> a" using assms(4) by (auto simp: on_page_def split: option.splits)
  then have h: "s_high_base s \<noteq> 0" "s_high_base s \<le> lo" by (auto simp: view_range_def high_of_def Let_def split: if_splits)
  have "pg_lo s (s_high_base s) \<le> pg_lo s lo" using h(2) by (simp add: pg_lo_def div_le_mono)
  moreover have "a < pg_hi s (dw_hi r)" using assms(2,3) by (auto simp: on_page_def view_range_def low_range_def)
  ultimately show False using v(2) assms(2) h(1) by (auto simp: low_range_def)
qed

section \<open>The guard is exactly what is owed\<close>

definition watching :: "debt_watch \<Rightarrow> nat \<Rightarrow> bool" where
  "watching s a \<longleftrightarrow> (\<exists>j < length (dw_regions s). \<exists>high. needed_by s high (dw_regions s ! j) a)"

definition dw_core :: "debt_watch \<Rightarrow> bool" where
  "dw_core s \<longleftrightarrow> 0 < s_page s \<and> (\<forall>j < length (dw_regions s). dw_armed (dw_regions s ! j) \<longrightarrow>
       low_range s (dw_lo (dw_regions s ! j)) (dw_hi (dw_regions s ! j))) \<and> (\<forall>a. guarded s a \<longleftrightarrow> watching s a)"

text \<open>What depends on the bases and the page size only.\<close>

definition same_views :: "debt_watch \<Rightarrow> debt_watch \<Rightarrow> bool" where
  "same_views s s' \<longleftrightarrow> s_page s' = s_page s \<and> s_low_base s' = s_low_base s \<and> s_high_base s' = s_high_base s \<and>
     s_heap_lo s' = s_heap_lo s \<and> s_heap_hi s' = s_heap_hi s"

lemma same_views_cong:
  assumes "same_views s s'"
  shows "pg_lo s' = pg_lo s" "pg_hi s' = pg_hi s" "on_page s' = on_page s" "needed_by s' = needed_by s" "low_range s' = low_range s"
    "s_page s' = s_page s"
proof -
  have h: "high_of s' p = high_of s p" for p using assms by (simp add: high_of_def same_views_def Let_def)
  show l: "pg_lo s' = pg_lo s" "pg_hi s' = pg_hi s" and p: "s_page s' = s_page s"
    using assms by (auto simp: pg_lo_def pg_hi_def same_views_def fun_eq_iff)
  have v: "view_range s' = view_range s" unfolding view_range_def h ..
  show o: "on_page s' = on_page s" unfolding on_page_def v l ..
  show "needed_by s' = needed_by s" unfolding needed_by_def o ..
  show "low_range s' = low_range s" using assms unfolding low_range_def l by (simp add: same_views_def fun_eq_iff)
qed

lemma same_views_refl [simp]: "same_views s s" by (simp add: same_views_def)

lemma set_region_views [simp]: "same_views s (set_region i r s)" "same_views s (s\<lparr>guarded := g\<rparr>)"
  by (simp_all add: same_views_def set_region_def)

lemma set_region_sel [simp]: "dw_regions (set_region i r s) = (dw_regions s)[i := r]" "guarded (set_region i r s) = guarded s"
  by (simp_all add: set_region_def)

lemma core_cong:
  assumes "same_views s s'" "dw_regions s' = dw_regions s" "guarded s' = guarded s"
  shows "dw_core s' = dw_core s"
  using assms by (simp add: dw_core_def watching_def same_views_cong)

lemma on_page_region [simp]: "on_page s h (r\<lparr>dw_armed := b\<rparr>) = on_page s h r" "on_page s h (r\<lparr>low_released := b\<rparr>) = on_page s h r"
  "on_page s h (r\<lparr>dw_touched := b\<rparr>) = on_page s h r"
  by (simp_all add: on_page_def view_range_def Let_def fun_eq_iff)

definition needed_elsewhere :: "debt_watch \<Rightarrow> nat \<Rightarrow> bool \<Rightarrow> nat \<Rightarrow> bool" where
  "needed_elsewhere s i h a \<longleftrightarrow> (\<exists>j < length (dw_regions s). j \<noteq> i \<and> needed_by s h (dw_regions s ! j) a)"

lemma watching_elsewhere: "i < length (dw_regions s) \<Longrightarrow> watching s a \<longleftrightarrow>
    needed_elsewhere s i False a \<or> needed_elsewhere s i True a \<or> needed_by s False (dw_regions s ! i) a \<or> needed_by s True (dw_regions s ! i) a"
  unfolding watching_def needed_elsewhere_def ex_bool_eq by blast

lemma elsewhere_update:
  assumes "same_views s s'" "dw_regions s' = (dw_regions s)[i := r]"
  shows "needed_elsewhere s' i h a = needed_elsewhere s i h a"
proof -
  have "j \<noteq> i \<Longrightarrow> dw_regions s' ! j = dw_regions s ! j" for j by (simp add: assms(2))
  then show ?thesis unfolding needed_elsewhere_def same_views_cong [OF assms(1)] by (auto simp: assms(2))
qed

lemma watching_update:
  assumes "i < length (dw_regions s)" "same_views s s'" "dw_regions s' = (dw_regions s)[i := r]"
  shows "watching s' a \<longleftrightarrow> needed_elsewhere s i False a \<or> needed_elsewhere s i True a \<or> needed_by s False r a \<or> needed_by s True r a"
  using watching_elsewhere [of i s' a] assms(1) by (simp add: elsewhere_update [OF assms(2,3)] same_views_cong [OF assms(2)] assms(3))

lemma elsewhere_apart:
  assumes "dw_core s" "low_range s (dw_lo r) (dw_hi r)"
  shows "on_page s False r a \<Longrightarrow> needed_elsewhere s i True a \<Longrightarrow> False" "on_page s True r a \<Longrightarrow> needed_elsewhere s i False a \<Longrightarrow> False"
proof -
  have p: "0 < s_page s" using assms(1) by (simp add: dw_core_def)
  show "on_page s False r a \<Longrightarrow> needed_elsewhere s i True a \<Longrightarrow> False"
    using views_apart [OF p assms(2)] unfolding needed_elsewhere_def needed_by_def by blast
  show "on_page s True r a \<Longrightarrow> needed_elsewhere s i False a \<Longrightarrow> False"
    using views_apart [OF p] assms(1) unfolding needed_elsewhere_def needed_by_def dw_core_def by blast
qed

text \<open>Opening a view of one region opens what no other region needs in that view.\<close>

lemma open_view_elsewhere:
  assumes "0 < s_page s" "dw_lo (dw_regions s ! i) < dw_hi (dw_regions s ! i)"
  shows "protect_view i high False s =
    s\<lparr>guarded := (\<lambda>a. guarded s a \<and> \<not> (on_page s high (dw_regions s ! i) a \<and> \<not> needed_elsewhere s i high a))\<rparr>"
  unfolding needed_elsewhere_def by (rule open_view [OF assms])


lemma release_core:
  assumes c: "dw_core s" and i: "i < length (dw_regions s)" "dw_armed (dw_regions s ! i)"
  shows "dw_core (release i s)" "same_views s (release i s)"
    "dw_regions (release i s) = (dw_regions s)[i := (dw_regions s ! i)\<lparr>dw_armed := False\<rparr>]"
proof -
  let ?r = "dw_regions s ! i"
  have page: "0 < s_page s" and lr: "low_range s (dw_lo ?r) (dw_hi ?r)" using c i by (auto simp: dw_core_def)
  define s1 where "s1 = set_region i (?r\<lparr>dw_armed := False\<rparr>) s"
  have r1: "dw_regions s1 = (dw_regions s)[i := ?r\<lparr>dw_armed := False\<rparr>]" "guarded s1 = guarded s" by (simp_all add: s1_def)
  have v1: "same_views s s1" by (simp add: s1_def)
  have ord: "dw_lo (dw_regions s1 ! i) < dw_hi (dw_regions s1 ! i)" using lr i by (simp add: r1 low_range_def)
  define s2 where "s2 = s1\<lparr>guarded := (\<lambda>a. guarded s a \<and> \<not> (on_page s False ?r a \<and> \<not> needed_elsewhere s i False a))\<rparr>"
  have "protect_view i False False s1 = s2"
    using open_view_elsewhere [of s1 i False] page ord i elsewhere_update [OF v1 r1(1)]
    by (simp add: same_views_cong [OF v1] r1 s2_def)
  moreover have v2: "same_views s s2" "dw_regions s2 = (dw_regions s)[i := ?r\<lparr>dw_armed := False\<rparr>]"
    using v1 by (simp_all add: s2_def same_views_def r1)
  moreover have "protect_view i True False s2 = s2\<lparr>guarded := (\<lambda>a. guarded s2 a \<and> \<not> (on_page s True ?r a \<and> \<not> needed_elsewhere s i True a))\<rparr>"
    using open_view_elsewhere [of s2 i True] page ord i elsewhere_update [OF v2] by (simp add: same_views_cong [OF v2(1)] v2(2) r1)
  ultimately have rel: "release i s = s2\<lparr>guarded := (\<lambda>a. guarded s2 a \<and> \<not> (on_page s True ?r a \<and> \<not> needed_elsewhere s i True a))\<rparr>"
    by (simp add: release_def flip: s1_def)
  show v: "same_views s (release i s)" using v2 by (simp add: rel same_views_def)
  show rr: "dw_regions (release i s) = (dw_regions s)[i := ?r\<lparr>dw_armed := False\<rparr>]" by (simp add: rel v2)
  have "guarded (release i s) a \<longleftrightarrow> watching (release i s) a" for a
  proof -
    have g: "guarded (release i s) a \<longleftrightarrow> guarded s a \<and> \<not> (on_page s False ?r a \<and> \<not> needed_elsewhere s i False a) \<and>
        \<not> (on_page s True ?r a \<and> \<not> needed_elsewhere s i True a)"
      by (simp add: rel s2_def)
    have w: "guarded s a \<longleftrightarrow> watching s a" using c by (simp add: dw_core_def)
    show ?thesis
      unfolding g w watching_elsewhere [OF i(1)] watching_update [OF i(1) v rr]
      using elsewhere_apart [OF c lr, of a i] by (auto simp: needed_by_def)
  qed
  then show "dw_core (release i s)"
    using c i(1) unfolding dw_core_def same_views_cong [OF v] rr by (auto simp: nth_list_update)
qed


lemma core_touch:
  assumes "dw_core s" "i < length (dw_regions s)"
  shows "dw_core (set_region i ((dw_regions s ! i)\<lparr>dw_touched := b\<rparr>) s)"
proof -
  let ?s = "set_region i ((dw_regions s ! i)\<lparr>dw_touched := b\<rparr>) s"
  have v: "same_views s ?s" by simp
  have "watching ?s a = watching s a" for a
    using watching_update [OF assms(2) v set_region_sel(1)] watching_elsewhere [OF assms(2)] by (simp add: needed_by_def)
  then show ?thesis using assms unfolding dw_core_def same_views_cong [OF v] set_region_sel by (auto simp: nth_list_update)
qed

text \<open>The runtime touches the low view of a region: only its low pages open.\<close>

lemma low_release_core:
  assumes c: "dw_core s" and i: "i < length (dw_regions s)" "dw_armed (dw_regions s ! i)"
    and s': "s' = protect_view i False False (set_region i ((dw_regions s ! i)\<lparr>low_released := True\<rparr>) s)"
  shows "dw_core s'" "same_views s s'" "dw_regions s' = (dw_regions s)[i := (dw_regions s ! i)\<lparr>low_released := True\<rparr>]"
proof -
  let ?r = "dw_regions s ! i"
  have lr: "low_range s (dw_lo ?r) (dw_hi ?r)" using c i by (auto simp: dw_core_def)
  define s1 where "s1 = set_region i (?r\<lparr>low_released := True\<rparr>) s"
  have r1: "dw_regions s1 = (dw_regions s)[i := ?r\<lparr>low_released := True\<rparr>]" "guarded s1 = guarded s" by (simp_all add: s1_def)
  have v1: "same_views s s1" by (simp add: s1_def)
  have "dw_lo (dw_regions s1 ! i) < dw_hi (dw_regions s1 ! i)" "0 < s_page s1"
    using lr i c same_views_cong [OF v1] by (simp_all add: r1 low_range_def dw_core_def)
  from open_view_elsewhere [OF this(2,1), of False]
  have e: "s' = s1\<lparr>guarded := (\<lambda>a. guarded s a \<and> \<not> (on_page s False ?r a \<and> \<not> needed_elsewhere s i False a))\<rparr>"
    using i elsewhere_update [OF v1 r1(1)] by (simp add: same_views_cong [OF v1] r1 s' flip: s1_def)
  show v: "same_views s s'" using v1 by (simp add: e same_views_def)
  show rr: "dw_regions s' = (dw_regions s)[i := ?r\<lparr>low_released := True\<rparr>]" by (simp add: e r1)
  have "guarded s' a \<longleftrightarrow> watching s' a" for a
  proof -
    have g: "guarded s' a \<longleftrightarrow> guarded s a \<and> \<not> (on_page s False ?r a \<and> \<not> needed_elsewhere s i False a)" by (simp add: e)
    have w: "guarded s a \<longleftrightarrow> watching s a" using c by (simp add: dw_core_def)
    show ?thesis unfolding g w watching_elsewhere [OF i(1)] watching_update [OF i(1) v rr]
      using elsewhere_apart [OF c lr, of a i] views_apart [OF _ lr, where a = a and q = ?r] c by (auto simp: needed_by_def dw_core_def)
  qed
  then show "dw_core s'" using c i(1) unfolding dw_core_def same_views_cong [OF v] rr by (auto simp: nth_list_update)
qed

text \<open>A region that starts to be owed is guarded in the views it is not yet guarded in.\<close>

lemma guard_core:
  assumes c: "dw_core s" and i: "i < length (dw_regions s)" and lr: "low_range s (dw_lo r) (dw_hi r)" and r: "dw_armed r" "\<not> low_released r"
    and old: "dw_armed (dw_regions s ! i) \<Longrightarrow> dw_regions s ! i = r\<lparr>low_released := True\<rparr>"
    and s': "s' = (if dw_armed (dw_regions s ! i) then protect_view i False True (set_region i r s)
                   else protect_view i True True (protect_view i False True (set_region i r s)))"
  shows "dw_core s'" "same_views s s'" "dw_regions s' = (dw_regions s)[i := r]"
proof -
  define s1 where "s1 = set_region i r s"
  have r1: "dw_regions s1 = (dw_regions s)[i := r]" "guarded s1 = guarded s" by (simp_all add: s1_def)
  have v1: "same_views s s1" by (simp add: s1_def)
  have ord: "dw_lo (dw_regions s1 ! i) < dw_hi (dw_regions s1 ! i)" "0 < s_page s1"
    using lr i c same_views_cong [OF v1] by (simp_all add: r1 low_range_def dw_core_def)
  define s2 where "s2 = s1\<lparr>guarded := (\<lambda>a. guarded s a \<or> on_page s False r a)\<rparr>"
  have s2: "protect_view i False True s1 = s2"
    using guard_view [OF ord(2,1), of False] i by (simp add: s2_def r1 same_views_cong [OF v1])
  have v2: "same_views s s2" using v1 by (simp add: s2_def same_views_def)
  have r2: "dw_regions s2 = (dw_regions s)[i := r]" by (simp add: s2_def r1)
  have s3: "protect_view i True True s2 = s2\<lparr>guarded := (\<lambda>a. guarded s2 a \<or> on_page s True r a)\<rparr>"
    using guard_view [of s2 i True] ord i same_views_cong [OF v1] by (simp add: r2 r1 same_views_cong [OF v2])
  have e: "s' = (if dw_armed (dw_regions s ! i) then s2 else s2\<lparr>guarded := (\<lambda>a. guarded s2 a \<or> on_page s True r a)\<rparr>)"
    by (simp add: s' s2 s3 flip: s1_def)
  show v: "same_views s s'" using v2 by (simp add: e same_views_def)
  show rr: "dw_regions s' = (dw_regions s)[i := r]" by (simp add: e r2)
  have "guarded s' a \<longleftrightarrow> watching s' a" for a
  proof -
    have g: "guarded s' a \<longleftrightarrow> guarded s a \<or> on_page s False r a \<or> \<not> dw_armed (dw_regions s ! i) \<and> on_page s True r a"
      by (simp add: e s2_def)
    have w: "guarded s a \<longleftrightarrow> watching s a" using c by (simp add: dw_core_def)
    show ?thesis unfolding g w watching_elsewhere [OF i] watching_update [OF i v rr]
      using r old by (cases "dw_armed (dw_regions s ! i)") (auto simp: needed_by_def)
  qed
  then show "dw_core s'" using c i lr unfolding dw_core_def same_views_cong [OF v] rr by (auto simp: nth_list_update)
qed

section \<open>Every debt is accounted for\<close>

lemma protect_view_shape: "\<exists>g. protect_view i high none s = s\<lparr>guarded := g\<rparr>"
proof -
  have "\<exists>g. s = s\<lparr>guarded := g\<rparr>" by (rule exI [of _ "guarded s"]) simp
  moreover have "\<exists>g. mprotect at len n s = s\<lparr>guarded := g\<rparr>" for at len n unfolding mprotect_def by blast
  ultimately show ?thesis unfolding protect_view_def unprotect_fold by (auto split: option.split)
qed

lemma protect_view_sel [simp]:
  "dw_regions (protect_view i h n s) = dw_regions s" "s_armed (protect_view i h n s) = s_armed s"
  "s_paid_clean (protect_view i h n s) = s_paid_clean s" "s_guest_read (protect_view i h n s) = s_guest_read s"
  "s_guest_write (protect_view i h n s) = s_guest_write s" "s_on (protect_view i h n s) = s_on s"
  "s_configured (protect_view i h n s) = s_configured s" "s_runtime (protect_view i h n s) = s_runtime s"
  using protect_view_shape [of i h n s] by auto

lemma release_sel [simp]:
  "s_armed (release i s) = s_armed s" "s_paid_clean (release i s) = s_paid_clean s" "s_guest_read (release i s) = s_guest_read s"
  "s_guest_write (release i s) = s_guest_write s" "s_on (release i s) = s_on s" "s_configured (release i s) = s_configured s"
  "dw_regions (release i s) = (dw_regions s)[i := (dw_regions s ! i)\<lparr>dw_armed := False\<rparr>]"
  by (simp_all add: release_def Let_def) (simp_all add: set_region_def)

lemma note_pc_sel [simp]:
  "dw_regions (note_pc pc k wr h s) = dw_regions s" "guarded (note_pc pc k wr h s) = guarded s" "s_armed (note_pc pc k wr h s) = s_armed s"
  "s_paid_clean (note_pc pc k wr h s) = s_paid_clean s" "s_guest_read (note_pc pc k wr h s) = s_guest_read s"
  "s_guest_write (note_pc pc k wr h s) = s_guest_write s" "same_views t (note_pc pc k wr h s) = same_views t s"
  "s_on (note_pc pc k wr h s) = s_on s" "s_configured (note_pc pc k wr h s) = s_configured s"
  by (simp_all add: note_pc_def same_views_def split: option.split)

definition owed_count :: "debt_watch \<Rightarrow> nat \<Rightarrow> nat" where
  "owed_count s k = length (filter (\<lambda>r. dw_armed r \<and> kind_index r = k) (dw_regions s))"

definition dw_ledger :: "debt_watch \<Rightarrow> bool" where
  "dw_ledger s \<longleftrightarrow> (\<forall>k. s_armed s k = s_paid_clean s k + s_guest_read s k + s_guest_write s k + of_nat (owed_count s k))"

lemma filter_update:
  assumes "i < length xs"
  shows "length (filter P (xs[i := y])) + (if P (xs ! i) then 1 else 0) = length (filter P xs) + (if P y then 1 else 0)"
proof -
  have "length (filter P xs) = length (filter P (take i xs)) + length (filter P (xs ! i # drop (Suc i) xs))"
    by (subst id_take_nth_drop [OF assms]) simp
  then show ?thesis by (simp add: upd_conv_take_nth_drop [OF assms])
qed

lemma owed_count_update:
  assumes "i < length (dw_regions s)" "dw_regions s' = (dw_regions s)[i := r]"
  shows "owed_count s' k + (if dw_armed (dw_regions s ! i) \<and> kind_index (dw_regions s ! i) = k then 1 else 0) =
    owed_count s k + (if dw_armed r \<and> kind_index r = k then 1 else 0)"
  using filter_update [OF assms(1), of "\<lambda>r. dw_armed r \<and> kind_index r = k" r] unfolding owed_count_def assms(2) .

lemma kind_index_upd [simp]: "kind_index (r\<lparr>dw_armed := b\<rparr>) = kind_index r" "kind_index (r\<lparr>low_released := b\<rparr>) = kind_index r"
    "kind_index (r\<lparr>dw_touched := b\<rparr>) = kind_index r"
  by (simp_all add: kind_index_def)

text \<open>A fault.\<close>

lemma find_hit_armed: "find_hit s f = Some (i, high) \<Longrightarrow> i < length (dw_regions s) \<and> dw_armed (dw_regions s ! i) \<and>
    (if high then on_page s True (dw_regions s ! i) f else \<not> low_released (dw_regions s ! i) \<and> on_page s False (dw_regions s ! i) f)"
  by (auto simp: find_hit_def find_Some_iff split: option.splits)

section \<open>Steps\<close>

text \<open>The watch is on, its guard is exact and its ledger balances.\<close>

definition dw_ok :: "debt_watch \<Rightarrow> bool" where
  "dw_ok s \<longleftrightarrow> s_on s = Some True \<and> s_configured s \<and> length (dw_regions s) = DW_REGIONS \<and> dw_core s \<and> dw_ledger s"

lemma ok_on: "dw_ok s \<Longrightarrow> nv2a_debt_watch_on switch s = (True, s)"
  by (simp add: dw_ok_def nv2a_debt_watch_on_def ask_switch_def)

text \<open>A region stops being owed: paid, or touched by the guest.\<close>

lemma release_ok:
  assumes "dw_core s" "i < length (dw_regions s)" "dw_armed (dw_regions s ! i)"
    and "s_on s = Some True" "s_configured s" "length (dw_regions s) = DW_REGIONS"
    and "\<And>k. s_armed s k + (if kind_index (dw_regions s ! i) = k then 1 else 0) =
      s_paid_clean s k + s_guest_read s k + s_guest_write s k + of_nat (owed_count s k)"
  shows "dw_ok (release i s)"
proof -
  have "dw_ledger (release i s)" unfolding dw_ledger_def
  proof
    fix k
    have e: "owed_count s k = owed_count (release i s) k + (if kind_index (dw_regions s ! i) = k then 1 else 0)"
      using owed_count_update [OF assms(2) release_sel(7), of k] assms(3) by simp
    show "s_armed (release i s) k = s_paid_clean (release i s) k + s_guest_read (release i s) k + s_guest_write (release i s) k +
        of_nat (owed_count (release i s) k)"
      using assms(7) [of k] unfolding e by (simp split: if_splits)
  qed
  then show ?thesis using release_core(1) [OF assms(1-3)] assms(4-6) by (simp add: dw_ok_def)
qed

lemma release_ok_touched:
  assumes "dw_ok s" "i < length (dw_regions s)" "dw_armed (dw_regions s ! i)" "k = kind_index (dw_regions s ! i)"
    and "same_views s s1" "dw_regions s1 = dw_regions s" "guarded s1 = guarded s" "s_on s1 = s_on s" "s_configured s1 = s_configured s"
    and "s_armed s1 = s_armed s" "\<And>j. s_paid_clean s1 j + s_guest_read s1 j + s_guest_write s1 j =
      s_paid_clean s j + s_guest_read s j + s_guest_write s j + (if j = k then 1 else 0)"
  shows "dw_ok (release i s1)"
proof -
  have "dw_core s1" using core_cong [OF assms(5-7)] assms(1) by (simp add: dw_ok_def)
  moreover have "s_armed s1 j + (if kind_index (dw_regions s1 ! i) = j then 1 else 0) =
      s_paid_clean s1 j + s_guest_read s1 j + s_guest_write s1 j + of_nat (owed_count s1 j)" for j
    using assms(1,4,6,10) unfolding assms(11) by (simp add: dw_ok_def dw_ledger_def owed_count_def algebra_simps)
  ultimately show ?thesis using assms by (intro release_ok) (simp_all add: dw_ok_def)
qed

lemma ok_cong:
  assumes "dw_ok s" "same_views s s'" "dw_regions s' = dw_regions s" "guarded s' = guarded s" "s_on s' = s_on s" "s_configured s' = s_configured s"
    "s_armed s' = s_armed s" "s_paid_clean s' = s_paid_clean s" "s_guest_read s' = s_guest_read s" "s_guest_write s' = s_guest_write s"
  shows "dw_ok s'"
  using assms core_cong [OF assms(2-4)] by (simp add: dw_ok_def dw_ledger_def owed_count_def)

lemma set_region_counts [simp]:
  "s_armed (set_region i r s) = s_armed s" "s_paid_clean (set_region i r s) = s_paid_clean s" "s_guest_read (set_region i r s) = s_guest_read s"
  "s_guest_write (set_region i r s) = s_guest_write s" "s_on (set_region i r s) = s_on s" "s_configured (set_region i r s) = s_configured s"
  by (simp_all add: set_region_def)

lemma owed_count_same:
  assumes "i < length (dw_regions s)" "dw_regions s' = (dw_regions s)[i := r]" "dw_armed r = dw_armed (dw_regions s ! i)"
    "kind_index r = kind_index (dw_regions s ! i)"
  shows "owed_count s' = owed_count s"
  using owed_count_update [OF assms(1,2)] assms(3,4) by (auto simp: fun_eq_iff)

lemma touched_ok: "dw_ok s \<Longrightarrow> i < length (dw_regions s) \<Longrightarrow> dw_ok (set_region i ((dw_regions s ! i)\<lparr>dw_touched := b\<rparr>) s)"
  using core_touch [of s i b] owed_count_same [of i s "set_region i ((dw_regions s ! i)\<lparr>dw_touched := b\<rparr>) s" "(dw_regions s ! i)\<lparr>dw_touched := b\<rparr>"]
  by (simp add: dw_ok_def dw_ledger_def)

lemma low_release_ok:
  assumes "dw_ok s" "i < length (dw_regions s)" "dw_armed (dw_regions s ! i)"
    and s': "s' = protect_view i False False (set_region i ((dw_regions s ! i)\<lparr>low_released := True\<rparr>) s)"
  shows "dw_ok s'"
proof -
  have c: "dw_core s" using assms(1) by (simp add: dw_ok_def)
  note lr = low_release_core [OF c assms(2-4)]
  show ?thesis using lr(1) lr(3) owed_count_same [OF assms(2) lr(3)] assms(1) by (simp add: dw_ok_def dw_ledger_def s')
qed

lemma count_fault_sel [simp]:
  "dw_regions (count_fault h b s) = dw_regions s" "guarded (count_fault h b s) = guarded s" "s_armed (count_fault h b s) = s_armed s"
  "s_paid_clean (count_fault h b s) = s_paid_clean s" "s_guest_read (count_fault h b s) = s_guest_read s"
  "s_guest_write (count_fault h b s) = s_guest_write s" "same_views t (count_fault h b s) = same_views t s"
  "s_on (count_fault h b s) = s_on s" "s_configured (count_fault h b s) = s_configured s"
  by (simp_all add: count_fault_def same_views_def Let_def)

lemma count_runtime_sel [simp]:
  "dw_regions (count_runtime b k s) = dw_regions s" "guarded (count_runtime b k s) = guarded s" "s_armed (count_runtime b k s) = s_armed s"
  "s_paid_clean (count_runtime b k s) = s_paid_clean s" "s_guest_read (count_runtime b k s) = s_guest_read s"
  "s_guest_write (count_runtime b k s) = s_guest_write s" "same_views t (count_runtime b k s) = same_views t s"
  "s_on (count_runtime b k s) = s_on s" "s_configured (count_runtime b k s) = s_configured s"
  by (simp_all add: count_runtime_def same_views_def)

lemma count_guest_sel [simp]:
  "dw_regions (count_guest b k s) = dw_regions s" "guarded (count_guest b k s) = guarded s" "s_armed (count_guest b k s) = s_armed s"
  "s_paid_clean (count_guest b k s) = s_paid_clean s" "same_views t (count_guest b k s) = same_views t s"
  "s_on (count_guest b k s) = s_on s" "s_configured (count_guest b k s) = s_configured s"
  "s_guest_read (count_guest b k s) j + s_guest_write (count_guest b k s) j = s_guest_read s j + s_guest_write s j + (if j = k then 1 else 0)"
  by (simp_all add: count_guest_def same_views_def bump_def)

text \<open>The two ways a fault is serviced.\<close>

lemma handler_cases:
  assumes "handler thread f uc s = (b, s')"
  obtains (other) "\<not> b" "s' = s" "find_hit s f = None"
  | (runtime) i s1 where "b" "find_hit s f = Some (i, False)" "s_runtime s = Some thread"
      "s1 = count_runtime (case uc of Some (esr, pc) \<Rightarrow> drop_bit 6 esr AND 1 \<noteq> 0 | None \<Rightarrow> False) (kind_index (dw_regions s ! i))
        (count_fault False (f < dw_lo (dw_regions s ! i) \<or> f \<ge> dw_lo (dw_regions s ! i) + (dw_hi (dw_regions s ! i) - dw_lo (dw_regions s ! i))) s)"
      "s' = protect_view i False False (set_region i ((dw_regions s ! i)\<lparr>low_released := True\<rparr>) s1)"
  | (guest) i high pc w out where "b" "find_hit s f = Some (i, high)" "high \<or> s_runtime s \<noteq> Some thread"
      "s' = release i (set_region i ((dw_regions s ! i)\<lparr>dw_touched := True\<rparr>)
        (note_pc pc (kind_index (dw_regions s ! i)) w high (count_guest w (kind_index (dw_regions s ! i)) (count_fault high out s))))"
proof (cases "find_hit s f")
  case None
  then show thesis using assms by (intro other) (simp_all add: handler_def)
next
  case (Some v)
  obtain i high where v: "v = (i, high)" by force
  show thesis
  proof (cases "\<not> high \<and> s_runtime s = Some thread")
    case True
    show thesis
      by (rule runtime [of i, OF _ _ _ refl]) (use True Some v assms in \<open>simp_all add: handler_def Let_def\<close>)
  next
    case False
    let ?r = "dw_regions s ! i"
    let ?lo = "if high then high_of s (dw_lo ?r) else dw_lo ?r"
    let ?w = "case uc of Some (esr, pc) \<Rightarrow> drop_bit 6 esr AND 1 \<noteq> 0 | None \<Rightarrow> False"
    let ?pc = "case uc of Some (esr, pc) \<Rightarrow> pc | None \<Rightarrow> 0"
    have "handler thread f uc s = (True, release i (set_region i (?r\<lparr>dw_touched := True\<rparr>)
        (note_pc ?pc (kind_index ?r) ?w high (count_guest ?w (kind_index ?r) (count_fault high (f < ?lo \<or> f \<ge> ?lo + (dw_hi ?r - dw_lo ?r)) s)))))"
      unfolding handler_def Some v option.case prod.case Let_def using False by (simp only: if_False)
    then have "b" "s' = release i (set_region i (?r\<lparr>dw_touched := True\<rparr>)
        (note_pc ?pc (kind_index ?r) ?w high (count_guest ?w (kind_index ?r) (count_fault high (f < ?lo \<or> f \<ge> ?lo + (dw_hi ?r - dw_lo ?r)) s))))"
      using assms by simp_all
    then show thesis using guest [of i high] Some v False by blast
  qed
qed


lemma handler_ok:
  assumes ok: "dw_ok s" and h: "handler thread f uc s = (b, s')"
  shows "dw_ok s'"
  using h
proof (cases rule: handler_cases)
  case (runtime i s1)
  have i: "i < length (dw_regions s)" "dw_armed (dw_regions s ! i)" using find_hit_armed [OF runtime(2)] by simp_all
  have "dw_ok s1" by (rule ok_cong [OF ok]) (simp_all add: runtime(4))
  from low_release_ok [OF this, of i s'] show ?thesis using i by (simp add: runtime(4,5))
next
  case (guest i high pc w out)
  have i: "i < length (dw_regions s)" "dw_armed (dw_regions s ! i)" using find_hit_armed [OF guest(2)] by simp_all
  define s1 where "s1 = note_pc pc (kind_index (dw_regions s ! i)) w high (count_guest w (kind_index (dw_regions s ! i)) (count_fault high out s))"
  define t where "t = set_region i ((dw_regions s ! i)\<lparr>dw_touched := True\<rparr>) s"
  have t: "dw_ok t" unfolding t_def by (rule touched_ok [OF ok i(1)])
  have e: "s' = release i (set_region i ((dw_regions s ! i)\<lparr>dw_touched := True\<rparr>) s1)" by (simp add: guest(4) s1_def)
  have v: "same_views t (set_region i r s1)" for r
    by (simp add: t_def s1_def same_views_def set_region_def count_guest_def count_fault_def note_pc_def Let_def split: option.split)
  show ?thesis unfolding e
    by (rule release_ok_touched [OF t _ _ refl v]) (use i in \<open>simp_all add: t_def s1_def add.assoc\<close>)
qed (use ok in simp)

lemma paid_ok:
  assumes "dw_ok s"
  shows "dw_ok (nv2a_debt_watch_paid switch p bytes s)"
proof -
  have step: "dw_ok s \<Longrightarrow> i < length (dw_regions s) \<Longrightarrow> dw_ok
      (let r = dw_regions s ! i in if dw_armed r \<and> dw_lo r < hi \<and> lo < dw_hi r
        then release i (s\<lparr>s_paid_clean := bump (kind_index r) (s_paid_clean s)\<rparr>) else s)" for s i lo hi
    unfolding Let_def by (auto intro!: release_ok_touched [where s = s] simp: same_views_def bump_def)
  have len: "dw_ok s \<Longrightarrow> length (dw_regions s) = 32" for s by (simp add: dw_ok_def)
  have "dw_ok (fold (\<lambda>i s. let r = dw_regions s ! i
        in if dw_armed r \<and> dw_lo r < hi \<and> lo < dw_hi r then release i (s\<lparr>s_paid_clean := bump (kind_index r) (s_paid_clean s)\<rparr>) else s) is s)"
    if "dw_ok s" "\<forall>i \<in> set is. i < 32" for s lo hi "is"
    using that
  proof (induction "is" arbitrary: s)
    case (Cons i "is")
    from Cons.prems have "dw_ok s" "i < length (dw_regions s)" by (simp_all add: len)
    from Cons.IH [OF step [OF this]] Cons.prems show ?case unfolding fold_simps by simp
  qed simp
  from this [OF assms] show ?thesis
    unfolding nv2a_debt_watch_paid_def Let_def ok_on [OF assms] prod.case using assms len [OF assms] by simp
qed

lemma owed_range:
  assumes "dw_core s" "0 < p" "0 < bytes" "s_high_base s = 0 \<or> pg_hi s (p + bytes) \<le> pg_lo s (s_high_base s)"
  shows "low_range s p (p + bytes)"
  using assms by (simp add: low_range_def)

lemma arm_ok:
  assumes ok: "dw_ok s" and range: "s_high_base s = 0 \<or> pg_hi s (p + bytes) \<le> pg_lo s (s_high_base s)"
  shows "dw_ok (nv2a_debt_watch_arm switch thread p bytes kind s)"
proof (cases "p = 0 \<or> bytes = 0")
  case True
  then show ?thesis using ok by (auto simp: nv2a_debt_watch_arm_def ok_on [OF ok])
next
  case False
  define s1 where "s1 = (if s_runtime s = None then s\<lparr>s_runtime := Some thread\<rparr> else s)"
  have s1: "dw_ok s1" "same_views s s1" "dw_regions s1 = dw_regions s"
    by (auto simp: s1_def same_views_def intro: ok_cong [OF ok])
  have c: "dw_core s1" using s1(1) by (simp add: dw_ok_def)
  have lr: "low_range s1 p (p + bytes)"
    unfolding same_views_cong [OF s1(2)] using ok False range by (intro owed_range) (auto simp: dw_ok_def)
  define old where "old = find (\<lambda>i. dw_armed (dw_regions s1 ! i) \<and> dw_lo (dw_regions s1 ! i) = p \<and> dw_hi (dw_regions s1 ! i) = p + bytes) [0..<length (dw_regions s1)]"
  define free where "free = find (\<lambda>i. \<not> dw_armed (dw_regions s1 ! i)) [0..<length (dw_regions s1)]"
  define r where "r = \<lparr>dw_lo = p, dw_hi = p + bytes, dw_kind = kind, dw_armed = True, low_released = False, dw_touched = False\<rparr>"
  have e: "nv2a_debt_watch_arm switch thread p bytes kind s = (case old of
      Some i \<Rightarrow> if low_released (dw_regions s1 ! i)
        then protect_view i False True (set_region i ((dw_regions s1 ! i)\<lparr>low_released := False\<rparr>) s1) else s1
    | None \<Rightarrow> (case free of None \<Rightarrow> s1\<lparr>s_full := s_full s1 + 1\<rparr>
        | Some slot \<Rightarrow> let s = protect_view slot True True (protect_view slot False True (set_region slot r s1))
            in s\<lparr>s_armed := bump (kind_index r) (s_armed s)\<rparr>))"
    unfolding nv2a_debt_watch_arm_def Let_def ok_on [OF ok] prod.case s1_def [symmetric] old_def [symmetric] free_def [symmetric] r_def [symmetric]
    using False by (simp only: simp_thms if_False)
  show ?thesis
  proof (cases old)
    case (Some i)
    then have i: "i < length (dw_regions s1)" "dw_armed (dw_regions s1 ! i)" "dw_lo (dw_regions s1 ! i) = p" "dw_hi (dw_regions s1 ! i) = p + bytes"
      by (auto simp: old_def find_Some_iff)
    show ?thesis
    proof (cases "low_released (dw_regions s1 ! i)")
      case True
      let ?q = "(dw_regions s1 ! i)\<lparr>low_released := False\<rparr>"
      let ?s = "protect_view i False True (set_region i ?q s1)"
      have g: "?s = (if dw_armed (dw_regions s1 ! i) then protect_view i False True (set_region i ?q s1)
          else protect_view i True True (protect_view i False True (set_region i ?q s1)))" using i by simp
      have old: "dw_regions s1 ! i = ?q\<lparr>low_released := True\<rparr>" using True by simp
      note gc = guard_core [OF c i(1) _ _ _ old g]
      have "dw_core ?s" "dw_regions ?s = (dw_regions s1)[i := ?q]" using gc(1,3) lr i by simp_all
      then show ?thesis using s1(1) owed_count_same [OF i(1), of ?s ?q] True
        by (simp add: e Some dw_ok_def dw_ledger_def)
    qed (use s1 Some e in simp)
  next
    case None
    show ?thesis
    proof (cases free)
      case n: None
      show ?thesis unfolding e None n option.case by (rule ok_cong [OF s1(1)]) (simp_all add: same_views_def)
    next
      case (Some i)
      then have i: "i < length (dw_regions s1)" "\<not> dw_armed (dw_regions s1 ! i)" by (auto simp: free_def find_Some_iff)
      let ?s = "protect_view i True True (protect_view i False True (set_region i r s1))"
      have g: "?s = (if dw_armed (dw_regions s1 ! i) then protect_view i False True (set_region i r s1)
          else protect_view i True True (protect_view i False True (set_region i r s1)))" using i by simp
      have gc: "dw_core ?s" "dw_regions ?s = (dw_regions s1)[i := r]"
        using guard_core(1,3) [OF c i(1) _ _ _ _ g] lr i by (simp_all add: r_def)
      let ?s' = "?s\<lparr>s_armed := bump (kind_index r) (s_armed ?s)\<rparr>"
      have "dw_core ?s'" using gc(1) core_cong [of ?s ?s'] by (simp add: same_views_def)
      moreover have "owed_count ?s' k = owed_count s1 k + (if kind_index r = k then 1 else 0)" for k
        using owed_count_update [OF i(1), of ?s' r k] gc(2) i by (simp add: r_def)
      ultimately show ?thesis using s1(1)
        by (simp add: e None Some dw_ok_def dw_ledger_def bump_def Let_def algebra_simps)
    qed
  qed
qed

text \<open>
  Everything that happens once the watch is configured: a range becomes owed, a range is paid, a
  thread faults, a probe reads, the watch is configured again. A range the back end arms lies
  below the high view.
\<close>

inductive watch_step :: "debt_watch \<Rightarrow> debt_watch \<Rightarrow> bool" where
  arm: "s_high_base s = 0 \<or> pg_hi s (p + bytes) \<le> pg_lo s (s_high_base s) \<Longrightarrow> watch_step s (nv2a_debt_watch_arm switch thread p bytes kind s)"
| paid: "watch_step s (nv2a_debt_watch_paid switch p bytes s)"
| fault: "handler thread f uc s = (b, s') \<Longrightarrow> watch_step s s'"
| probe: "nv2a_debt_watch_guarded_read switch p bytes s = (b, s') \<Longrightarrow> watch_step s s'"
| again: "watch_step s (nv2a_debt_watch_configure switch page installed low_base high_base heap_lo heap_hi s)"

lemma watch_step_ok: "watch_step s s' \<Longrightarrow> dw_ok s \<Longrightarrow> dw_ok s'"
proof (induction rule: watch_step.induct)
  case (again s switch page installed low_base high_base heap_lo heap_hi)
  then show ?case by (simp add: nv2a_debt_watch_configure_def ask_switch_def dw_ok_def)
qed (auto intro: arm_ok paid_ok handler_ok simp: nv2a_debt_watch_guarded_read_def ok_on Let_def)

lemma configured_ok:
  assumes "0 < page"
  shows "dw_ok (nv2a_debt_watch_configure True page True low_base high_base heap_lo heap_hi debt_watch_statics)"
proof -
  let ?s = "nv2a_debt_watch_configure True page True low_base high_base heap_lo heap_hi debt_watch_statics"
  have s: "dw_regions ?s = replicate 32 no_region" "guarded ?s = (\<lambda>_. False)" "s_page ?s = page" "s_on ?s = Some True" "s_configured ?s"
    "s_armed ?s = (\<lambda>_. 0)" "s_paid_clean ?s = (\<lambda>_. 0)" "s_guest_read ?s = (\<lambda>_. 0)" "s_guest_write ?s = (\<lambda>_. 0)"
    by (simp_all add: nv2a_debt_watch_configure_def ask_switch_def debt_watch_statics_def)
  have "\<not> dw_armed (dw_regions ?s ! j)" if "j < 32" for j using that by (simp add: s no_region_def)
  then show ?thesis using assms
    by (simp add: dw_ok_def dw_core_def dw_ledger_def watching_def needed_by_def owed_count_def s) (auto simp: no_region_def)
qed


definition watch_started :: "debt_watch \<Rightarrow> bool" where
  "watch_started s \<longleftrightarrow> (\<exists>page low_base high_base heap_lo heap_hi. 0 < page \<and>
     s = nv2a_debt_watch_configure True page True low_base high_base heap_lo heap_hi debt_watch_statics)"

lemma reachable_ok: "watch_started s0 \<Longrightarrow> watch_step\<^sup>*\<^sup>* s0 s \<Longrightarrow> dw_ok s"
proof -
  assume s0: "watch_started s0" and r: "watch_step\<^sup>*\<^sup>* s0 s"
  have "dw_ok s0" using s0 configured_ok by (auto simp: watch_started_def)
  with r show ?thesis by (induction rule: rtranclp_induct) (auto intro: watch_step_ok)
qed

section \<open>Properties\<close>

text \<open>
  Claim C28: However ranges become owed, are paid and are touched, an address faults exactly
  when some owed range has it on one of its pages, in the high view or in a low view that
  was not opened for the runtime; and every range that was ever owed is still owed, was
  paid, or is counted as one guest read or write.
\<close>

theorem guard_is_exactly_what_is_owed:
  assumes "watch_started s0" "watch_step\<^sup>*\<^sup>* s0 s"
  shows "(\<forall>a. guarded s a \<longleftrightarrow> (\<exists>r \<in> set (dw_regions s). dw_armed r \<and> (on_page s True r a \<or> \<not> low_released r \<and> on_page s False r a)))
    \<and> (\<forall>k. s_armed s k = s_paid_clean s k + s_guest_read s k + s_guest_write s k + of_nat (owed_count s k))"
proof -
  have ok: "dw_core s" "dw_ledger s" using reachable_ok [OF assms] by (simp_all add: dw_ok_def)
  have "watching s a \<longleftrightarrow> (\<exists>r \<in> set (dw_regions s). dw_armed r \<and> (on_page s True r a \<or> \<not> low_released r \<and> on_page s False r a))" for a
    unfolding watching_def needed_by_def set_conv_nth ex_bool_eq by auto
  then show ?thesis using ok by (simp add: dw_core_def dw_ledger_def)
qed

text \<open>A thread's access to an address: it faults, the handler runs and the instruction runs again.\<close>

fun access_with :: "nat \<Rightarrow> nat \<Rightarrow> nat \<Rightarrow> (u64 \<times> nat) option \<Rightarrow> debt_watch \<Rightarrow> debt_watch option" where
  "access_with 0 thread a uc s = (if guarded s a then None else Some s)"
| "access_with (Suc n) thread a uc s =
     (if \<not> guarded s a then Some s
      else case handler thread a uc s of
             (True, s) \<Rightarrow> access_with n thread a uc s
           | (False, s) \<Rightarrow> None)"

text \<open>The views still guarded, and how a fault uses them up.\<close>

definition views_left :: "debt_watch \<Rightarrow> nat" where
  "views_left s = sum_list (map (\<lambda>r. if dw_armed r then if low_released r then 1 else 2 else 0) (dw_regions s))"

lemma views_left_bound: "views_left s \<le> 2 * length (dw_regions s)"
proof -
  have "sum_list (map (\<lambda>r. if dw_armed r then if low_released r then 1 else 2 else 0) rs) \<le> 2 * length rs" for rs
    by (induction rs) auto
  then show ?thesis by (simp add: views_left_def)
qed

lemma views_left_update:
  assumes "i < length (dw_regions s)" "dw_regions s' = (dw_regions s)[i := r]"
    and "(if dw_armed r then if low_released r then 1 else 2 else 0) <
      (if dw_armed (dw_regions s ! i) then if low_released (dw_regions s ! i) then 1 else 2 else (0 :: nat))"
  shows "views_left s' < views_left s"
proof -
  have "views_left s = sum_list (map (\<lambda>r. if dw_armed r then if low_released r then 1 else 2 else 0) (take i (dw_regions s) @ dw_regions s ! i # drop (Suc i) (dw_regions s)))"
    by (simp add: views_left_def flip: id_take_nth_drop [OF assms(1)])
  then show ?thesis using assms(3) by (simp add: views_left_def assms(2) upd_conv_take_nth_drop [OF assms(1)])
qed

lemma fault_uses_a_view: "handler thread f uc s = (True, s') \<Longrightarrow> views_left s' < views_left s"
proof -
  assume "handler thread f uc s = (True, s')"
  then show ?thesis
  proof (cases rule: handler_cases)
    case (runtime i s1)
    note i = find_hit_armed [OF runtime(2)]
    show ?thesis
      by (rule views_left_update [of i s _ "(dw_regions s ! i)\<lparr>low_released := True\<rparr>"]) (use i in \<open>simp_all add: runtime(4,5)\<close>)
  next
    case (guest i high pc w out)
    note i = find_hit_armed [OF guest(2)]
    show ?thesis
      by (rule views_left_update [of i s _ "(dw_regions s ! i)\<lparr>dw_touched := True, dw_armed := False\<rparr>"])
        (use i in \<open>simp_all add: guest(4)\<close>)
  qed simp
qed

lemma guarded_is_hit: "dw_ok s \<Longrightarrow> guarded s a \<Longrightarrow> find_hit s a \<noteq> None"
  by (auto simp: dw_ok_def dw_core_def watching_def needed_by_def find_hit_def find_None_iff ex_bool_eq split: option.split)

lemma access_completes: "dw_ok s \<Longrightarrow> views_left s \<le> n \<Longrightarrow> \<exists>s'. access_with n thread a uc s = Some s' \<and> dw_ok s' \<and> \<not> guarded s' a"
proof (induction n arbitrary: s)
  case 0
  have "\<not> guarded s a"
  proof
    assume "guarded s a"
    then obtain i high where h: "find_hit s a = Some (i, high)" using guarded_is_hit [OF 0(1)] by fastforce
    obtain b s' where "handler thread a uc s = (b, s')" by force
    with h fault_uses_a_view [of thread a uc s s'] 0(2) show False by (auto simp: handler_def Let_def split: if_splits)
  qed
  then show ?case using 0 by simp
next
  case (Suc n)
  show ?case
  proof (cases "guarded s a")
    case True
    then obtain i high where h: "find_hit s a = Some (i, high)" using guarded_is_hit [OF Suc(2)] by fastforce
    obtain b s' where hs: "handler thread a uc s = (b, s')" by force
    then have b: "b" using h by (auto simp: handler_def Let_def split: if_splits)
    have "views_left s' \<le> n" using fault_uses_a_view hs b Suc.prems(2) by fastforce
    from Suc.IH [OF handler_ok [OF Suc.prems(1) hs] this] show ?thesis using True hs b by simp
  qed (use Suc in simp)
qed

text \<open>
  Claim C37: Every access to a watched address completes: whichever thread touches whichever
  address, after at most 64 runs of the handler the address is accessible, and no fault on a
  guarded page is passed to the previous handler.
\<close>

theorem every_access_completes:
  assumes "watch_started s0" "watch_step\<^sup>*\<^sup>* s0 s"
  shows "\<exists>s'. access_with 64 thread a uc s = Some s' \<and> \<not> guarded s' a"
proof -
  have ok: "dw_ok s" by (rule reachable_ok [OF assms])
  then have "views_left s \<le> 64" using views_left_bound [of s] by (simp add: dw_ok_def)
  from access_completes [OF ok this] show ?thesis by blast
qed

text \<open>
  A probe's reader runs only where no page of its range is guarded, so the runtime's
  own read never faults.
\<close>

theorem guarded_read_never_faults:
  assumes "watch_started s0" "watch_step\<^sup>*\<^sup>* s0 s" "nv2a_debt_watch_guarded_read switch p bytes s = (True, s')"
    and "s_high_base s = 0 \<or> pg_hi s (p + bytes) \<le> pg_lo s (s_high_base s)" "p \<le> a" "a < p + bytes"
  shows "\<not> guarded s a"
proof
  have ok: "dw_ok s" by (rule reachable_ok [OF assms(1,2)])
  then have c: "dw_core s" and pg: "0 < s_page s" by (simp_all add: dw_ok_def dw_core_def)
  assume "guarded s a"
  then obtain j h where j: "j < length (dw_regions s)" "needed_by s h (dw_regions s ! j) a"
    using c by (auto simp: dw_core_def watching_def)
  have a: "a < pg_hi s (p + bytes)" using pg_hi_ge [OF pg, of "p + bytes"] assms(6) by linarith
  show False
  proof (cases h)
    case True
    then obtain lo hi where v: "view_range s True (dw_regions s ! j) = Some (lo, hi)" "pg_lo s lo \<le> a"
      using j(2) by (auto simp: needed_by_def on_page_def split: option.splits)
    then have hb: "s_high_base s \<noteq> 0" "s_high_base s \<le> lo" by (auto simp: view_range_def high_of_def Let_def split: if_splits)
    have "pg_lo s (s_high_base s) \<le> pg_lo s lo" using hb(2) by (simp add: pg_lo_def div_le_mono)
    then show False using v(2) a assms(4) hb(1) by linarith
  next
    case False
    have lr: "dw_lo (dw_regions s ! j) < dw_hi (dw_regions s ! j)"
      using c j by (auto simp: dw_core_def needed_by_def low_range_def)
    then have "pg_lo s (dw_lo (dw_regions s ! j)) \<le> a" "a < pg_hi s (dw_hi (dw_regions s ! j))" "dw_armed (dw_regions s ! j)"
      using j(2) False by (auto simp: needed_by_def on_page_def view_range_def)
    moreover have "pg_lo s p \<le> a" using pg_lo_le [of s p] assms(5) by linarith
    ultimately show False using assms(3) j(1) a
      by (auto simp: nv2a_debt_watch_guarded_read_def ok_on [OF ok] Let_def intro: order.strict_trans1)
  qed
qed

text \<open>
  Claim C1: Paying a range ends exactly the debts that share a byte with it, each counted once as
  paid before any guest access, and leaves every other debt as it was.
\<close>

lemma pay_fold:
  assumes "distinct is" "\<forall>i \<in> set is. i < length (dw_regions s)"
  shows "dw_regions (fold (\<lambda>i s. let r = dw_regions s ! i in if dw_armed r \<and> dw_lo r < hi \<and> lo < dw_hi r
      then release i (s\<lparr>s_paid_clean := bump (kind_index r) (s_paid_clean s)\<rparr>) else s) is s) =
    map (\<lambda>j. if j \<in> set is \<and> dw_armed (dw_regions s ! j) \<and> dw_lo (dw_regions s ! j) < hi \<and> lo < dw_hi (dw_regions s ! j)
      then (dw_regions s ! j)\<lparr>dw_armed := False\<rparr> else dw_regions s ! j) [0..<length (dw_regions s)]"
  using assms
proof (induction "is" arbitrary: s)
  case Nil
  then show ?case by (simp add: map_nth)
next
  case (Cons i "is")
  define s1 where "s1 = (let r = dw_regions s ! i in if dw_armed r \<and> dw_lo r < hi \<and> lo < dw_hi r
      then release i (s\<lparr>s_paid_clean := bump (kind_index r) (s_paid_clean s)\<rparr>) else s)"
  have s1: "dw_regions s1 = (if dw_armed (dw_regions s ! i) \<and> dw_lo (dw_regions s ! i) < hi \<and> lo < dw_hi (dw_regions s ! i)
      then (dw_regions s)[i := (dw_regions s ! i)\<lparr>dw_armed := False\<rparr>] else dw_regions s)" by (simp add: s1_def Let_def)
  then have len: "length (dw_regions s1) = length (dw_regions s)" by simp
  show ?case
    unfolding fold_simps s1_def [symmetric] using Cons.prems
    by (subst Cons.IH) (auto simp: len s1 nth_list_update)
qed

theorem paying_ends_exactly_the_overlapping_debts:
  assumes "watch_started s0" "watch_step\<^sup>*\<^sup>* s0 s" "p \<noteq> 0" "bytes \<noteq> 0"
  shows "dw_regions (nv2a_debt_watch_paid switch p bytes s) =
    map (\<lambda>r. if dw_armed r \<and> dw_lo r < p + bytes \<and> p < dw_hi r then r\<lparr>dw_armed := False\<rparr> else r) (dw_regions s)"
proof -
  have ok: "dw_ok s" by (rule reachable_ok [OF assms(1,2)])
  have "dw_regions (nv2a_debt_watch_paid switch p bytes s) =
    map (\<lambda>j. if j \<in> set [0..<length (dw_regions s)] \<and> dw_armed (dw_regions s ! j) \<and> dw_lo (dw_regions s ! j) < p + bytes \<and> p < dw_hi (dw_regions s ! j)
      then (dw_regions s ! j)\<lparr>dw_armed := False\<rparr> else dw_regions s ! j) [0..<length (dw_regions s)]"
    unfolding nv2a_debt_watch_paid_def ok_on [OF ok] Let_def prod.case
    using assms(3,4) pay_fold [of "[0..<length (dw_regions s)]" s "p + bytes" p] by (simp add: Let_def)
  then show ?thesis by (auto intro!: nth_equalityI)
qed

section \<open>Witnesses\<close>

text \<open>One colour surface of a page and a bit owed, and read by the guest through the high view.\<close>

definition watch_example :: debt_watch where
  "watch_example = nv2a_debt_watch_configure True 0x4000 True 0x100000 0x80100000 0 0x4000000 debt_watch_statics"

definition watch_owing :: debt_watch where
  "watch_owing = nv2a_debt_watch_arm True 1 0x110000 0x5000 0 watch_example"

lemma example_started: "watch_started watch_example"
  unfolding watch_started_def watch_example_def by (intro exI conjI, rule zero_less_numeral, rule refl)

lemma example_range: "s_high_base watch_example = 0 \<or> pg_hi watch_example (0x110000 + 0x5000) \<le> pg_lo watch_example (s_high_base watch_example)"
  by (simp add: watch_example_def nv2a_debt_watch_configure_def ask_switch_def debt_watch_statics_def pg_hi_def pg_lo_def)

lemma owing_reachable: "watch_step\<^sup>*\<^sup>* watch_example watch_owing"
  unfolding watch_owing_def by (rule r_into_rtranclp, rule watch_step.arm, rule example_range)

lemma protect_view_views [simp]: "same_views t (protect_view i h n s) = same_views t s"
  using protect_view_shape [of i h n s] by (auto simp: same_views_def)

lemma owing_state: "same_views watch_example watch_owing"
  "dw_regions watch_owing = (replicate 32 no_region)[0 := \<lparr>dw_lo = 0x110000, dw_hi = 0x115000, dw_kind = 0, dw_armed = True, low_released = False, dw_touched = False\<rparr>]"
proof -
  have e: "dw_regions watch_example = replicate 32 no_region" "s_on watch_example = Some True" "s_configured watch_example" "s_runtime watch_example = None"
    by (simp_all add: watch_example_def nv2a_debt_watch_configure_def ask_switch_def debt_watch_statics_def)
  have n: "\<not> dw_armed no_region" by (simp add: no_region_def)
  have f: "find (\<lambda>i. dw_armed (replicate 32 no_region ! i) \<and> P i) [0..<32] = None" for P by (auto simp: find_None_iff n)
  have g: "find (\<lambda>i. \<not> dw_armed (replicate 32 no_region ! i)) [0..<32] = Some 0" by (simp add: upt_conv_Cons n)
  have v: "same_views t (s\<lparr>s_armed := x\<rparr>) = same_views t s" "same_views t (s\<lparr>s_runtime := y\<rparr>) = same_views t s"
    "same_views t (set_region i r s) = same_views t s" for t s x y i r
    by (simp_all add: same_views_def set_region_def)
  show "same_views watch_example watch_owing"
    "dw_regions watch_owing = (replicate 32 no_region)[0 := \<lparr>dw_lo = 0x110000, dw_hi = 0x115000, dw_kind = 0, dw_armed = True, low_released = False, dw_touched = False\<rparr>]"
    unfolding watch_owing_def nv2a_debt_watch_arm_def nv2a_debt_watch_on_def ask_switch_def Let_def
    using f [of "\<lambda>i. dw_lo (replicate 32 no_region ! i) = 0x110000 \<and> dw_hi (replicate 32 no_region ! i) = 0x115000"] g
    by (simp_all add: e v) 
qed

theorem guarded_read_witness: "\<not> guarded watch_owing 0x200001"
proof (rule guarded_read_never_faults [OF example_started owing_reachable])
  have ok: "dw_ok watch_owing" by (rule reachable_ok [OF example_started owing_reachable])
  show "nv2a_debt_watch_guarded_read True 0x200000 4 watch_owing = (True, watch_owing)"
    unfolding nv2a_debt_watch_guarded_read_def ok_on [OF ok] Let_def prod.case owing_state(2) same_views_cong [OF owing_state(1)]
    by (auto simp: nth_list_update no_region_def pg_lo_def pg_hi_def watch_example_def nv2a_debt_watch_configure_def ask_switch_def debt_watch_statics_def)
  show "s_high_base watch_owing = 0 \<or> pg_hi watch_owing (0x200000 + 4) \<le> pg_lo watch_owing (s_high_base watch_owing)"
    using owing_state(1) unfolding same_views_cong [OF owing_state(1)]
    by (simp add: same_views_def watch_example_def nv2a_debt_watch_configure_def ask_switch_def debt_watch_statics_def pg_hi_def pg_lo_def)
qed simp_all

theorem guard_is_exactly_witness:
  "(\<forall>a. guarded watch_owing a \<longleftrightarrow> (\<exists>r \<in> set (dw_regions watch_owing). dw_armed r \<and>
      (on_page watch_owing True r a \<or> \<not> low_released r \<and> on_page watch_owing False r a)))
    \<and> (\<forall>k. s_armed watch_owing k = s_paid_clean watch_owing k + s_guest_read watch_owing k + s_guest_write watch_owing k + of_nat (owed_count watch_owing k))"
  by (rule guard_is_exactly_what_is_owed [OF example_started owing_reachable])

theorem every_access_witness:
  "\<exists>s'. access_with 64 7 0x80110000 None watch_owing = Some s' \<and> \<not> guarded s' 0x80110000"
  by (rule every_access_completes [OF example_started owing_reachable])

theorem paying_ends_witness:
  "dw_regions (nv2a_debt_watch_paid True 0x110000 4 watch_owing) =
    map (\<lambda>r. if dw_armed r \<and> dw_lo r < 0x110000 + 4 \<and> 0x110000 < dw_hi r then r\<lparr>dw_armed := False\<rparr> else r) (dw_regions watch_owing)"
  by (rule paying_ends_exactly_the_overlapping_debts [OF example_started owing_reachable]) simp_all

text \<open>For a page size that is a power of two the code's masks round as the division does.\<close>

lemma pg_lo_is_the_mask:
  assumes "s_page s = 2 ^ k" "k < 64"
  shows "pg_lo s (unat a) = unat (a AND NOT (2 ^ k - 1 :: u64))"
proof -
  have m: "(2 ^ k - 1 :: u64) = mask k" by (simp add: mask_eq_exp_minus_1)
  have "a AND NOT (mask k) = push_bit k (drop_bit k a)"
    by (rule bit_word_eqI) (auto simp: bit_and_iff bit_not_iff bit_mask_iff bit_push_bit_iff bit_drop_bit_eq)
  moreover have "unat (push_bit k (drop_bit k a)) = unat a div 2 ^ k * 2 ^ k"
  proof -
    have "unat a div 2 ^ k * 2 ^ k \<le> unat a" by (rule div_times_less_eq_dividend)
    moreover have l: "unat a < 2 ^ 64" using unsigned_less [of a, where 'a = nat] by simp
    ultimately have "unat a div 2 ^ k * 2 ^ k < 2 ^ 64" by (rule order.strict_trans1)
    then show ?thesis
      by (simp only: unsigned_push_bit_eq unsigned_drop_bit_eq) (simp add: push_bit_eq_mult drop_bit_eq_div take_bit_nat_eq_self take_bit_nat_eq_self [OF l])
  qed
  ultimately show ?thesis by (simp add: pg_lo_def assms(1) m)
qed

end
