(* ===== verification/Pb_Scan.thy ===== *)
theory Pb_Scan
  imports Nv2a_Pusher Host_Memory
begin

text \<open>
  The push-buffer survey of \<open>src/kernel/nv2a_pb_scan.c\<close>: an inventory of the methods a title
  submits, kept on a walk of its own over guest memory that may also execute them. The guest's
  memory is a function from the address to a byte, the executor a parameter. The survey is
  compared with the parser of \<open>Nv2a_Pusher\<close>, which decodes the same stream.
\<close>

section \<open>State\<close>

definition PB_MAX_METHODS :: nat where "PB_MAX_METHODS = 4096"

record 'w pb_scan =
  s_seen :: "(u32 \<times> u32 \<times> u32) list"
  s_tot_words :: u32
  s_tot_unknown :: u32
  s_tot_jumps :: u32
  s_tot_segments :: u32
  s_exec_enabled :: "bool option"
  s_external_executor :: bool
  exec_world :: 'w

definition nv2a_pb_scan_set_external_executor :: "int \<Rightarrow> 'w pb_scan \<Rightarrow> 'w pb_scan" where
  "nv2a_pb_scan_set_external_executor external s = s\<lparr>s_external_executor := external \<noteq> 0\<rparr>"

section \<open>The inventory\<close>

fun seen_bump :: "u32 \<Rightarrow> u32 \<Rightarrow> (u32 \<times> u32 \<times> u32) list \<Rightarrow> (u32 \<times> u32 \<times> u32) list option" where
  "seen_bump subch method [] = None"
| "seen_bump subch method ((m, c, n) # es) =
     (if m = method \<and> c = subch then Some ((m, c, n + 1) # es)
      else map_option ((#) (m, c, n)) (seen_bump subch method es))"

definition survey_note :: "u32 \<Rightarrow> u32 \<Rightarrow> 'w pb_scan \<Rightarrow> 'w pb_scan" where
  "survey_note subch method s =
     (case seen_bump subch method (s_seen s) of
        Some es \<Rightarrow> s\<lparr>s_seen := es\<rparr>
      | None \<Rightarrow> if length (s_seen s) < PB_MAX_METHODS then s\<lparr>s_seen := s_seen s @ [(method, subch, 1)]\<rparr> else s)"

section \<open>The walk\<close>

text \<open>One parameter of a packet: counted, and executed when the survey owns execution.\<close>

definition survey_method :: "(u32 \<Rightarrow> u32 \<Rightarrow> u32 \<Rightarrow> 'w \<Rightarrow> 'w) \<Rightarrow> u32 \<Rightarrow> u32 \<Rightarrow> u32 \<Rightarrow> 'w pb_scan \<Rightarrow> 'w pb_scan" where
  "survey_method exec subch m param s =
     (let s = survey_note subch m s
      in if s_exec_enabled s = Some True \<and> \<not> s_external_executor s then s\<lparr>exec_world := exec subch m param (exec_world s)\<rparr> else s)"

fun scan_params :: "(u32 \<Rightarrow> u32 \<Rightarrow> u32 \<Rightarrow> 'w \<Rightarrow> 'w) \<Rightarrow> host_memory \<Rightarrow> u32 \<Rightarrow> bool \<Rightarrow> u32 \<Rightarrow> u32 \<Rightarrow>
    nat \<Rightarrow> nat \<Rightarrow> u32 \<Rightarrow> nat \<Rightarrow> 'w pb_scan \<Rightarrow> u32 \<times> nat \<times> 'w pb_scan" where
  "scan_params exec mem end_va noninc subch method i 0 va words s = (va, words, s)"
| "scan_params exec mem end_va noninc subch method i (Suc n) va words s =
     (if \<not> va < end_va then (va, words, s)
      else let m = (if noninc then method else method + of_nat i * 4)
           in scan_params exec mem end_va noninc subch method (i + 1) n (va + 4) (words + 1)
                (survey_method exec subch m (load32 mem (unat va)) s))"

lemma scan_params_words: "scan_params exec mem e ni sc me i n va words s = (va', words', s') \<Longrightarrow> words \<le> words'"
proof (induction n arbitrary: i va words s)
  case (Suc n)
  show ?case
  proof (cases "va < e")
    case True
    then show ?thesis using Suc.prems Suc.IH [of "i + 1" "va + 4" "words + 1"] by (force simp: Let_def)
  qed (use Suc.prems in simp)
qed simp

function scan_loop :: "(u32 \<Rightarrow> u32 \<Rightarrow> u32 \<Rightarrow> 'w \<Rightarrow> 'w) \<Rightarrow> host_memory \<Rightarrow> u32 \<Rightarrow>
    u32 \<Rightarrow> nat \<Rightarrow> nat \<Rightarrow> nat \<Rightarrow> 'w pb_scan \<Rightarrow> nat \<times> nat \<times> nat \<times> 'w pb_scan" where
  "scan_loop exec mem end_va va words jumps unknown s =
     (if \<not> (va < end_va \<and> words < 0x100000) then (words, jumps, unknown, s)
      else let w = load32 mem (unat va); va = va + 4; words = words + 1
           in if w AND 3 = 1 \<or> w AND 0xE0000003 = 0x20000000 then (words, jumps + 1, unknown, s)
              else if w AND 3 = 2 \<or> w AND 0xFFFF0003 = 0x00020000 then scan_loop exec mem end_va va words jumps unknown s
              else if w AND 0x00030003 = 0
              then (let count = unat (drop_bit 18 w AND 0x7FF); subch = drop_bit 13 w AND 7; method = w AND 0x1FFC;
                        noninc = (w AND 0xE0000000 = 0x40000000);
                        (va, words, s) = scan_params exec mem end_va noninc subch method 0 count va words s
                    in scan_loop exec mem end_va va words jumps unknown s)
              else scan_loop exec mem end_va va words jumps (unknown + 1) s)"
  by pat_completeness auto
termination
  by (relation "measure (\<lambda>(exec, mem, e, va, words, j, u, s). 0x100000 - words)")
    (auto dest!: scan_params_words [OF sym])

text \<open>\<open>switch\<close> is whether \<open>RECOMP_PB_EXEC\<close> is on, \<open>survey\<close> whether \<open>RECOMP_PB_SCAN\<close> is set.\<close>

definition nv2a_pb_scan :: "bool \<Rightarrow> bool \<Rightarrow> (u32 \<Rightarrow> u32 \<Rightarrow> u32 \<Rightarrow> 'w \<Rightarrow> 'w) \<Rightarrow> host_memory \<Rightarrow> u32 \<Rightarrow> u32 \<Rightarrow> 'w pb_scan \<Rightarrow> 'w pb_scan" where
  "nv2a_pb_scan switch survey exec mem start_va end_va s =
     (let s = (if s_exec_enabled s = None then s\<lparr>s_exec_enabled := Some switch\<rparr> else s)
      in if \<not> (survey \<or> s_exec_enabled s = Some True \<and> \<not> s_external_executor s) \<or> end_va \<le> start_va then s
         else let end_va = (if end_va - start_va > 0x400000 then start_va + 0x400000 else end_va);
                  (words, jumps, unknown, s) = scan_loop exec mem end_va start_va 0 0 0 s
              in s\<lparr>s_tot_words := s_tot_words s + of_nat words, s_tot_unknown := s_tot_unknown s + of_nat unknown,
                   s_tot_jumps := s_tot_jumps s + of_nat jumps, s_tot_segments := s_tot_segments s + 1\<rparr>)"

declare scan_loop.simps [simp del]

section \<open>Two walks over one stream\<close>

text \<open>Guest memory from \<open>va\<close> to \<open>e\<close> holds the words.\<close>

definition window :: "host_memory \<Rightarrow> u32 \<Rightarrow> u32 \<Rightarrow> u32 list \<Rightarrow> bool" where
  "window mem va e ws \<longleftrightarrow> unat e = unat va + 4 * length ws \<and> (\<forall>i < length ws. load32 mem (unat va + 4 * i) = ws ! i)"

lemma window_Nil: "window mem va e [] \<Longrightarrow> \<not> va < e"
  by (simp add: window_def word_less_nat_alt)

lemma window_Cons:
  assumes "window mem va e (w # ws)"
  shows "va < e" "load32 mem (unat va) = w" "window mem (va + 4) e ws"
proof -
  have e: "unat e = unat va + 4 * Suc (length ws)" and m: "\<And>i. i < Suc (length ws) \<Longrightarrow> load32 mem (unat va + 4 * i) = (w # ws) ! i"
    using assms by (simp_all add: window_def)
  show "va < e" using e by (simp add: word_less_nat_alt)
  show "load32 mem (unat va) = w" using m [of 0] by simp
  have "unat (va + 4) = unat va + 4" using e unat_u32_lt [of e] by (simp add: unat_word_ariths)
  moreover have "load32 mem (unat va + 4 + 4 * i) = ws ! i" if "i < length ws" for i
    using m [of "Suc i"] that by (simp add: algebra_simps)
  ultimately show "window mem (va + 4) e ws" using e by (simp add: window_def)
qed

text \<open>The survey owns execution.\<close>

definition executing :: "'w pb_scan \<Rightarrow> bool" where
  "executing s \<longleftrightarrow> s_exec_enabled s = Some True \<and> \<not> s_external_executor s"

lemma survey_note_sel [simp]: "s_exec_enabled (survey_note sc m s) = s_exec_enabled s" "s_external_executor (survey_note sc m s) = s_external_executor s"
    "exec_world (survey_note sc m s) = exec_world s"
  by (simp_all add: survey_note_def split: option.split)

lemma survey_method_exec: "executing s \<Longrightarrow> executing (survey_method exec sc m p s) \<and> exec_world (survey_method exec sc m p s) = exec sc m p (exec_world s)"
  by (simp add: survey_method_def executing_def Let_def)

definition packet_methods :: "bool \<Rightarrow> u32 \<Rightarrow> nat \<Rightarrow> u32 list \<Rightarrow> (u32 \<times> u32) list" where
  "packet_methods increasing method i ps = map (\<lambda>(i, p). (if increasing then method + of_nat i * 4 else method, p)) (zip [i..<i + length ps] ps)"

lemma packet_methods_Cons [simp]: "packet_methods inc me i (p # ps) = ((if inc then me + of_nat i * 4 else me, p) # packet_methods inc me (Suc i) ps)"
proof -
  have "[i..<i + length (p # ps)] = i # [Suc i..<Suc i + length ps]" by (simp add: upt_conv_Cons del: upt_Suc)
  then show ?thesis unfolding packet_methods_def by (simp del: upt_Suc)
qed

lemma packet_methods_Nil [simp]: "packet_methods inc me i [] = []"
  by (simp add: packet_methods_def)

lemma scan_packet:
  assumes "window mem va e (ps @ ws)" "executing s"
  obtains va' s' where "scan_params exec mem e (\<not> inc) sc me i (length ps) va words s = (va', words + length ps, s')"
    "window mem va' e ws" "executing s'" "exec_world s' = fold (\<lambda>(m, p). exec sc m p) (packet_methods inc me i ps) (exec_world s)"
  using assms
proof (induction ps arbitrary: i va words s thesis)
  case (Cons p ps)
  have w: "va < e" "load32 mem (unat va) = p" "window mem (va + 4) e (ps @ ws)" using window_Cons Cons.prems(2) by simp_all
  let ?m = "if inc then me + of_nat i * 4 else me"
  note x = survey_method_exec [OF Cons.prems(3), of exec sc ?m p]
  obtain va' s' where r: "scan_params exec mem e (\<not> inc) sc me (Suc i) (length ps) (va + 4) (words + 1) (survey_method exec sc ?m p s)
      = (va', words + 1 + length ps, s')" "window mem va' e ws" "executing s'"
    "exec_world s' = fold (\<lambda>(m, p). exec sc m p) (packet_methods inc me (Suc i) ps) (exec sc ?m p (exec_world s))"
    using Cons.IH [OF _ w(3) conjunct1 [OF x], of "Suc i" "words + 1"] x by metis
  show ?case
    by (cases inc; rule Cons.prems(1) [of va' s']; use w r in \<open>simp add: Let_def\<close>)
qed simp

text \<open>The parser with nothing but an executor behind it.\<close>

definition only_exec :: "(u32 \<Rightarrow> u32 \<Rightarrow> u32 \<Rightarrow> 'w \<Rightarrow> 'w) \<Rightarrow> 'w sinks" where
  "only_exec exec = \<lparr>g_software_method = None, g_host_token = None, g_elem16_run = None, pb_exec_method = Some exec,
     pgraph_method = (\<lambda>_ _ _ w. (True, w))\<rparr>"

text \<open>The executor as the survey drives it, without the host-token subchannel.\<close>

definition but_tokens :: "(u32 \<Rightarrow> u32 \<Rightarrow> u32 \<Rightarrow> 'w \<Rightarrow> 'w) \<Rightarrow> u32 \<Rightarrow> u32 \<Rightarrow> u32 \<Rightarrow> 'w \<Rightarrow> 'w" where
  "but_tokens exec sc m p w = (if sc = NV2A_HOST_TOKEN_SUBCHANNEL then w else exec sc m p w)"

lemma dispatch_world: "world (dispatch (only_exec exec) sc m p s) = but_tokens exec sc m p (world s)"
  by (simp add: dispatch_def only_exec_def but_tokens_def run_opt_def note_recent_def Let_def)

lemma fold_world: "world (fold (\<lambda>(i, p). dispatch (only_exec exec) sc (f i) p) xs s) = fold (\<lambda>(i, p). but_tokens exec sc (f i) p) xs (world s)"
  by (induction xs arbitrary: s) (auto simp: dispatch_world)

lemma packet_world:
  assumes "run_packet (only_exec exec) False inc sc me ps s = (d, s')"
  shows "world s' = fold (\<lambda>(m, p). but_tokens exec sc m p) (packet_methods inc me 0 ps) (world s)"
proof -
  have "g_elem16_run (only_exec exec) = None" by (simp add: only_exec_def)
  then have "s' = dispatch_all (only_exec exec) inc sc me ps s" using assms by (simp add: run_packet_def)
  then have "world s' = fold (\<lambda>(i, p). but_tokens exec sc (if inc then me + of_nat i * 4 else me) p) (zip [0..<length ps] ps) (world s)"
    unfolding dispatch_all_def by (simp only: fold_world)
  then show ?thesis by (simp add: packet_methods_def fold_map comp_def case_prod_unfold)
qed


text \<open>The walk leaves the totals to its caller.\<close>

lemma survey_method_totals [simp]: "s_tot_unknown (survey_method exec sc m p s) = s_tot_unknown s"
  by (simp add: survey_method_def survey_note_def Let_def split: option.split)

text \<open>What every step of the survey keeps, the survey keeps.\<close>

lemma params_relation:
  assumes "\<And>s. R s s" "\<And>a b c. R a b \<Longrightarrow> R b c \<Longrightarrow> R a c" "\<And>s sc m p. R s (survey_method exec sc m p s)"
  shows "scan_params exec mem e ni sc me i n va words s = (va', words', s') \<Longrightarrow> R s s'"
proof (induction n arbitrary: i va words s)
  case (Suc n)
  show ?case
  proof (cases "va < e")
    case True
    let ?m = "if ni then me else me + of_nat i * 4"
    have "scan_params exec mem e ni sc me (i + 1) n (va + 4) (words + 1) (survey_method exec sc ?m (load32 mem (unat va)) s) = (va', words', s')"
      using Suc.prems True by (simp only: scan_params.simps Let_def if_False not_True_eq_False)
    from assms(2) [OF assms(3) Suc.IH [OF this]] show ?thesis .
  qed (use Suc.prems assms(1) in simp)
qed (use assms(1) in simp)

lemma scan_relation:
  assumes "\<And>s. R s s" "\<And>a b c. R a b \<Longrightarrow> R b c \<Longrightarrow> R a c" "\<And>s sc m p. R s (survey_method exec sc m p s)"
  shows "scan_loop exec mem e va words jumps unknown s = (words', jumps', unknown', s') \<Longrightarrow> R s s'"
  using assms(3)
proof (induction exec mem e va words jumps unknown s rule: scan_loop.induct)
  case (1 exec mem e va words jumps unknown s)
  let ?w = "load32 mem (unat va)"
  obtain va1 words1 s1 where p: "scan_params exec mem e (?w AND 0xE0000000 = 0x40000000) (drop_bit 13 ?w AND 7) (?w AND 0x1FFC) 0
      (unat (drop_bit 18 ?w AND 0x7FF)) (va + 4) (words + 1) s = (va1, words1, s1)" by (metis prod.exhaust)
  have R1: "R s s1" by (rule params_relation [where R = R, OF assms(1,2) 1(5) p])
  consider (ended) "\<not> (va < e \<and> words < 0x100000)"
    | (jump) "va < e \<and> words < 0x100000" "?w AND 3 = 1 \<or> ?w AND 0xE0000003 = 0x20000000"
    | (call) "va < e \<and> words < 0x100000" "\<not> (?w AND 3 = 1 \<or> ?w AND 0xE0000003 = 0x20000000)" "?w AND 3 = 2 \<or> ?w AND 0xFFFF0003 = 0x00020000"
    | (packet) "va < e \<and> words < 0x100000" "\<not> (?w AND 3 = 1 \<or> ?w AND 0xE0000003 = 0x20000000)" "\<not> (?w AND 3 = 2 \<or> ?w AND 0xFFFF0003 = 0x00020000)"
        "?w AND 0x00030003 = 0"
    | (bad) "va < e \<and> words < 0x100000" "\<not> (?w AND 3 = 1 \<or> ?w AND 0xE0000003 = 0x20000000)" "\<not> (?w AND 3 = 2 \<or> ?w AND 0xFFFF0003 = 0x00020000)"
        "?w AND 0x00030003 \<noteq> 0"
    by blast
  then show ?case
  proof cases
    case packet
    have "scan_loop exec mem e va1 words1 jumps unknown s1 = (words', jumps', unknown', s')"
      using 1(4) packet p by (subst (asm) scan_loop.simps) (simp add: Let_def)
    from 1(2) [OF _ refl refl refl packet(2,3,4) refl refl refl refl refl p [symmetric] refl this 1(5)] packet(1) R1 assms(2) show ?thesis by blast
  next
    case call
    have "scan_loop exec mem e (va + 4) (words + 1) jumps unknown s = (words', jumps', unknown', s')"
      using 1(4) call by (subst (asm) scan_loop.simps) (simp add: Let_def)
    from 1(1) [OF _ refl refl refl call(2,3) this 1(5)] call(1) show ?thesis by blast
  next
    case bad
    have "scan_loop exec mem e (va + 4) (words + 1) jumps (unknown + 1) s = (words', jumps', unknown', s')"
      using 1(4) bad by (subst (asm) scan_loop.simps) (simp add: Let_def)
    from 1(3) [OF _ refl refl refl bad(2,3,4) this 1(5)] bad(1) show ?thesis by blast
  qed (use 1(4) assms(1) in \<open>subst (asm) scan_loop.simps, simp add: Let_def\<close>)+
qed

text \<open>How the survey reads a word the parser decodes.\<close>

lemma decode_survey:
  "pb_decode w = Padding \<Longrightarrow> w = 0"
  "pb_decode w = Control NV2A_PUSHER_JUMP a \<Longrightarrow> w AND 3 = 1 \<or> w AND 0xE0000003 = 0x20000000"
  "pb_decode w = Header inc \<Longrightarrow> w AND 3 \<noteq> 1 \<and> w AND 0xE0000003 \<noteq> 0x20000000 \<and> w AND 3 \<noteq> 2 \<and> w AND 0xFFFF0003 \<noteq> 0x00020000 \<and>
     w AND 0x00030003 = 0 \<and> (w AND 0xE0000000 = 0x40000000) = (\<not> inc)"
proof -
  show "pb_decode w = Padding \<Longrightarrow> w = 0" "pb_decode w = Control NV2A_PUSHER_JUMP a \<Longrightarrow> w AND 3 = 1 \<or> w AND 0xE0000003 = 0x20000000"
    by (auto simp: pb_decode_def split: if_splits)
  assume h: "pb_decode w = Header inc"
  have j: "w AND 3 \<noteq> 1" "w AND 0xE0000003 \<noteq> 0x20000000" "w AND 3 \<noteq> 2" and m: "w AND 0xE0030003 = (if inc then 0 else 0x40000000)"
    using h by (auto simp: pb_decode_def split: if_splits)
  have k: "w AND 0x00030003 = (w AND 0xE0030003) AND 0x00030003" "w AND 0xE0000000 = (w AND 0xE0030003) AND 0xE0000000"
    "w AND 0x00020000 = (w AND 0xE0030003) AND 0x00020000" "w AND 0x00020000 = (w AND 0xFFFF0003) AND 0x00020000"
    by (simp_all add: and.assoc)
  have z: "w AND 0x00030003 = 0" "(w AND 0xE0000000 = 0x40000000) = (\<not> inc)" "w AND 0x00020000 = 0" using k m by auto
  then have "w AND 0xFFFF0003 \<noteq> 0x00020000" using k(4) by auto
  with j z show "w AND 3 \<noteq> 1 \<and> w AND 0xE0000003 \<noteq> 0x20000000 \<and> w AND 3 \<noteq> 2 \<and> w AND 0xFFFF0003 \<noteq> 0x00020000 \<and>
     w AND 0x00030003 = 0 \<and> (w AND 0xE0000000 = 0x40000000) = (\<not> inc)" by simp
qed

lemma scan_follows_the_parser:
  assumes "segment_loop (only_exec exec) False ws pos n s = (r, s')" "stop r = NV2A_PUSHER_END \<or> stop r = NV2A_PUSHER_JUMP"
    and "window mem va e ws" "words + length ws \<le> 0x100000" "executing t" "exec_world t = world s"
  shows "case scan_loop (but_tokens exec) mem e va words jumps unknown t of
    (words', jumps', unknown', t') \<Rightarrow> unknown' = unknown \<and> executing t' \<and> exec_world t' = world s'"
  using assms
proof (induction "only_exec exec" False ws pos n s arbitrary: va words jumps t rule: segment_loop.induct)
  case (1 pos n s)
  then show ?case using window_Nil [OF 1(3)] by (simp add: scan_loop.simps)
next
  case (2 header ws pos n s)
  note w = window_Cons [OF 2(5)]
  have lt: "va < e \<and> words < 0x100000" using w(1) 2(6) by simp
  have same: "world (bump_dwords k s) = world s" for k s by (simp add: bump_dwords_def)
  show ?case
  proof (cases "pb_decode header")
    case Padding
    have h: "header = 0" using decode_survey(1) [OF Padding] .
    have l: "segment_loop (only_exec exec) False ws (pos + 1) n (bump_dwords 1 s) = (r, s')"
      using 2(3) Padding by (simp add: segment_loop.simps(2))
    have "scan_loop (but_tokens exec) mem e va words jumps unknown t = scan_loop (but_tokens exec) mem e (va + 4) (words + 1) jumps unknown t"
      using lt w(2) h by (subst scan_loop.simps) (simp add: Let_def)
    then show ?thesis using 2(1) [OF Padding l 2(4) w(3), of "words + 1" t] 2(6-8) by (simp add: same)
  next
    case (Control c a)
    have "c \<noteq> NV2A_PUSHER_END" using Control by (auto simp: pb_decode_def split: if_splits)
    then have "c = NV2A_PUSHER_JUMP" "world s' = world s" using 2(3,4) Control by (auto simp: segment_loop.simps(2) same)
    then show ?thesis using decode_survey(2) [of header a] Control lt w(2) 2(7,8)
      by (subst scan_loop.simps) (auto simp: Let_def)
  next
    case (Header inc)
    let ?c = "PB_COUNT header"
    have ok: "?c \<le> length ws" "\<not> (inc \<and> ?c \<noteq> 0 \<and> unat (PB_METHOD header) + (?c - 1) * 4 \<ge> 0x2000)"
      using 2(3,4) Header by (auto simp: segment_loop.simps(2) Let_def split: if_splits)
    obtain d s1 where run: "run_packet (only_exec exec) False inc (PB_SUBCHANNEL header) (PB_METHOD header) (take ?c ws) s = (d, s1)" by force
    have l: "segment_loop (only_exec exec) False (drop ?c ws) (pos + (1 + ?c)) (n + d) (bump_dwords (1 + ?c) s1) = (r, s')"
      using 2(3) loop_header_ok [OF Header ok run] by simp
    have win: "window mem (va + 4) e (take ?c ws @ drop ?c ws)" using w(3) by simp
    obtain va' t' where sp: "scan_params (but_tokens exec) mem e (\<not> inc) (PB_SUBCHANNEL header) (PB_METHOD header) 0 (length (take ?c ws))
        (va + 4) (words + 1) t = (va', words + 1 + length (take ?c ws), t')"
      "window mem va' e (drop ?c ws)" "executing t'"
      "exec_world t' = fold (\<lambda>(m, p). but_tokens exec (PB_SUBCHANNEL header) m p) (packet_methods inc (PB_METHOD header) 0 (take ?c ws)) (exec_world t)"
      using scan_packet [OF win 2(7)] by metis
    have wd: "exec_world t' = world (bump_dwords (1 + ?c) s1)" using sp(4) packet_world [OF run] 2(8) by (simp add: same)
    have "scan_loop (but_tokens exec) mem e va words jumps unknown t =
        scan_loop (but_tokens exec) mem e va' (words + 1 + ?c) jumps unknown t'"
      using lt w(2) decode_survey(3) [OF Header] sp(1) ok(1)
      by (subst scan_loop.simps) (simp add: Let_def PB_COUNT_def PB_SUBCHANNEL_def PB_METHOD_def min_absorb2)
    then show ?thesis
      using 2(2) [OF Header refl refl refl _ _ run [symmetric] refl l 2(4) sp(2) _ sp(3) wd, of "words + 1 + ?c"] ok 2(6) by simp
  next
    case Bad
    then show ?thesis using 2(3,4) by (auto simp: segment_loop.simps(2))
  qed
qed

text \<open>
  Claim C25: Over a segment that the parser runs to its end or to a jump, the survey
  executes the same methods with the same parameters in the same order, but for the host-
  token subchannel, and meets no word it does not recognise.
\<close>

theorem survey_executes_what_the_parser_dispatches:
  assumes "nv2a_pusher_run_segment (only_exec exec) (Some ws) s = (r, s')" "stop r = NV2A_PUSHER_END \<or> stop r = NV2A_PUSHER_JUMP"
    and "ws \<noteq> []" "length ws \<le> 0x100000" "window mem va e ws" "executing t" "exec_world t = world s"
  shows "exec_world (nv2a_pb_scan switch survey (but_tokens exec) mem va e t) = world s' \<and>
    s_tot_unknown (nv2a_pb_scan switch survey (but_tokens exec) mem va e t) = s_tot_unknown t"
proof -
  have l: "segment_loop (only_exec exec) False ws 0 0 (s\<lparr>g_stats := (g_stats s)\<lparr>runs := runs (g_stats s) + 1\<rparr>\<rparr>) = (r, s')"
    using assms(1,3) by (simp add: run_segment_def)
  have e: "unat e = unat va + 4 * length ws" using assms(5) by (simp add: window_def)
  have "\<not> e \<le> va" "\<not> e - va > 0x400000"
    using e assms(3,4) by (simp_all add: word_le_nat_alt word_less_nat_alt unat_sub)
  moreover obtain words jumps unknown t' where sl: "scan_loop (but_tokens exec) mem e va 0 0 0 t = (words, jumps, unknown, t')"
    by (metis prod.exhaust)
  moreover have "unknown = 0 \<and> exec_world t' = world s'"
    using scan_follows_the_parser [OF l assms(2,5) _ assms(6), of 0 0 0] assms(4,7) by (simp add: sl)
  moreover have "s_tot_unknown t' = s_tot_unknown t"
    using scan_relation [where R = "\<lambda>a b. s_tot_unknown b = s_tot_unknown a", OF _ _ _ sl] by simp
  ultimately show ?thesis
    using assms(6) by (simp add: nv2a_pb_scan_def executing_def Let_def)
qed

section \<open>The inventory counts what was executed\<close>

definition seen_count :: "'w pb_scan \<Rightarrow> u32 \<Rightarrow> u32 \<Rightarrow> u32" where
  "seen_count s sc m = (case find (\<lambda>(k, c, n). k = m \<and> c = sc) (s_seen s) of Some (k, c, n) \<Rightarrow> n | None \<Rightarrow> 0)"

lemma seen_bump_Some:
  "seen_bump sc m es = Some es' \<Longrightarrow> length es' = length es \<and>
    (\<exists>n. find (\<lambda>(k, c, n). k = m \<and> c = sc) es = Some (m, sc, n) \<and> find (\<lambda>(k, c, n). k = m \<and> c = sc) es' = Some (m, sc, n + 1)) \<and>
    (\<forall>c' k'. (c', k') \<noteq> (sc, m) \<longrightarrow> find (\<lambda>(k, c, n). k = k' \<and> c = c') es' = find (\<lambda>(k, c, n). k = k' \<and> c = c') es)"
proof (induction es arbitrary: es')
  case (Cons e es)
  obtain k c n where e: "e = (k, c, n)" by (cases e)
  show ?case using Cons by (auto simp: e split: if_splits option.splits)
qed simp

lemma seen_bump_None: "seen_bump sc m es = None \<Longrightarrow> find (\<lambda>(k, c, n). k = m \<and> c = sc) es = None"
  by (induction sc m es rule: seen_bump.induct) (auto split: if_splits)

lemma find_over_append: "find P (xs @ ys) = (case find P xs of Some x \<Rightarrow> Some x | None \<Rightarrow> find P ys)"
  by (induction xs) auto

lemma survey_note_count:
  assumes "length (s_seen (survey_note sc m s)) < PB_MAX_METHODS"
  shows "seen_count (survey_note sc m s) sc' m' = seen_count s sc' m' + (if sc' = sc \<and> m' = m then 1 else 0)"
proof (cases "seen_bump sc m (s_seen s)")
  case None
  then have l: "length (s_seen s) < PB_MAX_METHODS" using assms by (auto simp: survey_note_def split: if_splits)
  show ?thesis using seen_bump_None [OF None] l
    by (auto simp: survey_note_def None seen_count_def find_over_append split: option.split)
next
  case (Some es)
  show ?thesis using seen_bump_Some [OF Some]
    by (cases "sc' = sc \<and> m' = m") (auto simp: survey_note_def Some seen_count_def)
qed

lemma survey_note_length: "length (s_seen s) \<le> length (s_seen (survey_note sc m s))"
  by (auto simp: survey_note_def split: option.split dest!: seen_bump_Some)

text \<open>An executor that keeps a log.\<close>

definition log_exec :: "u32 \<Rightarrow> u32 \<Rightarrow> u32 \<Rightarrow> (u32 \<times> u32 \<times> u32) list \<Rightarrow> (u32 \<times> u32 \<times> u32) list" where
  "log_exec sc m p w = w @ [(sc, m, p)]"

definition occurrences :: "u32 \<Rightarrow> u32 \<Rightarrow> (u32 \<times> u32 \<times> u32) list \<Rightarrow> nat" where
  "occurrences sc m evs = length (filter (\<lambda>(c, k, p). c = sc \<and> k = m) evs)"

definition counted :: "(u32 \<times> u32 \<times> u32) list pb_scan \<Rightarrow> (u32 \<times> u32 \<times> u32) list pb_scan \<Rightarrow> bool" where
  "counted a b \<longleftrightarrow> (executing b \<longleftrightarrow> executing a) \<and> length (s_seen a) \<le> length (s_seen b) \<and>
     (executing a \<longrightarrow> (\<exists>evs. exec_world b = exec_world a @ evs \<and>
        (length (s_seen b) < PB_MAX_METHODS \<longrightarrow> (\<forall>sc m. seen_count b sc m = seen_count a sc m + of_nat (occurrences sc m evs)))))"

lemma counted_refl: "counted s s"
  by (auto simp: counted_def occurrences_def)

lemma counted_trans:
  assumes "counted a b" "counted b c"
  shows "counted a c"
proof -
  have "\<exists>evs. exec_world c = exec_world a @ evs \<and>
      (length (s_seen c) < PB_MAX_METHODS \<longrightarrow> (\<forall>sc m. seen_count c sc m = seen_count a sc m + of_nat (occurrences sc m evs)))"
    if ex: "executing a"
  proof -
    obtain e1 where e1: "exec_world b = exec_world a @ e1"
      "length (s_seen b) < PB_MAX_METHODS \<Longrightarrow> seen_count b sc m = seen_count a sc m + of_nat (occurrences sc m e1)" for sc m
      using assms(1) ex by (auto simp: counted_def)
    obtain e2 where e2: "exec_world c = exec_world b @ e2"
      "length (s_seen c) < PB_MAX_METHODS \<Longrightarrow> seen_count c sc m = seen_count b sc m + of_nat (occurrences sc m e2)" for sc m
      using assms ex by (auto simp: counted_def)
    have "length (s_seen b) \<le> length (s_seen c)" using assms(2) by (simp add: counted_def)
    then show ?thesis using e1 e2 by (intro exI [of _ "e1 @ e2"]) (auto simp: occurrences_def)
  qed
  then show ?thesis using assms by (auto simp: counted_def)
qed

lemma counted_method: "counted s (survey_method log_exec sc m p s)"
proof -
  have "survey_method log_exec sc m p s = (if executing s then (survey_note sc m s)\<lparr>exec_world := exec_world s @ [(sc, m, p)]\<rparr> else survey_note sc m s)"
    by (simp add: survey_method_def executing_def Let_def log_exec_def)
  moreover have "seen_count (t\<lparr>exec_world := w\<rparr>) = seen_count t" for t :: "(u32 \<times> u32 \<times> u32) list pb_scan" and w
    by (simp add: seen_count_def fun_eq_iff)
  ultimately show ?thesis using survey_note_length [of s sc m] survey_note_count [of sc m s]
    by (auto simp: counted_def executing_def occurrences_def)
qed

text \<open>
  Unless the table of 4096 pairs is full, the count the survey keeps for a subchannel
  and method is the number of times it was executed.
\<close>

theorem inventory_counts_what_was_executed:
  assumes "executing t" "exec_world t = []" "s_seen t = []" "t' = nv2a_pb_scan switch survey log_exec mem va e t"
    and "length (s_seen t') < PB_MAX_METHODS"
  shows "seen_count t' sc m = of_nat (occurrences sc m (exec_world t'))"
proof -
  have "counted t t'"
  proof (cases "e \<le> va")
    case True
    then show ?thesis using assms(1,4) counted_refl by (simp add: nv2a_pb_scan_def executing_def)
  next
    case False
    define e' where "e' = (if e - va > 0x400000 then va + 0x400000 else e)"
    obtain words jumps unknown u where sl: "scan_loop log_exec mem e' va 0 0 0 t = (words, jumps, unknown, u)" by (metis prod.exhaust)
    have "counted t u" by (rule scan_relation [where R = counted, OF counted_refl counted_trans counted_method sl])
    moreover have "t' = u\<lparr>s_tot_words := s_tot_words u + of_nat words, s_tot_unknown := s_tot_unknown u + of_nat unknown,
        s_tot_jumps := s_tot_jumps u + of_nat jumps, s_tot_segments := s_tot_segments u + 1\<rparr>"
      using assms(1,4) False sl by (simp add: nv2a_pb_scan_def executing_def Let_def flip: e'_def)
    ultimately show ?thesis by (simp add: counted_def executing_def seen_count_def)
  qed
  then show ?thesis using assms by (auto simp: counted_def seen_count_def)
qed

section \<open>Witnesses\<close>

text \<open>A two-word element batch and a jump.\<close>

definition scan_words :: "u32 list" where "scan_words = [0x40081800, 5, 6, 0x00000001]"

definition scan_memory :: host_memory where
  "scan_memory = store32 (store32 (store32 (store32 (\<lambda>_. 0) 0x1000 0x40081800) 0x1004 5) 0x1008 6) 0x100C 0x00000001"

definition scan_start :: "(u32 \<times> u32 \<times> u32) list pb_scan" where
  "scan_start = \<lparr>s_seen = [], s_tot_words = 0, s_tot_unknown = 0, s_tot_jumps = 0, s_tot_segments = 0, s_exec_enabled = Some True,
     s_external_executor = False, exec_world = []\<rparr>"

definition pusher_start :: "(u32 \<times> u32 \<times> u32) list pusher" where
  "pusher_start = \<lparr>g_stats = \<lparr>runs = 0, dwords = 0, methods = 0, unhandled = 0, bad_headers = 0, host_tokens = 0, subch7_other = 0\<rparr>,
     g_unhandled = [], g_recent = [], g_recent_idx = 0, world = []\<rparr>"

lemma scan_memory_words: "load32 scan_memory 0x1000 = 0x40081800" "load32 scan_memory 0x1004 = 5" "load32 scan_memory 0x1008 = 6"
    "load32 scan_memory 0x100C = 1"
  by (simp_all add: scan_memory_def disjoint_ranges_def)

lemma scan_window: "window scan_memory 0x1000 0x1010 scan_words"
  unfolding window_def
proof (intro conjI allI impI)
  fix i assume "i < length scan_words"
  then have "i \<in> {0, 1, 2, 3}" by (auto simp: scan_words_def)
  then show "load32 scan_memory (unat (0x1000 :: u32) + 4 * i) = scan_words ! i" by (auto simp: scan_words_def scan_memory_words)
qed (simp add: scan_words_def)

lemma scan_words_parse: "stop (fst (run_segment (only_exec log_exec) False (Some scan_words) pusher_start)) = NV2A_PUSHER_JUMP"
  by (simp add: run_segment_def scan_words_def segment_loop.simps(2) pb_decode_def PB_COUNT_def PB_METHOD_def PB_SUBCHANNEL_def
    Let_def case_prod_unfold)

theorem survey_executes_witness:
  "exec_world (nv2a_pb_scan True True (but_tokens log_exec) scan_memory 0x1000 0x1010 scan_start) =
    world (snd (run_segment (only_exec log_exec) False (Some scan_words) pusher_start)) \<and>
   s_tot_unknown (nv2a_pb_scan True True (but_tokens log_exec) scan_memory 0x1000 0x1010 scan_start) = s_tot_unknown scan_start"
proof -
  obtain r s' where p: "run_segment (only_exec log_exec) False (Some scan_words) pusher_start = (r, s')" by (metis prod.exhaust)
  have "exec_world scan_start = world pusher_start" "executing scan_start" "scan_words \<noteq> []" "length scan_words \<le> 0x100000"
    by (simp_all add: scan_start_def pusher_start_def executing_def scan_words_def)
  from survey_executes_what_the_parser_dispatches [OF p _ this(3,4) scan_window this(2,1), of True True] scan_words_parse
  show ?thesis by (simp add: p)
qed

theorem inventory_counts_witness:
  "let t' = nv2a_pb_scan True True log_exec scan_memory 0x1000 0x1010 scan_start
   in seen_count t' 0 0x1800 = of_nat (occurrences 0 0x1800 (exec_world t')) \<and> occurrences 0 0x1800 (exec_world t') = 2"
proof -
  let ?t = "nv2a_pb_scan True True log_exec scan_memory 0x1000 0x1010 scan_start"
  define u where "u = scan_start\<lparr>s_seen := [(0x1800, 0, 2)], exec_world := [(0, 0x1800, 5), (0, 0x1800, 6)]\<rparr>"
  have two: "scan_params x m en ni sc me i 2 va words s = scan_params x m en ni sc me i (Suc (Suc 0)) va words s"
    for x :: "u32 \<Rightarrow> u32 \<Rightarrow> u32 \<Rightarrow> 'a \<Rightarrow> 'a" and m en ni sc me i va words s
    unfolding numeral_2_eq_2 ..
  have "scan_loop log_exec scan_memory 0x1010 0x1000 0 0 0 scan_start = scan_loop log_exec scan_memory 0x1010 0x100C 3 0 0 u"
    by (subst scan_loop.simps) (simp add: scan_memory_words Let_def two survey_method_def survey_note_def log_exec_def
      PB_MAX_METHODS_def scan_start_def u_def numeral_3_eq_3)
  also have "\<dots> = (4, 1, 0, u)" by (subst scan_loop.simps) (simp add: scan_memory_words Let_def)
  finally have t: "s_seen ?t = [(0x1800, 0, 2)]" "exec_world ?t = [(0, 0x1800, 5), (0, 0x1800, 6)]"
    by (simp_all add: nv2a_pb_scan_def Let_def) (simp_all add: scan_start_def u_def)
  have "seen_count ?t 0 0x1800 = of_nat (occurrences 0 0x1800 (exec_world ?t))"
    by (rule inventory_counts_what_was_executed [where t = scan_start, OF _ _ _ refl])
      (simp_all add: t PB_MAX_METHODS_def, simp_all add: scan_start_def executing_def)
  then show ?thesis by (simp add: Let_def t occurrences_def)
qed

end
