(* ===== verification/Block_Table.thy ===== *)
theory Block_Table
  imports Prelude
begin

text \<open>
  What the two address-space allocators have in common: a table of blocks in address order, each
  held by a caller or vacant. A block is its first byte, its length and whether it is vacant. The
  definitions say where the blocks of a table lie and which bytes they hold, and the lemmas how that
  changes when one block is replaced by several or several by one. The loops and array moves by
  which the code edits its tables are here too, with what they do to a list.
\<close>

section \<open>Blocks\<close>

type_synonym block = "nat \<times> nat \<times> bool"

abbreviation start :: "block \<Rightarrow> nat" where "start \<equiv> fst"
abbreviation len :: "block \<Rightarrow> nat" where "len b \<equiv> fst (snd b)"
abbreviation vacant :: "block \<Rightarrow> bool" where "vacant b \<equiv> snd (snd b)"
abbreviation stop :: "block \<Rightarrow> nat" where "stop b \<equiv> start b + len b"

definition span :: "block \<Rightarrow> nat set" where "span b = {start b..<stop b}"

text \<open>The blocks lie in order between \<open>lo\<close> and \<open>hi\<close>, none empty.\<close>

fun placed :: "nat \<Rightarrow> block list \<Rightarrow> nat \<Rightarrow> bool" where
  "placed lo [] hi \<longleftrightarrow> lo \<le> hi"
| "placed lo (b # bs) hi \<longleftrightarrow> lo \<le> start b \<and> 0 < len b \<and> placed (stop b) bs hi"

text \<open>The blocks fill the bytes from \<open>lo\<close> to \<open>hi\<close> without a gap.\<close>

fun tiles :: "nat \<Rightarrow> block list \<Rightarrow> nat \<Rightarrow> bool" where
  "tiles lo [] hi \<longleftrightarrow> lo = hi"
| "tiles lo (b # bs) hi \<longleftrightarrow> start b = lo \<and> 0 < len b \<and> tiles (stop b) bs hi"

definition touching :: "block \<Rightarrow> block \<Rightarrow> bool" where
  "touching a b \<longleftrightarrow> vacant a \<and> vacant b \<and> stop a = start b"

definition coalesced :: "block list \<Rightarrow> bool" where
  "coalesced bs \<longleftrightarrow> successively (\<lambda>a b. \<not> touching a b) bs"

definition vacant_bytes :: "block list \<Rightarrow> nat set" where
  "vacant_bytes bs = (\<Union>b \<in> set bs. if vacant b then span b else {})"

definition held :: "block list \<Rightarrow> (nat \<times> nat) set" where
  "held bs = {(a, n). (a, n, False) \<in> set bs}"

lemma vacant_bytes_simps [simp]:
  "vacant_bytes [] = {}"
  "vacant_bytes (b # bs) = (if vacant b then span b else {}) \<union> vacant_bytes bs"
  "vacant_bytes (xs @ ys) = vacant_bytes xs \<union> vacant_bytes ys"
  by (auto simp: vacant_bytes_def)

lemma held_simps [simp]:
  "held [] = {}"
  "held (b # bs) = (if vacant b then {} else {(start b, len b)}) \<union> held bs"
  "held (xs @ ys) = held xs \<union> held ys"
  by (auto simp: held_def prod_eq_iff)

lemma span_pair [simp]: "span (a, n, f) = {a..<a + n}"
  by (simp add: span_def)

section \<open>Where the blocks lie\<close>

lemma placed_le: "placed lo bs hi \<Longrightarrow> lo \<le> hi"
  by (induction bs arbitrary: lo) fastforce+

lemma placed_mono: "placed lo bs hi \<Longrightarrow> lo' \<le> lo \<Longrightarrow> hi \<le> hi' \<Longrightarrow> placed lo' bs hi'"
  by (induction bs arbitrary: lo lo') auto

lemma tiles_placed: "tiles lo bs hi \<Longrightarrow> placed lo bs hi"
  by (induction bs arbitrary: lo) auto

lemma placed_append: "placed lo (xs @ ys) hi \<longleftrightarrow> (\<exists>m. placed lo xs m \<and> placed m ys hi)"
proof (induction xs arbitrary: lo)
  case Nil
  then show ?case using placed_mono by (auto dest: placed_le)
qed auto

lemma tiles_append: "tiles lo (xs @ ys) hi \<longleftrightarrow> (\<exists>m. tiles lo xs m \<and> tiles m ys hi)"
  by (induction xs arbitrary: lo) auto

lemma placed_in: "placed lo bs hi \<Longrightarrow> b \<in> set bs \<Longrightarrow> lo \<le> start b \<and> 0 < len b \<and> stop b \<le> hi"
proof (induction bs arbitrary: lo)
  case (Cons x xs)
  then show ?case using placed_le [of "stop x" xs hi] by fastforce
qed simp

lemma placed_span: "placed lo bs hi \<Longrightarrow> b \<in> set bs \<Longrightarrow> span b \<subseteq> {lo..<hi}"
  using placed_in [of lo bs hi b] by (auto simp: span_def)

lemma tiles_span: "tiles lo bs hi \<Longrightarrow> (\<Union>b \<in> set bs. span b) = {lo..<hi}"
proof (induction bs arbitrary: lo)
  case (Cons b bs)
  then have "(\<Union>b \<in> set bs. span b) = {stop b..<hi}" "stop b \<le> hi" "start b = lo"
    by (auto dest: tiles_placed placed_le)
  then show ?case by (auto simp: span_def)
qed simp

lemma vacant_bytes_within: "placed lo bs hi \<Longrightarrow> vacant_bytes bs \<subseteq> {lo..<hi}"
  using placed_span by (fastforce simp: vacant_bytes_def split: if_splits)

lemma held_within: "placed lo bs hi \<Longrightarrow> (a, n) \<in> held bs \<Longrightarrow> lo \<le> a \<and> 0 < n \<and> a + n \<le> hi"
  using placed_in [of lo bs hi "(a, n, False)"] by (auto simp: held_def)

lemma held_free_disjoint:
  "placed lo bs hi \<Longrightarrow> (a, n) \<in> held bs \<Longrightarrow> {a..<a + n} \<inter> vacant_bytes bs = {}"
proof (induction bs arbitrary: lo)
  case (Cons b bs)
  show ?case
  proof (cases "vacant b")
    case True
    with Cons.prems have "(a, n) \<in> held bs" "placed (stop b) bs hi" by auto
    with Cons.IH Cons.prems True held_within show ?thesis by (fastforce simp: span_def)
  next
    case False
    then have "vacant_bytes (b # bs) = vacant_bytes bs" by simp
    moreover have "vacant_bytes bs \<subseteq> {stop b..<hi}"
      using Cons.prems(1) by (auto dest!: vacant_bytes_within)
    ultimately show ?thesis using Cons.prems Cons.IH False by (fastforce split: if_splits)
  qed
qed simp

lemma held_disjoint:
  "placed lo bs hi \<Longrightarrow> (a, n) \<in> held bs \<Longrightarrow> (a', n') \<in> held bs \<Longrightarrow> (a, n) \<noteq> (a', n')
   \<Longrightarrow> {a..<a + n} \<inter> {a'..<a' + n'} = {} \<and> a \<noteq> a'"
proof (induction bs arbitrary: lo)
  case (Cons b bs)
  have rest: "(x, k) \<in> held bs \<Longrightarrow> stop b \<le> x \<and> 0 < k" for x k
    using held_within [of "stop b" bs hi x k] Cons.prems(1) by auto
  show ?case
  proof (cases "(a, n) \<in> held bs \<and> (a', n') \<in> held bs")
    case True
    with Cons.IH [of "stop b"] Cons.prems show ?thesis by auto
  next
    case False
    then have "(a, n) = (start b, len b) \<and> (a', n') \<in> held bs \<or> (a', n') = (start b, len b) \<and> (a, n) \<in> held bs"
      using Cons.prems by (auto split: if_splits)
    with rest [of a n] rest [of a' n'] Cons.prems(1) show ?thesis by auto
  qed
qed simp

lemma held_at: "placed lo bs hi \<Longrightarrow> (a, n) \<in> held bs \<Longrightarrow> {(x, k) \<in> held bs. x = a} = {(a, n)}"
  using held_disjoint by fastforce

section \<open>Replacing a run of blocks by another of the same extent\<close>

lemma tiles_le: "tiles lo bs hi \<Longrightarrow> lo \<le> hi"
  by (auto dest: tiles_placed placed_le)

lemma placed_after_tiles:
  assumes "placed lo (mid @ post) hi" "tiles a mid b" "mid \<noteq> []"
  shows "lo \<le> a \<and> placed b post hi"
proof -
  have "placed b post hi" if "placed lo (mid @ post) hi" "tiles a mid b" "mid \<noteq> []" for lo a
    using that by (induction mid arbitrary: lo a) (case_tac mid; auto)+
  with assms show ?thesis by (cases mid) auto
qed

lemma tiles_then_placed:
  "tiles a mid b \<Longrightarrow> placed b post hi \<Longrightarrow> lo \<le> a \<Longrightarrow> placed lo (mid @ post) hi"
  by (induction mid arbitrary: lo a) (auto elim: placed_mono)

lemma placed_replace:
  assumes "placed lo (pre @ mid @ post) hi" "tiles a mid b" "mid \<noteq> []" "tiles a mid' b"
  shows "placed lo (pre @ mid' @ post) hi"
  using assms placed_after_tiles [OF _ assms(2,3)] tiles_then_placed [OF assms(4)]
  by (metis placed_append)

lemma tiles_unique: "tiles a bs m \<Longrightarrow> tiles a bs n \<Longrightarrow> m = n"
  by (induction bs arbitrary: a) auto

lemma tiles_replace:
  assumes "tiles lo (pre @ mid @ post) hi" "tiles a mid b" "mid \<noteq> []" "tiles a mid' b"
  shows "tiles lo (pre @ mid' @ post) hi"
proof -
  obtain m n where m: "tiles lo pre m" "tiles m mid n" "tiles n post hi"
    using assms(1) by (auto simp: tiles_append)
  have "m = a" using m(2) assms(2,3) by (cases mid) auto
  moreover from this have "n = b" using m(2) assms(2) tiles_unique by blast
  ultimately show ?thesis using m assms(4) by (auto simp: tiles_append)
qed

section \<open>Coalescing\<close>

lemma coalesced_simps [simp]: "coalesced []" "coalesced [b]"
  "coalesced (a # b # bs) \<longleftrightarrow> \<not> touching a b \<and> coalesced (b # bs)"
  by (auto simp: coalesced_def)

lemma coalesced_append:
  "coalesced (xs @ ys) \<longleftrightarrow>
   coalesced xs \<and> coalesced ys \<and> (xs \<noteq> [] \<longrightarrow> ys \<noteq> [] \<longrightarrow> \<not> touching (last xs) (hd ys))"
  by (auto simp: coalesced_def successively_append_iff)

lemma touching_held [simp]: "\<not> vacant b \<Longrightarrow> \<not> touching a b" "\<not> vacant a \<Longrightarrow> \<not> touching a b"
  by (auto simp: touching_def)

section \<open>The loops and moves over a table\<close>

text \<open>
  A loop that stops at the first entry with a property; the move that leaves entry \<open>i\<close> in both
  \<open>i\<close> and \<open>i + 1\<close>; and the move that makes room at \<open>i + 1\<close> for an entry whose fields are all set next.
\<close>

fun find_from :: "('a \<Rightarrow> bool) \<Rightarrow> nat \<Rightarrow> 'a list \<Rightarrow> nat option" where
  "find_from P i [] = None"
| "find_from P i (b # bs) = (if P b then Some i else find_from P (Suc i) bs)"

definition dup_at :: "nat \<Rightarrow> 'a list \<Rightarrow> 'a list" where
  "dup_at i bs = take (Suc i) bs @ drop i bs"

definition insert_after :: "nat \<Rightarrow> 'a \<Rightarrow> 'a list \<Rightarrow> 'a list" where
  "insert_after i b bs = take (Suc i) bs @ b # drop (Suc i) bs"

lemma find_from_Some:
  "find_from P k xs = Some i \<longleftrightarrow>
   (\<exists>pre b post. xs = pre @ b # post \<and> i = k + length pre \<and> P b \<and> (\<forall>x \<in> set pre. \<not> P x))"
proof (induction xs arbitrary: k)
  case (Cons x xs)
  show ?case
  proof (cases "P x")
    case True
    then show ?thesis
      by (auto simp: Cons_eq_append_conv)
  next
    case False
    have "(\<exists>pre b post. x # xs = pre @ b # post \<and> i = k + length pre \<and> P b \<and> (\<forall>y \<in> set pre. \<not> P y)) \<longleftrightarrow>
          (\<exists>pre b post. xs = pre @ b # post \<and> i = Suc k + length pre \<and> P b \<and> (\<forall>y \<in> set pre. \<not> P y))"
      (is "?l \<longleftrightarrow> ?r")
    proof
      assume ?l
      then obtain pre b post where "x # xs = pre @ b # post" "i = k + length pre" "P b" "\<forall>y \<in> set pre. \<not> P y"
        by blast
      with False show ?r by (cases pre) auto
    next
      assume ?r
      then obtain pre b post where "xs = pre @ b # post" "i = Suc k + length pre" "P b" "\<forall>y \<in> set pre. \<not> P y"
        by blast
      with False show ?l by (intro exI [of _ "x # pre"] exI [of _ b] exI [of _ post]) simp
    qed
    with False show ?thesis by (simp add: Cons.IH)
  qed
qed simp

lemma find_from_None: "find_from P k xs = None \<longleftrightarrow> (\<forall>x \<in> set xs. \<not> P x)"
  by (induction xs arbitrary: k) auto

lemma dup_at_append [simp]: "dup_at (length pre) (pre @ b # post) = pre @ b # b # post"
  by (simp add: dup_at_def)

lemma insert_after_append [simp]: "insert_after (length pre) x (pre @ b # post) = pre @ b # x # post"
  by (simp add: insert_after_def)

lemma dup_at_Suc_nth [simp]: "(pre @ b # b' # post) ! Suc (length pre) = b'"
  by (simp add: nth_append)

lemma update_Suc_append [simp]: "(pre @ b # b' # post)[Suc (length pre) := x] = pre @ b # x # post"
  by (simp add: list_update_append)

section \<open>Alignment\<close>

definition align_up :: "u32 \<Rightarrow> u32 \<Rightarrow> u32" where
  "align_up a alignment = (a + alignment - 1) AND NOT (alignment - 1)"

definition pow2 :: "u32 \<Rightarrow> bool" where "pow2 a \<longleftrightarrow> (\<exists>k < 32. a = push_bit k 1)"

lemma unat_of_nat_u32: "n < 2 ^ 32 \<Longrightarrow> unat (of_nat n :: u32) = n"
  by (simp add: unsigned_of_nat take_bit_nat_eq_self)

lemma unat_pow2_u32: "k < 32 \<Longrightarrow> unat ((2 :: u32) ^ k) = 2 ^ k"
  using unat_of_nat_u32 [of "2 ^ k"] power_strict_increasing [of k 32 "2 :: nat"] by simp

lemma pow2_unat: "pow2 a \<Longrightarrow> \<exists>k < 32. unat a = 2 ^ k \<and> a - 1 = mask k"
proof -
  assume "pow2 a"
  then obtain k where k: "k < 32" "a = push_bit k 1" by (auto simp: pow2_def)
  have "(2::nat) ^ k < 2 ^ 32" using k(1) by (rule power_strict_increasing) simp
  then have "unat a = 2 ^ k"
    using k by (simp add: push_bit_eq_mult unat_pow2_u32)
  moreover have "a - 1 = mask k" using k by (simp add: mask_eq_exp_minus_1 push_bit_eq_mult)
  ultimately show ?thesis using k(1) by blast
qed

lemma pow2_nonzero: "pow2 a \<Longrightarrow> 0 < unat a"
  by (auto dest: pow2_unat)

lemma pow2_4: "pow2 4"
  by (auto simp: pow2_def push_bit_eq_mult intro!: exI [of _ 2])

lemma unat_and_not_mask: "unat ((x :: u32) AND NOT (mask k)) = unat x - unat x mod 2 ^ k"
proof -
  have "(x AND NOT (mask k)) + take_bit k x = (x AND NOT (mask k)) OR take_bit k x"
    by (rule disjunctive_add) (auto simp: bit_simps)
  also have "\<dots> = x" by (rule bit_word_eqI) (auto simp: bit_simps)
  finally have "x AND NOT (mask k) = x - take_bit k x" by (simp add: eq_diff_eq)
  moreover have "unat (take_bit k x) = unat x mod 2 ^ k"
    by (subst unsigned_take_bit_eq) (simp add: take_bit_eq_mod)
  moreover from this have "take_bit k x \<le> x"
    by (simp add: word_le_nat_alt)
  ultimately show ?thesis by (simp add: unat_sub)
qed

lemma align_up_nat:
  assumes p: "pow2 al"
  shows "unat (align_up a al) mod unat al = 0"
    and "\<not> align_up a al < a \<longleftrightarrow> unat a + unat al - 1 < 2 ^ 32 \<or> a = 0"
    and "unat a + unat al - 1 < 2 ^ 32 \<Longrightarrow>
         unat (align_up a al) = (unat a + unat al - 1) - (unat a + unat al - 1) mod unat al"
proof -
  obtain k where k: "k < 32" "unat al = 2 ^ k" "al - 1 = mask k" using pow2_unat [OF p] by blast
  have pos: "0 < unat al" using p by (rule pow2_nonzero)
  have lt: "unat al < 2 ^ 32" using unat_u32_lt [of al] by simp
  have alt: "unat a < 2 ^ 32" using unat_u32_lt [of a] by simp
  let ?s = "unat a + unat al - 1"
  have sum: "unat (a + al - 1) = ?s mod 2 ^ 32"
  proof -
    have "a + al - 1 = of_nat ?s"
      using pos by (simp add: of_nat_diff)
    then show ?thesis by (simp add: unsigned_of_nat take_bit_eq_mod)
  qed
  have val: "unat (align_up a al) = ?s mod 2 ^ 32 - ?s mod 2 ^ 32 mod unat al"
    by (simp add: align_up_def k(2,3) unat_and_not_mask sum)
  show "unat (align_up a al) mod unat al = 0"
    by (simp add: val)
  show "unat (align_up a al) = ?s - ?s mod unat al" if "?s < 2 ^ 32"
    using that by (simp add: val)
  show "\<not> align_up a al < a \<longleftrightarrow> ?s < 2 ^ 32 \<or> a = 0"
  proof (cases "?s < 2 ^ 32")
    case True
    have "?s mod unat al < unat al" using pos by simp
    with True pos have "unat a \<le> unat (align_up a al)" by (simp add: val)
    with True show ?thesis by (simp add: word_less_nat_alt)
  next
    case False
    have "?s mod 2 ^ 32 = ?s - 2 ^ 32"
      using False alt lt by (simp add: le_mod_geq)
    moreover have "?s - 2 ^ 32 < unat al" using alt pos by simp
    ultimately have "unat (align_up a al) = 0" by (simp add: val)
    with False alt lt pos show ?thesis by (auto simp: word_less_nat_alt unat_eq_zero)
  qed
qed

section \<open>Cutting a vacant block and giving a held one back\<close>

lemma cut_vacant:
  assumes pl: "placed lo (pre @ b # post) hi" and co: "coalesced (pre @ b # post)" and vb: "vacant b"
    and ti: "tiles (start b) (ls @ t # rs) (stop b)" and t: "\<not> vacant t"
    and ls: "\<forall>l \<in> set ls. vacant l" "length ls \<le> 1" and rs: "\<forall>r \<in> set rs. vacant r" "length rs \<le> 1"
  shows "placed lo (pre @ (ls @ t # rs) @ post) hi" "coalesced (pre @ (ls @ t # rs) @ post)"
    "vacant_bytes (pre @ (ls @ t # rs) @ post) = vacant_bytes (pre @ b # post) - span t"
    "held (pre @ (ls @ t # rs) @ post) = insert (start t, len t) (held (pre @ b # post))"
    "span t \<subseteq> vacant_bytes (pre @ b # post)"
proof -
  have tb: "tiles (start b) [b] (stop b)" using placed_in [OF pl, of b] by simp
  show pl': "placed lo (pre @ (ls @ t # rs) @ post) hi"
    using placed_replace [of lo pre "[b]" post hi, OF _ tb _ ti] pl by simp
  have l: "ls = [] \<or> (\<exists>l. ls = [l] \<and> vacant l \<and> start l = start b)"
    using ls ti by (cases ls) auto
  have r: "rs = [] \<or> (\<exists>r. rs = [r] \<and> vacant r \<and> stop r = stop b)"
    using rs ti by (cases rs) (auto simp: tiles_append)
  show "coalesced (pre @ (ls @ t # rs) @ post)"
    using co l r t vb by (cases "pre = []"; cases post) (auto simp: coalesced_append touching_def)
  have vl: "vacant_bytes ls = (\<Union>x \<in> set ls. span x)" and vr: "vacant_bytes rs = (\<Union>x \<in> set rs. span x)"
    using ls rs by (auto simp: vacant_bytes_def)
  have sp: "span b = vacant_bytes ls \<union> span t \<union> vacant_bytes rs"
    using tiles_span [OF ti] by (auto simp: vl vr span_def)
  have "span t \<inter> vacant_bytes (pre @ (ls @ t # rs) @ post) = {}"
    using held_free_disjoint [OF pl', of "start t" "len t"] t by (simp add: span_def)
  then show "vacant_bytes (pre @ (ls @ t # rs) @ post) = vacant_bytes (pre @ b # post) - span t"
    using vb t by (auto simp: sp)
  show "span t \<subseteq> vacant_bytes (pre @ b # post)" using vb by (auto simp: sp)
  have "held ls = {}" "held rs = {}" using ls(1) rs(1) by (auto simp: held_def)
  then show "held (pre @ (ls @ t # rs) @ post) = insert (start t, len t) (held (pre @ b # post))"
    using t vb by auto
qed

definition join_right :: "block \<Rightarrow> block list \<Rightarrow> block list" where
  "join_right b post = (case post of
     [] \<Rightarrow> [b]
   | q # qs \<Rightarrow> if vacant q \<and> stop b = start q then (start b, len b + len q, vacant b) # qs else b # q # qs)"

definition join_left :: "block list \<Rightarrow> block list \<Rightarrow> block list" where
  "join_left pre bs =
     (if pre \<noteq> [] \<and> vacant (last pre) \<and> stop (last pre) = start (hd bs)
      then butlast pre @ (start (last pre), len (last pre) + len (hd bs), True) # tl bs
      else pre @ bs)"

lemma give_back:
  fixes pre post a n
  defines "old \<equiv> pre @ (a, n, False) # post"
  defines "new \<equiv> join_left pre (join_right (a, n, True) post)"
  assumes pl: "placed lo old hi" and co: "coalesced old"
  shows "placed lo new hi" "coalesced new" "vacant_bytes new = vacant_bytes old \<union> {a..<a + n}"
    "held new = held old - {(a, n)}" "tiles lo old hi \<Longrightarrow> tiles lo new hi"
proof -
  have nin: "(a, n) \<notin> held pre \<and> (a, n) \<notin> held post"
  proof -
    obtain m where m: "placed lo pre m" "m \<le> a" "0 < n" "placed (a + n) post hi"
      using pl by (auto simp: old_def placed_append)
    show ?thesis using held_within [OF m(1)] held_within [OF m(4)] m by fastforce
  qed
  obtain bs where bs: "join_right (a, n, True) post = bs" by simp
  have r: "\<exists>k rest. bs = (a, k, True) # rest \<and> 0 < k \<and> placed (a + k) rest hi
      \<and> coalesced bs \<and> vacant_bytes bs = vacant_bytes post \<union> {a..<a + n} \<and> held bs = held post
      \<and> (tiles (a + n) post hi \<longrightarrow> tiles a bs hi)"
    using pl co bs
    by (cases post; cases "tl post")
      (auto simp: old_def join_right_def placed_append coalesced_append touching_def span_def split: if_splits)
  then obtain k rest where k: "bs = (a, k, True) # rest" "0 < k" "placed (a + k) rest hi" "coalesced bs"
    "vacant_bytes bs = vacant_bytes post \<union> {a..<a + n}" "held bs = held post"
    "tiles (a + n) post hi \<longrightarrow> tiles a bs hi" by blast
  obtain m where m: "placed lo pre m" "m \<le> a" using pl by (auto simp: old_def placed_append)
  have co_pre: "coalesced pre" using co by (simp add: old_def coalesced_append)
  have new: "new = join_left pre ((a, k, True) # rest)" by (simp add: new_def bs k(1))
  have "placed lo new hi \<and> coalesced new \<and> vacant_bytes new = vacant_bytes old \<union> {a..<a + n}
    \<and> held new = held old - {(a, n)} \<and> (tiles lo old hi \<longrightarrow> tiles lo new hi)"
  proof (cases "pre \<noteq> [] \<and> vacant (last pre) \<and> stop (last pre) = a")
    case False
    then have "new = pre @ bs" by (auto simp: new join_left_def k(1))
    moreover have "placed lo (pre @ bs) hi"
      unfolding placed_append k(1) using m k(2,3) by auto
    moreover have "coalesced (pre @ bs)"
      using False co_pre k(1,4) by (auto simp: coalesced_append touching_def)
    moreover have "tiles lo old hi \<longrightarrow> tiles lo (pre @ bs) hi"
      using k(7) by (auto simp: old_def tiles_append)
    ultimately show ?thesis using k(5,6) nin by (auto simp: old_def)
  next
    case True
    then obtain pre' p where p: "pre = pre' @ [p]" "vacant p" "stop p = a" by (cases pre rule: rev_cases) auto
    then have n': "new = pre' @ (start p, len p + k, True) # rest" by (simp add: new join_left_def)
    have sp: "span p \<union> {a..<a + k} = {start p..<start p + (len p + k)}" using p(3) by (auto simp: span_def)
    have vb: "vacant_bytes bs = {a..<a + k} \<union> vacant_bytes rest" by (simp add: k(1))
    have "placed lo new hi"
      using m(1) p k(2,3) by (auto simp: n' placed_append add.assoc [symmetric])
    moreover have "coalesced new"
      using co_pre k(1,4) p by (cases rest) (auto simp: n' coalesced_append touching_def add.assoc [symmetric])
    moreover have "vacant_bytes new = vacant_bytes old \<union> {a..<a + n}"
      using p k(5) sp vb by (auto simp: n' old_def)
    moreover have "held new = held old - {(a, n)}"
      using p k(1,6) nin by (auto simp: n' old_def)
    moreover have "tiles lo old hi \<longrightarrow> tiles lo new hi"
      using p k(1,7) by (auto simp: n' old_def tiles_append add.assoc [symmetric])
    ultimately show ?thesis by blast
  qed
  then show "placed lo new hi" "coalesced new" "vacant_bytes new = vacant_bytes old \<union> {a..<a + n}"
    "held new = held old - {(a, n)}" "tiles lo old hi \<Longrightarrow> tiles lo new hi" by blast+
qed

section \<open>Runs of available bytes\<close>

text \<open>
  A run of available bytes never spans two pieces of the heap: vacant neighbours are merged and the
  vacant block that ends at the frontier is merged with the tail.
\<close>

lemma run_in_one_piece:
  assumes "placed lo bs hi" "coalesced bs" "0 < n" "{a..<a + n} \<subseteq> vacant_bytes bs \<union> {hi..<tp}"
    and "bs = [] \<or> \<not> vacant (last bs) \<or> stop (last bs) \<noteq> hi \<or> tp \<le> hi"
  shows "{a..<a + n} \<subseteq> {hi..<tp} \<or> (\<exists>b \<in> set bs. vacant b \<and> {a..<a + n} \<subseteq> span b)"
  using assms
proof (induction bs arbitrary: lo)
  case Nil
  then show ?case by simp
next
  case (Cons b bs)
  have co: "coalesced bs" using Cons.prems(2) by (cases bs) auto
  have pl: "placed (stop b) bs hi" using Cons.prems(1) by simp
  have lst: "bs = [] \<or> \<not> vacant (last bs) \<or> stop (last bs) \<noteq> hi \<or> tp \<le> hi" using Cons.prems(5) by (cases bs) auto
  have vw: "vacant_bytes bs \<subseteq> {stop b..<hi}" by (rule vacant_bytes_within [OF pl])
  have hi: "stop b \<le> hi" using pl by (rule placed_le)
  show ?case
  proof (cases "vacant b \<and> {a..<a + n} \<inter> span b \<noteq> {}")
    case False
    then have "{a..<a + n} \<subseteq> vacant_bytes bs \<union> {hi..<tp}" using Cons.prems(4) by (auto split: if_splits)
    from Cons.IH [OF pl co Cons.prems(3) this lst] show ?thesis by auto
  next
    case True
    then have ab: "a < stop b" by (auto simp: span_def)
    have gap: "stop b \<notin> vacant_bytes bs \<union> {hi..<tp}"
    proof (cases bs)
      case Nil
      with Cons.prems(5) True hi show ?thesis by auto
    next
      case (Cons d ds)
      have nt: "\<not> touching b d" and hd: "stop b \<le> start d" "0 < len d" "placed (stop d) ds hi"
        using Cons.prems(1,2) \<open>bs = d # ds\<close> by auto
      have "stop d \<le> hi" using hd(3) by (rule placed_le)
      moreover have "stop b \<notin> span d \<or> \<not> vacant d" using nt True hd by (auto simp: touching_def span_def)
      moreover have "vacant_bytes ds \<subseteq> {stop d..<hi}" using hd(3) by (rule vacant_bytes_within)
      ultimately show ?thesis using hd by (auto simp: Cons split: if_splits)
    qed
    have "stop b \<notin> span b" by (simp add: span_def)
    then have "stop b \<notin> {a..<a + n}" using gap Cons.prems(4) by (auto split: if_splits)
    then have "a + n \<le> stop b" using ab by auto
    moreover have "start b \<le> a"
    proof -
      have "a \<in> {a..<a + n}" using Cons.prems(3) by simp
      then have "a \<in> vacant_bytes (b # bs) \<union> {hi..<tp}" using Cons.prems(4) by blast
      then show ?thesis using ab vw hi by (auto simp: span_def split: if_splits)
    qed
    ultimately have "{a..<a + n} \<subseteq> span b" by (auto simp: span_def)
    with True show ?thesis by auto
  qed
qed

lemma align_up_least:
  assumes p: "pow2 al" and ge: "unat x \<le> y" "y < 2 ^ 32" and m: "y mod unat al = 0"
  shows "unat (align_up x al) \<le> y" "\<not> align_up x al < x"
proof -
  have alp: "0 < unat al" using p by (rule pow2_nonzero)
  obtain k where k: "k < 32" "unat al = 2 ^ k" using pow2_unat [OF p] by blast
  have dv: "unat al dvd 2 ^ 32" unfolding k(2) by (rule le_imp_power_dvd) (use k(1) in simp)
  then have "unat al dvd 2 ^ 32 - y" using m by (simp add: mod_0_imp_dvd dvd_diff_nat)
  with ge(2) have "unat al \<le> 2 ^ 32 - y" by (auto dest: dvd_imp_le)
  then have nw: "unat x + unat al - 1 < 2 ^ 32" using ge by linarith
  show "\<not> align_up x al < x" using align_up_nat(2) [OF p, of x] nw by blast
  have v: "unat (align_up x al) = (unat x + unat al - 1) div unat al * unat al"
    using align_up_nat(3) [OF p nw] by (simp add: minus_mod_eq_div_mult)
  have "(unat x + unat al - 1) div unat al \<le> (y + unat al - 1) div unat al"
    using ge(1) by (intro div_le_mono) simp
  also have "(y + unat al - 1) div unat al = y div unat al"
  proof -
    obtain q where q: "y = unat al * q" using m by auto
    have "y + unat al - 1 = (unat al - 1) + unat al * q" using alp by (simp add: q)
    also have "\<dots> div unat al = q + (unat al - 1) div unat al" using alp by (intro div_mult_self2) simp
    also have "\<dots> = y div unat al" using alp by (simp add: q)
    finally show ?thesis .
  qed
  finally have "unat (align_up x al) \<le> y div unat al * unat al" unfolding v by (rule mult_le_mono1)
  also have "\<dots> \<le> y" by simp
  finally show "unat (align_up x al) \<le> y" .
qed

end
