(* ===== verification/Guest_Heap.thy ===== *)
theory Guest_Heap
  imports Guest_Memory Block_Table
begin

text \<open>
  The guest heap of \<open>src/kernel/xbox_memory_layout.c\<close>: every kernel export that hands memory to the
  title takes it from here. The arena lies between the end of the stack region and the top of RAM
  (or of the mapping); \<open>g_heap_next\<close> is the frontier below which blocks have been cut, and the
  table \<open>g_heap_blocks\<close>, in address order, records every block cut so far. A freed block keeps its
  entry, is merged with its neighbours, and is cut up again by later requests. An entry merged
  into a neighbour stays behind as a hole of size zero. The first \<open>g_heap_block_count\<close> entries of the C array are
  the list; \<open>memmove\<close> is list surgery. The switches \<open>RECOMP_HEAP_NO_FREE\<close> and
  \<open>RECOMP_HEAP_POISON\<close>, read once from the environment, are fields of the configuration, and the
  log lines are left out.
\<close>

section \<open>Configuration\<close>

record heap_env =
  g_xbox_total_ram :: u64
  g_xbox_map_size :: u64
  g_separate_reserve_space :: bool
  g_xbox_low_base :: u32
  heap_no_free :: bool
  heap_poison_byte :: "u8 option"

definition xbox_SetTotalRam :: "u64 \<Rightarrow> heap_env \<Rightarrow> heap_env" where
  "xbox_SetTotalRam bytes c = c\<lparr>g_xbox_total_ram := bytes\<rparr>"

definition xbox_SetMapSize :: "u64 \<Rightarrow> heap_env \<Rightarrow> heap_env" where
  "xbox_SetMapSize bytes c = c\<lparr>g_xbox_map_size := bytes\<rparr>"

definition UINT32_MAX :: u64 where "UINT32_MAX = 0xFFFFFFFF"

definition xbox_EnableSeparateReserveSpace :: "u64 \<Rightarrow> heap_env \<Rightarrow> heap_env" where
  "xbox_EnableSeparateReserveSpace bytes c =
     (let bytes = if bytes > UINT32_MAX - g_xbox_total_ram c then UINT32_MAX - g_xbox_total_ram c else bytes
      in c\<lparr>g_xbox_map_size := g_xbox_total_ram c + bytes, g_separate_reserve_space := bytes \<noteq> 0\<rparr>)"

definition xbox_SeparateReserveSpaceEnabled :: "heap_env \<Rightarrow> bool" where
  "xbox_SeparateReserveSpaceEnabled c = g_separate_reserve_space c"

definition XBOX_STACK_SIZE :: u32 where "XBOX_STACK_SIZE = 2 * 1024 * 1024"

definition XBOX_STACK_BASE :: "heap_env \<Rightarrow> u32" where
  "XBOX_STACK_BASE c = g_xbox_low_base c + 0x80000"

definition XBOX_HEAP_BASE :: "heap_env \<Rightarrow> u32" where
  "XBOX_HEAP_BASE c = XBOX_STACK_BASE c + XBOX_STACK_SIZE"

definition XBOX_HEAP_TOP :: "heap_env \<Rightarrow> u32" where
  "XBOX_HEAP_TOP c = ucast (if xbox_SeparateReserveSpaceEnabled c then g_xbox_total_ram c
     else if g_xbox_map_size c \<noteq> 0 then g_xbox_map_size c else g_xbox_total_ram c)"

definition XBOX_TOTAL_RAM :: u64 where "XBOX_TOTAL_RAM = 64 * 1024 * 1024"

section \<open>The block table\<close>

record heap_block =
  hb_addr :: u32
  hb_size :: u32
  hb_req :: u32
  hb_ra :: u32
  hb_ord :: u16
  hb_free :: bool
  hb_reused :: bool

record guest_heap =
  g_heap_next :: u32
  g_heap_blocks :: "heap_block list"
  g_heap_alloc_count :: nat
  g_heap_reuse_count :: nat
  g_heap_owner_ord :: u32
  g_heap_owner_ra :: u32
  g_heap_ord_allocs :: "nat \<Rightarrow> u32"
  g_heap_ord_frees :: "nat \<Rightarrow> u32"
  g_heap_ord_alloc_bytes :: "nat \<Rightarrow> u64"
  g_heap_ord_free_bytes :: "nat \<Rightarrow> u64"
  guest_ram :: memory

definition heap_statics :: "memory \<Rightarrow> guest_heap" where
  "heap_statics m = \<lparr>g_heap_next = 0, g_heap_blocks = [], g_heap_alloc_count = 0, g_heap_reuse_count = 0,
     g_heap_owner_ord = 0, g_heap_owner_ra = 0, g_heap_ord_allocs = (\<lambda>_. 0), g_heap_ord_frees = (\<lambda>_. 0),
     g_heap_ord_alloc_bytes = (\<lambda>_. 0), g_heap_ord_free_bytes = (\<lambda>_. 0), guest_ram = m\<rparr>"

definition XBOX_HEAP_MAX_BLOCKS :: nat where "XBOX_HEAP_MAX_BLOCKS = 65536"
definition XBOX_HEAP_SPLIT_MIN :: u32 where "XBOX_HEAP_SPLIT_MIN = 4096"
definition XBOX_HEAP_ORD_MAX :: u32 where "XBOX_HEAP_ORD_MAX = 512"

definition xbox_HeapSetOwner :: "u32 \<Rightarrow> u32 \<Rightarrow> guest_heap \<Rightarrow> guest_heap" where
  "xbox_HeapSetOwner ordinal guest_ra s = s\<lparr>g_heap_owner_ord := ordinal, g_heap_owner_ra := guest_ra\<rparr>"

definition memset_at :: "memory \<Rightarrow> u32 \<Rightarrow> u8 \<Rightarrow> u32 \<Rightarrow> memory" where
  "memset_at m va v n = (\<lambda>p. if unat va \<le> p \<and> p < unat va + unat n then v else m p)"

section \<open>Allocation\<close>

text \<open>The last entry below \<open>n\<close> that still describes a block.\<close>

fun heap_live_entry_before :: "heap_block list \<Rightarrow> nat \<Rightarrow> nat option" where
  "heap_live_entry_before bs 0 = None"
| "heap_live_entry_before bs (Suc i) = (if hb_size (bs ! i) \<noteq> 0 then Some i else heap_live_entry_before bs i)"

definition heap_live_entry_after :: "heap_block list \<Rightarrow> nat \<Rightarrow> nat option" where
  "heap_live_entry_after bs i = find_from (\<lambda>b. hb_size b \<noteq> 0) (Suc i) (drop (Suc i) bs)"

definition heap_absorb_frontier :: "heap_env \<Rightarrow> guest_heap \<Rightarrow> guest_heap" where
  "heap_absorb_frontier c s =
    (if g_heap_next s \<ge> XBOX_HEAP_TOP c then s
     else case heap_live_entry_before (g_heap_blocks s) (length (g_heap_blocks s)) of
       None \<Rightarrow> s
     | Some i \<Rightarrow> let b = g_heap_blocks s ! i in
         if \<not> hb_free b then s
         else if hb_addr b + hb_size b \<noteq> g_heap_next s then s
         else s\<lparr>g_heap_blocks := (g_heap_blocks s)[i := b\<lparr>hb_size := XBOX_HEAP_TOP c - hb_addr b\<rparr>],
                g_heap_next := XBOX_HEAP_TOP c\<rparr>)"

definition reuse_fits :: "u32 \<Rightarrow> u32 \<Rightarrow> nat \<Rightarrow> heap_block \<Rightarrow> bool" where
  "reuse_fits nbytes alignment count b =
    (hb_free b \<and>
     (let base = hb_addr b; aligned = align_up base alignment; lead = aligned - base; capacity = hb_size b in
        \<not> aligned < base \<and> \<not> capacity < lead \<and> \<not> capacity - lead < nbytes
        \<and> \<not> (lead \<noteq> 0 \<and> count + 2 > XBOX_HEAP_MAX_BLOCKS)))"

definition carve_lead :: "u32 \<Rightarrow> nat \<times> heap_block list \<Rightarrow> nat \<times> heap_block list" where
  "carve_lead alignment = (\<lambda>(i, bs).
     let base = hb_addr (bs ! i); aligned = align_up base alignment; lead = aligned - base;
         avail = hb_size (bs ! i) - lead in
     if lead \<noteq> 0 then
       let bs = dup_at i bs in
       (Suc i, bs[i := (bs ! i)\<lparr>hb_size := lead\<rparr>,
                  Suc i := (bs ! Suc i)\<lparr>hb_addr := aligned, hb_size := avail\<rparr>])
     else (i, bs))"

definition carve_spare :: "u32 \<Rightarrow> u32 \<Rightarrow> nat \<times> heap_block list \<Rightarrow> nat \<times> heap_block list" where
  "carve_spare nbytes alignment = (\<lambda>(i, bs).
     let capacity = hb_size (bs ! i);
         kept = align_up nbytes alignment;
         kept = if kept < nbytes then capacity else kept;
         spare = if capacity > kept then capacity - kept else 0 in
     if spare \<ge> XBOX_HEAP_SPLIT_MIN \<and> length bs < XBOX_HEAP_MAX_BLOCKS then
       (i, (insert_after i \<lparr>hb_addr = hb_addr (bs ! i) + kept, hb_size = spare, hb_req = 0, hb_ra = 0,
              hb_ord = 0, hb_free = True, hb_reused = False\<rparr> bs)[i := (bs ! i)\<lparr>hb_size := kept\<rparr>])
     else (i, bs))"

definition tally_alloc :: "u32 \<Rightarrow> guest_heap \<Rightarrow> guest_heap" where
  "tally_alloc nbytes s =
    (if g_heap_owner_ord s < XBOX_HEAP_ORD_MAX then
       let o' = unat (g_heap_owner_ord s) in
       s\<lparr>g_heap_ord_allocs := (g_heap_ord_allocs s)(o' := g_heap_ord_allocs s o' + 1),
         g_heap_ord_alloc_bytes := (g_heap_ord_alloc_bytes s)(o' := g_heap_ord_alloc_bytes s o' + ucast nbytes)\<rparr>
     else s)"

definition heap_reuse :: "u32 \<Rightarrow> u32 \<Rightarrow> nat \<Rightarrow> guest_heap \<Rightarrow> u32 \<times> guest_heap" where
  "heap_reuse nbytes alignment i s =
    (case carve_spare nbytes alignment (carve_lead alignment (i, g_heap_blocks s)) of (i, bs) \<Rightarrow>
       let b = (bs ! i)\<lparr>hb_free := False, hb_req := nbytes, hb_ord := ucast (g_heap_owner_ord s),
                        hb_ra := g_heap_owner_ra s, hb_reused := True\<rparr>;
           s = tally_alloc nbytes (s\<lparr>g_heap_blocks := bs[i := b], g_heap_reuse_count := g_heap_reuse_count s + 1\<rparr>)
       in (hb_addr b, s\<lparr>guest_ram := memset_at (guest_ram s) (hb_addr b) 0 nbytes\<rparr>))"

definition heap_bump :: "heap_env \<Rightarrow> u32 \<Rightarrow> u32 \<Rightarrow> guest_heap \<Rightarrow> u32 \<times> guest_heap" where
  "heap_bump c nbytes alignment s =
    (let result = align_up (g_heap_next s) alignment in
     if result + nbytes > XBOX_HEAP_TOP c then (0, s)
     else
       let s = s\<lparr>g_heap_next := result + nbytes, guest_ram := memset_at (guest_ram s) result 0 nbytes\<rparr>;
           s = (if length (g_heap_blocks s) < XBOX_HEAP_MAX_BLOCKS then
                  s\<lparr>g_heap_blocks := g_heap_blocks s @ [\<lparr>hb_addr = result, hb_size = nbytes, hb_req = nbytes,
                      hb_ra = g_heap_owner_ra s, hb_ord = ucast (g_heap_owner_ord s), hb_free = False,
                      hb_reused = False\<rparr>]\<rparr>
                else s);
           s = tally_alloc nbytes s
       in (result, s\<lparr>g_heap_alloc_count := g_heap_alloc_count s + 1\<rparr>))"

definition heap_started :: "heap_env \<Rightarrow> guest_heap \<Rightarrow> guest_heap" where
  "heap_started c s = (if g_heap_next s = 0 then s\<lparr>g_heap_next := XBOX_HEAP_BASE c\<rparr> else s)"

definition xbox_HeapAlloc :: "heap_env \<Rightarrow> u32 \<Rightarrow> u32 \<Rightarrow> guest_heap \<Rightarrow> u32 \<times> guest_heap" where
  "xbox_HeapAlloc c nbytes alignment s =
    (let s = heap_started c s;
         alignment = if alignment < 4 then 4 else alignment;
         nbytes = if nbytes < 16 then 16 else nbytes;
         s = heap_absorb_frontier c s
     in case find_from (reuse_fits nbytes alignment (length (g_heap_blocks s))) 0 (g_heap_blocks s) of
          Some i \<Rightarrow> heap_reuse nbytes alignment i s
        | None \<Rightarrow> heap_bump c nbytes alignment s)"

section \<open>Queries\<close>

definition heap_canonical_va :: "heap_env \<Rightarrow> u32 \<Rightarrow> u32" where
  "heap_canonical_va c va =
    (let ram = ucast (if g_xbox_total_ram c \<noteq> 0 then g_xbox_total_ram c else XBOX_TOTAL_RAM) in
     if va \<ge> 0x80000000 \<and> va < 0x80000000 + ram then va - 0x80000000 else va)"

definition covers :: "heap_block \<Rightarrow> u32 \<Rightarrow> bool" where
  "covers b va = (va \<ge> hb_addr b \<and> va < hb_addr b + hb_size b)"

definition xbox_HeapBlockSize :: "heap_env \<Rightarrow> u32 \<Rightarrow> guest_heap \<Rightarrow> u32" where
  "xbox_HeapBlockSize c xbox_va s =
    (if xbox_va = 0 then 0
     else let va = heap_canonical_va c xbox_va in
       case find_from (\<lambda>b. \<not> (hb_free b \<or> hb_size b = 0) \<and> covers b va) 0 (g_heap_blocks s) of
         Some i \<Rightarrow> let b = g_heap_blocks s ! i in hb_size b - (va - hb_addr b)
       | None \<Rightarrow> 0)"

text \<open>What \<open>xbox_HeapDescribe\<close> prints about an address, as data.\<close>

datatype heap_description = Null_address | Not_issued | Issued_block heap_block

definition xbox_HeapDescribe :: "heap_env \<Rightarrow> u32 \<Rightarrow> guest_heap \<Rightarrow> heap_description" where
  "xbox_HeapDescribe c xbox_va s =
    (if xbox_va = 0 then Null_address
     else let va = heap_canonical_va c xbox_va in
       case find_from (\<lambda>b. hb_size b \<noteq> 0 \<and> covers b va) 0 (g_heap_blocks s) of
         Some i \<Rightarrow> Issued_block (g_heap_blocks s ! i)
       | None \<Rightarrow> Not_issued)"

record heap_account =
  live_n :: nat
  live_bytes :: u64
  free_n :: nat
  free_bytes :: u64
  dead_n :: nat
  retained :: u64
  largest_free :: u32

definition account_block :: "heap_account \<Rightarrow> heap_block \<Rightarrow> heap_account" where
  "account_block a b =
    (let sz = hb_size b in
     if sz = 0 then a\<lparr>dead_n := dead_n a + 1\<rparr>
     else if hb_free b then
       a\<lparr>free_n := free_n a + 1, free_bytes := free_bytes a + ucast sz,
         largest_free := if sz > largest_free a then sz else largest_free a\<rparr>
     else a\<lparr>live_n := live_n a + 1, live_bytes := live_bytes a + ucast sz,
            retained := if sz > hb_req b then retained a + ucast (sz - hb_req b) else retained a\<rparr>)"

definition heap_report :: "guest_heap \<Rightarrow> heap_account" where
  "heap_report s = fold (\<lambda>b a. account_block a b) (g_heap_blocks s)
     \<lparr>live_n = 0, live_bytes = 0, free_n = 0, free_bytes = 0, dead_n = 0, retained = 0, largest_free = 0\<rparr>"

section \<open>Release\<close>

definition heap_join_next :: "nat \<Rightarrow> heap_block list \<Rightarrow> heap_block list" where
  "heap_join_next i bs =
    (case heap_live_entry_after bs i of
       None \<Rightarrow> bs
     | Some n \<Rightarrow>
         if hb_free (bs ! n) \<and> hb_addr (bs ! i) + hb_size (bs ! i) = hb_addr (bs ! n) then
           bs[i := (bs ! i)\<lparr>hb_size := hb_size (bs ! i) + hb_size (bs ! n)\<rparr>,
              n := (bs ! n)\<lparr>hb_size := 0, hb_addr := 0\<rparr>]
         else bs)"

definition heap_join_prev :: "nat \<Rightarrow> heap_block list \<Rightarrow> heap_block list" where
  "heap_join_prev i bs =
    (case heap_live_entry_before bs i of
       None \<Rightarrow> bs
     | Some p \<Rightarrow>
         if hb_free (bs ! p) \<and> hb_addr (bs ! p) + hb_size (bs ! p) = hb_addr (bs ! i) then
           bs[p := (bs ! p)\<lparr>hb_size := hb_size (bs ! p) + hb_size (bs ! i)\<rparr>,
              i := (bs ! i)\<lparr>hb_size := 0, hb_addr := 0\<rparr>]
         else bs)"

definition tally_free :: "u32 \<Rightarrow> guest_heap \<Rightarrow> guest_heap" where
  "tally_free nbytes s =
    (if g_heap_owner_ord s < XBOX_HEAP_ORD_MAX then
       let o' = unat (g_heap_owner_ord s) in
       s\<lparr>g_heap_ord_frees := (g_heap_ord_frees s)(o' := g_heap_ord_frees s o' + 1),
         g_heap_ord_free_bytes := (g_heap_ord_free_bytes s)(o' := g_heap_ord_free_bytes s o' + ucast nbytes)\<rparr>
     else s)"

definition xbox_HeapFree :: "heap_env \<Rightarrow> u32 \<Rightarrow> guest_heap \<Rightarrow> guest_heap" where
  "xbox_HeapFree c xbox_va s =
    (if xbox_va = 0 then s
     else if heap_no_free c then s
     else let va = heap_canonical_va c xbox_va in
       case find_from (\<lambda>b. \<not> (hb_size b = 0 \<or> hb_addr b \<noteq> va \<or> hb_free b)) 0 (g_heap_blocks s) of
         None \<Rightarrow> s
       | Some i \<Rightarrow>
         let b = g_heap_blocks s ! i;
             s = (case heap_poison_byte c of
                    None \<Rightarrow> s
                  | Some v \<Rightarrow> s\<lparr>guest_ram := memset_at (guest_ram s) (hb_addr b) v (hb_size b)\<rparr>);
             s = tally_free (hb_size b) s;
             b = b\<lparr>hb_free := True, hb_req := 0, hb_ord := 0, hb_ra := 0\<rparr>
         in s\<lparr>g_heap_blocks := heap_join_prev i (heap_join_next i ((g_heap_blocks s)[i := b]))\<rparr>)"

end
