(* ===== verification/Memory_Provider.thy ===== *)
theory Memory_Provider
  imports Prelude
begin

text \<open>
  The contract of an allocator, as its callers see it: requests are granted out of a set of available
  bytes, a granted block is live until it is released, and a release makes available the bytes of
  the live blocks it names and of no others. The client is the title, which keeps its own ledger of
  the blocks it was given; the contract keeps the blocks of the ledger apart, whatever the order
  of requests and releases. Every allocator of the memory manager is an instance, and so is their
  composition behind the kernel exports.
\<close>

section \<open>Requests and the caller's ledger\<close>

datatype ('q, 'r) memory_call = Take 'q | Give 'r

type_synonym ledger = "(nat \<times> nat) list"

definition extent :: "nat \<times> nat \<Rightarrow> nat set" where "extent b = {fst b..<fst b + snd b}"

lemma extent_pair [simp]: "extent (a, n) = {a..<a + n}" by (simp add: extent_def)

definition apart :: "(nat \<times> nat) set \<Rightarrow> bool" where
  "apart B \<longleftrightarrow> (\<forall>b \<in> B. \<forall>d \<in> B. b \<noteq> d \<longrightarrow> extent b \<inter> extent d = {})"

text \<open>No two entries of a ledger share a byte, not even two entries for the same block.\<close>

definition entries_apart :: "ledger \<Rightarrow> bool" where
  "entries_apart I \<longleftrightarrow> sorted_wrt (\<lambda>b d. extent b \<inter> extent d = {}) I"

text \<open>One call, on the allocator and on the ledger: a granted block is entered, and a release strikes
  the entries that start where the blocks it names start.\<close>

definition call_step ::
  "('q \<Rightarrow> 's \<Rightarrow> u32 \<times> u32 \<times> 's) \<Rightarrow> ('r \<Rightarrow> 's \<Rightarrow> 's) \<Rightarrow> ('r \<Rightarrow> 's \<Rightarrow> (nat \<times> nat) set)
   \<Rightarrow> ('q, 'r) memory_call \<Rightarrow> 's \<times> ledger \<Rightarrow> 's \<times> ledger" where
  "call_step alloc release names op = (\<lambda>(s, I). case op of
     Take q \<Rightarrow> (case alloc q s of (r, n, s') \<Rightarrow>
        (s', if r = 0 then I else (unat r, unat n) # I))
   | Give r \<Rightarrow> (release r s, filter (\<lambda>b. fst b \<notin> fst ` names r s) I))"

definition run_calls ::
  "('q \<Rightarrow> 's \<Rightarrow> u32 \<times> u32 \<times> 's) \<Rightarrow> ('r \<Rightarrow> 's \<Rightarrow> 's) \<Rightarrow> ('r \<Rightarrow> 's \<Rightarrow> (nat \<times> nat) set)
   \<Rightarrow> ('q, 'r) memory_call list \<Rightarrow> 's \<times> ledger \<Rightarrow> 's \<times> ledger" where
  "run_calls alloc release names ops x = fold (call_step alloc release names) ops x"

fun call_ok :: "('q \<Rightarrow> bool) \<Rightarrow> ('q, 'r) memory_call \<Rightarrow> bool" where
  "call_ok good (Take q) = good q"
| "call_ok good (Give r) = True"

section \<open>The contract\<close>

locale memory_provider =
  fixes inv :: "'s \<Rightarrow> bool"
    and available :: "'s \<Rightarrow> nat set"
    and live :: "'s \<Rightarrow> (nat \<times> nat) set"
    and good :: "'q \<Rightarrow> bool"
    and alloc :: "'q \<Rightarrow> 's \<Rightarrow> u32 \<times> u32 \<times> 's"
    and release :: "'r \<Rightarrow> 's \<Rightarrow> 's"
    and names :: "'r \<Rightarrow> 's \<Rightarrow> (nat \<times> nat) set"
  assumes live_taken: "inv s \<Longrightarrow> b \<in> live s \<Longrightarrow> extent b \<inter> available s = {} \<and> 0 < snd b"
    and live_apart: "inv s \<Longrightarrow> apart (live s)"
    and alloc_inv: "inv s \<Longrightarrow> good q \<Longrightarrow> alloc q s = (r, n, s') \<Longrightarrow> inv s'"
    and alloc_refused: "inv s \<Longrightarrow> good q \<Longrightarrow> alloc q s = (0, n, s') \<Longrightarrow>
      available s' = available s \<and> live s' = live s"
    and alloc_granted: "inv s \<Longrightarrow> good q \<Longrightarrow> alloc q s = (r, n, s') \<Longrightarrow> r \<noteq> 0 \<Longrightarrow>
      \<exists>k \<ge> unat n. extent (unat r, k) \<subseteq> available s \<and> available s' \<subseteq> available s - extent (unat r, k)
        \<and> (live s' = insert (unat r, k) (live s) \<or> live s' = live s)"
    and release_inv: "inv s \<Longrightarrow> inv (release x s)"
    and release_live: "inv s \<Longrightarrow> live (release x s) = live s - names x s"
    and names_live: "inv s \<Longrightarrow> names x s \<subseteq> live s"
    and release_available: "inv s \<Longrightarrow> available (release x s) = available s \<union> \<Union> (extent ` names x s)"
begin

text \<open>An entry of the ledger holds no available byte, and meets no live block but its own.\<close>

definition ledger_ok :: "'s \<times> ledger \<Rightarrow> bool" where
  "ledger_ok = (\<lambda>(s, I). inv s \<and> entries_apart I \<and>
     (\<forall>b \<in> set I. extent b \<inter> available s = {} \<and>
        (\<forall>d \<in> live s. fst d = fst b \<and> snd b \<le> snd d \<or> extent b \<inter> extent d = {})))"

lemma ledger_ok_take:
  assumes ok: "ledger_ok (s, I)" and g: "good q"
  shows "ledger_ok (call_step alloc release names (Take q) (s, I))"
proof -
  obtain r n s' where a: "alloc q s = (r, n, s')" by (cases "alloc q s") auto
  have inv: "inv s" using ok by (simp add: ledger_ok_def)
  show ?thesis
  proof (cases "r = 0")
    case True
    with alloc_refused [OF inv g, of n s'] a ok alloc_inv [OF inv g a] show ?thesis
      by (simp add: ledger_ok_def call_step_def)
  next
    case False
    obtain k where k: "unat n \<le> k" "extent (unat r, k) \<subseteq> available s"
      "available s' \<subseteq> available s - extent (unat r, k)"
      "live s' = insert (unat r, k) (live s) \<or> live s' = live s"
      using alloc_granted [OF inv g a False] by blast
    let ?b = "(unat r, unat n)"
    have sub: "extent ?b \<subseteq> extent (unat r, k)" using k(1) by auto
    have old: "extent d \<inter> extent (unat r, k) = {}" if "d \<in> set I \<or> d \<in> live s" for d
      using that ok k(2) live_taken [OF inv, of d] by (auto simp: ledger_ok_def)
    have meets: "extent ?b \<inter> extent d = {}" if "d \<in> set I \<or> d \<in> live s" for d
      using old [OF that] sub by blast
    have "entries_apart (?b # I)"
      using ok meets by (auto simp: ledger_ok_def entries_apart_def simp del: extent_pair)
    moreover have "extent b \<inter> available s' = {} \<and>
        (\<forall>d \<in> live s'. fst d = fst b \<and> snd b \<le> snd d \<or> extent b \<inter> extent d = {})"
      if b: "b \<in> set (?b # I)" for b
    proof (cases "b \<in> set I")
      case True
      have "extent b \<inter> available s' = {}" using ok True k(3) by (auto simp: ledger_ok_def)
      moreover have "fst d = fst b \<and> snd b \<le> snd d \<or> extent b \<inter> extent d = {}" if "d \<in> live s'" for d
      proof (cases "d \<in> live s")
        case True
        with ok \<open>b \<in> set I\<close> show ?thesis by (auto simp: ledger_ok_def)
      next
        case False
        with that k(4) have "d = (unat r, k)" by auto
        with old [of b] \<open>b \<in> set I\<close> show ?thesis by blast
      qed
      ultimately show ?thesis by blast
    next
      case False
      with b have eq: "b = ?b" by simp
      have "extent ?b \<inter> available s' = {}" using k(3) sub by blast
      moreover have "fst d = fst ?b \<and> snd ?b \<le> snd d \<or> extent ?b \<inter> extent d = {}" if "d \<in> live s'" for d
        using that k(1,4) meets [of d] by (cases "d \<in> live s") auto
      ultimately show ?thesis unfolding eq by blast
    qed
    ultimately show ?thesis
      using alloc_inv [OF inv g a] False a by (simp add: ledger_ok_def call_step_def del: extent_pair)
  qed
qed

lemma ledger_ok_give:
  assumes ok: "ledger_ok (s, I)"
  shows "ledger_ok (call_step alloc release names (Give x) (s, I))"
proof -
  have inv: "inv s" using ok by (simp add: ledger_ok_def)
  let ?J = "filter (\<lambda>b. fst b \<notin> fst ` names x s) I"
  have "entries_apart ?J" using ok by (simp add: ledger_ok_def entries_apart_def sorted_wrt_filter)
  moreover have "extent b \<inter> available (release x s) = {} \<and>
      (\<forall>d \<in> live (release x s). fst d = fst b \<and> snd b \<le> snd d \<or> extent b \<inter> extent d = {})"
    if b: "b \<in> set ?J" for b
  proof -
    have base: "extent b \<inter> available s = {}"
      "\<forall>d \<in> live s. fst d = fst b \<and> snd b \<le> snd d \<or> extent b \<inter> extent d = {}"
      using ok b by (auto simp: ledger_ok_def)
    have "extent b \<inter> extent d = {}" if d: "d \<in> names x s" for d
    proof -
      have "fst d \<in> fst ` names x s" using d by (rule imageI)
      moreover have "fst b \<notin> fst ` names x s" using b by simp
      ultimately have "fst d \<noteq> fst b" by metis
      moreover have "d \<in> live s" using d names_live [OF inv] by blast
      ultimately show ?thesis using base(2) by blast
    qed
    then have "extent b \<inter> available (release x s) = {}"
      using base(1) unfolding release_available [OF inv] by blast
    with base(2) show ?thesis unfolding release_live [OF inv] by blast
  qed
  ultimately show ?thesis
    using release_inv [OF inv] by (simp add: ledger_ok_def call_step_def del: extent_pair)
qed

lemma ledger_ok_run:
  assumes "ledger_ok x" "list_all (call_ok good) ops"
  shows "ledger_ok (run_calls alloc release names ops x)"
  using assms
proof (induction ops arbitrary: x)
  case (Cons op ops)
  then have "ledger_ok (call_step alloc release names op x)"
    using ledger_ok_take ledger_ok_give by (cases op; cases x) auto
  with Cons show ?case by (simp add: run_calls_def)
qed (simp add: run_calls_def)

theorem ledger_apart:
  assumes "inv s" "list_all (call_ok good) ops" "run_calls alloc release names ops (s, []) = (s', I)"
  shows "inv s'" "entries_apart I" "\<forall>b \<in> set I. extent b \<inter> available s' = {}"
proof -
  have "ledger_ok (s, [])" using assms(1) by (simp add: ledger_ok_def entries_apart_def)
  from ledger_ok_run [OF this assms(2)] assms(3)
  show "inv s'" "entries_apart I" "\<forall>b \<in> set I. extent b \<inter> available s' = {}"
    by (auto simp: ledger_ok_def)
qed

end

end
