(* ===== verification/Guest_Heap_Inv.thy ===== *)
theory Guest_Heap_Inv
  imports Guest_Heap Memory_Provider
begin

text \<open>
  The invariant of the guest heap. Holes play no part in it, so it is stated of the entries that
  describe a block: they lie in address order inside the part of the arena already cut, and no two
  neighbours are vacant and touching. The lemmas turn each operation on the table, an index
  computation in the code, into an operation on that list of blocks, and show that the invariant
  survives it, which bytes it takes from the vacant ones, and which it gives back.
\<close>

section \<open>The blocks of a table\<close>

definition sized :: "heap_block \<Rightarrow> bool" where "sized b \<longleftrightarrow> hb_size b \<noteq> 0"

definition as_block :: "heap_block \<Rightarrow> block" where
  "as_block b = (unat (hb_addr b), unat (hb_size b), hb_free b)"

definition heap_view :: "heap_block list \<Rightarrow> block list" where
  "heap_view bs = map as_block (filter sized bs)"

lemma heap_view_simps [simp]:
  "heap_view [] = []"
  "heap_view (b # bs) = (if sized b then as_block b # heap_view bs else heap_view bs)"
  "heap_view (xs @ ys) = heap_view xs @ heap_view ys"
  by (auto simp: heap_view_def)

lemma heap_view_holes: "\<forall>b \<in> set bs. \<not> sized b \<Longrightarrow> heap_view bs = []"
  by (simp add: heap_view_def filter_empty_conv)

lemma as_block_sel [simp]:
  "start (as_block b) = unat (hb_addr b)" "len (as_block b) = unat (hb_size b)"
  "vacant (as_block b) = hb_free b"
  by (simp_all add: as_block_def)

definition arena_next :: "heap_env \<Rightarrow> guest_heap \<Rightarrow> nat" where
  "arena_next c s = unat (if g_heap_next s = 0 then XBOX_HEAP_BASE c else g_heap_next s)"

abbreviation arena_base :: "heap_env \<Rightarrow> nat" where "arena_base c \<equiv> unat (XBOX_HEAP_BASE c)"
abbreviation arena_top :: "heap_env \<Rightarrow> nat" where "arena_top c \<equiv> unat (XBOX_HEAP_TOP c)"

definition heap_inv :: "heap_env \<Rightarrow> guest_heap \<Rightarrow> bool" where
  "heap_inv c s \<longleftrightarrow>
     0 < arena_base c \<and> arena_next c s \<le> arena_top c
     \<and> placed (arena_base c) (heap_view (g_heap_blocks s)) (arena_next c s)
     \<and> coalesced (heap_view (g_heap_blocks s))
     \<and> length (g_heap_blocks s) \<le> XBOX_HEAP_MAX_BLOCKS"

definition heap_live :: "guest_heap \<Rightarrow> (nat \<times> nat) set" where
  "heap_live s = held (heap_view (g_heap_blocks s))"

definition heap_available :: "heap_env \<Rightarrow> guest_heap \<Rightarrow> nat set" where
  "heap_available c s = vacant_bytes (heap_view (g_heap_blocks s)) \<union> {arena_next c s..<arena_top c}"

lemma heap_inv_init:
  "0 < arena_base c \<Longrightarrow> arena_base c \<le> arena_top c \<Longrightarrow> heap_inv c (heap_statics m)"
  by (simp add: heap_inv_def heap_statics_def arena_next_def)

lemma heap_started [simp]:
  "g_heap_blocks (heap_started c s) = g_heap_blocks s" "arena_next c (heap_started c s) = arena_next c s"
  "guest_ram (heap_started c s) = guest_ram s"
  by (auto simp: heap_started_def arena_next_def)

lemma next_started: "0 < arena_base c \<Longrightarrow> unat (g_heap_next (heap_started c s)) = arena_next c s"
  by (auto simp: heap_started_def arena_next_def)

lemma next_nonzero: "g_heap_next s \<noteq> 0 \<Longrightarrow> arena_next c s = unat (g_heap_next s)"
  by (simp add: arena_next_def)

section \<open>The scans for an entry that describes a block\<close>

lemma entry_before_Some:
  "n \<le> length bs \<Longrightarrow> heap_live_entry_before bs n = Some i \<Longrightarrow>
   \<exists>pre b holes. take n bs = pre @ b # holes \<and> length pre = i \<and> sized b \<and> (\<forall>h \<in> set holes. \<not> sized h)"
proof (induction n)
  case (Suc n)
  have t: "take (Suc n) bs = take n bs @ [bs ! n]" using Suc.prems(1) by (simp add: take_Suc_conv_app_nth)
  show ?case
  proof (cases "hb_size (bs ! n) \<noteq> 0")
    case True
    with Suc.prems have "i = n" by simp
    with t True Suc.prems(1) show ?thesis
      by (intro exI [of _ "take n bs"] exI [of _ "bs ! n"] exI [of _ "[]"]) (simp add: sized_def)
  next
    case False
    with Suc obtain pre b holes where
      "take n bs = pre @ b # holes" "length pre = i" "sized b" "\<forall>h \<in> set holes. \<not> sized h"
      by auto
    with t False show ?thesis
      by (intro exI [of _ pre] exI [of _ b] exI [of _ "holes @ [bs ! n]"]) (auto simp: sized_def)
  qed
qed simp

lemma entry_before_None:
  "n \<le> length bs \<Longrightarrow> heap_live_entry_before bs n = None \<Longrightarrow> heap_view (take n bs) = []"
proof (induction n)
  case (Suc n)
  moreover have "take (Suc n) bs = take n bs @ [bs ! n]" using Suc.prems(1) by (simp add: take_Suc_conv_app_nth)
  ultimately show ?case by (auto simp: sized_def split: if_splits)
qed simp

section \<open>Absorbing the untouched tail\<close>

lemma absorb_cases:
  fixes c s
  defines "s' \<equiv> heap_absorb_frontier c s"
  assumes nz: "g_heap_next s \<noteq> 0"
  shows "s' = s \<or>
    (\<exists>pre b holes. g_heap_blocks s = pre @ b # holes \<and> sized b \<and> hb_free b \<and> heap_view holes = []
       \<and> g_heap_next s < XBOX_HEAP_TOP c \<and> hb_addr b + hb_size b = g_heap_next s
       \<and> s' = s\<lparr>g_heap_blocks := pre @ b\<lparr>hb_size := XBOX_HEAP_TOP c - hb_addr b\<rparr> # holes,
                g_heap_next := XBOX_HEAP_TOP c\<rparr>)"
proof (cases "g_heap_next s \<ge> XBOX_HEAP_TOP c")
  case True
  then show ?thesis by (simp add: s'_def heap_absorb_frontier_def)
next
  case False
  show ?thesis
  proof (cases "heap_live_entry_before (g_heap_blocks s) (length (g_heap_blocks s))")
    case None
    then show ?thesis by (simp add: s'_def heap_absorb_frontier_def)
  next
    case (Some i)
    then obtain pre b holes where d: "g_heap_blocks s = pre @ b # holes" "length pre = i" "sized b"
      "\<forall>h \<in> set holes. \<not> sized h"
      using entry_before_Some [of "length (g_heap_blocks s)" "g_heap_blocks s" i] by auto
    have "g_heap_blocks s ! i = b" "(g_heap_blocks s)[i := x] = pre @ x # holes" for x
      using d(1,2) by (auto simp: list_update_append)
    with d False Some show ?thesis
      by (auto simp: s'_def heap_absorb_frontier_def Let_def heap_view_holes not_le intro!: exI)
  qed
qed

lemma absorb_inv:
  assumes inv: "heap_inv c s" and nz: "g_heap_next s \<noteq> 0"
  defines "s' \<equiv> heap_absorb_frontier c s"
  shows "heap_inv c s'" "heap_available c s' = heap_available c s" "heap_live s' = heap_live s"
    "g_heap_next s' \<noteq> 0" "guest_ram s' = guest_ram s" "arena_next c s \<le> arena_next c s'"
    "length (g_heap_blocks s') = length (g_heap_blocks s)"
proof -
  consider "s' = s" | (ab) pre b holes where "g_heap_blocks s = pre @ b # holes" "sized b" "hb_free b"
      "heap_view holes = []" "g_heap_next s < XBOX_HEAP_TOP c" "hb_addr b + hb_size b = g_heap_next s"
      "s' = s\<lparr>g_heap_blocks := pre @ b\<lparr>hb_size := XBOX_HEAP_TOP c - hb_addr b\<rparr> # holes,
                g_heap_next := XBOX_HEAP_TOP c\<rparr>"
    using absorb_cases [OF nz, of c] unfolding s'_def by blast
  then have "heap_inv c s' \<and> heap_available c s' = heap_available c s \<and> heap_live s' = heap_live s
    \<and> g_heap_next s' \<noteq> 0 \<and> guest_ram s' = guest_ram s \<and> arena_next c s \<le> arena_next c s'
    \<and> length (g_heap_blocks s') = length (g_heap_blocks s)"
  proof cases
    case 1
    with inv nz show ?thesis by simp
  next
    case ab
    let ?b = "b\<lparr>hb_size := XBOX_HEAP_TOP c - hb_addr b\<rparr>"
    have next0: "arena_next c s = unat (g_heap_next s)" using nz by (simp add: arena_next_def)
    have v: "heap_view (g_heap_blocks s) = heap_view pre @ [as_block b]" using ab by simp
    have pl: "placed (arena_base c) (heap_view pre @ [as_block b]) (unat (g_heap_next s))"
      using inv v by (simp add: heap_inv_def next0)
    then have stop_b: "unat (hb_addr b) + unat (hb_size b) \<le> unat (g_heap_next s)"
      and pre: "placed (arena_base c) (heap_view pre) (unat (hb_addr b))"
      by (auto simp: placed_append elim: placed_mono)
    have lt: "unat (g_heap_next s) < arena_top c" using ab(5) by (simp add: word_less_nat_alt)
    have "unat (hb_addr b) + unat (hb_size b) < 2 ^ 32" using stop_b unat_u32_lt [of "g_heap_next s"] by simp
    then have end_b: "unat (hb_addr b) + unat (hb_size b) = unat (g_heap_next s)"
      using ab(6) unat_add_lem [of "hb_addr b" "hb_size b"] by simp
    have sz: "unat (XBOX_HEAP_TOP c - hb_addr b) = arena_top c - unat (hb_addr b)"
      using lt stop_b by (intro unat_sub) (simp add: word_le_nat_alt)
    have top_nz: "XBOX_HEAP_TOP c \<noteq> 0" using ab(5) by auto
    have big: "sized ?b" using sz lt end_b by (auto simp: sized_def)
    have v': "heap_view (g_heap_blocks s') = heap_view pre @ [as_block ?b]" using ab big by simp
    have next': "arena_next c s' = arena_top c" using ab(7) top_nz by (simp add: arena_next_def)
    have co: "coalesced (heap_view pre @ [as_block b]) \<longleftrightarrow> coalesced (heap_view pre @ [as_block ?b])"
      by (auto simp: coalesced_append touching_def)
    have "placed (arena_base c) (heap_view pre @ [as_block ?b]) (arena_top c)"
      using pre lt sz end_b unfolding placed_append by (intro exI [of _ "unat (hb_addr b)"]) simp
    moreover have "length (g_heap_blocks s') = length (g_heap_blocks s)" using ab by simp
    ultimately have "heap_inv c s'"
      using inv co unfolding heap_inv_def v v' next' by simp
    moreover have "heap_available c s' = heap_available c s"
      using lt end_b sz ab(3) by (auto simp: heap_available_def next0 next' v v' span_def)
    moreover have "heap_live s' = heap_live s"
      using ab(3) by (simp add: heap_live_def v v')
    moreover have "arena_next c s \<le> arena_next c s'" using lt unfolding next0 next' by simp
    moreover have "g_heap_next s' \<noteq> 0 \<and> guest_ram s' = guest_ram s
      \<and> length (g_heap_blocks s') = length (g_heap_blocks s)" using ab top_nz by simp
    ultimately show ?thesis by blast
  qed
  then show "heap_inv c s'" "heap_available c s' = heap_available c s" "heap_live s' = heap_live s"
    "g_heap_next s' \<noteq> 0" "guest_ram s' = guest_ram s" "arena_next c s \<le> arena_next c s'"
    "length (g_heap_blocks s') = length (g_heap_blocks s)"
    by blast+
qed

section \<open>Cutting a vacant block\<close>

lemma reuse_fits_nat:
  assumes p: "pow2 al" and n: "0 < unat n" and e: "unat (hb_addr b) + unat (hb_size b) < 2 ^ 32"
    and fits: "reuse_fits n al cnt b"
  defines "x \<equiv> unat (align_up (hb_addr b) al)"
  shows "hb_free b" "unat (hb_addr b) \<le> x" "x + unat n \<le> unat (hb_addr b) + unat (hb_size b)"
    "x mod unat al = 0" "unat (align_up (hb_addr b) al - hb_addr b) = x - unat (hb_addr b)"
    "unat (hb_size b - (align_up (hb_addr b) al - hb_addr b)) = unat (hb_addr b) + unat (hb_size b) - x"
    "align_up (hb_addr b) al \<noteq> hb_addr b \<longrightarrow> cnt + 2 \<le> XBOX_HEAP_MAX_BLOCKS" "sized b"
proof -
  have f: "hb_free b" "\<not> align_up (hb_addr b) al < hb_addr b"
    "\<not> hb_size b < align_up (hb_addr b) al - hb_addr b"
    "\<not> hb_size b - (align_up (hb_addr b) al - hb_addr b) < n"
    "\<not> (align_up (hb_addr b) al - hb_addr b \<noteq> 0 \<and> cnt + 2 > XBOX_HEAP_MAX_BLOCKS)"
    using fits by (auto simp: reuse_fits_def Let_def)
  then have le: "unat (hb_addr b) \<le> x" by (simp add: x_def word_less_nat_alt)
  then have lead: "unat (align_up (hb_addr b) al - hb_addr b) = x - unat (hb_addr b)"
    unfolding x_def by (intro unat_sub) (simp add: word_le_nat_alt)
  then have cap: "x - unat (hb_addr b) \<le> unat (hb_size b)"
    using f(3) by (simp add: word_less_nat_alt)
  then have avail: "unat (hb_size b - (align_up (hb_addr b) al - hb_addr b)) = unat (hb_size b) - (x - unat (hb_addr b))"
    unfolding lead [symmetric] by (intro unat_sub) (simp add: word_le_nat_alt)
  with f(4) have "unat n \<le> unat (hb_size b) - (x - unat (hb_addr b))"
    by (simp add: word_less_nat_alt)
  with le cap n show "x + unat n \<le> unat (hb_addr b) + unat (hb_size b)" by linarith
  show "hb_free b" "unat (hb_addr b) \<le> x" "unat (align_up (hb_addr b) al - hb_addr b) = x - unat (hb_addr b)"
    by fact+
  show "unat (hb_size b - (align_up (hb_addr b) al - hb_addr b)) = unat (hb_addr b) + unat (hb_size b) - x"
    using avail le cap by simp
  show "x mod unat al = 0" unfolding x_def by (rule align_up_nat(1) [OF p])
  show "align_up (hb_addr b) al \<noteq> hb_addr b \<longrightarrow> cnt + 2 \<le> XBOX_HEAP_MAX_BLOCKS" using f(5) by auto
  show "sized b" using cap n \<open>unat n \<le> _\<close> by (auto simp: sized_def)
qed

text \<open>The three pieces a vacant block is cut into: what lies before the aligned start, what the request
  takes, and the rest where that is worth an entry.\<close>

definition lead_piece :: "u32 \<Rightarrow> heap_block \<Rightarrow> heap_block list" where
  "lead_piece al b = (let lead = align_up (hb_addr b) al - hb_addr b in
     if lead \<noteq> 0 then [b\<lparr>hb_size := lead\<rparr>] else [])"

definition aligned_piece :: "u32 \<Rightarrow> heap_block \<Rightarrow> heap_block" where
  "aligned_piece al b = b\<lparr>hb_addr := align_up (hb_addr b) al,
     hb_size := hb_size b - (align_up (hb_addr b) al - hb_addr b)\<rparr>"

lemma carve_lead_split:
  "carve_lead al (length pre, pre @ b # post) =
   (length (pre @ lead_piece al b), (pre @ lead_piece al b) @ aligned_piece al b # post)"
  by (auto simp: carve_lead_def Let_def lead_piece_def aligned_piece_def list_update_append)

definition kept_size :: "u32 \<Rightarrow> u32 \<Rightarrow> u32 \<Rightarrow> u32" where
  "kept_size n al capacity = (let kept = align_up n al in if kept < n then capacity else kept)"

lemma carve_spare_split:
  "carve_spare n al (length pre, pre @ b # post) =
   (length pre,
    let kept = kept_size n al (hb_size b); spare = if hb_size b > kept then hb_size b - kept else 0 in
    if spare \<ge> XBOX_HEAP_SPLIT_MIN \<and> length (pre @ b # post) < XBOX_HEAP_MAX_BLOCKS then
      pre @ b\<lparr>hb_size := kept\<rparr> # \<lparr>hb_addr = hb_addr b + kept, hb_size = spare, hb_req = 0, hb_ra = 0,
              hb_ord = 0, hb_free = True, hb_reused = False\<rparr> # post
    else pre @ b # post)"
  by (auto simp: carve_spare_def Let_def kept_size_def list_update_append)

lemma kept_size_nat:
  assumes "pow2 al" "unat n \<le> unat cap"
  shows "unat n \<le> unat (kept_size n al cap)"
  using assms by (auto simp: kept_size_def Let_def word_less_nat_alt)

lemma tally_alloc_sel [simp]:
  "g_heap_blocks (tally_alloc n s) = g_heap_blocks s" "g_heap_next (tally_alloc n s) = g_heap_next s"
  "guest_ram (tally_alloc n s) = guest_ram s" "g_heap_owner_ord (tally_alloc n s) = g_heap_owner_ord s"
  "g_heap_owner_ra (tally_alloc n s) = g_heap_owner_ra s"
  by (simp_all add: tally_alloc_def Let_def)

lemma tally_free_sel [simp]:
  "g_heap_blocks (tally_free n s) = g_heap_blocks s" "g_heap_next (tally_free n s) = g_heap_next s"
  "guest_ram (tally_free n s) = guest_ram s"
  by (simp_all add: tally_free_def Let_def)

lemma heap_reuse_cut:
  assumes p: "pow2 al" and n: "0 < unat n" and e: "unat (hb_addr b) + unat (hb_size b) < 2 ^ 32"
    and bs: "g_heap_blocks s = pre @ b # post" and len: "length (g_heap_blocks s) \<le> XBOX_HEAP_MAX_BLOCKS"
    and fits: "reuse_fits n al (length (g_heap_blocks s)) b"
  obtains s' t leads spares where
    "heap_reuse n al (length pre) s = (hb_addr t, s')"
    "g_heap_blocks s' = pre @ leads @ t # spares @ post" "g_heap_next s' = g_heap_next s"
    "guest_ram s' = memset_at (guest_ram s) (hb_addr t) 0 n"
    "length (g_heap_blocks s') \<le> XBOX_HEAP_MAX_BLOCKS"
    "\<not> hb_free t" "hb_req t = n" "hb_ord t = ucast (g_heap_owner_ord s)" "hb_ra t = g_heap_owner_ra s"
    "unat n \<le> unat (hb_size t)" "unat (hb_addr t) mod unat al = 0"
    "tiles (unat (hb_addr b)) (heap_view (leads @ t # spares)) (unat (hb_addr b) + unat (hb_size b))"
    "\<forall>l \<in> set (leads @ spares). hb_free l" "length leads \<le> 1" "length spares \<le> 1"
proof -
  note f = reuse_fits_nat [OF p n e fits]
  let ?a = "aligned_piece al b" and ?l = "lead_piece al b"
  let ?x = "unat (align_up (hb_addr b) al)"
  have addr_a: "unat (hb_addr ?a) = ?x" and size_a: "unat (hb_size ?a) = unat (hb_addr b) + unat (hb_size b) - ?x"
    using f(6) by (simp_all add: aligned_piece_def)
  have lead: "tiles (unat (hb_addr b)) (heap_view ?l) ?x" "\<forall>l \<in> set ?l. hb_free l" "length ?l \<le> 1"
    "?l \<noteq> [] \<Longrightarrow> length (g_heap_blocks s) + 2 \<le> XBOX_HEAP_MAX_BLOCKS"
    using f(1,2,5,7) by (auto simp: lead_piece_def Let_def sized_def unat_eq_zero[symmetric] as_block_def)
  define cap where "cap = hb_size ?a"
  define kept where "kept = kept_size n al cap"
  define spare where "spare = (if cap > kept then cap - kept else 0)"
  have ncap: "unat n \<le> unat cap" using f(3) size_a by (simp add: cap_def)
  have nk: "unat n \<le> unat kept" unfolding kept_def using p ncap by (rule kept_size_nat)
  define split where "split \<longleftrightarrow> spare \<ge> XBOX_HEAP_SPLIT_MIN \<and> length (pre @ ?l @ ?a # post) < XBOX_HEAP_MAX_BLOCKS"
  define sp where "sp = \<lparr>hb_addr = hb_addr ?a + kept, hb_size = spare, hb_req = 0, hb_ra = 0,
              hb_ord = 0, hb_free = True, hb_reused = False\<rparr>"
  define t where "t = (if split then ?a\<lparr>hb_size := kept\<rparr> else ?a)\<lparr>hb_free := False, hb_req := n,
     hb_ord := ucast (g_heap_owner_ord s), hb_ra := g_heap_owner_ra s, hb_reused := True\<rparr>"
  define spares where "spares = (if split then [sp] else [])"
  have carve: "carve_spare n al (carve_lead al (length pre, g_heap_blocks s)) =
    (length (pre @ ?l), (pre @ ?l) @ (if split then ?a\<lparr>hb_size := kept\<rparr> else ?a) # spares @ post)"
    unfolding bs carve_lead_split carve_spare_split
    by (simp add: split_def spares_def sp_def Let_def cap_def kept_def spare_def)
  obtain s' where s': "heap_reuse n al (length pre) s = (hb_addr t, s')"
    "g_heap_blocks s' = pre @ ?l @ t # spares @ post" "g_heap_next s' = g_heap_next s"
    "guest_ram s' = memset_at (guest_ram s) (hb_addr t) 0 n"
  proof
    show "heap_reuse n al (length pre) s = (hb_addr t,
      (\<lambda>s. s\<lparr>guest_ram := memset_at (guest_ram s) (hb_addr t) 0 n\<rparr>)
        (tally_alloc n (s\<lparr>g_heap_blocks := pre @ ?l @ t # spares @ post,
           g_heap_reuse_count := g_heap_reuse_count s + 1\<rparr>)))"
      unfolding heap_reuse_def carve prod.case
      by (simp add: Let_def list_update_append nth_append t_def)
  qed simp_all
  have spare_nat: "unat cap = unat kept + unat spare \<and> 0 < unat spare" if split
  proof -
    have "0 < unat spare" using that by (auto simp: split_def XBOX_HEAP_SPLIT_MIN_def word_le_nat_alt)
    then have "kept < cap" by (auto simp: spare_def split: if_splits)
    then have "unat (cap - kept) = unat cap - unat kept" "spare = cap - kept"
      by (auto simp: spare_def unat_sub)
    with \<open>kept < cap\<close> \<open>0 < unat spare\<close> show ?thesis by (simp add: word_less_nat_alt)
  qed
  have addr_sp: "unat (hb_addr ?a + kept) = ?x + unat kept" if split
  proof -
    have "?x + unat kept < 2 ^ 32"
      using spare_nat [OF that] size_a e f(3) unfolding cap_def by linarith
    with addr_a show ?thesis using unat_add_lem [of "hb_addr ?a" kept] by simp
  qed
  have t_sel: "hb_addr t = hb_addr ?a" "unat (hb_size t) = (if split then unat kept else unat cap)"
    by (simp_all add: t_def cap_def)
  have tile_t: "tiles ?x (heap_view (t # spares)) (unat (hb_addr b) + unat (hb_size b))"
  proof (cases split)
    case True
    with spare_nat addr_sp addr_a size_a t_sel nk n f(3) show ?thesis
      by (auto simp: spares_def sp_def sized_def as_block_def cap_def unat_eq_zero [symmetric])
  next
    case False
    with addr_a size_a t_sel ncap n f(3) show ?thesis
      by (auto simp: spares_def sized_def as_block_def cap_def unat_eq_zero [symmetric])
  qed
  show thesis
  proof (rule that [OF s'])
    show "length (g_heap_blocks s') \<le> XBOX_HEAP_MAX_BLOCKS"
      using lead len bs s'(2) by (cases "?l = []") (auto simp: spares_def split_def)
    show "unat (hb_addr t) mod unat al = 0" using f(4) by (simp add: t_sel addr_a)
    show "tiles (unat (hb_addr b)) (heap_view (?l @ t # spares)) (unat (hb_addr b) + unat (hb_size b))"
      using lead(1) tile_t by (auto simp: tiles_append simp del: tiles.simps heap_view_simps(2))
    show "\<forall>l \<in> set (?l @ spares). hb_free l" using lead by (auto simp: spares_def sp_def)
  qed (use nk ncap lead in \<open>simp_all add: t_def spares_def cap_def\<close>)
qed

section \<open>What allocation does\<close>

text \<open>
  The requests the 32-bit arithmetic of the frontier can serve: a power of two as alignment, and
  no carry out of the address when the aligned frontier and the length are added.
\<close>

definition least_align :: "u32 \<Rightarrow> u32" where "least_align al = (if al < 4 then 4 else al)"
definition least_size :: "u32 \<Rightarrow> u32" where "least_size n = (if n < 16 then 16 else n)"

definition heap_request :: "heap_env \<Rightarrow> u32 \<Rightarrow> u32 \<Rightarrow> bool" where
  "heap_request c n al \<longleftrightarrow>
     pow2 al \<and> arena_top c + unat (least_align al) + unat (least_size n) \<le> 2 ^ 32"

definition granted :: "heap_env \<Rightarrow> guest_heap \<Rightarrow> u32 \<Rightarrow> u32 \<Rightarrow> u32 \<Rightarrow> guest_heap \<Rightarrow> nat \<Rightarrow> bool" where
  "granted c s n al r s' k \<longleftrightarrow>
     unat n \<le> k \<and> unat r mod unat al = 0
     \<and> {unat r..<unat r + k} \<subseteq> heap_available c s
     \<and> heap_available c s' \<subseteq> heap_available c s - {unat r..<unat r + k}
     \<and> (heap_live s' = insert (unat r, k) (heap_live s)
        \<or> heap_live s' = heap_live s \<and> length (g_heap_blocks s) = XBOX_HEAP_MAX_BLOCKS)
     \<and> guest_ram s' = memset_at (guest_ram s) r 0 n"

lemma pow2_least: "pow2 al \<Longrightarrow> pow2 (least_align al)"
  by (simp add: least_align_def pow2_4)

lemma least_size_pos: "0 < unat (least_size n)"
  by (auto simp: least_size_def word_less_nat_alt)

lemma heap_reuse_spec:
  assumes inv: "heap_inv c s" and nz: "g_heap_next s \<noteq> 0" and p: "pow2 al" and n: "0 < unat n"
    and find: "find_from (reuse_fits n al (length (g_heap_blocks s))) 0 (g_heap_blocks s) = Some i"
    and h: "heap_reuse n al i s = (r, s')"
  shows "heap_inv c s' \<and> r \<noteq> 0 \<and> g_heap_next s' \<noteq> 0 \<and> (\<exists>k. granted c s n al r s' k)"
proof -
  obtain pre b post where d: "g_heap_blocks s = pre @ b # post" "i = length pre"
    "reuse_fits n al (length (g_heap_blocks s)) b"
    using find by (auto simp: find_from_Some)
  have len: "length (g_heap_blocks s) \<le> XBOX_HEAP_MAX_BLOCKS"
    and pl: "placed (arena_base c) (heap_view pre @ heap_view (b # post)) (arena_next c s)"
    and co: "coalesced (heap_view pre @ heap_view (b # post))"
    using inv by (auto simp: heap_inv_def d(1))
  have fb: "hb_free b" using d(3) by (simp add: reuse_fits_def)
  have sb: "sized b"
    using reuse_fits_nat(8) [OF p n _ d(3)] unat_u32_lt [of "hb_addr b"] by (cases "sized b") (auto simp: sized_def)
  have vb: "heap_view (b # post) = as_block b # heap_view post" using sb by simp
  have in_b: "arena_base c \<le> unat (hb_addr b)" "unat (hb_addr b) + unat (hb_size b) \<le> arena_next c s"
    using placed_in [OF pl, of "as_block b"] vb by simp_all
  have next_s: "arena_next c s = unat (g_heap_next s)" using nz by (simp add: arena_next_def)
  have e: "unat (hb_addr b) + unat (hb_size b) < 2 ^ 32"
    using in_b(2) unat_u32_lt [of "g_heap_next s"] by (simp add: next_s)
  obtain s1 t leads spares where cut: "heap_reuse n al (length pre) s = (hb_addr t, s1)"
    "g_heap_blocks s1 = pre @ leads @ t # spares @ post" "g_heap_next s1 = g_heap_next s"
    "guest_ram s1 = memset_at (guest_ram s) (hb_addr t) 0 n"
    "length (g_heap_blocks s1) \<le> XBOX_HEAP_MAX_BLOCKS"
    "\<not> hb_free t" "unat n \<le> unat (hb_size t)" "unat (hb_addr t) mod unat al = 0"
    "tiles (unat (hb_addr b)) (heap_view (leads @ t # spares)) (unat (hb_addr b) + unat (hb_size b))"
    "\<forall>l \<in> set (leads @ spares). hb_free l" "length leads \<le> 1" "length spares \<le> 1"
    using heap_reuse_cut [OF p n e d(1) len d(3)] by metis
  have rs: "r = hb_addr t" "s' = s1" using h cut(1) d(2) by simp_all
  have st: "sized t" using cut(7) n by (auto simp: sized_def)
  have lens: "length (heap_view leads) \<le> 1" "length (heap_view spares) \<le> 1"
    using cut(11,12) by (auto simp: heap_view_def intro: le_trans [OF length_filter_le])
  have vac: "\<forall>l \<in> set (heap_view leads). vacant l" "\<forall>l \<in> set (heap_view spares). vacant l"
    using cut(10) by (auto simp: heap_view_def)
  have ti: "tiles (start (as_block b)) (heap_view leads @ as_block t # heap_view spares) (stop (as_block b))"
    using cut(9) st by simp
  note cv = cut_vacant [OF pl [unfolded vb] co [unfolded vb] _ ti _ vac(1) lens(1) vac(2) lens(2)]
  have v0: "heap_view (g_heap_blocks s) = heap_view pre @ as_block b # heap_view post"
    using sb by (simp add: d(1))
  have v1: "heap_view (g_heap_blocks s') = heap_view pre @ (heap_view leads @ as_block t # heap_view spares) @ heap_view post"
    using st by (simp add: rs cut(2))
  have next': "arena_next c s' = arena_next c s" using cut(3) by (simp add: rs arena_next_def)
  have spn: "span (as_block t) = {unat r..<unat r + unat (hb_size t)}" by (simp add: span_def rs)
  have "heap_inv c s'"
    using inv cv(1,2) fb cut(5,6) unfolding heap_inv_def v1 next' by (simp add: rs)
  moreover have "r \<noteq> 0"
  proof -
    have "arena_base c \<le> unat r"
      using placed_in [OF cv(1), of "as_block t"] fb cut(6) by (simp add: rs)
    then show ?thesis using inv by (auto simp: heap_inv_def)
  qed
  moreover have "granted c s n al r s' (unat (hb_size t))"
  proof -
    have below: "span (as_block t) \<inter> {arena_next c s..<arena_top c} = {}"
    proof -
      have "unat (hb_addr t) + unat (hb_size t) \<le> arena_next c s"
        using placed_in [OF cv(1), of "as_block t"] fb cut(6) by simp
      then show ?thesis by (auto simp: span_def)
    qed
    have sub: "span (as_block t) \<subseteq> heap_available c s"
      using cv(5) fb cut(6) by (auto simp: heap_available_def v0)
    have av: "heap_available c s' = heap_available c s - span (as_block t)"
      unfolding heap_available_def v0 v1 next' using cv(3) fb cut(6) below by auto
    have "heap_live s' = insert (unat r, unat (hb_size t)) (heap_live s)"
      unfolding heap_live_def v0 v1 using cv(4) fb cut(6) by (simp add: rs)
    then show ?thesis using cut(4,7,8) sub av unfolding granted_def spn by (simp add: rs)
  qed
  ultimately show ?thesis using cut(3) nz rs by auto
qed

lemma heap_bump_spec:
  assumes inv: "heap_inv c s" and nz: "g_heap_next s \<noteq> 0" and p: "pow2 al" and n: "0 < unat n"
    and fit: "arena_top c + unat al + unat n \<le> 2 ^ 32"
    and h: "heap_bump c n al s = (r, s')"
  shows "heap_inv c s' \<and> g_heap_next s' \<noteq> 0
    \<and> (r = 0 \<longrightarrow> s' = s \<and> arena_top c < unat (align_up (g_heap_next s) al) + unat n)
    \<and> (r \<noteq> 0 \<longrightarrow> granted c s n al r s' (unat n))"
proof -
  have next_s: "arena_next c s = unat (g_heap_next s)" using nz by (simp add: arena_next_def)
  have top: "unat (g_heap_next s) \<le> arena_top c" using inv by (simp add: heap_inv_def next_s)
  define x where "x = align_up (g_heap_next s) al"
  have alp: "0 < unat al" using p by (rule pow2_nonzero)
  have nowrap: "unat (g_heap_next s) + unat al - 1 < 2 ^ 32" using top fit n by linarith
  have ge: "unat (g_heap_next s) \<le> unat x"
    using align_up_nat(2) [OF p, of "g_heap_next s"] nowrap by (simp add: x_def word_less_nat_alt)
  have xle: "unat x \<le> unat (g_heap_next s) + unat al - 1"
    using align_up_nat(3) [OF p nowrap] by (simp add: x_def)
  have mod: "unat x mod unat al = 0" unfolding x_def by (rule align_up_nat(1) [OF p])
  have "unat x + unat n < 2 ^ 32" using xle top fit alp by linarith
  then have sum: "unat (x + n) = unat x + unat n" by (simp add: unat_add_lem [symmetric])
  have xnz: "x \<noteq> 0" using ge nz by (auto simp: unat_eq_zero)
  show ?thesis
  proof (cases "x + n > XBOX_HEAP_TOP c")
    case True
    then have "r = 0" "s' = s" using h by (simp_all add: heap_bump_def x_def [symmetric])
    then show ?thesis using inv nz True sum by (simp add: x_def [symmetric] word_less_nat_alt)
  next
    case False
    define nb where "nb = \<lparr>hb_addr = x, hb_size = n, hb_req = n, hb_ra = g_heap_owner_ra s,
      hb_ord = ucast (g_heap_owner_ord s), hb_free = False, hb_reused = False\<rparr>"
    define full where "full \<longleftrightarrow> \<not> length (g_heap_blocks s) < XBOX_HEAP_MAX_BLOCKS"
    have le: "unat x + unat n \<le> arena_top c" using False sum by (simp add: word_less_nat_alt)
    have r: "r = x" and blocks: "g_heap_blocks s' = g_heap_blocks s @ (if full then [] else [nb])"
      and nx: "g_heap_next s' = x + n" and ram: "guest_ram s' = memset_at (guest_ram s) x 0 n"
      using h False by (auto simp: heap_bump_def Let_def x_def [symmetric] nb_def full_def split: if_splits)
    have snz: "x + n \<noteq> 0" using sum n by (auto simp: unat_eq_zero [symmetric])
    have next': "arena_next c s' = unat x + unat n" using nx snz sum by (simp add: arena_next_def)
    have view: "heap_view (g_heap_blocks s') = heap_view (g_heap_blocks s) @ (if full then [] else [(unat x, unat n, False)])"
      using n by (auto simp: blocks nb_def sized_def as_block_def)
    have pl: "placed (arena_base c) (heap_view (g_heap_blocks s)) (unat x)"
      using inv ge by (auto simp: heap_inv_def next_s elim: placed_mono)
    have pl': "placed (arena_base c) (heap_view (g_heap_blocks s')) (arena_next c s')"
      unfolding view next' using pl n by (auto simp: placed_append elim: placed_mono)
    have "coalesced (heap_view (g_heap_blocks s'))"
      using inv by (auto simp: heap_inv_def view coalesced_append)
    moreover have "length (g_heap_blocks s') \<le> XBOX_HEAP_MAX_BLOCKS"
      using inv by (auto simp: heap_inv_def blocks full_def)
    ultimately have "heap_inv c s'" using inv pl' le by (simp add: heap_inv_def next')
    moreover have "granted c s n al x s' (unat n)"
    proof -
      have vw: "vacant_bytes (heap_view (g_heap_blocks s)) \<subseteq> {arena_base c..<unat (g_heap_next s)}"
        using inv by (intro vacant_bytes_within) (simp add: heap_inv_def next_s)
      have fullness: "full \<Longrightarrow> length (g_heap_blocks s) = XBOX_HEAP_MAX_BLOCKS"
        using inv by (auto simp: full_def heap_inv_def)
      have "{unat x..<unat x + unat n} \<subseteq> heap_available c s"
        using ge le by (auto simp: heap_available_def next_s)
      moreover have "heap_available c s' \<subseteq> heap_available c s - {unat x..<unat x + unat n}"
      proof -
        have "vacant_bytes (heap_view (g_heap_blocks s')) = vacant_bytes (heap_view (g_heap_blocks s))"
          by (simp add: view)
        with vw ge le n show ?thesis unfolding heap_available_def next' next_s by auto
      qed
      ultimately show ?thesis using fullness mod ram by (auto simp: granted_def heap_live_def view)
    qed
    ultimately show ?thesis using r xnz nx snz by simp
  qed
qed

theorem heap_alloc_spec:
  assumes inv: "heap_inv c s" and req: "heap_request c n al"
    and h: "xbox_HeapAlloc c n al s = (r, s')"
  shows "heap_inv c s'"
    "r = 0 \<Longrightarrow> heap_live s' = heap_live s \<and> heap_available c s' = heap_available c s \<and> guest_ram s' = guest_ram s"
    "r \<noteq> 0 \<Longrightarrow> \<exists>k. granted c s (least_size n) (least_align al) r s' k"
proof -
  define s0 where "s0 = heap_started c s"
  define s1 where "s1 = heap_absorb_frontier c s0"
  have base: "0 < arena_base c" using inv by (simp add: heap_inv_def)
  have inv0: "heap_inv c s0" using inv by (simp add: heap_inv_def s0_def)
  have nz0: "g_heap_next s0 \<noteq> 0" using base by (auto simp: s0_def heap_started_def unat_eq_zero)
  have eq0: "heap_live s0 = heap_live s" "heap_available c s0 = heap_available c s" "guest_ram s0 = guest_ram s"
    by (simp_all add: heap_live_def heap_available_def s0_def)
  note ab = absorb_inv [OF inv0 nz0, folded s1_def]
  have eq1: "heap_live s1 = heap_live s" "heap_available c s1 = heap_available c s" "guest_ram s1 = guest_ram s"
    "length (g_heap_blocks s1) = length (g_heap_blocks s)"
    using ab eq0 by (simp_all add: s0_def)
  have p: "pow2 (least_align al)" and fit: "arena_top c + unat (least_align al) + unat (least_size n) \<le> 2 ^ 32"
    using req by (auto simp: heap_request_def pow2_least)
  have gr: "granted c s1 m a r s' k \<Longrightarrow> granted c s m a r s' k" for m a k
    using eq1 by (simp add: granted_def)
  have alloc: "(case find_from (reuse_fits (least_size n) (least_align al) (length (g_heap_blocks s1))) 0 (g_heap_blocks s1) of
      Some i \<Rightarrow> heap_reuse (least_size n) (least_align al) i s1
    | None \<Rightarrow> heap_bump c (least_size n) (least_align al) s1) = (r, s')"
    using h unfolding xbox_HeapAlloc_def Let_def s0_def s1_def least_align_def least_size_def .
  have "heap_inv c s' \<and> (r = 0 \<longrightarrow> s' = s1) \<and> (r \<noteq> 0 \<longrightarrow> (\<exists>k. granted c s1 (least_size n) (least_align al) r s' k))"
  proof (cases "find_from (reuse_fits (least_size n) (least_align al) (length (g_heap_blocks s1))) 0 (g_heap_blocks s1)")
    case None
    with alloc heap_bump_spec [OF ab(1) ab(4) p least_size_pos fit] show ?thesis by fastforce
  next
    case (Some i)
    with alloc heap_reuse_spec [OF ab(1) ab(4) p least_size_pos Some] show ?thesis by fastforce
  qed
  then show "heap_inv c s'"
    "r = 0 \<Longrightarrow> heap_live s' = heap_live s \<and> heap_available c s' = heap_available c s \<and> guest_ram s' = guest_ram s"
    "r \<noteq> 0 \<Longrightarrow> \<exists>k. granted c s (least_size n) (least_align al) r s' k"
    using eq1 gr by blast+
qed

section \<open>What release does\<close>

lemma touch_words:
  assumes "unat (x :: u32) + unat n < 2 ^ 32"
  shows "x + n = y \<longleftrightarrow> unat x + unat n = unat y"
  using assms unat_add_lem [of x n] by (auto simp: word_unat_eq_iff)

lemma join_next_view:
  assumes b: "sized b" "hb_free b" "unat (hb_addr b) + unat (hb_size b) < 2 ^ 32"
    and ends: "\<forall>q \<in> set post. unat (hb_addr q) + unat (hb_size q) < 2 ^ 32"
  shows "\<exists>b' post'. heap_join_next (length pre) (pre @ b # post) = pre @ b' # post'
     \<and> sized b' \<and> hb_free b' \<and> unat (hb_addr b') + unat (hb_size b') < 2 ^ 32
     \<and> heap_view (b' # post') = join_right (as_block b) (heap_view post) \<and> length post' = length post"
proof -
  have scan: "heap_live_entry_after (pre @ b # post) (length pre) = find_from (\<lambda>b. hb_size b \<noteq> 0) (Suc (length pre)) post"
    by (simp add: heap_live_entry_after_def)
  show ?thesis
  proof (cases "find_from (\<lambda>b. hb_size b \<noteq> 0) (Suc (length pre)) post")
    case None
    then have "heap_view post = []" by (intro heap_view_holes) (simp add: find_from_None sized_def)
    with b None show ?thesis
      by (auto simp: heap_join_next_def scan join_right_def intro!: exI)
  next
    case (Some n)
    then obtain holes q rest where q: "post = holes @ q # rest" "n = Suc (length pre) + length holes" "sized q"
      "\<forall>h \<in> set holes. \<not> sized h"
      by (auto simp: find_from_Some sized_def)
    have qv: "heap_view post = as_block q # heap_view rest" using q by (simp add: heap_view_holes)
    have nth: "(pre @ b # post) ! n = q" "(pre @ b # post) ! length pre = b" by (simp_all add: q nth_append)
    have upd: "(pre @ b # post)[length pre := x, n := y] = pre @ x # holes @ y # rest" for x y
      by (simp add: q list_update_append)
    have eq: "hb_addr b + hb_size b = hb_addr q \<longleftrightarrow> stop (as_block b) = start (as_block q)"
      using touch_words [OF b(3)] by simp
    show ?thesis
    proof (cases "hb_free q \<and> hb_addr b + hb_size b = hb_addr q")
      case False
      with b Some qv show ?thesis
        by (auto simp: heap_join_next_def scan nth join_right_def eq intro!: exI)
    next
      case True
      then have adj: "unat (hb_addr b) + unat (hb_size b) = unat (hb_addr q)" using eq by simp
      have endq: "unat (hb_addr q) + unat (hb_size q) < 2 ^ 32" using ends q(1) by simp
      then have sum: "unat (hb_size b + hb_size q) = unat (hb_size b) + unat (hb_size q)"
        using adj by (subst unat_add_lem [symmetric]) simp
      let ?b = "b\<lparr>hb_size := hb_size b + hb_size q\<rparr>" and ?q = "q\<lparr>hb_size := 0, hb_addr := 0\<rparr>"
      have "heap_join_next (length pre) (pre @ b # post) = pre @ ?b # holes @ ?q # rest"
        using True unfolding heap_join_next_def scan Some option.case nth upd by simp
      moreover have sb: "sized ?b" using b(1) sum by (auto simp: sized_def unat_eq_zero [symmetric])
      moreover have "heap_view (?b # holes @ ?q # rest) = join_right (as_block b) (heap_view post)"
      proof -
        have "\<not> sized ?q" by (simp add: sized_def)
        then have "heap_view (?b # holes @ ?q # rest) = as_block ?b # heap_view rest"
          using q(4) sb by (simp add: heap_view_holes)
        also have "\<dots> = join_right (as_block b) (heap_view post)"
          using True b(2) sum adj by (simp add: qv join_right_def as_block_def)
        finally show ?thesis .
      qed
      moreover have "unat (hb_addr ?b) + unat (hb_size ?b) < 2 ^ 32" using sum adj endq by simp
      moreover have "hb_free ?b" "length (holes @ ?q # rest) = length post" using b(2) q(1) by simp_all
      ultimately show ?thesis by blast
    qed
  qed
qed

lemma join_prev_view:
  assumes b: "sized b" "hb_free b" "unat (hb_addr b) + unat (hb_size b) < 2 ^ 32"
    and ends: "\<forall>q \<in> set pre. unat (hb_addr q) + unat (hb_size q) < 2 ^ 32"
  shows "heap_view (heap_join_prev (length pre) (pre @ b # post)) = join_left (heap_view pre) (heap_view (b # post))
     \<and> length (heap_join_prev (length pre) (pre @ b # post)) = length (pre @ b # post)"
proof (cases "heap_live_entry_before (pre @ b # post) (length pre)")
  case None
  then have "heap_view pre = []" using entry_before_None [of "length pre" "pre @ b # post"] by simp
  with None show ?thesis by (simp add: heap_join_prev_def join_left_def)
next
  case (Some i)
  then obtain p q holes where q: "pre = p @ q # holes" "i = length p" "sized q" "\<forall>h \<in> set holes. \<not> sized h"
    using entry_before_Some [of "length pre" "pre @ b # post" i] by auto
  have pv: "heap_view pre = heap_view p @ [as_block q]" using q by (simp add: heap_view_holes)
  have nth: "(pre @ b # post) ! i = q" "(pre @ b # post) ! length pre = b" by (simp_all add: q nth_append)
  have upd: "(pre @ b # post)[i := x, length pre := y] = p @ x # holes @ y # post" for x y
    by (simp add: q list_update_append)
  have endq: "unat (hb_addr q) + unat (hb_size q) < 2 ^ 32" using ends q(1) by simp
  then have eq: "hb_addr q + hb_size q = hb_addr b \<longleftrightarrow> stop (as_block q) = start (as_block b)"
    using touch_words by simp
  have hv: "heap_view (b # post) = as_block b # heap_view post" using b(1) by simp
  show ?thesis
  proof (cases "hb_free q \<and> hb_addr q + hb_size q = hb_addr b")
    case False
    then show ?thesis
      unfolding hv by (auto simp: heap_join_prev_def Some nth join_left_def pv eq b(1))
  next
    case True
    then have adj: "unat (hb_addr q) + unat (hb_size q) = unat (hb_addr b)" using eq by simp
    then have sum: "unat (hb_size q + hb_size b) = unat (hb_size q) + unat (hb_size b)"
      using b(3) by (subst unat_add_lem [symmetric]) simp
    let ?q = "q\<lparr>hb_size := hb_size q + hb_size b\<rparr>" and ?b = "b\<lparr>hb_size := 0, hb_addr := 0\<rparr>"
    have j: "heap_join_prev (length pre) (pre @ b # post) = p @ ?q # holes @ ?b # post"
      using True unfolding heap_join_prev_def Some option.case nth upd by simp
    have "sized ?q" "\<not> sized ?b" using q(3) sum by (auto simp: sized_def unat_eq_zero [symmetric])
    then have "heap_view (p @ ?q # holes @ ?b # post) = heap_view p @ as_block ?q # heap_view post"
      using q(4) by (simp add: heap_view_holes)
    also have "\<dots> = join_left (heap_view pre) (heap_view (b # post))"
      using True adj sum unfolding hv by (simp add: join_left_def pv as_block_def)
    finally have "heap_view (p @ ?q # holes @ ?b # post) = join_left (heap_view pre) (heap_view (b # post))" .
    moreover have "length (p @ ?q # holes @ ?b # post) = length (pre @ b # post)" by (simp add: q(1))
    ultimately show ?thesis unfolding j by (rule conjI)
  qed
qed

lemma live_iff:
  "(a, n) \<in> heap_live s \<longleftrightarrow>
   (\<exists>b \<in> set (g_heap_blocks s). sized b \<and> \<not> hb_free b \<and> unat (hb_addr b) = a \<and> unat (hb_size b) = n)"
  by (auto simp: heap_live_def held_def heap_view_def as_block_def image_iff)

text \<open>The blocks a release names: the live one that starts at the address, if releases are on.\<close>

definition named_by :: "heap_env \<Rightarrow> u32 \<Rightarrow> guest_heap \<Rightarrow> (nat \<times> nat) set" where
  "named_by c va s = {(a, n) \<in> heap_live s. va \<noteq> 0 \<and> \<not> heap_no_free c \<and> a = unat (heap_canonical_va c va)}"

lemma heap_ends:
  assumes "heap_inv c s" "b \<in> set (g_heap_blocks s)"
  shows "unat (hb_addr b) + unat (hb_size b) < 2 ^ 32"
proof (cases "sized b")
  case True
  then have "as_block b \<in> set (heap_view (g_heap_blocks s))" using assms(2) by (auto simp: heap_view_def)
  with assms(1) have "stop (as_block b) \<le> arena_next c s"
    unfolding heap_inv_def by (meson placed_in)
  then show ?thesis using unat_u32_lt by (auto simp: arena_next_def intro: le_less_trans)
next
  case False
  then show ?thesis using unat_u32_lt [of "hb_addr b"] by (simp add: sized_def)
qed

theorem heap_free_spec:
  fixes va :: u32
  assumes inv: "heap_inv c s"
  defines "s' \<equiv> xbox_HeapFree c va s"
  shows "heap_inv c s'" "heap_live s' = heap_live s - named_by c va s"
    "heap_available c s' = heap_available c s \<union> (\<Union>(a, n) \<in> named_by c va s. {a..<a + n})"
    "named_by c va s = {} \<Longrightarrow> s' = s"
    "heap_poison_byte c = None \<Longrightarrow> guest_ram s' = guest_ram s"
proof -
  let ?P = "\<lambda>b. \<not> (hb_size b = 0 \<or> hb_addr b \<noteq> heap_canonical_va c va \<or> hb_free b)"
  have "heap_inv c s' \<and> heap_live s' = heap_live s - named_by c va s
    \<and> heap_available c s' = heap_available c s \<union> (\<Union>(a, n) \<in> named_by c va s. {a..<a + n})
    \<and> (named_by c va s = {} \<longrightarrow> s' = s) \<and> (heap_poison_byte c = None \<longrightarrow> guest_ram s' = guest_ram s)"
  proof (cases "va = 0 \<or> heap_no_free c \<or> find_from ?P 0 (g_heap_blocks s) = None")
    case True
    then have "named_by c va s = {}"
      by (auto simp: named_by_def live_iff find_from_None sized_def word_unat_eq_iff)
    moreover have "s' = s" using True by (auto simp: s'_def xbox_HeapFree_def)
    ultimately show ?thesis using inv by simp
  next
    case False
    then obtain i where on: "va \<noteq> 0" "\<not> heap_no_free c" and find: "find_from ?P 0 (g_heap_blocks s) = Some i" by auto
    then obtain pre b post where d: "g_heap_blocks s = pre @ b # post" "i = length pre" "?P b"
      unfolding find_from_Some by auto
    define f where "f = b\<lparr>hb_free := True, hb_req := 0, hb_ord := 0, hb_ra := 0\<rparr>"
    have blocks: "g_heap_blocks s' = heap_join_prev i (heap_join_next i (pre @ f # post))"
      using on find d(1,2)
      by (simp add: s'_def xbox_HeapFree_def Let_def f_def list_update_append split: option.split)
    have nx: "g_heap_next s' = g_heap_next s"
      using on find by (simp add: s'_def xbox_HeapFree_def Let_def split: option.split)
    have ram: "heap_poison_byte c = None \<longrightarrow> guest_ram s' = guest_ram s"
      using on find by (simp add: s'_def xbox_HeapFree_def Let_def)
    have next': "arena_next c s' = arena_next c s" using nx by (simp add: arena_next_def)
    have ends: "\<forall>q \<in> set pre \<union> {b} \<union> set post. unat (hb_addr q) + unat (hb_size q) < 2 ^ 32"
      using heap_ends [OF inv] by (auto simp: d(1))
    have fs: "sized f" "hb_free f" "unat (hb_addr f) + unat (hb_size f) < 2 ^ 32"
      using d(3) ends by (auto simp: f_def sized_def)
    obtain b' post' where j: "heap_join_next i (pre @ f # post) = pre @ b' # post'" "sized b'" "hb_free b'"
      "unat (hb_addr b') + unat (hb_size b') < 2 ^ 32"
      "heap_view (b' # post') = join_right (as_block f) (heap_view post)" "length post' = length post"
    proof -
      have "\<forall>q \<in> set post. unat (hb_addr q) + unat (hb_size q) < 2 ^ 32" using ends by blast
      from join_next_view [OF fs this, of pre, folded d(2)] that show ?thesis by blast
    qed
    define a where "a = unat (hb_addr b)" define n where "n = unat (hb_size b)"
    have view: "heap_view (g_heap_blocks s) = heap_view pre @ (a, n, False) # heap_view post"
      using d(3) by (simp add: d(1) sized_def as_block_def a_def n_def)
    have blocks2: "g_heap_blocks s' = heap_join_prev (length pre) (pre @ b' # post')"
      using j(1) d(2) by (simp add: blocks)
    have af: "as_block f = (a, n, True)" by (simp add: as_block_def f_def a_def n_def)
    have epre: "\<forall>q \<in> set pre. unat (hb_addr q) + unat (hb_size q) < 2 ^ 32" using ends by simp
    note jp = join_prev_view [OF j(2,3,4) epre, of post', unfolded j(5) af, folded blocks2]
    have view': "heap_view (g_heap_blocks s') = join_left (heap_view pre) (join_right (a, n, True) (heap_view post))"
      and len': "length (g_heap_blocks s') = length (g_heap_blocks s)"
      using jp j(6) by (simp_all add: d(1))
    have pl: "placed (arena_base c) (heap_view pre @ (a, n, False) # heap_view post) (arena_next c s)"
      and co: "coalesced (heap_view pre @ (a, n, False) # heap_view post)"
      using inv by (simp_all add: heap_inv_def view)
    note gb = give_back [OF pl co]
    have names: "named_by c va s = {(a, n)}"
    proof -
      have "named_by c va s = {(x, k) \<in> heap_live s. x = a}"
        using on d(3) by (auto simp: named_by_def a_def)
      then show ?thesis using held_at [OF pl, of a n] by (simp add: heap_live_def view)
    qed
    have "heap_inv c s'"
      using inv gb(1,2) len' unfolding heap_inv_def next' view' by simp
    moreover have "heap_live s' = heap_live s - named_by c va s"
      using gb(4) unfolding heap_live_def view' view names by simp
    moreover have "heap_available c s' = heap_available c s \<union> (\<Union>(a, n) \<in> named_by c va s. {a..<a + n})"
      using gb(3) unfolding heap_available_def view' view names next' by auto
    ultimately show ?thesis using ram names by simp
  qed
  then show "heap_inv c s'" "heap_live s' = heap_live s - named_by c va s"
    "heap_available c s' = heap_available c s \<union> (\<Union>(a, n) \<in> named_by c va s. {a..<a + n})"
    "named_by c va s = {} \<Longrightarrow> s' = s" "heap_poison_byte c = None \<Longrightarrow> guest_ram s' = guest_ram s"
    by blast+
qed

section \<open>The heap as an allocator\<close>

definition heap_take :: "heap_env \<Rightarrow> u32 \<times> u32 \<Rightarrow> guest_heap \<Rightarrow> u32 \<times> u32 \<times> guest_heap" where
  "heap_take c = (\<lambda>(n, al) s. case xbox_HeapAlloc c n al s of (r, s') \<Rightarrow> (r, n, s'))"

lemma heap_live_apart: "heap_inv c s \<Longrightarrow> apart (heap_live s)"
  unfolding apart_def heap_live_def heap_inv_def
  by (metis held_disjoint extent_pair surj_pair)

lemma heap_live_taken: "heap_inv c s \<Longrightarrow> b \<in> heap_live s \<Longrightarrow> extent b \<inter> heap_available c s = {} \<and> 0 < snd b"
proof -
  assume inv: "heap_inv c s" and b: "b \<in> heap_live s"
  then have pl: "placed (arena_base c) (heap_view (g_heap_blocks s)) (arena_next c s)"
    by (simp add: heap_inv_def)
  obtain a n where an: "b = (a, n)" by (cases b)
  with b have h: "(a, n) \<in> held (heap_view (g_heap_blocks s))" by (simp add: heap_live_def)
  from held_within [OF pl h] held_free_disjoint [OF pl h] an show ?thesis
    by (auto simp: heap_available_def)
qed

lemma least_size_ge: "unat n \<le> unat (least_size n)"
  by (auto simp: least_size_def word_less_nat_alt)

interpretation heap_provider: memory_provider "heap_inv c" "heap_available c" heap_live
  "\<lambda>(n, al). heap_request c n al" "heap_take c" "xbox_HeapFree c" "named_by c" for c
proof
  fix s b r n s' x and q :: "u32 \<times> u32"
  assume inv: "heap_inv c s"
  obtain m al where q: "q = (m, al)" by (cases q)
  show "b \<in> heap_live s \<Longrightarrow> extent b \<inter> heap_available c s = {} \<and> 0 < snd b"
    using heap_live_taken [OF inv] .
  show "apart (heap_live s)" using heap_live_apart [OF inv] .
  show "heap_inv c (xbox_HeapFree c x s)" "heap_live (xbox_HeapFree c x s) = heap_live s - named_by c x s"
    using heap_free_spec [OF inv] by simp_all
  show "named_by c x s \<subseteq> heap_live s" by (auto simp: named_by_def)
  show "heap_available c (xbox_HeapFree c x s) = heap_available c s \<union> \<Union> (extent ` named_by c x s)"
    unfolding heap_free_spec(3) [OF inv] by (auto simp: extent_def split: prod.splits)
  assume good: "case q of (n, al) \<Rightarrow> heap_request c n al"
  then have req: "heap_request c m al" by (simp add: q)
  show "heap_inv c s'" if "heap_take c q s = (r, n, s')"
    using that heap_alloc_spec(1) [OF inv req] by (auto simp: heap_take_def q split: prod.splits)
  show "heap_available c s' = heap_available c s \<and> heap_live s' = heap_live s" if "heap_take c q s = (0, n, s')"
    using that heap_alloc_spec(2) [OF inv req] by (auto simp: heap_take_def q split: prod.splits)
  show "\<exists>k \<ge> unat n. extent (unat r, k) \<subseteq> heap_available c s \<and> heap_available c s' \<subseteq> heap_available c s - extent (unat r, k)
        \<and> (heap_live s' = insert (unat r, k) (heap_live s) \<or> heap_live s' = heap_live s)"
    if t: "heap_take c q s = (r, n, s')" "r \<noteq> 0"
  proof -
    have "n = m" "xbox_HeapAlloc c m al s = (r, s')" using t(1) by (auto simp: heap_take_def q split: prod.splits)
    with heap_alloc_spec(3) [OF inv req this(2) t(2)] least_size_ge [of m] show ?thesis
      by (auto simp: granted_def intro: le_trans)
  qed
qed

section \<open>Refusal\<close>

lemma absorb_last:
  assumes inv: "heap_inv c s" and nz: "g_heap_next s \<noteq> 0"
  defines "s' \<equiv> heap_absorb_frontier c s"
  defines "bs \<equiv> heap_view (g_heap_blocks s')"
  shows "bs = [] \<or> \<not> vacant (last bs) \<or> stop (last bs) \<noteq> arena_next c s' \<or> arena_top c \<le> arena_next c s'"
proof (cases "g_heap_next s \<ge> XBOX_HEAP_TOP c")
  case True
  then have "s' = s" by (simp add: s'_def heap_absorb_frontier_def)
  with True nz show ?thesis by (simp add: next_nonzero word_le_nat_alt)
next
  case False
  show ?thesis
  proof (cases "heap_live_entry_before (g_heap_blocks s) (length (g_heap_blocks s))")
    case None
    then have "s' = s" by (simp add: s'_def heap_absorb_frontier_def)
    with entry_before_None [OF _ None] show ?thesis by (simp add: bs_def)
  next
    case (Some i)
    then obtain pre b holes where d: "g_heap_blocks s = pre @ b # holes" "length pre = i" "sized b"
      "\<forall>h \<in> set holes. \<not> sized h"
      using entry_before_Some [of "length (g_heap_blocks s)" "g_heap_blocks s" i] by auto
    have nth: "g_heap_blocks s ! i = b" using d(1,2) by auto
    have lst: "s' = s \<Longrightarrow> bs = heap_view pre @ [as_block b]" using d by (simp add: bs_def heap_view_holes)
    consider "\<not> hb_free b" | "hb_free b" "hb_addr b + hb_size b \<noteq> g_heap_next s"
      | "hb_free b" "hb_addr b + hb_size b = g_heap_next s" by blast
    then show ?thesis
    proof cases
      case 1
      then have "s' = s" using False Some nth by (simp add: s'_def heap_absorb_frontier_def Let_def)
      with 1 lst show ?thesis by simp
    next
      case 2
      then have e: "s' = s" using False Some nth by (simp add: s'_def heap_absorb_frontier_def Let_def)
      have "unat (hb_addr b) + unat (hb_size b) < 2 ^ 32" using heap_ends [OF inv, of b] d(1) by simp
      then have "unat (hb_addr b) + unat (hb_size b) \<noteq> unat (g_heap_next s)" using 2(2) touch_words by blast
      with e lst nz show ?thesis by (simp add: next_nonzero)
    next
      case 3
      then have "g_heap_next s' = XBOX_HEAP_TOP c" using False Some nth
        by (simp add: s'_def heap_absorb_frontier_def Let_def)
      moreover have "g_heap_next s' \<noteq> 0" using absorb_inv(4) [OF inv nz] by (simp add: s'_def)
      ultimately show ?thesis by (simp add: next_nonzero)
    qed
  qed
qed

lemma room_fits:
  assumes p: "pow2 al" and free: "hb_free b" and count: "count + 2 \<le> XBOX_HEAP_MAX_BLOCKS"
    and run: "unat (hb_addr b) \<le> a" "a + unat n \<le> unat (hb_addr b) + unat (hb_size b)" "a mod unat al = 0" "a < 2 ^ 32"
  shows "reuse_fits n al count b"
proof -
  let ?x = "align_up (hb_addr b) al"
  have le: "unat ?x \<le> a" and ge: "\<not> ?x < hb_addr b" using align_up_least [OF p run(1,4,3)] by simp_all
  have lead: "unat (?x - hb_addr b) = unat ?x - unat (hb_addr b)"
    using ge by (intro unat_sub) (simp add: not_less)
  then have "unat (?x - hb_addr b) \<le> unat (hb_size b)" using le run(2) by linarith
  moreover from this have "unat (hb_size b - (?x - hb_addr b)) = unat (hb_size b) - unat (?x - hb_addr b)"
    by (intro unat_sub) (simp add: word_le_nat_alt)
  moreover have "unat n \<le> unat (hb_size b) - (unat ?x - unat (hb_addr b))" using le run(2) ge
    by (simp add: word_less_nat_alt)
  ultimately show ?thesis using free ge count lead by (simp add: reuse_fits_def Let_def word_less_nat_alt)
qed

lemma heap_refusal:
  assumes inv: "heap_inv c s" and req: "heap_request c n al" and h: "xbox_HeapAlloc c n al s = (0, s')"
    and room: "length (g_heap_blocks s) + 2 \<le> XBOX_HEAP_MAX_BLOCKS"
    and run: "a mod unat (least_align al) = 0" "{a..<a + unat (least_size n)} \<subseteq> heap_available c s"
  shows False
proof -
  let ?n = "least_size n" and ?al = "least_align al"
  define s0 where "s0 = heap_started c s"
  define s1 where "s1 = heap_absorb_frontier c s0"
  have base: "0 < arena_base c" using inv by (simp add: heap_inv_def)
  have inv0: "heap_inv c s0" using inv by (simp add: heap_inv_def s0_def)
  have nz0: "g_heap_next s0 \<noteq> 0" using base by (auto simp: s0_def heap_started_def unat_eq_zero)
  note ab = absorb_inv [OF inv0 nz0, folded s1_def]
  note lst = absorb_last [OF inv0 nz0, folded s1_def]
  have p: "pow2 ?al" and fit: "arena_top c + unat ?al + unat ?n \<le> 2 ^ 32"
    using req by (auto simp: heap_request_def pow2_least)
  have alloc: "(case find_from (reuse_fits ?n ?al (length (g_heap_blocks s1))) 0 (g_heap_blocks s1) of
      Some i \<Rightarrow> heap_reuse ?n ?al i s1 | None \<Rightarrow> heap_bump c ?n ?al s1) = (0, s')"
    using h unfolding xbox_HeapAlloc_def Let_def s0_def s1_def least_align_def least_size_def .
  have none: "find_from (reuse_fits ?n ?al (length (g_heap_blocks s1))) 0 (g_heap_blocks s1) = None"
  proof (rule ccontr)
    assume "\<not> ?thesis"
    then obtain i where "find_from (reuse_fits ?n ?al (length (g_heap_blocks s1))) 0 (g_heap_blocks s1) = Some i" by blast
    with alloc heap_reuse_spec [OF ab(1,4) p least_size_pos this] show False by auto
  qed
  have full: "arena_top c < unat (align_up (g_heap_next s1) ?al) + unat ?n"
    using alloc none heap_bump_spec [OF ab(1,4) p least_size_pos fit] by simp
  have av: "heap_available c s = vacant_bytes (heap_view (g_heap_blocks s1)) \<union> {arena_next c s1..<arena_top c}"
    using ab(2) by (simp add: heap_available_def s0_def)
  have pl: "placed (arena_base c) (heap_view (g_heap_blocks s1)) (arena_next c s1)"
    and co: "coalesced (heap_view (g_heap_blocks s1))" and tp: "arena_next c s1 \<le> arena_top c"
    using ab(1) by (auto simp: heap_inv_def)
  have "a \<in> {a..<a + unat ?n}" using least_size_pos by simp
  with run(2) av have "a \<in> vacant_bytes (heap_view (g_heap_blocks s1)) \<union> {arena_next c s1..<arena_top c}" by blast
  then have "a < arena_top c" using vacant_bytes_within [OF pl] tp by auto
  then have a32: "a < 2 ^ 32" using unat_u32_lt [of "XBOX_HEAP_TOP c"] by simp
  from run_in_one_piece [OF pl co least_size_pos run(2) [unfolded av] lst] show False
  proof (elim disjE bexE conjE)
    assume sub: "{a..<a + unat ?n} \<subseteq> {arena_next c s1..<arena_top c}"
    then have "unat (g_heap_next s1) \<le> a" "a + unat ?n \<le> arena_top c"
      using least_size_pos [of n] by (auto simp: next_nonzero [OF ab(4)])
    with full align_up_least(1) [OF p _ a32 run(1), of "g_heap_next s1"] show False by linarith
  next
    fix d assume d: "d \<in> set (heap_view (g_heap_blocks s1))" "vacant d" "{a..<a + unat ?n} \<subseteq> span d"
    then obtain b where b: "b \<in> set (g_heap_blocks s1)" "d = as_block b" by (auto simp: heap_view_def)
    have "unat (hb_addr b) \<le> a" "a + unat ?n \<le> unat (hb_addr b) + unat (hb_size b)"
      using d(3) least_size_pos [of n] by (auto simp: b(2) span_def)
    moreover have "length (g_heap_blocks s1) + 2 \<le> XBOX_HEAP_MAX_BLOCKS" using room ab(7) by (simp add: s0_def)
    ultimately have "reuse_fits ?n ?al (length (g_heap_blocks s1)) b"
      using d(2) run(1) a32 p by (intro room_fits) (simp_all add: b(2))
    with none b(1) show False by (simp add: find_from_None)
  qed
qed

end
