(* ===== verification/Reserve_Space.thy ===== *)
theory Reserve_Space
  imports Guest_Heap_Inv
begin

text \<open>
  The allocator for address-space reservations in the part of the mapping above RAM
  (\<open>xbox_ReserveAlloc\<close>, \<open>xbox_ReserveFree\<close>, \<open>xbox_QueryReserveAddress\<close> of
  \<open>src/kernel/xbox_memory_layout.c\<close>). Its table has at most 128 entries, which tile the whole range
  between the end of RAM and the end of the mapping: a block is cut for a reservation and merged
  back with its vacant neighbours on release, with the surplus entry removed from the array.
\<close>

section \<open>The table\<close>

record reserve_block =
  rb_addr :: u32
  rb_size :: u32
  rb_free :: bool

definition XBOX_RESERVE_MAX_BLOCKS :: nat where "XBOX_RESERVE_MAX_BLOCKS = 128"

text \<open>The size of the mapping, as the memory layout's initialisation computes it.\<close>

definition g_memory_size :: "heap_env \<Rightarrow> u64" where
  "g_memory_size c = (if g_xbox_map_size c \<noteq> 0 then g_xbox_map_size c else g_xbox_total_ram c)"

definition reserve_reset :: "reserve_block list \<Rightarrow> reserve_block list" where
  "reserve_reset bs = []"

definition reserve_init :: "heap_env \<Rightarrow> reserve_block list \<Rightarrow> reserve_block list" where
  "reserve_init c bs =
    (if bs \<noteq> [] \<or> g_memory_size c \<le> g_xbox_total_ram c then bs
     else [\<lparr>rb_addr = ucast (g_xbox_total_ram c), rb_size = ucast (g_memory_size c - g_xbox_total_ram c), rb_free = True\<rparr>])"

definition reserve_fits :: "u32 \<Rightarrow> u32 \<Rightarrow> nat \<Rightarrow> reserve_block \<Rightarrow> bool" where
  "reserve_fits nbytes align count b =
    (rb_free b \<and>
     (let start' = align_up (rb_addr b) align; lead = start' - rb_addr b; tail = rb_size b - lead - nbytes in
        \<not> start' < rb_addr b \<and> \<not> (lead > rb_size b \<or> nbytes > rb_size b - lead)
        \<and> \<not> count + (if lead \<noteq> 0 then 1 else 0) + (if tail \<noteq> 0 then 1 else 0) > XBOX_RESERVE_MAX_BLOCKS))"

definition reserve_lead :: "u32 \<Rightarrow> nat \<times> reserve_block list \<Rightarrow> nat \<times> reserve_block list" where
  "reserve_lead align = (\<lambda>(i, bs).
     let start' = align_up (rb_addr (bs ! i)) align; lead = start' - rb_addr (bs ! i) in
     if lead \<noteq> 0 then
       let bs = dup_at i bs in
       (Suc i, bs[i := (bs ! i)\<lparr>rb_size := lead\<rparr>,
                  Suc i := (bs ! Suc i)\<lparr>rb_addr := start', rb_size := rb_size (bs ! Suc i) - lead\<rparr>])
     else (i, bs))"

definition reserve_tail :: "u32 \<Rightarrow> u32 \<Rightarrow> nat \<times> reserve_block list \<Rightarrow> reserve_block list" where
  "reserve_tail start' nbytes = (\<lambda>(i, bs).
     let tail = rb_size (bs ! i) - nbytes;
         bs = (if tail \<noteq> 0 then
                 insert_after i \<lparr>rb_addr = start' + nbytes, rb_size = tail, rb_free = True\<rparr> bs
               else bs)
     in bs[i := \<lparr>rb_addr = start', rb_size = nbytes, rb_free = False\<rparr>])"

definition xbox_ReserveAlloc ::
  "heap_env \<Rightarrow> u32 \<Rightarrow> u32 \<Rightarrow> reserve_block list \<times> memory \<Rightarrow> u32 \<times> reserve_block list \<times> memory" where
  "xbox_ReserveAlloc c nbytes align = (\<lambda>(bs, m).
     if g_memory_size c \<le> g_xbox_total_ram c \<or> nbytes = 0 then (0, bs, m)
     else
       let align = if align = 0 then 4096 else align;
           bs = reserve_init c bs
       in case find_from (reserve_fits nbytes align (length bs)) 0 bs of
            None \<Rightarrow> (0, bs, m)
          | Some i \<Rightarrow> let start' = align_up (rb_addr (bs ! i)) align in
              (start', reserve_tail start' nbytes (reserve_lead align (i, bs)), memset_at m start' 0 nbytes))"

definition remove_at :: "nat \<Rightarrow> 'a list \<Rightarrow> 'a list" where
  "remove_at i bs = take i bs @ drop (Suc i) bs"

lemma length_remove_at [simp]: "i < length bs \<Longrightarrow> length (remove_at i bs) = length bs - 1"
  by (simp add: remove_at_def)

function merge_following :: "nat \<Rightarrow> reserve_block list \<Rightarrow> reserve_block list" where
  "merge_following i bs =
    (if Suc i < length bs \<and> rb_free (bs ! Suc i) then
       merge_following i (remove_at (Suc i) (bs[i := (bs ! i)\<lparr>rb_size := rb_size (bs ! i) + rb_size (bs ! Suc i)\<rparr>]))
     else bs)"
  by auto
termination by (relation "measure (\<lambda>(i, bs). length bs)") auto

declare merge_following.simps [simp del]

definition merge_preceding :: "nat \<Rightarrow> reserve_block list \<Rightarrow> reserve_block list" where
  "merge_preceding i bs =
    (if i > 0 \<and> rb_free (bs ! (i - 1)) then
       remove_at i (bs[i - 1 := (bs ! (i - 1))\<lparr>rb_size := rb_size (bs ! (i - 1)) + rb_size (bs ! i)\<rparr>])
     else bs)"

definition xbox_ReserveFree :: "heap_env \<Rightarrow> u32 \<Rightarrow> reserve_block list \<Rightarrow> bool \<times> reserve_block list" where
  "xbox_ReserveFree c address bs =
    (let bs = reserve_init c bs in
     case find_from (\<lambda>b. \<not> (rb_free b \<or> rb_addr b \<noteq> address)) 0 bs of
       None \<Rightarrow> (False, bs)
     | Some i \<Rightarrow> (True, merge_preceding i (merge_following i (bs[i := (bs ! i)\<lparr>rb_free := True\<rparr>]))))"

definition xbox_QueryReserveAddress :: "heap_env \<Rightarrow> u32 \<Rightarrow> reserve_block list \<Rightarrow> (u32 \<times> u32) option \<times> reserve_block list" where
  "xbox_QueryReserveAddress c address bs =
    (let bs = reserve_init c bs in
     (case find_from (\<lambda>b. \<not> (rb_free b \<or> address < rb_addr b
          \<or> (ucast address :: u64) \<ge> ucast (rb_addr b) + ucast (rb_size b))) 0 bs of
        None \<Rightarrow> None
      | Some i \<Rightarrow> Some (rb_addr (bs ! i), rb_size (bs ! i)), bs))"

section \<open>The invariant\<close>

definition rb_block :: "reserve_block \<Rightarrow> block" where
  "rb_block b = (unat (rb_addr b), unat (rb_size b), rb_free b)"

lemma rb_block_sel [simp]:
  "start (rb_block b) = unat (rb_addr b)" "len (rb_block b) = unat (rb_size b)" "vacant (rb_block b) = rb_free b"
  by (simp_all add: rb_block_def)

abbreviation ram_end :: "heap_env \<Rightarrow> nat" where "ram_end c \<equiv> unat (g_xbox_total_ram c)"
abbreviation map_end :: "heap_env \<Rightarrow> nat" where "map_end c \<equiv> unat (g_memory_size c)"

definition reserve_inv :: "heap_env \<Rightarrow> reserve_block list \<Rightarrow> bool" where
  "reserve_inv c bs \<longleftrightarrow> 0 < ram_end c \<and> map_end c \<le> 2 ^ 32 \<and>
     (bs = [] \<or> ram_end c < map_end c \<and> tiles (ram_end c) (map rb_block bs) (map_end c)
        \<and> coalesced (map rb_block bs) \<and> length bs \<le> XBOX_RESERVE_MAX_BLOCKS)"

definition reserve_available :: "heap_env \<Rightarrow> reserve_block list \<Rightarrow> nat set" where
  "reserve_available c bs = vacant_bytes (map rb_block (reserve_init c bs))"

definition reserve_held :: "reserve_block list \<Rightarrow> (nat \<times> nat) set" where
  "reserve_held bs = held (map rb_block bs)"

lemma reserve_init_idem [simp]: "reserve_init c (reserve_init c bs) = reserve_init c bs"
  by (simp add: reserve_init_def)

lemma reserve_init_inv:
  assumes "reserve_inv c bs"
  shows "reserve_inv c (reserve_init c bs)" "reserve_held (reserve_init c bs) = reserve_held bs"
    "reserve_available c (reserve_init c bs) = reserve_available c bs"
proof -
  show "reserve_held (reserve_init c bs) = reserve_held bs"
    by (auto simp: reserve_init_def reserve_held_def rb_block_def)
  show "reserve_available c (reserve_init c bs) = reserve_available c bs"
    by (simp add: reserve_available_def)
  show "reserve_inv c (reserve_init c bs)"
  proof (cases "bs \<noteq> [] \<or> g_memory_size c \<le> g_xbox_total_ram c")
    case True
    then show ?thesis using assms by (simp add: reserve_init_def)
  next
    case False
    then have lt: "ram_end c < map_end c" by (simp add: word_less_nat_alt not_le)
    have b: "0 < ram_end c" "map_end c \<le> 2 ^ 32" using assms by (auto simp: reserve_inv_def)
    have diff: "unat (g_memory_size c - g_xbox_total_ram c) = map_end c - ram_end c"
      using lt by (intro unat_sub) (simp add: word_le_nat_alt)
    have small: "unat (ucast (w :: u64) :: u32) = unat w" if "unat w < 2 ^ 32" for w
      using that by (simp add: unsigned_ucast_eq take_bit_nat_eq_self)
    have "unat (ucast (g_xbox_total_ram c) :: u32) = ram_end c"
      "unat (ucast (g_memory_size c - g_xbox_total_ram c) :: u32) = map_end c - ram_end c"
      using b lt diff by (auto intro!: trans [OF small])
    then show ?thesis using False b lt
      by (simp add: reserve_init_def reserve_inv_def rb_block_def XBOX_RESERVE_MAX_BLOCKS_def)
  qed
qed

section \<open>Reserving\<close>

definition reserve_granted :: "heap_env \<Rightarrow> reserve_block list \<Rightarrow> u32 \<Rightarrow> u32 \<Rightarrow> u32 \<Rightarrow> reserve_block list \<Rightarrow> bool" where
  "reserve_granted c bs n al r bs' \<longleftrightarrow>
     unat r mod unat al = 0
     \<and> {unat r..<unat r + unat n} \<subseteq> reserve_available c bs
     \<and> reserve_available c bs' = reserve_available c bs - {unat r..<unat r + unat n}
     \<and> reserve_held bs' = insert (unat r, unat n) (reserve_held bs)"

lemma reserve_tail_split:
  "reserve_tail x n (length pre, pre @ b # post) =
   pre @ \<lparr>rb_addr = x, rb_size = n, rb_free = False\<rparr> #
     (if rb_size b - n \<noteq> 0 then [\<lparr>rb_addr = x + n, rb_size = rb_size b - n, rb_free = True\<rparr>] else []) @ post"
  by (simp add: reserve_tail_def Let_def list_update_append)

lemma reserve_cut:
  assumes p: "pow2 al" and n: "0 < unat n" and e: "unat (rb_addr b) + unat (rb_size b) \<le> 2 ^ 32"
    and fits: "reserve_fits n al cnt b"
  defines "x \<equiv> align_up (rb_addr b) al"
  shows "\<exists>ls ts. reserve_tail x n (reserve_lead al (length pre, pre @ b # post)) =
           pre @ ls @ \<lparr>rb_addr = x, rb_size = n, rb_free = False\<rparr> # ts @ post
     \<and> tiles (unat (rb_addr b)) (map rb_block (ls @ \<lparr>rb_addr = x, rb_size = n, rb_free = False\<rparr> # ts))
         (unat (rb_addr b) + unat (rb_size b))
     \<and> (\<forall>l \<in> set (ls @ ts). rb_free l) \<and> length ls \<le> 1 \<and> length ts \<le> 1
     \<and> cnt + length ls + length ts \<le> XBOX_RESERVE_MAX_BLOCKS \<and> unat x mod unat al = 0"
proof -
  define lead where "lead = x - rb_addr b"
  define tail where "tail = rb_size b - lead - n"
  have f: "\<not> x < rb_addr b" "\<not> lead > rb_size b" "\<not> n > rb_size b - lead" "rb_free b"
    "\<not> cnt + (if lead \<noteq> 0 then 1 else 0) + (if tail \<noteq> 0 then 1 else 0) > XBOX_RESERVE_MAX_BLOCKS"
    using fits by (auto simp: reserve_fits_def Let_def x_def lead_def tail_def)
  have le: "unat (rb_addr b) \<le> unat x" using f(1) by (simp add: word_less_nat_alt)
  then have ld: "unat lead = unat x - unat (rb_addr b)"
    unfolding lead_def by (intro unat_sub) (simp add: word_le_nat_alt)
  have cap: "unat lead \<le> unat (rb_size b)" using f(2) by (simp add: word_less_nat_alt)
  then have av: "unat (rb_size b - lead) = unat (rb_size b) - unat lead"
    by (intro unat_sub) (simp add: word_le_nat_alt)
  have nle: "unat n \<le> unat (rb_size b) - unat lead" using f(3) av by (simp add: word_less_nat_alt)
  then have tl: "unat tail = unat (rb_size b) - unat lead - unat n"
    unfolding tail_def av [symmetric] by (intro unat_sub) (simp add: word_le_nat_alt av)
  have sum: "unat (x + n) = unat x + unat n" if "tail \<noteq> 0"
  proof -
    have "0 < unat tail" using that by (simp add: word_greater_zero_iff [symmetric] word_less_nat_alt)
    with tl e ld le cap nle have "unat x + unat n < 2 ^ 32" by linarith
    then show ?thesis by (simp add: unat_add_lem [symmetric])
  qed
  let ?t = "\<lparr>rb_addr = x, rb_size = n, rb_free = False\<rparr>"
  define ls where "ls = (if lead \<noteq> 0 then [b\<lparr>rb_size := lead\<rparr>] else [])"
  define ts where "ts = (if tail \<noteq> 0 then [\<lparr>rb_addr = x + n, rb_size = tail, rb_free = True\<rparr>] else [])"
  have x0: "lead = 0 \<Longrightarrow> x = rb_addr b" by (simp add: lead_def)
  have lead_step: "reserve_lead al (length pre, pre @ b # post) =
      (length (pre @ ls), (pre @ ls) @ b\<lparr>rb_addr := x, rb_size := rb_size b - lead\<rparr> # post)"
    using x0 by (auto simp: reserve_lead_def Let_def ls_def list_update_append x_def [symmetric] lead_def)
  have "reserve_tail x n (reserve_lead al (length pre, pre @ b # post)) = pre @ ls @ ?t # ts @ post"
    unfolding lead_step reserve_tail_split by (simp add: ts_def tail_def)
  moreover have "tiles (unat (rb_addr b)) (map rb_block ls) (unat x)"
  proof (cases "lead = 0")
    case True
    then show ?thesis using x0 by (simp add: ls_def)
  next
    case False
    then have "0 < unat lead" by (simp add: word_greater_zero_iff [symmetric] word_less_nat_alt)
    then show ?thesis using ld le False by (simp add: ls_def rb_block_def)
  qed
  moreover have "tiles (unat x) (map rb_block (?t # ts)) (unat (rb_addr b) + unat (rb_size b))"
  proof (cases "tail = 0")
    case True
    then show ?thesis using tl ld le cap nle n by (simp add: ts_def rb_block_def)
  next
    case False
    then have "0 < unat tail" by (simp add: word_greater_zero_iff [symmetric] word_less_nat_alt)
    then show ?thesis using tl ld le cap nle n sum [OF False] False by (simp add: ts_def rb_block_def)
  qed
  ultimately show ?thesis
    using f(4,5) align_up_nat(1) [OF p, of "rb_addr b"]
    by (intro exI [of _ ls] exI [of _ ts]) (auto simp: ls_def ts_def x_def tiles_append simp del: tiles.simps)
qed

definition page_align :: "u32 \<Rightarrow> u32" where "page_align al = (if al = 0 then 4096 else al)"

lemma pow2_4096: "pow2 4096"
  by (auto simp: pow2_def push_bit_eq_mult intro!: exI [of _ 12])

theorem reserve_alloc_spec:
  assumes inv: "reserve_inv c bs" and al: "pow2 al \<or> al = 0"
    and h: "xbox_ReserveAlloc c n al (bs, m) = (r, bs', m')"
  shows "reserve_inv c bs'"
    "r = 0 \<Longrightarrow> reserve_held bs' = reserve_held bs \<and> reserve_available c bs' = reserve_available c bs \<and> m' = m"
    "r \<noteq> 0 \<Longrightarrow> 0 < unat n \<and> reserve_granted c bs n (page_align al) r bs' \<and> m' = memset_at m r 0 n"
proof -
  let ?al = "page_align al"
  have p: "pow2 ?al" using al pow2_4096 by (auto simp: page_align_def)
  define b0 where "b0 = reserve_init c bs"
  note i0 = reserve_init_inv [OF inv, folded b0_def]
  have eqs: "reserve_granted c b0 n ?al r bs' \<Longrightarrow> reserve_granted c bs n ?al r bs'"
    using i0(2,3) by (simp add: reserve_granted_def)
  have "reserve_inv c bs' \<and>
    (r = 0 \<longrightarrow> reserve_held bs' = reserve_held bs \<and> reserve_available c bs' = reserve_available c bs \<and> m' = m) \<and>
    (r \<noteq> 0 \<longrightarrow> 0 < unat n \<and> reserve_granted c b0 n ?al r bs' \<and> m' = memset_at m r 0 n)"
  proof (cases "g_memory_size c \<le> g_xbox_total_ram c \<or> n = 0")
    case True
    then show ?thesis using h inv by (auto simp: xbox_ReserveAlloc_def)
  next
    case False
    then have n: "0 < unat n" by (simp add: word_greater_zero_iff [symmetric] word_less_nat_alt)
    have h': "(case find_from (reserve_fits n ?al (length b0)) 0 b0 of None \<Rightarrow> (0, b0, m)
          | Some i \<Rightarrow> let start' = align_up (rb_addr (b0 ! i)) ?al in
              (start', reserve_tail start' n (reserve_lead ?al (i, b0)), memset_at m start' 0 n)) = (r, bs', m')"
      using h False unfolding xbox_ReserveAlloc_def b0_def page_align_def Let_def prod.case by simp
    show ?thesis
    proof (cases "find_from (reserve_fits n ?al (length b0)) 0 b0")
      case None
      then show ?thesis using h' i0 by simp
    next
      case (Some i)
      then obtain pre b post where d: "b0 = pre @ b # post" "i = length pre" "reserve_fits n ?al (length b0) b"
        by (auto simp: find_from_Some)
      define x where "x = align_up (rb_addr b) ?al"
      define t where "t = \<lparr>rb_addr = x, rb_size = n, rb_free = False\<rparr>"
      have r: "r = x" "m' = memset_at m x 0 n" "bs' = reserve_tail x n (reserve_lead ?al (length pre, pre @ b # post))"
        using h' Some d(1,2) by (auto simp: x_def Let_def)
      have ne: "b0 \<noteq> []" using d(1) by simp
      then have ti: "tiles (ram_end c) (map rb_block pre @ rb_block b # map rb_block post) (map_end c)"
        and co: "coalesced (map rb_block pre @ rb_block b # map rb_block post)"
        and ram: "0 < ram_end c" "ram_end c < map_end c" "map_end c \<le> 2 ^ 32"
        using i0(1) by (auto simp: reserve_inv_def d(1))
      note pl = tiles_placed [OF ti]
      have in_b: "ram_end c \<le> unat (rb_addr b)" "unat (rb_addr b) + unat (rb_size b) \<le> map_end c"
        using placed_in [OF pl, of "rb_block b"] by simp_all
      have e: "unat (rb_addr b) + unat (rb_size b) \<le> 2 ^ 32" using in_b ram by simp
      have fb: "rb_free b" using d(3) by (simp add: reserve_fits_def)
      obtain ls ts where cut: "bs' = pre @ ls @ t # ts @ post"
        "tiles (unat (rb_addr b)) (map rb_block (ls @ t # ts)) (unat (rb_addr b) + unat (rb_size b))"
        "\<forall>l \<in> set (ls @ ts). rb_free l" "length ls \<le> 1" "length ts \<le> 1"
        "length b0 + length ls + length ts \<le> XBOX_RESERVE_MAX_BLOCKS" "unat x mod unat ?al = 0"
        using reserve_cut [OF p n e d(3), of pre post, folded x_def, folded t_def r(3)] by (elim exE conjE) (rule that)
      have ti': "tiles (start (rb_block b)) (map rb_block ls @ rb_block t # map rb_block ts) (stop (rb_block b))"
        using cut(2) by simp
      have vac: "\<forall>l \<in> set (map rb_block ls). vacant l" "\<forall>l \<in> set (map rb_block ts). vacant l"
        and lens: "length (map rb_block ls) \<le> 1" "length (map rb_block ts) \<le> 1"
        and vt: "\<not> vacant (rb_block t)" and vb: "vacant (rb_block b)"
        using cut(3,4,5) fb by (auto simp: t_def)
      note cv = cut_vacant [OF pl co vb ti' vt vac(1) lens(1) vac(2) lens(2)]
      have sb: "start (rb_block b) < stop (rb_block b)" using placed_in [OF pl, of "rb_block b"] by simp
      have new: "map rb_block bs' = map rb_block pre @ (map rb_block ls @ rb_block t # map rb_block ts) @ map rb_block post"
        by (simp add: cut(1))
      have old: "map rb_block b0 = map rb_block pre @ rb_block b # map rb_block post" by (simp add: d(1))
      have tn: "tiles (ram_end c) (map rb_block bs') (map_end c)"
        using tiles_replace [of "ram_end c" "map rb_block pre" "[rb_block b]" "map rb_block post" "map_end c",
            OF _ _ _ ti'] ti sb unfolding new by simp
      have "reserve_inv c bs'"
        using tn cv(2) ram cut(6) unfolding reserve_inv_def new [symmetric] by (auto simp: cut(1) d(1))
      moreover have "x \<noteq> 0"
      proof -
        have "ram_end c \<le> unat x" using placed_in [OF tiles_placed [OF tn], of "rb_block t"] by (simp add: cut(1) t_def)
        then show ?thesis using ram by auto
      qed
      moreover have "reserve_granted c b0 n ?al x bs'"
      proof -
        have init: "reserve_init c bs' = bs'" "reserve_init c b0 = b0"
          by (simp add: reserve_init_def cut(1)) (simp add: b0_def)
        have spt: "span (rb_block t) = {unat x..<unat x + unat n}" by (simp add: span_def t_def)
        have hl: "reserve_held bs' = insert (unat x, unat n) (reserve_held b0)"
          unfolding reserve_held_def new old using cv(4) by (simp add: t_def)
        show ?thesis
          using cv(3,5) cut(7) hl unfolding reserve_granted_def reserve_available_def init new old spt by simp
      qed
      ultimately show ?thesis using n r by simp
    qed
  qed
  then show "reserve_inv c bs'"
    "r = 0 \<Longrightarrow> reserve_held bs' = reserve_held bs \<and> reserve_available c bs' = reserve_available c bs \<and> m' = m"
    "r \<noteq> 0 \<Longrightarrow> 0 < unat n \<and> reserve_granted c bs n (page_align al) r bs' \<and> m' = memset_at m r 0 n"
    using eqs by blast+
qed

section \<open>Releasing\<close>

lemma remove_at_append [simp]: "remove_at (Suc (length pre)) (pre @ b # q # post) = pre @ b # post"
  "remove_at (length pre) (pre @ b # post) = pre @ post"
  by (simp_all add: remove_at_def)

text \<open>
  In a table that tiles its range, neighbours always touch; so in a coalesced one the merging loop
  runs at most once.
\<close>

lemma merge_following_view:
  assumes fb: "rb_free b" and ti: "tiles (unat (rb_addr b)) (map rb_block (b # post)) hi"
    and co: "coalesced (map rb_block post)" and hi: "hi < unat (rb_addr b) + 2 ^ 32"
  shows "\<exists>b' post'. merge_following (length pre) (pre @ b # post) = pre @ b' # post'
     \<and> map rb_block (b' # post') = join_right (rb_block b) (map rb_block post) \<and> length post' \<le> length post"
proof (cases post)
  case Nil
  then show ?thesis by (simp add: merge_following.simps join_right_def)
next
  case (Cons q qs)
  have adj: "unat (rb_addr b) + unat (rb_size b) = unat (rb_addr q)" using ti Cons by simp
  show ?thesis
  proof (cases "rb_free q")
    case False
    then show ?thesis
      using Cons by (simp add: merge_following.simps [of "length pre"] join_right_def nth_append)
  next
    case True
    let ?b = "b\<lparr>rb_size := rb_size b + rb_size q\<rparr>"
    have "unat (rb_addr q) + unat (rb_size q) \<le> hi" using ti Cons by (auto dest: tiles_le)
    then have "unat (rb_size b) + unat (rb_size q) < 2 ^ 32" using adj hi by linarith
    then have sum: "unat (rb_size b + rb_size q) = unat (rb_size b) + unat (rb_size q)"
      by (simp add: unat_add_lem [symmetric])
    have once: "merge_following (length pre) (pre @ b # post) = merge_following (length pre) (pre @ ?b # qs)"
      using True Cons by (simp add: merge_following.simps [of "length pre" "pre @ b # q # qs"] nth_append list_update_append)
    have stopq: "qs = [] \<or> \<not> rb_free (hd qs)"
      using co ti True Cons by (cases qs) (auto simp: touching_def)
    then have "merge_following (length pre) (pre @ ?b # qs) = pre @ ?b # qs"
      by (cases qs) (simp_all add: merge_following.simps nth_append)
    moreover have "map rb_block (?b # qs) = join_right (rb_block b) (map rb_block post)"
      using Cons True fb adj sum by (simp add: join_right_def rb_block_def)
    ultimately show ?thesis using once Cons by (intro exI [of _ ?b] exI [of _ qs]) simp
  qed
qed

lemma merge_preceding_view:
  assumes fb: "rb_free b" and ti: "tiles lo (map rb_block (pre @ b # post)) hi" and hi: "hi < lo + 2 ^ 32"
  shows "map rb_block (merge_preceding (length pre) (pre @ b # post)) =
           join_left (map rb_block pre) (map rb_block (b # post))
     \<and> length (merge_preceding (length pre) (pre @ b # post)) \<le> length (pre @ b # post)"
proof (cases pre rule: rev_cases)
  case Nil
  then show ?thesis by (simp add: merge_preceding_def join_left_def)
next
  case (snoc ps p)
  have adj: "unat (rb_addr p) + unat (rb_size p) = unat (rb_addr b)" and lo: "lo \<le> unat (rb_addr p)"
    and top: "unat (rb_addr b) + unat (rb_size b) \<le> hi"
    using ti snoc by (auto simp: tiles_append dest: tiles_le)
  have "unat (rb_size p) + unat (rb_size b) < 2 ^ 32" using adj lo top hi by linarith
  then have sum: "unat (rb_size p + rb_size b) = unat (rb_size p) + unat (rb_size b)"
    by (simp add: unat_add_lem [symmetric])
  have nth: "(ps @ p # b # post) ! length ps = p" "(ps @ p # b # post) ! Suc (length ps) = b"
    by (simp_all add: nth_append)
  have r: "remove_at (Suc (length ps)) (ps @ x # b # post) = ps @ x # post" for x by simp
  have m: "merge_preceding (length pre) (pre @ b # post) =
    (if rb_free p then ps @ p\<lparr>rb_size := rb_size p + rb_size b\<rparr> # post else pre @ b # post)"
    using nth r by (simp add: merge_preceding_def snoc list_update_append)
  show ?thesis
    using adj sum unfolding m by (auto simp: snoc join_left_def rb_block_def)
qed

definition reserved_at :: "u32 \<Rightarrow> reserve_block list \<Rightarrow> (nat \<times> nat) set" where
  "reserved_at va bs = {(a, n) \<in> reserve_held bs. a = unat va}"

lemma reserve_held_iff:
  "(a, n) \<in> reserve_held bs \<longleftrightarrow> (\<exists>b \<in> set bs. \<not> rb_free b \<and> unat (rb_addr b) = a \<and> unat (rb_size b) = n)"
  by (auto simp: reserve_held_def held_def rb_block_def image_iff)

theorem reserve_free_spec:
  assumes inv: "reserve_inv c bs" and h: "xbox_ReserveFree c va bs = (ok, bs')"
  shows "reserve_inv c bs'" "ok \<longleftrightarrow> reserved_at va bs \<noteq> {}"
    "reserve_held bs' = reserve_held bs - reserved_at va bs"
    "reserve_available c bs' = reserve_available c bs \<union> (\<Union>(a, n) \<in> reserved_at va bs. {a..<a + n})"
proof -
  define b0 where "b0 = reserve_init c bs"
  note i0 = reserve_init_inv [OF inv, folded b0_def]
  have at0: "reserved_at va b0 = reserved_at va bs" using i0(2) by (simp add: reserved_at_def)
  let ?P = "\<lambda>b. \<not> (rb_free b \<or> rb_addr b \<noteq> va)"
  have "reserve_inv c bs' \<and> (ok \<longleftrightarrow> reserved_at va b0 \<noteq> {}) \<and> reserve_held bs' = reserve_held b0 - reserved_at va b0
    \<and> reserve_available c bs' = reserve_available c b0 \<union> (\<Union>(a, n) \<in> reserved_at va b0. {a..<a + n})"
  proof (cases "find_from ?P 0 b0")
    case None
    then have "reserved_at va b0 = {}"
      by (auto simp: reserved_at_def reserve_held_iff find_from_None word_unat_eq_iff)
    moreover have "bs' = b0" "\<not> ok" using h None by (auto simp: xbox_ReserveFree_def b0_def Let_def)
    ultimately show ?thesis using i0 by simp
  next
    case (Some i)
    then obtain pre b post where d: "b0 = pre @ b # post" "i = length pre" "?P b"
      unfolding find_from_Some by auto
    define f where "f = b\<lparr>rb_free := True\<rparr>"
    have ok: "ok" and bs': "bs' = merge_preceding (length pre) (merge_following (length pre) (pre @ f # post))"
      using h Some unfolding xbox_ReserveFree_def b0_def [symmetric] Let_def
      by (auto simp: d(1,2) f_def list_update_append)
    define a where "a = unat (rb_addr b)" define n where "n = unat (rb_size b)"
    have old: "map rb_block b0 = map rb_block pre @ (a, n, False) # map rb_block post"
      using d(3) by (simp add: d(1) rb_block_def a_def n_def)
    have ne: "b0 \<noteq> []" using d(1) by simp
    then have ti: "tiles (ram_end c) (map rb_block pre @ (a, n, False) # map rb_block post) (map_end c)"
      and co: "coalesced (map rb_block pre @ (a, n, False) # map rb_block post)"
      and ram: "0 < ram_end c" "ram_end c < map_end c" "map_end c \<le> 2 ^ 32" and cnt: "length b0 \<le> XBOX_RESERVE_MAX_BLOCKS"
      using i0(1) by (auto simp: reserve_inv_def old)
    note pl = tiles_placed [OF ti]
    note gb = give_back [OF pl co]
    have lo: "ram_end c \<le> a" "a + n \<le> map_end c" using placed_in [OF pl, of "(a, n, False)"] by auto
    have af: "rb_block f = (a, n, True)" "rb_free f" by (simp_all add: f_def rb_block_def a_def n_def)
    have fa: "unat (rb_addr f) = a" by (simp add: f_def a_def)
    have tf: "tiles (unat (rb_addr f)) (map rb_block (f # post)) (map_end c)"
      using ti unfolding fa by (auto simp: tiles_append af)
    have cf: "coalesced (map rb_block post)" using co by (cases post) (auto simp: coalesced_append)
    have "map_end c < unat (rb_addr f) + 2 ^ 32" using ram lo fa by linarith
    then obtain g post' where g: "merge_following (length pre) (pre @ f # post) = pre @ g # post'"
      "map rb_block (g # post') = join_right (a, n, True) (map rb_block post)" "length post' \<le> length post"
      using merge_following_view [OF af(2) tf cf] unfolding af(1) by blast
    have gf: "rb_free g"
      using g(2) by (cases "map rb_block post") (auto simp: join_right_def rb_block_def split: if_splits)
    have tg: "tiles (ram_end c) (map rb_block (pre @ g # post')) (map_end c)"
    proof -
      have "tiles (ram_end c) (map rb_block pre) a" "tiles a ((a, n, False) # map rb_block post) (map_end c)"
        using ti by (auto simp: tiles_append)
      moreover have "tiles a (join_right (a, n, True) (map rb_block post)) (map_end c)"
        using calculation(2) by (cases "map rb_block post") (auto simp: join_right_def add.assoc [symmetric])
      ultimately show ?thesis using g(2) by (auto simp: tiles_append simp del: tiles.simps)
    qed
    have "map_end c < ram_end c + 2 ^ 32" using ram by linarith
    note mp = merge_preceding_view [OF gf tg this, folded g(1), folded bs', unfolded g(2)]
    then have new: "map rb_block bs' = join_left (map rb_block pre) (join_right (a, n, True) (map rb_block post))"
      and len: "length bs' \<le> length b0"
      using g(1,3) by (simp_all add: d(1))
    have names: "reserved_at va b0 = {(a, n)}"
      using held_at [OF pl, of a n] d(3) unfolding reserved_at_def reserve_held_def old a_def by simp
    have ne': "bs' \<noteq> []" using gb(5) [OF ti] ram new by auto
    have "reserve_inv c bs'"
      using gb(2) gb(5) [OF ti] ram len cnt unfolding reserve_inv_def new by simp
    moreover have "reserve_held bs' = reserve_held b0 - reserved_at va b0"
      unfolding reserve_held_def new names old by (rule gb(4))
    moreover have "reserve_available c bs' = reserve_available c b0 \<union> (\<Union>(a, n) \<in> reserved_at va b0. {a..<a + n})"
    proof -
      have "reserve_init c bs' = bs'" "reserve_init c b0 = b0" using ne' by (auto simp: reserve_init_def b0_def)
      then show ?thesis using gb(3) by (simp add: reserve_available_def new names old)
    qed
    ultimately show ?thesis using ok names by simp
  qed
  then show "reserve_inv c bs'" "ok \<longleftrightarrow> reserved_at va bs \<noteq> {}"
    "reserve_held bs' = reserve_held bs - reserved_at va bs"
    "reserve_available c bs' = reserve_available c bs \<union> (\<Union>(a, n) \<in> reserved_at va bs. {a..<a + n})"
    using i0(2,3) at0 by simp_all
qed

section \<open>The reservations as an allocator\<close>

definition reserve_take ::
  "heap_env \<Rightarrow> u32 \<times> u32 \<Rightarrow> reserve_block list \<times> memory \<Rightarrow> u32 \<times> u32 \<times> (reserve_block list \<times> memory)" where
  "reserve_take c = (\<lambda>(n, al) x. case xbox_ReserveAlloc c n al x of (r, x') \<Rightarrow> (r, n, x'))"

definition reserve_give :: "heap_env \<Rightarrow> u32 \<Rightarrow> reserve_block list \<times> memory \<Rightarrow> reserve_block list \<times> memory" where
  "reserve_give c va = (\<lambda>(bs, m). (snd (xbox_ReserveFree c va bs), m))"

lemma reserve_placed:
  "reserve_inv c bs \<Longrightarrow> placed (ram_end c) (map rb_block bs) (map_end c) \<or> bs = []"
  by (auto simp: reserve_inv_def dest: tiles_placed)

lemma reserve_held_taken:
  assumes inv: "reserve_inv c bs" and b: "b \<in> reserve_held bs"
  shows "extent b \<inter> reserve_available c bs = {} \<and> 0 < snd b"
proof -
  have ne: "bs \<noteq> []" using b by (auto simp: reserve_held_def)
  then have pl: "placed (ram_end c) (map rb_block bs) (map_end c)" using reserve_placed [OF inv] by blast
  have "reserve_init c bs = bs" using ne by (simp add: reserve_init_def)
  with held_free_disjoint [OF pl, of "fst b" "snd b"] held_within [OF pl, of "fst b" "snd b"] b show ?thesis
    by (simp add: reserve_held_def reserve_available_def extent_def)
qed

lemma reserve_held_apart: "reserve_inv c bs \<Longrightarrow> apart (reserve_held bs)"
proof (cases "bs = []")
  case False
  assume "reserve_inv c bs"
  with False have "placed (ram_end c) (map rb_block bs) (map_end c)" using reserve_placed by blast
  then show ?thesis unfolding apart_def reserve_held_def by (metis held_disjoint extent_pair surj_pair)
qed (simp add: apart_def reserve_held_def)

lemma reserve_free_facts:
  assumes "reserve_inv c bs"
  shows "reserve_inv c (snd (xbox_ReserveFree c va bs))"
    "reserve_held (snd (xbox_ReserveFree c va bs)) = reserve_held bs - reserved_at va bs"
    "reserve_available c (snd (xbox_ReserveFree c va bs)) =
       reserve_available c bs \<union> \<Union> (extent ` reserved_at va bs)"
    "fst (xbox_ReserveFree c va bs) \<longleftrightarrow> reserved_at va bs \<noteq> {}"
  using reserve_free_spec [OF assms surjective_pairing, of va] by (auto simp: extent_def split: prod.splits)

interpretation reserve_provider: memory_provider "\<lambda>(bs, m). reserve_inv c bs" "\<lambda>(bs, m). reserve_available c bs"
  "\<lambda>(bs, m). reserve_held bs" "\<lambda>(n, al). pow2 al \<or> al = 0" "reserve_take c" "reserve_give c"
  "\<lambda>va (bs, m). reserved_at va bs" for c
proof
  fix s s' :: "reserve_block list \<times> memory" and b r n x and q :: "u32 \<times> u32"
  obtain bs m where s: "s = (bs, m)" by (cases s)
  obtain bs' m' where s': "s' = (bs', m')" by (cases s')
  obtain k al where q: "q = (k, al)" by (cases q)
  assume "case s of (bs, m) \<Rightarrow> reserve_inv c bs"
  then have inv: "reserve_inv c bs" by (simp add: s)
  note fr = reserve_free_facts [OF inv]
  show "b \<in> (case s of (bs, m) \<Rightarrow> reserve_held bs) \<Longrightarrow>
      extent b \<inter> (case s of (bs, m) \<Rightarrow> reserve_available c bs) = {} \<and> 0 < snd b"
    using reserve_held_taken [OF inv] by (simp add: s)
  show "apart (case s of (bs, m) \<Rightarrow> reserve_held bs)" using reserve_held_apart [OF inv] by (simp add: s)
  show "case reserve_give c x s of (bs, m) \<Rightarrow> reserve_inv c bs"
    "(case reserve_give c x s of (bs, m) \<Rightarrow> reserve_held bs) =
       (case s of (bs, m) \<Rightarrow> reserve_held bs) - (case s of (bs, m) \<Rightarrow> reserved_at x bs)"
    "(case reserve_give c x s of (bs, m) \<Rightarrow> reserve_available c bs) =
       (case s of (bs, m) \<Rightarrow> reserve_available c bs) \<union> \<Union> (extent ` (case s of (bs, m) \<Rightarrow> reserved_at x bs))"
    using fr by (simp_all add: s reserve_give_def)
  show "(case s of (bs, m) \<Rightarrow> reserved_at x bs) \<subseteq> (case s of (bs, m) \<Rightarrow> reserve_held bs)"
    by (auto simp: s reserved_at_def)
  assume "case q of (n, al) \<Rightarrow> pow2 al \<or> al = 0"
  then have al: "pow2 al \<or> al = 0" by (simp add: q)
  have take: "reserve_take c q s = (r', n, s') \<Longrightarrow> n = k \<and> xbox_ReserveAlloc c k al (bs, m) = (r', bs', m')" for r'
    by (auto simp: reserve_take_def q s s' split: prod.splits)
  show "case s' of (bs, m) \<Rightarrow> reserve_inv c bs" if "reserve_take c q s = (r, n, s')"
    using take [OF that] reserve_alloc_spec(1) [OF inv al] by (auto simp: s')
  show "(case s' of (bs, m) \<Rightarrow> reserve_available c bs) = (case s of (bs, m) \<Rightarrow> reserve_available c bs)
      \<and> (case s' of (bs, m) \<Rightarrow> reserve_held bs) = (case s of (bs, m) \<Rightarrow> reserve_held bs)"
    if "reserve_take c q s = (0, n, s')"
    using take [OF that] reserve_alloc_spec(2) [OF inv al] by (auto simp: s s')
  show "\<exists>k \<ge> unat n. extent (unat r, k) \<subseteq> (case s of (bs, m) \<Rightarrow> reserve_available c bs)
      \<and> (case s' of (bs, m) \<Rightarrow> reserve_available c bs) \<subseteq> (case s of (bs, m) \<Rightarrow> reserve_available c bs) - extent (unat r, k)
      \<and> ((case s' of (bs, m) \<Rightarrow> reserve_held bs) = insert (unat r, k) (case s of (bs, m) \<Rightarrow> reserve_held bs)
         \<or> (case s' of (bs, m) \<Rightarrow> reserve_held bs) = (case s of (bs, m) \<Rightarrow> reserve_held bs))"
    if t: "reserve_take c q s = (r, n, s')" and r: "r \<noteq> 0"
    using take [OF t] reserve_alloc_spec(3) [OF inv al _ r] unfolding reserve_granted_def s s' prod.case extent_pair
    by blast
qed

end
