(* ===== verification/Vm_Bridge.thy ===== *)
theory Vm_Bridge
  imports Reserve_Space
begin

text \<open>
  The kernel exports through which a title manages memory, after \<open>src/kernel/kernel_bridge.c\<close>, and
  the thread stacks and the contiguous allocator of \<open>src/kernel/xbox_memory_layout.c\<close> (the branch
  of hosts other than Windows). An export takes its arguments from the guest stack, works on the
  guest heap, the reservation table and the page-protection ledger, and leaves its result in
  \<open>g_eax\<close>. Log lines are left out. The host's page query behind \<open>MmQueryAddressProtect\<close> is an argument,
  and the host call to which \<open>MmSetAddressProtect\<close> also forwards is outside the state. Bytes are kept
  at the address an export uses; that the contiguous window may show the same bytes as low RAM is
  a matter of the host mappings.
\<close>

section \<open>State\<close>

record reserve_note =
  rn_base :: u32
  rn_size :: u32
  rn_committed :: u32
  rn_commits :: u32

record guest_vm =
  vm_heap :: guest_heap
  g_reserve_blocks :: "reserve_block list"
  g_reserves :: "reserve_note list"
  g_reserve_overflow :: u32
  g_guest_page_protect :: "nat \<Rightarrow> u16"
  g_physical_heap_view :: bool
  g_thread_stacks_used :: nat
  g_thread_stack_sizes :: "(u32 \<times> u32) list"
  vm_eax :: u32
  vm_esp :: u32

definition vm_ram :: "guest_vm \<Rightarrow> memory" where "vm_ram v = guest_ram (vm_heap v)"

definition set_ram :: "memory \<Rightarrow> guest_vm \<Rightarrow> guest_vm" where
  "set_ram m v = v\<lparr>vm_heap := (vm_heap v)\<lparr>guest_ram := m\<rparr>\<rparr>"

definition STACK_ARG :: "nat \<Rightarrow> guest_vm \<Rightarrow> u32" where
  "STACK_ARG n v = MEM32 (vm_ram v) (vm_esp v + of_nat n * 4)"

definition return_eax :: "u32 \<Rightarrow> guest_vm \<Rightarrow> guest_vm" where
  "return_eax x v = v\<lparr>vm_eax := x\<rparr>"

definition store_guest :: "u32 \<Rightarrow> u32 \<Rightarrow> guest_vm \<Rightarrow> guest_vm" where
  "store_guest va x v = set_ram (RECOMP_MEM_WRITE32 (vm_ram v) va x) v"

definition vm_alloc :: "heap_env \<Rightarrow> u32 \<Rightarrow> u32 \<Rightarrow> guest_vm \<Rightarrow> u32 \<times> guest_vm" where
  "vm_alloc c nbytes align v =
    (case xbox_HeapAlloc c nbytes align (vm_heap v) of (r, h) \<Rightarrow> (r, v\<lparr>vm_heap := h\<rparr>))"

definition vm_free :: "heap_env \<Rightarrow> u32 \<Rightarrow> guest_vm \<Rightarrow> guest_vm" where
  "vm_free c va v = v\<lparr>vm_heap := xbox_HeapFree c va (vm_heap v)\<rparr>"

definition vm_reserve :: "heap_env \<Rightarrow> u32 \<Rightarrow> u32 \<Rightarrow> guest_vm \<Rightarrow> u32 \<times> guest_vm" where
  "vm_reserve c nbytes align v =
    (case xbox_ReserveAlloc c nbytes align (g_reserve_blocks v, vm_ram v) of
       (r, bs, m) \<Rightarrow> (r, set_ram m (v\<lparr>g_reserve_blocks := bs\<rparr>)))"

section \<open>Thread stacks\<close>

definition XBOX_MAX_THREAD_STACKS :: nat where "XBOX_MAX_THREAD_STACKS = 8"
definition XBOX_THREAD_STACK_SLOTS :: nat where "XBOX_THREAD_STACK_SLOTS = 64"
definition XBOX_THREAD_STACK_SIZE :: u32 where "XBOX_THREAD_STACK_SIZE = 512 * 1024"
definition XBOX_THREAD_STACK_MIN :: u32 where "XBOX_THREAD_STACK_MIN = 64 * 1024"

definition stack_bytes :: "u32 \<Rightarrow> u32" where
  "stack_bytes n =
    (let n = if n = 0 then XBOX_THREAD_STACK_SIZE else n;
         n = if n < XBOX_THREAD_STACK_MIN then XBOX_THREAD_STACK_MIN else n;
         n = if n > XBOX_THREAD_STACK_SIZE then XBOX_THREAD_STACK_SIZE else n
     in (n + 0xFFF) AND NOT 0xFFF)"

definition xbox_AllocThreadStack :: "heap_env \<Rightarrow> u32 \<Rightarrow> guest_vm \<Rightarrow> u32 \<times> guest_vm" where
  "xbox_AllocThreadStack c nbytes v =
    (if g_thread_stacks_used v \<ge> XBOX_MAX_THREAD_STACKS then (0, v)
     else let n = stack_bytes nbytes in
       case vm_alloc c n 4096 v of (base, v) \<Rightarrow>
         if base = 0 then (0, v)
         else let top = base + n - 16;
                  v = v\<lparr>g_thread_stacks_used := g_thread_stacks_used v + 1\<rparr>;
                  v = (case find_from (\<lambda>(t, k). t = 0) 0 (g_thread_stack_sizes v) of
                         None \<Rightarrow> v
                       | Some i \<Rightarrow> v\<lparr>g_thread_stack_sizes := (g_thread_stack_sizes v)[i := (top, n)]\<rparr>)
              in (top, v))"

definition xbox_GuestStackRangeFor :: "u32 \<Rightarrow> guest_vm \<Rightarrow> (u32 \<times> u32) option" where
  "xbox_GuestStackRangeFor esp v =
    (case find_from (\<lambda>(top, n). \<not> (top = 0 \<or> n = 0) \<and> \<not> (esp < top + 16 - n \<or> esp > top)) 0 (g_thread_stack_sizes v) of
       None \<Rightarrow> None
     | Some i \<Rightarrow> let (top, n) = g_thread_stack_sizes v ! i in Some (top + 16 - n, top))"

definition xbox_FreeThreadStack :: "heap_env \<Rightarrow> u32 \<Rightarrow> guest_vm \<Rightarrow> guest_vm" where
  "xbox_FreeThreadStack c stack_top v =
    (if stack_top = 0 then v
     else
       let (n, v) = (case find_from (\<lambda>(t, k). t = stack_top) 0 (g_thread_stack_sizes v) of
                  None \<Rightarrow> (XBOX_THREAD_STACK_SIZE, v)
                | Some i \<Rightarrow> let (t, k) = g_thread_stack_sizes v ! i in
                    (k, v\<lparr>g_thread_stack_sizes := (g_thread_stack_sizes v)[i := (0, k)]\<rparr>));
           v = vm_free c (stack_top + 16 - n) v
       in v\<lparr>g_thread_stacks_used := g_thread_stacks_used v - 1\<rparr>)"

section \<open>Pool, contiguous and system memory\<close>

definition XBOX_CONTIG_BASE :: u32 where "XBOX_CONTIG_BASE = 0x80000000"
definition XBOX_CONTIG_SIZE :: u32 where "XBOX_CONTIG_SIZE = 64 * 1024 * 1024"

definition xbox_ContiguousAlloc :: "heap_env \<Rightarrow> u32 \<Rightarrow> u32 \<Rightarrow> guest_vm \<Rightarrow> u32 \<times> guest_vm" where
  "xbox_ContiguousAlloc c nbytes alignment v =
    (let alignment = if alignment < 4096 then 4096 else alignment in
     case vm_alloc c nbytes alignment v of (result, v) \<Rightarrow>
       (if result \<noteq> 0 \<and> g_physical_heap_view v then result OR XBOX_CONTIG_BASE else result, v))"

definition bridge_MmAllocateContiguousMemory :: "heap_env \<Rightarrow> guest_vm \<Rightarrow> guest_vm" where
  "bridge_MmAllocateContiguousMemory c v =
    (case xbox_ContiguousAlloc c (STACK_ARG 0 v) 4096 v of (r, v) \<Rightarrow> return_eax r v)"

definition XBOX_PHYSICAL_MIRROR_BASE :: u32 where "XBOX_PHYSICAL_MIRROR_BASE = 0x80000000"

definition bridge_MmAllocateContiguousMemoryEx :: "heap_env \<Rightarrow> guest_vm \<Rightarrow> guest_vm" where
  "bridge_MmAllocateContiguousMemoryEx c v =
    (let nbytes = STACK_ARG 0 v; low = STACK_ARG 1 v; high = STACK_ARG 2 v; align = STACK_ARG 3 v in
     if low \<noteq> 0 \<and> high \<ge> low \<and> high - low + 1 \<le> nbytes + 0x1000 then
       let va = XBOX_PHYSICAL_MIRROR_BASE + low in
       return_eax va (set_ram (memset_at (vm_ram v) va 0 nbytes) v)
     else
       let align = if align < 4096 then 4096 else align in
       case xbox_ContiguousAlloc c nbytes align v of (r, v) \<Rightarrow> return_eax r v)"

definition bridge_MmFreeContiguousMemory :: "heap_env \<Rightarrow> guest_vm \<Rightarrow> guest_vm" where
  "bridge_MmFreeContiguousMemory c v = return_eax 0 (vm_free c (STACK_ARG 0 v) v)"

definition bridge_ExAllocatePool :: "heap_env \<Rightarrow> guest_vm \<Rightarrow> guest_vm" where
  "bridge_ExAllocatePool c v = (case vm_alloc c (STACK_ARG 0 v) 16 v of (r, v) \<Rightarrow> return_eax r v)"

definition bridge_ExAllocatePoolWithTag :: "heap_env \<Rightarrow> guest_vm \<Rightarrow> guest_vm" where
  "bridge_ExAllocatePoolWithTag c v = (case vm_alloc c (STACK_ARG 0 v) 16 v of (r, v) \<Rightarrow> return_eax r v)"

definition bridge_ExFreePool :: "heap_env \<Rightarrow> guest_vm \<Rightarrow> guest_vm" where
  "bridge_ExFreePool c v = return_eax 0 (vm_free c (STACK_ARG 0 v) v)"

definition bridge_ExQueryPoolBlockSize :: "heap_env \<Rightarrow> guest_vm \<Rightarrow> guest_vm" where
  "bridge_ExQueryPoolBlockSize c v = return_eax (xbox_HeapBlockSize c (STACK_ARG 0 v) (vm_heap v)) v"

definition bridge_MmQueryAllocationSize :: "heap_env \<Rightarrow> guest_vm \<Rightarrow> guest_vm" where
  "bridge_MmQueryAllocationSize c v = return_eax (xbox_HeapBlockSize c (STACK_ARG 0 v) (vm_heap v)) v"

section \<open>The page-protection ledger\<close>

definition BRIDGE_PROT_PAGES :: u32 where "BRIDGE_PROT_PAGES = drop_bit 12 (128 * 1024 * 1024)"
definition PAGE_READWRITE :: u32 where "PAGE_READWRITE = 4"

definition bridge_prot_page_index :: "u32 \<Rightarrow> nat option" where
  "bridge_prot_page_index va =
    (let va = if va \<ge> XBOX_CONTIG_BASE \<and> va < XBOX_CONTIG_BASE + XBOX_CONTIG_SIZE then va AND 0x03FFFFFF else va;
         page = drop_bit 12 va
     in if page < BRIDGE_PROT_PAGES then Some (unat page) else None)"

definition bridge_prot_get :: "u32 \<Rightarrow> guest_vm \<Rightarrow> u32" where
  "bridge_prot_get va v =
    (let p = (case bridge_prot_page_index va of Some page \<Rightarrow> ucast (g_guest_page_protect v page) | None \<Rightarrow> 0)
     in if p \<noteq> 0 then p else PAGE_READWRITE)"

definition prot_page :: "u32 \<Rightarrow> nat \<Rightarrow> (nat \<Rightarrow> u16) \<Rightarrow> nat \<Rightarrow> u16" where
  "prot_page protect p t =
    (case bridge_prot_page_index (of_nat p) of Some page \<Rightarrow> t(page := ucast protect) | None \<Rightarrow> t)"

text \<open>The 64-bit loop variable is a number; it steps by a page from \<open>first\<close> while below \<open>last\<close>.\<close>

definition bridge_prot_set :: "u32 \<Rightarrow> u32 \<Rightarrow> u32 \<Rightarrow> guest_vm \<Rightarrow> guest_vm" where
  "bridge_prot_set va nbytes protect v =
    (if nbytes = 0 \<or> protect = 0 then v
     else
       let first = unat va div 0x1000 * 0x1000;
           last' = (unat va + unat nbytes + 0xFFF) div 0x1000 * 0x1000;
           table = unat BRIDGE_PROT_PAGES * 4096;
           last' = if last' - first > table then first + table else last'
       in v\<lparr>g_guest_page_protect :=
              fold (\<lambda>k. prot_page protect (first + k * 4096)) [0..<(last' - first) div 4096] (g_guest_page_protect v)\<rparr>)"

definition bridge_MmAllocateSystemMemory :: "heap_env \<Rightarrow> guest_vm \<Rightarrow> guest_vm" where
  "bridge_MmAllocateSystemMemory c v =
    (let nbytes = STACK_ARG 0 v; protect = STACK_ARG 1 v in
     if nbytes = 0 then return_eax 0 v
     else case vm_alloc c nbytes 4096 v of (va, v) \<Rightarrow>
       if va = 0 then return_eax 0 v
       else return_eax va (if protect \<noteq> 0 then bridge_prot_set va ((nbytes + 0xFFF) AND NOT 0xFFF) protect v else v))"

definition bridge_MmFreeSystemMemory :: "heap_env \<Rightarrow> guest_vm \<Rightarrow> guest_vm" where
  "bridge_MmFreeSystemMemory c v =
    return_eax 0 (if STACK_ARG 0 v \<noteq> 0 then vm_free c (STACK_ARG 0 v) v else v)"

definition bridge_MmMapIoSpace :: "heap_env \<Rightarrow> guest_vm \<Rightarrow> guest_vm" where
  "bridge_MmMapIoSpace c v =
    (let nbytes = STACK_ARG 1 v; protect = STACK_ARG 2 v in
     case vm_alloc c nbytes 4096 v of (va, v) \<Rightarrow>
       return_eax va (if va \<noteq> 0 \<and> protect \<noteq> 0 then bridge_prot_set va nbytes protect v else v))"

definition bridge_MmQueryAddressProtect :: "(u32 \<Rightarrow> u32) \<Rightarrow> guest_vm \<Rightarrow> guest_vm" where
  "bridge_MmQueryAddressProtect xbox_MmQueryAddressProtect v =
    (let address = STACK_ARG 0 v in
     if address = 0 then return_eax 0 v
     else case bridge_prot_page_index address of
       Some page \<Rightarrow> if g_guest_page_protect v page \<noteq> 0 then return_eax (ucast (g_guest_page_protect v page)) v
                    else return_eax (xbox_MmQueryAddressProtect address) v
     | None \<Rightarrow> return_eax (xbox_MmQueryAddressProtect address) v)"

definition bridge_MmSetAddressProtect :: "guest_vm \<Rightarrow> guest_vm" where
  "bridge_MmSetAddressProtect v = return_eax 0 (bridge_prot_set (STACK_ARG 0 v) (STACK_ARG 1 v) (STACK_ARG 2 v) v)"

definition XBOX_TIB_MAIN :: u32 where "XBOX_TIB_MAIN = 0x4000"

definition bridge_va_mapped :: "heap_env \<Rightarrow> u32 \<Rightarrow> u32 \<Rightarrow> bool" where
  "bridge_va_mapped c va nbytes =
    (let end' = unat va + unat nbytes; mapped = unat (g_memory_size c) in
     if va < XBOX_TIB_MAIN then False
     else if end' \<le> mapped then True
     else va \<ge> XBOX_CONTIG_BASE \<and> end' \<le> unat XBOX_CONTIG_BASE + unat XBOX_CONTIG_SIZE)"

definition bridge_checked_out_va :: "heap_env \<Rightarrow> u32 \<Rightarrow> u32 \<Rightarrow> u32" where
  "bridge_checked_out_va c va nbytes = (if va = 0 \<or> bridge_va_mapped c va nbytes then va else 0)"

definition bridge_NtProtectVirtualMemory :: "heap_env \<Rightarrow> guest_vm \<Rightarrow> guest_vm" where
  "bridge_NtProtectVirtualMemory c v =
    (let base_ptr = bridge_checked_out_va c (STACK_ARG 0 v) 4;
         size_ptr = bridge_checked_out_va c (STACK_ARG 1 v) 4;
         new_prot = STACK_ARG 2 v;
         old_ptr = bridge_checked_out_va c (STACK_ARG 3 v) 4
     in if base_ptr = 0 \<or> size_ptr = 0 then return_eax 0xC000000D v
        else
          let base = MEM32 (vm_ram v) base_ptr; nbytes = MEM32 (vm_ram v) size_ptr in
          if nbytes = 0 \<or> unat base + unat nbytes > 0x100000000 then return_eax 0xC000000D v
          else
            let access = new_prot AND 0xFF; modifiers = new_prot AND NOT 0xFF in
            if access = 0 \<or> access AND (access - 1) \<noteq> 0 \<or> modifiers AND NOT 0x700 \<noteq> 0
            then return_eax 0xC0000045 v
            else
              let aligned_base = base AND NOT 0xFFF;
                  end' = (unat base + unat nbytes + 0xFFF) div 0x1000 * 0x1000;
                  aligned_size = of_nat (end' - unat aligned_base);
                  old_prot = bridge_prot_get aligned_base v;
                  v = bridge_prot_set aligned_base aligned_size new_prot v;
                  v = store_guest base_ptr aligned_base v;
                  v = store_guest size_ptr aligned_size v;
                  v = (if old_ptr \<noteq> 0 then store_guest old_ptr old_prot v else v)
              in return_eax 0 v)"

section \<open>Virtual memory\<close>

definition BRIDGE_RESERVE_MAX :: nat where "BRIDGE_RESERVE_MAX = 32"

definition bridge_reserve_note :: "u32 \<Rightarrow> u32 \<Rightarrow> guest_vm \<Rightarrow> guest_vm" where
  "bridge_reserve_note base nbytes v =
    (if length (g_reserves v) \<ge> BRIDGE_RESERVE_MAX then v\<lparr>g_reserve_overflow := g_reserve_overflow v + 1\<rparr>
     else v\<lparr>g_reserves := g_reserves v @ [\<lparr>rn_base = base, rn_size = nbytes, rn_committed = 0, rn_commits = 0\<rparr>]\<rparr>)"

definition bridge_reserve_commit :: "u32 \<Rightarrow> u32 \<Rightarrow> guest_vm \<Rightarrow> guest_vm" where
  "bridge_reserve_commit base nbytes v =
    (case find_from (\<lambda>r. \<not> (base < rn_base r \<or> unat base \<ge> unat (rn_base r) + unat (rn_size r))) 0 (g_reserves v) of
       None \<Rightarrow> v
     | Some i \<Rightarrow> let r = g_reserves v ! i in
         v\<lparr>g_reserves := (g_reserves v)[i := r\<lparr>rn_committed := rn_committed r + nbytes, rn_commits := rn_commits r + 1\<rparr>]\<rparr>)"

definition pure_reserve :: "u32 \<Rightarrow> bool" where
  "pure_reserve alloc_type = (alloc_type AND 0x2000 \<noteq> 0 \<and> alloc_type AND 0x1000 = 0)"

text \<open>The clamp: halve the request until the heap grants it or no more than 64 KB was refused.\<close>

function clamp_reserve :: "heap_env \<Rightarrow> u32 \<Rightarrow> guest_vm \<Rightarrow> u32 \<times> u32 \<times> guest_vm" where
  "clamp_reserve c want v =
    (if want > 0x10000 then
       case vm_alloc c (want div 2) 4096 v of
         (va, v') \<Rightarrow> if va = 0 then clamp_reserve c (want div 2) v' else (va, want div 2, v')
     else (0, want, v))"
  by auto
termination
  by (relation "measure (\<lambda>(c, want, v). unat want)") (auto simp: word_less_nat_alt unat_div)

declare clamp_reserve.simps [simp del]

definition nt_allocate :: "heap_env \<Rightarrow> u32 \<Rightarrow> u32 \<Rightarrow> guest_vm \<Rightarrow> u32 \<times> u32 \<times> guest_vm" where
  "nt_allocate c alloc_type nbytes v =
    (let (va, v) = (if pure_reserve alloc_type \<and> xbox_SeparateReserveSpaceEnabled c
                    then vm_reserve c nbytes 4096 v else (0, v));
         (va, v) = (if va = 0 then vm_alloc c nbytes 4096 v else (va, v));
         (va, v) = (if va = 0 \<and> pure_reserve alloc_type then vm_reserve c nbytes 4096 v else (va, v))
     in if va = 0 \<and> pure_reserve alloc_type then
          case clamp_reserve c nbytes v of (va, want, v) \<Rightarrow> (va, if va \<noteq> 0 then want else nbytes, v)
        else (va, nbytes, v))"

definition bridge_NtAllocateVirtualMemory :: "heap_env \<Rightarrow> guest_vm \<Rightarrow> guest_vm" where
  "bridge_NtAllocateVirtualMemory c v =
    (let base_ptr = STACK_ARG 0 v; size_ptr = STACK_ARG 2 v; alloc_type = STACK_ARG 3 v;
         nbytes = (if size_ptr \<noteq> 0 then MEM32 (vm_ram v) size_ptr else 0);
         base_hint = (if base_ptr \<noteq> 0 then MEM32 (vm_ram v) base_ptr else 0)
     in if nbytes = 0 then return_eax 0xC0000045 v
        else if base_hint \<noteq> 0 \<and> alloc_type AND 0x2000 = 0 then
          return_eax 0 (bridge_reserve_commit base_hint nbytes v)
        else
          case nt_allocate c alloc_type nbytes v of (va, nbytes, v) \<Rightarrow>
            if va = 0 then return_eax 0xC0000017 v
            else
              let v = (if pure_reserve alloc_type then bridge_reserve_note va nbytes v else v);
                  v = (if base_ptr \<noteq> 0 then store_guest base_ptr va v else v);
                  v = (if size_ptr \<noteq> 0 then store_guest size_ptr nbytes v else v)
              in return_eax 0 v)"

definition nt_release :: "heap_env \<Rightarrow> u32 \<Rightarrow> guest_vm \<Rightarrow> guest_vm" where
  "nt_release c base_va v =
    (case xbox_ReserveFree c base_va (g_reserve_blocks v) of (ok, bs) \<Rightarrow>
       let v = v\<lparr>g_reserve_blocks := bs\<rparr> in if ok then v else vm_free c base_va v)"

definition bridge_NtFreeVirtualMemory :: "heap_env \<Rightarrow> guest_vm \<Rightarrow> guest_vm" where
  "bridge_NtFreeVirtualMemory c v =
    (let base_ptr = STACK_ARG 0 v; free_type = STACK_ARG 2 v;
         base_va = (if base_ptr \<noteq> 0 then MEM32 (vm_ram v) base_ptr else 0)
     in if base_ptr = 0 \<or> base_va = 0 then return_eax 0xC000000D v
        else return_eax 0
          (if free_type AND 0x8000 \<noteq> 0 then store_guest base_ptr 0 (nt_release c base_va v) else v))"

definition bridge_NtQueryVirtualMemory :: "heap_env \<Rightarrow> u32 \<Rightarrow> guest_vm \<Rightarrow> guest_vm" where
  "bridge_NtQueryVirtualMemory c g_xbox_code_lo v =
    (let base_va = STACK_ARG 0 v; info_va = STACK_ARG 1 v; page_base = base_va AND NOT 0xFFF in
     case xbox_QueryReserveAddress c page_base (g_reserve_blocks v) of (hit, bs) \<Rightarrow>
       let v = v\<lparr>g_reserve_blocks := bs\<rparr> in
       if info_va = 0 then return_eax 0xC000000D v
       else
         let v = store_guest (info_va + 0x00) page_base v;
             v = store_guest (info_va + 0x04) page_base v;
             v = store_guest (info_va + 0x08) 0x04 v;
             v = store_guest (info_va + 0x14) 0x04 v;
             v = store_guest (info_va + 0x18) 0x20000 v;
             v = (case hit of
                    Some (reserve_base, reserve_size) \<Rightarrow>
                      store_guest (info_va + 0x10) 0x1000
                        (store_guest (info_va + 0x0C) (reserve_base + reserve_size - page_base)
                          (store_guest (info_va + 0x04) reserve_base v))
                  | None \<Rightarrow>
                      if page_base \<ge> g_xbox_code_lo \<and> unat page_base < unat (g_xbox_total_ram c) then
                        store_guest (info_va + 0x10) 0x1000
                          (store_guest (info_va + 0x0C) (ucast (g_xbox_total_ram c) - page_base) v)
                      else
                        store_guest (info_va + 0x18) 0
                          (store_guest (info_va + 0x08) 0
                            (store_guest (info_va + 0x10) 0x10000
                              (store_guest (info_va + 0x0C) 0x1000 v))))
         in return_eax 0 v)"

end
