(* ===== verification/Vm_Memory.thy ===== *)
theory Vm_Memory
  imports Vm_Bridge
begin

text \<open>
  The memory manager as a whole: pool, contiguous and virtual-memory requests are served from two
  allocators, and releases find their way back to the one the block came from. The layout that
  keeps the two apart is stated here, and under it the composition is an instance of the
  allocator contract, whose ledger theorem then speaks of the title's calls.
\<close>

section \<open>The layout and the invariant\<close>

definition vm_layout :: "heap_env \<Rightarrow> bool" where
  "vm_layout c \<longleftrightarrow> 0 < arena_base c \<and> arena_base c \<le> arena_top c \<and> arena_top c \<le> ram_end c
     \<and> 0 < ram_end c \<and> ram_end c < 2 ^ 31 \<and> map_end c \<le> 2 ^ 32"

definition vm_inv :: "heap_env \<Rightarrow> guest_vm \<Rightarrow> bool" where
  "vm_inv c v \<longleftrightarrow> vm_layout c \<and> heap_inv c (vm_heap v) \<and> reserve_inv c (g_reserve_blocks v)"

definition vm_live :: "guest_vm \<Rightarrow> (nat \<times> nat) set" where
  "vm_live v = heap_live (vm_heap v) \<union> reserve_held (g_reserve_blocks v)"

definition vm_available :: "heap_env \<Rightarrow> guest_vm \<Rightarrow> nat set" where
  "vm_available c v = heap_available c (vm_heap v) \<union> reserve_available c (g_reserve_blocks v)"

text \<open>Everything the heap has lies below the end of RAM, everything the reservations have above.\<close>

lemma heap_below:
  assumes "vm_inv c v"
  shows "heap_available c (vm_heap v) \<subseteq> {..<ram_end c}" "b \<in> heap_live (vm_heap v) \<Longrightarrow> extent b \<subseteq> {..<ram_end c} \<and> 0 < fst b"
proof -
  have pl: "placed (arena_base c) (heap_view (g_heap_blocks (vm_heap v))) (arena_next c (vm_heap v))"
    and top: "arena_next c (vm_heap v) \<le> arena_top c" "arena_top c \<le> ram_end c" "0 < arena_base c"
    using assms by (auto simp: vm_inv_def heap_inv_def vm_layout_def)
  show "heap_available c (vm_heap v) \<subseteq> {..<ram_end c}"
    using vacant_bytes_within [OF pl] top by (auto simp: heap_available_def)
  show "extent b \<subseteq> {..<ram_end c} \<and> 0 < fst b" if "b \<in> heap_live (vm_heap v)"
    using held_within [OF pl, of "fst b" "snd b"] that top by (auto simp: heap_live_def extent_def)
qed

lemma reserve_above:
  assumes "vm_inv c v"
  shows "reserve_available c (g_reserve_blocks v) \<subseteq> {ram_end c..}"
    "b \<in> reserve_held (g_reserve_blocks v) \<Longrightarrow> extent b \<subseteq> {ram_end c..} \<and> ram_end c \<le> fst b"
proof -
  have inv: "reserve_inv c (g_reserve_blocks v)" using assms by (simp add: vm_inv_def)
  from reserve_placed [OF reserve_init_inv(1) [OF inv]]
  show "reserve_available c (g_reserve_blocks v) \<subseteq> {ram_end c..}"
    by (fastforce simp: reserve_available_def dest: vacant_bytes_within)
  show "extent b \<subseteq> {ram_end c..} \<and> ram_end c \<le> fst b" if b: "b \<in> reserve_held (g_reserve_blocks v)"
  proof -
    have "g_reserve_blocks v \<noteq> []" using b by (auto simp: reserve_held_def)
    with reserve_placed [OF inv] have "placed (ram_end c) (map rb_block (g_reserve_blocks v)) (map_end c)" by blast
    from held_within [OF this, of "fst b" "snd b"] b show ?thesis
      by (auto simp: reserve_held_def extent_def)
  qed
qed

lemma vm_live_taken: "vm_inv c v \<Longrightarrow> b \<in> vm_live v \<Longrightarrow> extent b \<inter> vm_available c v = {} \<and> 0 < snd b"
proof -
  assume inv: "vm_inv c v" and b: "b \<in> vm_live v"
  then have h: "heap_inv c (vm_heap v)" and r: "reserve_inv c (g_reserve_blocks v)" by (auto simp: vm_inv_def)
  have sep: "{..<ram_end c} \<inter> {ram_end c..} = {}" by auto
  from b consider "b \<in> heap_live (vm_heap v)" | "b \<in> reserve_held (g_reserve_blocks v)" by (auto simp: vm_live_def)
  then show ?thesis
  proof cases
    case 1
    have "extent b \<inter> reserve_available c (g_reserve_blocks v) = {}"
      using heap_below(2) [OF inv 1] reserve_above(1) [OF inv] sep by blast
    with heap_live_taken [OF h 1] show ?thesis by (auto simp: vm_available_def)
  next
    case 2
    have "extent b \<inter> heap_available c (vm_heap v) = {}"
      using reserve_above(2) [OF inv 2] heap_below(1) [OF inv] sep by blast
    with reserve_held_taken [OF r 2] show ?thesis by (auto simp: vm_available_def)
  qed
qed

lemma vm_live_apart: "vm_inv c v \<Longrightarrow> apart (vm_live v)"
proof -
  assume inv: "vm_inv c v"
  then have "apart (heap_live (vm_heap v))" "apart (reserve_held (g_reserve_blocks v))"
    using heap_live_apart reserve_held_apart by (auto simp: vm_inv_def)
  moreover have "extent b \<inter> extent d = {}"
    if "b \<in> heap_live (vm_heap v)" "d \<in> reserve_held (g_reserve_blocks v)" for b d
  proof -
    have "{..<ram_end c} \<inter> {ram_end c..} = {}" by auto
    with heap_below(2) [OF inv that(1)] reserve_above(2) [OF inv that(2)] show ?thesis by blast
  qed
  ultimately show ?thesis unfolding apart_def vm_live_def by blast
qed

section \<open>One request\<close>

definition served :: "heap_env \<Rightarrow> guest_vm \<Rightarrow> u32 \<Rightarrow> u32 \<Rightarrow> guest_vm \<Rightarrow> bool" where
  "served c v r n v' \<longleftrightarrow> vm_inv c v' \<and>
     (if r = 0 then vm_available c v' = vm_available c v \<and> vm_live v' = vm_live v
      else \<exists>k \<ge> unat n. extent (unat r, k) \<subseteq> vm_available c v
        \<and> vm_available c v' \<subseteq> vm_available c v - extent (unat r, k)
        \<and> (vm_live v' = insert (unat r, k) (vm_live v) \<or> vm_live v' = vm_live v))"

lemma set_ram_sel [simp]:
  "g_reserve_blocks (set_ram m v) = g_reserve_blocks v" "g_heap_blocks (vm_heap (set_ram m v)) = g_heap_blocks (vm_heap v)"
  "g_heap_next (vm_heap (set_ram m v)) = g_heap_next (vm_heap v)" "vm_ram (set_ram m v) = m"
  by (simp_all add: set_ram_def vm_ram_def)

lemma same_tables:
  assumes "g_reserve_blocks v' = g_reserve_blocks v" "g_heap_blocks (vm_heap v') = g_heap_blocks (vm_heap v)"
    "g_heap_next (vm_heap v') = g_heap_next (vm_heap v)"
  shows "vm_inv c v' = vm_inv c v" "vm_live v' = vm_live v" "vm_available c v' = vm_available c v"
  using assms by (simp_all add: vm_inv_def vm_live_def vm_available_def heap_inv_def heap_live_def
    heap_available_def arena_next_def)

lemma vm_alloc_served:
  assumes inv: "vm_inv c v" and req: "heap_request c n al" and a: "vm_alloc c n al v = (r, v')"
  shows "served c v r n v'" "r \<noteq> 0 \<Longrightarrow> unat r < ram_end c"
proof -
  obtain h where h: "xbox_HeapAlloc c n al (vm_heap v) = (r, h)" "v' = v\<lparr>vm_heap := h\<rparr>"
    using a by (auto simp: vm_alloc_def split: prod.splits)
  have hi: "heap_inv c (vm_heap v)" using inv by (simp add: vm_inv_def)
  note sp = heap_alloc_spec [OF hi req h(1)]
  have inv': "vm_inv c v'" using inv sp(1) h(2) by (simp add: vm_inv_def)
  have split: "(r = 0 \<longrightarrow> served c v r n v') \<and> (r \<noteq> 0 \<longrightarrow> served c v r n v' \<and> unat r < ram_end c)"
  proof (cases "r = 0")
    case True
    with sp(2) inv' h(2) show ?thesis by (simp add: served_def vm_available_def vm_live_def)
  next
    case False
    then obtain k where g: "granted c (vm_heap v) (least_size n) (least_align al) r h k" using sp(3) by blast
    have ext: "extent (unat r, k) \<subseteq> heap_available c (vm_heap v)" using g by (auto simp: granted_def)
    have k: "unat n \<le> k" "0 < k" using g least_size_ge [of n] least_size_pos [of n] by (auto simp: granted_def)
    have sep: "{..<ram_end c} \<inter> {ram_end c..} = {}" by auto
    have "extent (unat r, k) \<subseteq> {..<ram_end c}" using ext heap_below(1) [OF inv] by blast
    then have off: "extent (unat r, k) \<inter> reserve_available c (g_reserve_blocks v) = {}"
      using reserve_above(1) [OF inv] sep by blast
    have "unat r \<in> extent (unat r, k)" using k(2) by simp
    with \<open>extent (unat r, k) \<subseteq> {..<ram_end c}\<close> have below: "unat r < ram_end c" by blast
    have "vm_available c v' \<subseteq> vm_available c v - extent (unat r, k)"
      using g off h(2) by (auto simp: granted_def vm_available_def)
    moreover have "vm_live v' = insert (unat r, k) (vm_live v) \<or> vm_live v' = vm_live v"
      using g h(2) by (auto simp: granted_def vm_live_def)
    moreover have "extent (unat r, k) \<subseteq> vm_available c v" using ext by (auto simp: vm_available_def)
    ultimately show ?thesis using inv' k(1) False below unfolding served_def by auto
  qed
  then show "served c v r n v'" "r \<noteq> 0 \<Longrightarrow> unat r < ram_end c" by blast+
qed

lemma vm_reserve_served:
  assumes inv: "vm_inv c v" and a: "vm_reserve c n 4096 v = (r, v')"
  shows "served c v r n v'"
proof -
  obtain bs m where h: "xbox_ReserveAlloc c n 4096 (g_reserve_blocks v, vm_ram v) = (r, bs, m)"
    "v' = set_ram m (v\<lparr>g_reserve_blocks := bs\<rparr>)"
    using a by (auto simp: vm_reserve_def split: prod.splits)
  have ri: "reserve_inv c (g_reserve_blocks v)" and al: "pow2 4096 \<or> (4096 :: u32) = 0"
    using inv pow2_4096 by (auto simp: vm_inv_def)
  note sp = reserve_alloc_spec [OF ri al h(1)]
  define w where "w = v\<lparr>g_reserve_blocks := bs\<rparr>"
  have same: "vm_inv c v' = vm_inv c w" "vm_live v' = vm_live w" "vm_available c v' = vm_available c w"
    by (rule same_tables; simp add: h(2) w_def)+
  have inv': "vm_inv c v'" using inv sp(1) unfolding same by (simp add: w_def vm_inv_def)
  show ?thesis
  proof (cases "r = 0")
    case True
    with sp(2) inv' same show ?thesis by (simp add: served_def vm_available_def vm_live_def w_def)
  next
    case False
    then have g: "reserve_granted c (g_reserve_blocks v) n (page_align 4096) r bs" using sp(3) by blast
    have ext: "extent (unat r, unat n) \<subseteq> reserve_available c (g_reserve_blocks v)"
      using g by (auto simp: reserve_granted_def)
    then have "extent (unat r, unat n) \<subseteq> {ram_end c..}" using reserve_above(1) [OF inv] by blast
    then have off: "extent (unat r, unat n) \<inter> heap_available c (vm_heap v) = {}"
      using heap_below(1) [OF inv] by fastforce
    have "vm_available c v' = vm_available c v - extent (unat r, unat n)"
      using g off unfolding same by (auto simp: reserve_granted_def vm_available_def w_def)
    moreover have "vm_live v' = insert (unat r, unat n) (vm_live v)"
      using g unfolding same by (auto simp: reserve_granted_def vm_live_def w_def)
    moreover have "extent (unat r, unat n) \<subseteq> vm_available c v" using ext by (auto simp: vm_available_def)
    ultimately show ?thesis using inv' False unfolding served_def by auto
  qed
qed

lemma served_refl: "vm_inv c v \<Longrightarrow> served c v 0 n v"
  by (simp add: served_def)

lemma served_chain: "served c v 0 m v1 \<Longrightarrow> served c v1 r n v2 \<Longrightarrow> served c v r n v2"
  unfolding served_def by (cases "r = 0") (auto simp del: extent_pair)

lemma served_inv: "served c v r n v' \<Longrightarrow> vm_inv c v'"
  by (simp add: served_def)

lemma served_zero: "served c v 0 n v' \<longleftrightarrow> served c v 0 m v'"
  by (simp add: served_def)

lemma request_half: "heap_request c n al \<Longrightarrow> heap_request c (n div 2) al"
proof -
  assume "heap_request c n al"
  moreover have "unat (least_size (n div 2)) \<le> unat (least_size n)"
    by (auto simp: least_size_def word_less_nat_alt unat_div)
  ultimately show ?thesis by (auto simp: heap_request_def)
qed

lemma clamp_reserve_served:
  "vm_inv c v \<Longrightarrow> heap_request c want 4096 \<Longrightarrow> clamp_reserve c want v = (r, n, v') \<Longrightarrow> served c v r n v'"
proof (induction c want v rule: clamp_reserve.induct)
  case (1 c want v)
  show ?case
  proof (cases "want > 0x10000")
    case False
    with "1.prems" show ?thesis by (auto simp: clamp_reserve.simps [of c want] served_refl)
  next
    case True
    obtain va w where a: "vm_alloc c (want div 2) 4096 v = (va, w)" by (cases "vm_alloc c (want div 2) 4096 v")
    have s: "served c v va (want div 2) w"
      using vm_alloc_served(1) [OF "1.prems"(1) request_half [OF "1.prems"(2)] a] .
    show ?thesis
    proof (cases "va = 0")
      case True
      then have "clamp_reserve c (want div 2) w = (r, n, v')"
        using "1.prems"(3) a \<open>want > 0x10000\<close> by (simp add: clamp_reserve.simps [of c want])
      from "1.IH" [OF \<open>want > 0x10000\<close> a [symmetric] True served_inv [OF s] request_half [OF "1.prems"(2)] this]
      show ?thesis using s True by (auto intro: served_chain)
    next
      case False
      then show ?thesis
        using "1.prems"(3) a s \<open>want > 0x10000\<close> by (simp add: clamp_reserve.simps [of c want])
    qed
  qed
qed

lemma nt_allocate_served:
  assumes inv: "vm_inv c v" and req: "heap_request c n 4096" and a: "nt_allocate c ty n v = (r, k, v')"
  shows "served c v r k v'"
proof -
  define first where "first = (if pure_reserve ty \<and> xbox_SeparateReserveSpaceEnabled c then vm_reserve c n 4096 v else (0, v))"
  obtain r1 v1 where 1: "first = (r1, v1)" by (cases first)
  have s1: "served c v r1 n v1"
    using 1 inv vm_reserve_served [OF inv] by (auto simp: first_def served_refl split: if_splits)
  define second where "second = (if r1 = 0 then vm_alloc c n 4096 v1 else (r1, v1))"
  obtain r2 v2 where 2: "second = (r2, v2)" by (cases second)
  have s2: "served c v r2 n v2"
    using 2 s1 vm_alloc_served(1) [OF served_inv [OF s1] req] served_chain
    by (auto simp: second_def split: if_splits)
  define third where "third = (if r2 = 0 \<and> pure_reserve ty then vm_reserve c n 4096 v2 else (r2, v2))"
  obtain r3 v3 where 3: "third = (r3, v3)" by (cases third)
  have s3: "served c v r3 n v3"
    using 3 s2 vm_reserve_served [OF served_inv [OF s2]] served_chain
    by (auto simp: third_def split: if_splits)
  have "(if r3 = 0 \<and> pure_reserve ty then case clamp_reserve c n v3 of (va, want, v) \<Rightarrow> (va, if va \<noteq> 0 then want else n, v)
         else (r3, n, v3)) = (r, k, v')"
    using a 1 2 3 unfolding nt_allocate_def first_def second_def third_def Let_def by simp
  then show ?thesis
  proof (cases "r3 = 0 \<and> pure_reserve ty")
    case True
    obtain va want w where cl: "clamp_reserve c n v3 = (va, want, w)" by (cases "clamp_reserve c n v3") auto
    have "served c v3 va want w" using clamp_reserve_served [OF served_inv [OF s3] req cl] .
    then have "served c v va want w" using s3 True by (auto intro: served_chain)
    moreover have "r = va" "v' = w" "k = (if va \<noteq> 0 then want else n)"
      using \<open>(if _ then _ else _) = _\<close> True cl by auto
    ultimately show ?thesis using served_zero [of c v want w n] by (auto split: if_splits)
  next
    case False
    then show ?thesis using \<open>(if _ then _ else _) = _\<close> s3 by auto
  qed
qed

section \<open>The exports as an allocator\<close>

datatype vm_request = Pool u32 | Contiguous u32 u32 | Virtual u32 u32
datatype vm_release = Heap_block u32 | Virtual_block u32

text \<open>
  What a request yields: the address as the allocators know it, and the length the caller was told.
  The contiguous allocator's address may carry the physical window's bit, which the heap strips
  again when the block comes back.
\<close>

fun vm_take :: "heap_env \<Rightarrow> vm_request \<Rightarrow> guest_vm \<Rightarrow> u32 \<times> u32 \<times> guest_vm" where
  "vm_take c (Pool n) v = (case vm_alloc c n 16 v of (r, v) \<Rightarrow> (r, n, v))"
| "vm_take c (Contiguous n al) v =
     (case xbox_ContiguousAlloc c n al v of (r, v) \<Rightarrow> (heap_canonical_va c r, n, v))"
| "vm_take c (Virtual ty n) v = nt_allocate c ty n v"

fun vm_give :: "heap_env \<Rightarrow> vm_release \<Rightarrow> guest_vm \<Rightarrow> guest_vm" where
  "vm_give c (Heap_block va) v = vm_free c va v"
| "vm_give c (Virtual_block va) v = nt_release c va v"

fun vm_names :: "heap_env \<Rightarrow> vm_release \<Rightarrow> guest_vm \<Rightarrow> (nat \<times> nat) set" where
  "vm_names c (Heap_block va) v = named_by c va (vm_heap v)"
| "vm_names c (Virtual_block va) v =
     (if reserved_at va (g_reserve_blocks v) \<noteq> {} then reserved_at va (g_reserve_blocks v)
      else named_by c va (vm_heap v))"

fun vm_good :: "heap_env \<Rightarrow> vm_request \<Rightarrow> bool" where
  "vm_good c (Pool n) \<longleftrightarrow> heap_request c n 16"
| "vm_good c (Contiguous n al) \<longleftrightarrow> heap_request c n (if al < 4096 then 4096 else al)"
| "vm_good c (Virtual ty n) \<longleftrightarrow> heap_request c n 4096"

lemma canonical_low: "vm_layout c \<Longrightarrow> unat r < ram_end c \<Longrightarrow> heap_canonical_va c r = r"
proof -
  assume "vm_layout c" "unat r < ram_end c"
  then have "r < 0x80000000" by (simp add: vm_layout_def word_less_nat_alt)
  then show ?thesis by (simp add: heap_canonical_va_def Let_def not_le)
qed

lemma or_window:
  assumes lt: "unat r < 2 ^ 31"
  shows "r OR XBOX_CONTIG_BASE = r + 0x80000000"
proof -
  have "r = take_bit 31 r"
  proof -
    have "unat (take_bit 31 r) = unat r mod 2 ^ 31" by (subst unsigned_take_bit_eq) (simp add: take_bit_eq_mod)
    with lt show ?thesis by (simp add: word_unat_eq_iff)
  qed
  then have nb: "\<not> bit r 31" by (metis bit_take_bit_iff less_irrefl)
  have "r OR push_bit 31 1 = r + push_bit 31 1"
  proof (rule disjunctive_add [symmetric])
    fix i
    have "bit (push_bit 31 1 :: u32) i \<Longrightarrow> i = 31"
      by (simp only: bit_push_bit_iff bit_1_iff) auto
    with nb show "\<not> bit r i \<or> \<not> bit (push_bit 31 1 :: u32) i" by blast
  qed
  then show ?thesis by (simp add: XBOX_CONTIG_BASE_def push_bit_eq_mult)
qed

lemma canonical_window:
  assumes "vm_layout c" "unat r < ram_end c"
  shows "heap_canonical_va c (r OR XBOX_CONTIG_BASE) = r"
proof -
  have ram: "0 < ram_end c" "ram_end c < 2 ^ 31" using assms by (auto simp: vm_layout_def)
  have lt: "unat r < 2 ^ 31" using assms ram by simp
  have or: "r OR XBOX_CONTIG_BASE = r + 0x80000000" using lt by (rule or_window)
  have ram32: "unat (ucast (g_xbox_total_ram c) :: u32) = ram_end c"
    using ram by (simp add: unsigned_ucast_eq take_bit_nat_eq_self)
  have sum: "unat (r + 0x80000000) = unat r + 0x80000000" "unat (0x80000000 + (ucast (g_xbox_total_ram c) :: u32)) = 0x80000000 + ram_end c"
    using lt ram unat_add_lem [of r "0x80000000"] unat_add_lem [of "0x80000000" "ucast (g_xbox_total_ram c) :: u32"]
    by (simp_all add: ram32)
  have "g_xbox_total_ram c \<noteq> 0" using ram by auto
  then show ?thesis
    using sum assms(2) by (simp add: or heap_canonical_va_def Let_def word_le_nat_alt word_less_nat_alt)
qed

lemma heap_live_start:
  assumes "vm_inv c v" "b \<in> heap_live (vm_heap v)"
  shows "fst b < ram_end c"
proof -
  have "heap_inv c (vm_heap v)" using assms(1) by (simp add: vm_inv_def)
  then have "fst b \<in> extent b" using heap_live_taken [of c "vm_heap v" b] assms(2) by (simp add: extent_def)
  then show ?thesis using heap_below(2) [OF assms] by blast
qed

lemma vm_free_facts:
  assumes inv: "vm_inv c v"
  shows "vm_inv c (vm_free c va v)" "vm_live (vm_free c va v) = vm_live v - named_by c va (vm_heap v)"
    "vm_available c (vm_free c va v) = vm_available c v \<union> \<Union> (extent ` named_by c va (vm_heap v))"
    "g_reserve_blocks (vm_free c va v) = g_reserve_blocks v"
proof -
  have h: "heap_inv c (vm_heap v)" using inv by (simp add: vm_inv_def)
  show "vm_inv c (vm_free c va v)" using inv heap_provider.release_inv [OF h] by (simp add: vm_inv_def vm_free_def)
  have "named_by c va (vm_heap v) \<inter> reserve_held (g_reserve_blocks v) = {}"
  proof -
    have "fst b < ram_end c" if "b \<in> named_by c va (vm_heap v)" for b
      using that heap_live_start [OF inv] by (auto simp: named_by_def)
    then show ?thesis using reserve_above(2) [OF inv] by (meson disjoint_iff not_le)
  qed
  then show "vm_live (vm_free c va v) = vm_live v - named_by c va (vm_heap v)"
    using heap_provider.release_live [OF h] by (auto simp: vm_live_def vm_free_def)
  show "vm_available c (vm_free c va v) = vm_available c v \<union> \<Union> (extent ` named_by c va (vm_heap v))"
    using heap_provider.release_available [OF h] by (auto simp: vm_available_def vm_free_def)
qed (simp add: vm_free_def)

lemma nt_release_facts:
  assumes inv: "vm_inv c v"
  shows "vm_inv c (nt_release c va v)"
    "vm_live (nt_release c va v) = vm_live v - vm_names c (Virtual_block va) v"
    "vm_available c (nt_release c va v) = vm_available c v \<union> \<Union> (extent ` vm_names c (Virtual_block va) v)"
proof -
  have r: "reserve_inv c (g_reserve_blocks v)" using inv by (simp add: vm_inv_def)
  note rf = reserve_free_facts [OF r, of va]
  define w where "w = v\<lparr>g_reserve_blocks := snd (xbox_ReserveFree c va (g_reserve_blocks v))\<rparr>"
  have nr: "nt_release c va v = (if reserved_at va (g_reserve_blocks v) \<noteq> {} then w else vm_free c va w)"
    using rf(4) by (auto simp: nt_release_def w_def Let_def split: prod.splits)
  have invw: "vm_inv c w" using inv rf(1) by (simp add: w_def vm_inv_def)
  show "vm_inv c (nt_release c va v)" using invw vm_free_facts(1) by (simp add: nr)
  have off: "reserved_at va (g_reserve_blocks v) \<inter> heap_live (vm_heap v) = {}"
  proof -
    have "ram_end c \<le> fst b" if "b \<in> reserved_at va (g_reserve_blocks v)" for b
      using that reserve_above(2) [OF inv, of b] by (auto simp: reserved_at_def)
    moreover have "fst b < ram_end c" if "b \<in> heap_live (vm_heap v)" for b
      using heap_live_start [OF inv that] .
    ultimately show ?thesis by (meson disjoint_iff not_le)
  qed
  have lw: "vm_live w = vm_live v - reserved_at va (g_reserve_blocks v)"
    using rf(2) off by (auto simp: vm_live_def w_def)
  have aw: "vm_available c w = vm_available c v \<union> \<Union> (extent ` reserved_at va (g_reserve_blocks v))"
    using rf(3) by (auto simp: vm_available_def w_def)
  have hw: "vm_heap w = vm_heap v" by (simp add: w_def)
  show "vm_live (nt_release c va v) = vm_live v - vm_names c (Virtual_block va) v"
    using lw vm_free_facts(2) [OF invw, of va] by (simp add: nr hw)
  show "vm_available c (nt_release c va v) = vm_available c v \<union> \<Union> (extent ` vm_names c (Virtual_block va) v)"
    using aw vm_free_facts(3) [OF invw, of va] by (simp add: nr hw)
qed

lemma vm_take_served:
  assumes inv: "vm_inv c v" and good: "vm_good c q" and t: "vm_take c q v = (r, n, v')"
  shows "served c v r n v'"
proof (cases q)
  case (Pool k)
  then show ?thesis using t good vm_alloc_served(1) [OF inv] by (auto split: prod.splits)
next
  case (Virtual ty k)
  then show ?thesis using t good nt_allocate_served [OF inv] by auto
next
  case (Contiguous k al)
  let ?al = "if al < 4096 then 4096 else al"
  obtain x w where xw: "vm_alloc c k ?al v = (x, w)" by (cases "vm_alloc c k ?al v")
  have tk: "vm_take c q v = (heap_canonical_va c (if x \<noteq> 0 \<and> g_physical_heap_view w then x OR XBOX_CONTIG_BASE else x), k, w)"
    unfolding Contiguous vm_take.simps xbox_ContiguousAlloc_def Let_def xw prod.case ..
  have x: "vm_alloc c k ?al v = (x, v')"
    and r: "r = heap_canonical_va c (if x \<noteq> 0 \<and> g_physical_heap_view w then x OR XBOX_CONTIG_BASE else x)"
    and n: "n = k"
    using t xw unfolding tk by blast+
  have req: "heap_request c k ?al" using good Contiguous by simp
  have lay: "vm_layout c" using inv by (simp add: vm_inv_def)
  note sv = vm_alloc_served [OF inv req x]
  have "r = x"
  proof (cases "x = 0")
    case True
    then show ?thesis using r by (simp add: heap_canonical_va_def Let_def)
  next
    case False
    then show ?thesis using r canonical_low [OF lay sv(2)] canonical_window [OF lay sv(2)] by simp
  qed
  then show ?thesis using sv(1) n by simp
qed

interpretation vm_provider: memory_provider "vm_inv c" "vm_available c" vm_live "vm_good c" "vm_take c" "vm_give c" "vm_names c"
  for c
proof
  fix s b r n s' x q
  assume inv: "vm_inv c s"
  show "b \<in> vm_live s \<Longrightarrow> extent b \<inter> vm_available c s = {} \<and> 0 < snd b" by (rule vm_live_taken [OF inv])
  show "apart (vm_live s)" by (rule vm_live_apart [OF inv])
  show "vm_inv c (vm_give c x s)" "vm_live (vm_give c x s) = vm_live s - vm_names c x s"
    "vm_available c (vm_give c x s) = vm_available c s \<union> \<Union> (extent ` vm_names c x s)"
    by (cases x; use vm_free_facts [OF inv] nt_release_facts [OF inv] in simp)+
  show "vm_names c x s \<subseteq> vm_live s"
    by (cases x) (auto simp: vm_live_def named_by_def reserved_at_def split: if_splits)
  assume good: "vm_good c q"
  show "vm_inv c s'" if "vm_take c q s = (r, n, s')"
    using vm_take_served [OF inv good that] by (simp add: served_def)
  show "vm_available c s' = vm_available c s \<and> vm_live s' = vm_live s" if "vm_take c q s = (0, n, s')"
    using vm_take_served [OF inv good that] by (simp add: served_def)
  show "\<exists>k \<ge> unat n. extent (unat r, k) \<subseteq> vm_available c s \<and> vm_available c s' \<subseteq> vm_available c s - extent (unat r, k)
        \<and> (vm_live s' = insert (unat r, k) (vm_live s) \<or> vm_live s' = vm_live s)"
    if "vm_take c q s = (r, n, s')" "r \<noteq> 0"
    using vm_take_served [OF inv good that(1)] that(2) by (simp add: served_def del: extent_pair)
qed

text \<open>Freeing a block just allocated, under any name the heap knows it by, leaves the live blocks as
  they were.\<close>

lemma free_undoes_alloc:
  assumes inv: "vm_inv c v" and on: "\<not> heap_no_free c" and req: "heap_request c n al"
    and a: "vm_alloc c n al v = (x, v')" and xnz: "x \<noteq> 0" and can: "heap_canonical_va c r = x" and rnz: "r \<noteq> 0"
  shows "vm_live (vm_free c r v') = vm_live v"
proof -
  obtain h where h: "xbox_HeapAlloc c n al (vm_heap v) = (x, h)" "v' = v\<lparr>vm_heap := h\<rparr>"
    using a by (auto simp: vm_alloc_def split: prod.splits)
  have hi: "heap_inv c (vm_heap v)" using inv by (simp add: vm_inv_def)
  obtain k where g: "granted c (vm_heap v) (least_size n) (least_align al) x h k"
    using heap_alloc_spec(3) [OF hi req h(1) xnz] by blast
  have xav: "unat x \<in> heap_available c (vm_heap v)" using g least_size_pos [of n] by (force simp: granted_def)
  have fresh: "fst b \<noteq> unat x" if "b \<in> heap_live (vm_heap v)" for b
  proof
    assume "fst b = unat x"
    with heap_live_taken [OF hi that] have "unat x \<in> extent b" by (simp add: extent_def)
    with heap_live_taken [OF hi that] xav show False by blast
  qed
  have "named_by c r h = {b \<in> heap_live h. fst b = unat x}"
    using on rnz can by (auto simp: named_by_def)
  then have "heap_live h - named_by c r h = heap_live (vm_heap v)"
    using g fresh by (auto simp: granted_def)
  then have "heap_live (xbox_HeapFree c r h) = heap_live (vm_heap v)"
    using heap_free_spec(2) [OF heap_alloc_spec(1) [OF hi req h(1)]] by simp
  then show ?thesis by (simp add: vm_live_def vm_free_def h(2))
qed

section \<open>Evaluation\<close>

lemma start_named: "x \<in> fst ` named_by c va s \<longleftrightarrow>
    va \<noteq> 0 \<and> \<not> heap_no_free c \<and> x = unat (heap_canonical_va c va) \<and> x \<in> fst ` heap_live s"
  by (force simp: named_by_def)

lemma start_reserved: "x \<in> fst ` reserved_at va bs \<longleftrightarrow> x = unat va \<and> x \<in> fst ` reserve_held bs"
  by (force simp: reserved_at_def)

lemma reserved_none: "reserved_at va bs = {} \<longleftrightarrow> unat va \<notin> fst ` reserve_held bs"
  by (force simp: reserved_at_def)

end
