(* ===== verification/Vm_Properties.thy ===== *)
theory Vm_Properties
  imports Vm_Memory
begin

text \<open>
  The properties of the memory manager: what an allocation hands out, that nothing is handed out
  twice, that the tables stay sound, when a request is refused, and two layouts or requests for
  which the code does not keep its promise.
\<close>

section \<open>Concrete configurations\<close>

text \<open>A 64 MB console whose image ends below the default low block; the configuration of the JSRF
  harness, which adds 64 MB of separate reservation space; and a title that maps more than its RAM
  without asking for a separate space.\<close>

definition retail_env :: heap_env where
  "retail_env = \<lparr>g_xbox_total_ram = 0x4000000, g_xbox_map_size = 0, g_separate_reserve_space = False,
     g_xbox_low_base = 0x700000, heap_no_free = False, heap_poison_byte = None\<rparr>"

definition jsrf_env :: heap_env where
  "jsrf_env = xbox_EnableSeparateReserveSpace 0x4000000 retail_env"

definition wide_env :: heap_env where
  "wide_env = xbox_SetMapSize 0x20000000 retail_env"

definition vm_statics :: "memory \<Rightarrow> bool \<Rightarrow> guest_vm" where
  "vm_statics m view = \<lparr>vm_heap = heap_statics m, g_reserve_blocks = [], g_reserves = [], g_reserve_overflow = 0,
     g_guest_page_protect = (\<lambda>_. 0), g_physical_heap_view = view, g_thread_stacks_used = 0,
     g_thread_stack_sizes = replicate 64 (0, 0), vm_eax = 0, vm_esp = 0\<rparr>"

lemmas vm_eval = retail_env_def jsrf_env_def wide_env_def xbox_EnableSeparateReserveSpace_def xbox_SetMapSize_def
  UINT32_MAX_def XBOX_HEAP_BASE_def XBOX_STACK_BASE_def XBOX_STACK_SIZE_def XBOX_HEAP_TOP_def
  xbox_SeparateReserveSpaceEnabled_def g_memory_size_def

lemmas heap_eval = vm_eval xbox_HeapAlloc_def heap_started_def heap_statics_def heap_absorb_frontier_def heap_bump_def
  heap_reuse_def reuse_fits_def carve_lead_def carve_spare_def dup_at_def insert_after_def heap_live_entry_after_def
  heap_join_next_def heap_join_prev_def tally_free_def xbox_HeapFree_def heap_canonical_va_def
  Let_def align_up_def tally_alloc_def XBOX_HEAP_MAX_BLOCKS_def XBOX_HEAP_SPLIT_MIN_def XBOX_HEAP_ORD_MAX_def XBOX_TOTAL_RAM_def
  vm_alloc_def vm_free_def vm_reserve_def nt_allocate_def nt_release_def pure_reserve_def xbox_ContiguousAlloc_def
  xbox_ReserveAlloc_def xbox_ReserveFree_def reserve_init_def reserve_fits_def reserve_lead_def reserve_tail_def
  merge_preceding_def remove_at_def vm_statics_def set_ram_def vm_ram_def XBOX_RESERVE_MAX_BLOCKS_def XBOX_CONTIG_BASE_def

lemmas ledger_eval = run_calls_def call_step_def start_named start_reserved reserved_none heap_live_def reserve_held_def
  as_block_def sized_def rb_block_def

lemma jsrf_layout: "vm_layout jsrf_env"
  by (simp add: vm_layout_def vm_eval)

lemma vm_statics_inv: "vm_layout c \<Longrightarrow> vm_inv c (vm_statics m view)"
  by (auto simp: vm_inv_def vm_statics_def vm_layout_def reserve_inv_def intro!: heap_inv_init)

section \<open>Nothing is handed out twice\<close>

text \<open>
  Claim C2: Whatever pool, contiguous and virtual-memory requests a title makes and whatever
  it releases, in any order and with any addresses, no two blocks it was granted and has not
  released share a byte, and no byte of such a block is available for another request.
\<close>

theorem memory_blocks_stay_apart:
  assumes "vm_layout c" "list_all (call_ok (vm_good c)) ops"
    and "run_calls (vm_take c) (vm_give c) (vm_names c) ops (vm_statics m view, []) = (v, I)"
  shows "entries_apart I" "\<forall>b \<in> set I. extent b \<inter> vm_available c v = {}"
  using vm_provider.ledger_apart [OF vm_statics_inv [OF assms(1)] assms(2,3)] by blast+

definition demo_ops :: "(vm_request, vm_release) memory_call list" where
  "demo_ops = [Take (Pool 100), Take (Virtual 0x2000 0x3000000), Take (Contiguous 5000 4096), Give (Heap_block 0x980000),
     Take (Virtual 0x3000 8192), Take (Pool 40)]"

lemma demo_run: "snd (run_calls (vm_take jsrf_env) (vm_give jsrf_env) (vm_names jsrf_env) demo_ops
    (vm_statics (\<lambda>_. 7) True, [])) = [(0x980000, 40), (0x983000, 8192), (0x981000, 5000), (0x4000000, 0x3000000)]"
  by (simp add: heap_eval demo_ops_def ledger_eval)

lemma pow2_values: "pow2 16" "pow2 4096"
  by (auto simp: pow2_def push_bit_eq_mult intro: exI [of _ 4] exI [of _ 12])

lemma demo_good: "list_all (call_ok (vm_good jsrf_env)) demo_ops"
  by (simp add: demo_ops_def heap_request_def pow2_values least_align_def least_size_def vm_eval)

theorem memory_blocks_witness:
  "entries_apart [(0x980000, 40), (0x983000, 8192), (0x981000, 5000), (0x4000000, 0x3000000)]"
  using memory_blocks_stay_apart(1) [OF jsrf_layout demo_good surjective_pairing, of "\<lambda>_. 7" True]
  unfolding demo_run .

section \<open>The two places where something is\<close>

text \<open>
  The bump path adds the length to the frontier in 32 bits. On a fresh heap every request long
  enough to wrap past the end of the address space passes its bound check: it is granted at the
  heap's base, and the frontier it leaves lies below that base, so that the bytes handed out
  next belong to the stack region or the image.
\<close>

text \<open>
  Claim C20: The bump path adds the length to the frontier in 32 bits: on a fresh heap every
  request long enough to wrap past the end of the address space passes the bound check, is
  granted at the heap's base and leaves the frontier below that base, so that the bytes
  handed out next belong to the stack region or the image.
\<close>

theorem oversized_request_is_granted:
  assumes "0 < arena_base c" "arena_base c \<le> arena_top c"
    and "pow2 (least_align al)" "arena_base c mod unat (least_align al) = 0"
    and "2 ^ 32 \<le> arena_base c + unat (least_size n)"
    and "xbox_HeapAlloc c n al (heap_statics m) = (r, s)"
  shows "r = XBOX_HEAP_BASE c" "unat (g_heap_next s) = arena_base c + unat (least_size n) - 2 ^ 32"
    "g_heap_next s < XBOX_HEAP_BASE c"
proof -
  let ?b = "XBOX_HEAP_BASE c" and ?n = "least_size n"
  have up: "align_up ?b (least_align al) = ?b"
    using align_up_least [OF assms(3) order_refl _ assms(4)] unat_u32_lt [of ?b]
    by (simp add: word_less_nat_alt word_unat_eq_iff)
  have sum: "unat (?b + ?n) = arena_base c + unat ?n - 2 ^ 32"
    using assms(5) unat_u32_lt [of ?b] unat_u32_lt [of ?n] by (simp add: unat_word_ariths le_mod_geq)
  then have lt: "?b + ?n < ?b"
    using assms(5) unat_u32_lt [of ?n] by (simp add: word_less_nat_alt)
  then have in_top: "\<not> ?b + ?n > XBOX_HEAP_TOP c"
    using assms(2) by (simp add: word_less_nat_alt)
  have "xbox_HeapAlloc c n al (heap_statics m) = heap_bump c ?n (least_align al) (heap_started c (heap_statics m))"
    by (simp add: xbox_HeapAlloc_def heap_absorb_frontier_def heap_started_def heap_statics_def
          least_align_def least_size_def Let_def)
  moreover have "g_heap_next (heap_started c (heap_statics m)) = ?b"
    by (simp add: heap_started_def heap_statics_def)
  ultimately have g: "r = ?b \<and> g_heap_next s = ?b + ?n"
    using assms(6) up in_top by (auto simp: heap_bump_def tally_alloc_def Let_def split: if_splits)
  show "r = ?b" "unat (g_heap_next s) = arena_base c + unat ?n - 2 ^ 32" "g_heap_next s < ?b"
    using g sum lt by auto
qed

theorem oversized_request_witness:
  "unat (g_heap_next (snd (xbox_HeapAlloc retail_env 0xFFE80000 4096 (heap_statics (\<lambda>_. 7))))) = 0x800000"
  using oversized_request_is_granted(2) [OF _ _ _ _ _ surjective_pairing, of retail_env 4096 "0xFFE80000" "\<lambda>_. 7"]
  by (simp add: vm_eval least_align_def least_size_def pow2_values)

lemma oversized_request_then_a_page:
  "(case xbox_HeapAlloc retail_env 0xFFE80000 4096 (heap_statics m) of (r, s) \<Rightarrow>
      case xbox_HeapAlloc retail_env 4096 4096 s of (r2, s2) \<Rightarrow> (r2, XBOX_STACK_BASE retail_env, XBOX_HEAP_BASE retail_env))
   = (0x800000, 0x780000, 0x980000)"
  by (simp add: heap_eval)

text \<open>
  Without a separate reservation space the heap runs to the end of the mapping, and the
  reservation allocator still hands out everything above RAM. After a 256 MB allocation from the
  heap, a reservation of 288 MB, which the heap must refuse, is granted at the end of RAM, inside it.
\<close>

text \<open>
  Claim C21: Without a separate reservation space two virtual-memory calls can be granted
  the same bytes: with 64 MB of RAM in a 512 MB mapping, a 256 MB allocation followed by a
  288 MB reservation, which the heap must refuse, yields a reservation at the end of RAM,
  inside the allocation.
\<close>

theorem shared_space_overlaps:
  "(case nt_allocate wide_env 0x1000 0x10000000 (vm_statics m True) of (a, n, v) \<Rightarrow>
    case nt_allocate wide_env 0x2000 0x12000000 v of (b, k, w) \<Rightarrow>
      (a, n, b, k, extent (unat a, unat n) \<inter> extent (unat b, unat k) \<noteq> {}))
   = (0x980000, 0x10000000, 0x4000000, 0x12000000, True)"
proof -
  have "(67108864::nat) \<in> {9961472..<278396928} \<inter> {67108864..<369098752}" by simp
  then have "{9961472..<278396928::nat} \<inter> {67108864..<369098752} \<noteq> {}" by blast
  then show ?thesis by (simp add: heap_eval)
qed

section \<open>The heap\<close>

text \<open>
  Claim C5: A granted request is aligned as asked, lies in the arena, shares no byte with a
  live block, is entered in the table with at least the length asked unless the table is
  full, and its bytes are zero while the rest of memory is as before.
\<close>

theorem heap_allocation_grants:
  assumes "heap_inv c s" "heap_request c n al" "xbox_HeapAlloc c n al s = (r, s')" "r \<noteq> 0"
  shows "unat r mod unat (least_align al) = 0 \<and> arena_base c \<le> unat r \<and> unat r + unat (least_size n) \<le> arena_top c"
    "\<forall>b \<in> heap_live s. extent (unat r, unat (least_size n)) \<inter> extent b = {}"
    "length (g_heap_blocks s) < XBOX_HEAP_MAX_BLOCKS \<longrightarrow>
       (\<exists>k \<ge> unat (least_size n). heap_live s' = insert (unat r, k) (heap_live s))"
    "guest_ram s' p = (if unat r \<le> p \<and> p < unat r + unat (least_size n) then 0 else guest_ram s p)"
proof -
  obtain k where g: "granted c s (least_size n) (least_align al) r s' k"
    using heap_alloc_spec(3) [OF assms] by blast
  have pos: "0 < unat (least_size n)" by (rule least_size_pos)
  have sub: "extent (unat r, unat (least_size n)) \<subseteq> heap_available c s" using g by (auto simp: granted_def)
  have pl: "placed (arena_base c) (heap_view (g_heap_blocks s)) (arena_next c s)" "arena_next c s \<le> arena_top c"
    using assms(1) by (auto simp: heap_inv_def)
  have av: "heap_available c s \<subseteq> {arena_base c..<arena_top c}"
    using vacant_bytes_within [OF pl(1)] placed_le [OF pl(1)] pl(2) by (auto simp: heap_available_def)
  have "unat r \<in> extent (unat r, unat (least_size n))" "unat r + unat (least_size n) - 1 \<in> extent (unat r, unat (least_size n))"
    using pos by auto
  with sub av have "unat r \<in> {arena_base c..<arena_top c}" "unat r + unat (least_size n) - 1 \<in> {arena_base c..<arena_top c}"
    by blast+
  with g pos show "unat r mod unat (least_align al) = 0 \<and> arena_base c \<le> unat r \<and> unat r + unat (least_size n) \<le> arena_top c"
    by (auto simp: granted_def)
  show "\<forall>b \<in> heap_live s. extent (unat r, unat (least_size n)) \<inter> extent b = {}"
    using heap_live_taken [OF assms(1)] sub by blast
  show "length (g_heap_blocks s) < XBOX_HEAP_MAX_BLOCKS \<longrightarrow>
       (\<exists>k \<ge> unat (least_size n). heap_live s' = insert (unat r, k) (heap_live s))"
    using g by (auto simp: granted_def)
  show "guest_ram s' p = (if unat r \<le> p \<and> p < unat r + unat (least_size n) then 0 else guest_ram s p)"
    using g by (simp add: granted_def memset_at_def)
qed

lemma retail_fresh: "heap_inv retail_env (heap_statics m)" "heap_request retail_env 5000 4096"
  by (simp_all add: heap_inv_init vm_eval heap_request_def pow2_values least_align_def least_size_def)

lemma retail_first: "fst (xbox_HeapAlloc retail_env 5000 4096 (heap_statics m)) = 0x980000"
  by (simp add: heap_eval)

theorem heap_allocation_witness:
  "guest_ram (snd (xbox_HeapAlloc retail_env 5000 4096 (heap_statics (\<lambda>_. 7)))) 0x981387 = 0"
  using heap_allocation_grants(4) [OF retail_fresh surjective_pairing, of "\<lambda>_. 7" "0x981387"]
  by (simp add: retail_first least_size_def)

text \<open>
  However blocks are allocated and released, the entries of the table that describe a block stay
  in address order inside the arena below the frontier, and no two neighbours are both vacant
  and touching.
\<close>

text \<open>
  Claim C12: However blocks are allocated and released, the entries of the heap's table that
  describe a block stay in address order inside the arena below the frontier, and no two
  neighbours are both vacant and touching.
\<close>

theorem heap_table_stays_sound:
  assumes "0 < arena_base c" "arena_base c \<le> arena_top c" "list_all (call_ok (\<lambda>(n, al). heap_request c n al)) ops"
  shows "heap_inv c (fst (run_calls (heap_take c) (xbox_HeapFree c) (named_by c) ops (heap_statics m, [])))"
  using heap_provider.ledger_apart(1) [OF heap_inv_init [OF assms(1,2)] assms(3) surjective_pairing] .

definition churn :: "(u32 \<times> u32, u32) memory_call list" where
  "churn = [Take (100, 16), Take (5000, 4096), Take (10000, 4096), Give 0x981000, Give 0x983000, Take (200, 16)]"

theorem heap_table_witness:
  "coalesced (heap_view (g_heap_blocks (fst (run_calls (heap_take retail_env) (xbox_HeapFree retail_env)
     (named_by retail_env) churn (heap_statics (\<lambda>_. 7), [])))))"
proof -
  have "list_all (call_ok (\<lambda>(n, al). heap_request retail_env n al)) churn"
    by (simp add: churn_def heap_request_def pow2_values least_align_def least_size_def vm_eval)
  from heap_table_stays_sound [OF _ _ this] show ?thesis by (simp add: heap_inv_def vm_eval)
qed

text \<open>
  A request is refused only when there is no room: with two table entries to spare, a refusal
  means that no aligned run of that many available bytes exists anywhere in the arena, in the
  blocks given back or in the part never used.
\<close>

text \<open>
  Claim C6: The heap refuses a request only when there is no room: with two table entries to
  spare, a refusal means that no aligned run of that many available bytes exists anywhere in
  the arena, in the blocks given back or in the part never used.
\<close>

theorem heap_refuses_only_without_room:
  assumes "heap_inv c s" "heap_request c n al" "length (g_heap_blocks s) + 2 \<le> XBOX_HEAP_MAX_BLOCKS"
    and "fst (xbox_HeapAlloc c n al s) = 0"
  shows "\<not> (\<exists>a. a mod unat (least_align al) = 0 \<and> {a..<a + unat (least_size n)} \<subseteq> heap_available c s)"
  using heap_refusal [OF assms(1,2) _ assms(3)] assms(4) by (metis prod.collapse)

theorem heap_refuses_witness:
  "\<not> {0x980000..<0x980000 + 0x4000000} \<subseteq> heap_available retail_env (heap_statics (\<lambda>_. 7))"
proof -
  have req: "heap_request retail_env 0x4000000 4096"
    by (simp add: heap_request_def pow2_values least_align_def least_size_def vm_eval)
  have refused: "fst (xbox_HeapAlloc retail_env 0x4000000 4096 (heap_statics (\<lambda>_. 7))) = 0" by (simp add: heap_eval)
  have "length (g_heap_blocks (heap_statics (\<lambda>_. 7))) + 2 \<le> XBOX_HEAP_MAX_BLOCKS"
    by (simp add: heap_statics_def XBOX_HEAP_MAX_BLOCKS_def)
  note heap_refuses_only_without_room [OF retail_fresh(1) req this refused]
  moreover have "(0x980000 :: nat) mod unat (least_align 4096) = 0" "unat (least_size 0x4000000) = 0x4000000"
    by (simp_all add: least_align_def least_size_def)
  ultimately show ?thesis by metis
qed

section \<open>Sizes and addresses\<close>

text \<open>
  The size query answers for any address inside a live block with the bytes from there to the
  block's end, and with zero for an address in no live block.
\<close>

theorem block_size_counts_to_the_end:
  assumes "heap_inv c s" "va \<noteq> 0" "heap_canonical_va c va = va"
  shows "(a, n) \<in> heap_live s \<Longrightarrow> a \<le> unat va \<Longrightarrow> unat va < a + n \<Longrightarrow> unat (xbox_HeapBlockSize c va s) = a + n - unat va"
    "\<forall>(a, n) \<in> heap_live s. \<not> (a \<le> unat va \<and> unat va < a + n) \<Longrightarrow> xbox_HeapBlockSize c va s = 0"
proof -
  let ?P = "\<lambda>b. \<not> (hb_free b \<or> hb_size b = 0) \<and> covers b va"
  have cov: "covers b va \<longleftrightarrow> unat (hb_addr b) \<le> unat va \<and> unat va < unat (hb_addr b) + unat (hb_size b)"
    if "b \<in> set (g_heap_blocks s)" for b
    using heap_ends [OF assms(1) that] unat_add_lem [of "hb_addr b" "hb_size b"]
    by (auto simp: covers_def word_le_nat_alt word_less_nat_alt)
  show "xbox_HeapBlockSize c va s = 0" if none: "\<forall>(a, n) \<in> heap_live s. \<not> (a \<le> unat va \<and> unat va < a + n)"
  proof -
    have "find_from ?P 0 (g_heap_blocks s) = None"
      unfolding find_from_None
    proof
      fix b assume b: "b \<in> set (g_heap_blocks s)"
      show "\<not> ?P b"
      proof
        assume P: "?P b"
        then have "(unat (hb_addr b), unat (hb_size b)) \<in> heap_live s"
          using b by (auto simp: live_iff sized_def)
        with none P cov [OF b] show False by blast
      qed
    qed
    then show ?thesis by (simp add: xbox_HeapBlockSize_def assms(2,3))
  qed
  show "unat (xbox_HeapBlockSize c va s) = a + n - unat va"
    if live: "(a, n) \<in> heap_live s" and lo: "a \<le> unat va" and hi: "unat va < a + n"
  proof -
    obtain d where d: "d \<in> set (g_heap_blocks s)" "?P d" "unat (hb_addr d) = a" "unat (hb_size d) = n"
      using live lo hi cov by (auto simp: live_iff sized_def)
    obtain i where i: "find_from ?P 0 (g_heap_blocks s) = Some i"
      using d(1,2) find_from_None [of ?P 0 "g_heap_blocks s"] by fastforce
    then obtain pre b post where b: "g_heap_blocks s = pre @ b # post" "i = length pre" "?P b"
      unfolding find_from_Some by auto
    have bs: "b \<in> set (g_heap_blocks s)" using b(1) by simp
    have "(unat (hb_addr b), unat (hb_size b)) \<in> heap_live s" using b(3) bs by (auto simp: live_iff sized_def)
    moreover have "unat va \<in> extent (a, n) \<inter> extent (unat (hb_addr b), unat (hb_size b))"
      using lo hi b(3) cov [OF bs] by auto
    ultimately have same: "(unat (hb_addr b), unat (hb_size b)) = (a, n)"
      using heap_live_apart [OF assms(1)] live unfolding apart_def by blast
    have "hb_addr b \<le> va" using same lo by (simp add: word_le_nat_alt)
    then have off: "unat (va - hb_addr b) = unat va - a" using same by (simp add: unat_sub)
    then have "va - hb_addr b \<le> hb_size b" using same hi lo by (simp add: word_le_nat_alt)
    then have "unat (hb_size b - (va - hb_addr b)) = n - (unat va - a)" using off same by (simp add: unat_sub)
    moreover have "xbox_HeapBlockSize c va s = hb_size b - (va - hb_addr b)"
      using i b(1,2) assms(2,3) by (simp add: xbox_HeapBlockSize_def Let_def)
    ultimately show ?thesis using lo by simp
  qed
qed

theorem block_size_witness:
  "unat (xbox_HeapBlockSize retail_env 0x980100 (snd (xbox_HeapAlloc retail_env 5000 4096 (heap_statics (\<lambda>_. 7))))) = 5000 - 256"
proof -
  let ?s = "snd (xbox_HeapAlloc retail_env 5000 4096 (heap_statics (\<lambda>_. 7)))"
  have inv: "heap_inv retail_env ?s" using heap_alloc_spec(1) [OF retail_fresh surjective_pairing] .
  have live: "(0x980000, 5000) \<in> heap_live ?s" by (simp add: heap_eval ledger_eval)
  have can: "heap_canonical_va retail_env 0x980100 = 0x980100" by (simp add: heap_eval)
  from block_size_counts_to_the_end(1) [OF inv _ can live] show ?thesis by simp
qed

text \<open>
  Claim C19: A contiguous block is handed out at its address in the physical window when the
  window is mapped, and freeing that address gives back exactly that block: the live blocks
  are afterwards what they were before the allocation.
\<close>

theorem contiguous_address_round_trip:
  assumes "vm_inv c v" "\<not> heap_no_free c" "vm_good c (Contiguous n al)"
    and "xbox_ContiguousAlloc c n al v = (r, v')" "r \<noteq> 0"
  shows "vm_live (vm_free c r v') = vm_live v" "g_physical_heap_view v \<longrightarrow> XBOX_CONTIG_BASE \<le> r"
proof -
  let ?al = "if al < 4096 then 4096 else al"
  obtain x where x: "vm_alloc c n ?al v = (x, v')" and r: "r = (if x \<noteq> 0 \<and> g_physical_heap_view v' then x OR XBOX_CONTIG_BASE else x)"
    using assms(4) unfolding xbox_ContiguousAlloc_def Let_def by (cases "vm_alloc c n ?al v") auto
  have view: "g_physical_heap_view v' = g_physical_heap_view v"
    using x by (auto simp: vm_alloc_def split: prod.splits)
  have req: "heap_request c n ?al" using assms(3) by simp
  have lay: "vm_layout c" using assms(1) by (simp add: vm_inv_def)
  note sv = vm_alloc_served [OF assms(1) req x]
  have xnz: "x \<noteq> 0" using r assms(5) by (auto split: if_splits)
  have can: "heap_canonical_va c r = x"
    using r canonical_low [OF lay sv(2) [OF xnz]] canonical_window [OF lay sv(2) [OF xnz]] by simp
  show "g_physical_heap_view v \<longrightarrow> XBOX_CONTIG_BASE \<le> r"
  proof
    assume "g_physical_heap_view v"
    moreover have x31: "unat x < 2 ^ 31" using sv(2) [OF xnz] lay by (simp add: vm_layout_def)
    ultimately have "r = x + 0x80000000" using r xnz view by (simp add: or_window)
    moreover have "unat (x + 0x80000000) = unat x + 0x80000000"
      using x31 unat_add_lem [of x "0x80000000"] by simp
    ultimately show "XBOX_CONTIG_BASE \<le> r" by (simp add: word_le_nat_alt XBOX_CONTIG_BASE_def)
  qed
  show "vm_live (vm_free c r v') = vm_live v"
    using free_undoes_alloc [OF assms(1,2) req x xnz can assms(5)] .
qed

theorem contiguous_witness:
  "vm_live (vm_free jsrf_env 0x80980000 (snd (xbox_ContiguousAlloc jsrf_env 5000 0 (vm_statics (\<lambda>_. 7) True)))) = {}"
proof -
  have inv: "vm_inv jsrf_env (vm_statics (\<lambda>_. 7) True)" by (rule vm_statics_inv [OF jsrf_layout])
  have good: "vm_good jsrf_env (Contiguous 5000 0)"
    by (simp add: heap_request_def pow2_values least_align_def least_size_def vm_eval)
  have r: "fst (xbox_ContiguousAlloc jsrf_env 5000 0 (vm_statics (\<lambda>_. 7) True)) = 0x80980000" by (simp add: heap_eval)
  have "vm_live (vm_statics (\<lambda>_. 7) True) = {}" by (simp add: vm_live_def heap_eval ledger_eval)
  with contiguous_address_round_trip(1) [OF inv _ good surjective_pairing] show ?thesis unfolding r
    by (simp add: vm_eval)
qed

section \<open>Reservations\<close>

lemma all_vacant_is_one:
  assumes "tiles lo bs hi" "coalesced bs" "held bs = {}" "bs \<noteq> []"
  shows "bs = [(lo, hi - lo, True)]"
proof (cases bs)
  case (Cons b rest)
  show ?thesis
  proof (cases rest)
    case Nil
    with Cons assms(1,3) show ?thesis by (cases b) (auto split: if_splits)
  next
    case (Cons d ds)
    with \<open>bs = b # rest\<close> assms have "touching b d" by (auto simp: touching_def split: if_splits)
    with \<open>bs = b # rest\<close> Cons assms(2) show ?thesis by simp
  qed
qed (use assms(4) in simp)

text \<open>
  Claim C13: However space is reserved and released, the table, once in use, tiles the whole
  range from the end of RAM to the end of the mapping with at most 128 entries; and when
  nothing is reserved any more, it is one vacant entry again.
\<close>

theorem reservations_tile_the_space:
  assumes "0 < ram_end c" "map_end c \<le> 2 ^ 32" "list_all (call_ok (\<lambda>(n, al). pow2 al \<or> al = 0)) ops"
    and "fst (run_calls (reserve_take c) (reserve_give c) (\<lambda>va (bs, m). reserved_at va bs) ops (([], m), [])) = (bs, m')"
    and "bs \<noteq> []"
  shows "tiles (ram_end c) (map rb_block bs) (map_end c)" "length bs \<le> 128"
    "reserve_held bs = {} \<Longrightarrow> map rb_block bs = [(ram_end c, map_end c - ram_end c, True)]"
proof -
  have "case ([], m) of (bs, m) \<Rightarrow> reserve_inv c bs" using assms(1,2) by (simp add: reserve_inv_def)
  from reserve_provider.ledger_apart(1) [OF this assms(3) surjective_pairing]
  have inv: "reserve_inv c bs" unfolding assms(4) by simp
  with assms(5) show t: "tiles (ram_end c) (map rb_block bs) (map_end c)" "length bs \<le> 128"
    by (simp_all add: reserve_inv_def XBOX_RESERVE_MAX_BLOCKS_def)
  show "map rb_block bs = [(ram_end c, map_end c - ram_end c, True)]" if "reserve_held bs = {}"
    using all_vacant_is_one [OF t(1)] inv that assms(5) by (simp add: reserve_inv_def reserve_held_def)
qed

definition reserve_ops :: "(u32 \<times> u32, u32) memory_call list" where
  "reserve_ops = [Take (0x3000, 0), Take (0x5000, 0x10000), Give 0x4000000, Give 0x4010000]"

lemma reserve_ops_run:
  "fst (run_calls (reserve_take jsrf_env) (reserve_give jsrf_env) (\<lambda>va (bs, m). reserved_at va bs) (take 3 reserve_ops)
     (([], m), [])) = ([\<lparr>rb_addr = 0x4000000, rb_size = 0x10000, rb_free = True\<rparr>,
       \<lparr>rb_addr = 0x4010000, rb_size = 0x5000, rb_free = False\<rparr>, \<lparr>rb_addr = 0x4015000, rb_size = 0x3FEB000, rb_free = True\<rparr>],
       memset_at (memset_at m 0x4000000 0 0x3000) 0x4010000 0 0x5000)"
  "fst (run_calls (reserve_take jsrf_env) (reserve_give jsrf_env) (\<lambda>va (bs, m). reserved_at va bs) reserve_ops
     (([], m), [])) = ([\<lparr>rb_addr = 0x4000000, rb_size = 0x4000000, rb_free = True\<rparr>],
       memset_at (memset_at m 0x4000000 0 0x3000) 0x4010000 0 0x5000)"
  by (simp_all add: heap_eval ledger_eval reserve_ops_def reserve_take_def reserve_give_def memset_at_def merge_following.simps)

theorem reservations_witness:
  "tiles 0x4000000 (map rb_block [\<lparr>rb_addr = 0x4000000, rb_size = 0x10000, rb_free = True\<rparr>,
       \<lparr>rb_addr = 0x4010000, rb_size = 0x5000, rb_free = False\<rparr>, \<lparr>rb_addr = 0x4015000, rb_size = 0x3FEB000, rb_free = True\<rparr>]) 0x8000000"
proof -
  have good: "list_all (call_ok (\<lambda>(n, al). pow2 al \<or> al = 0)) (take 3 reserve_ops)"
    by (simp add: reserve_ops_def) (auto simp: pow2_def push_bit_eq_mult intro!: exI [of _ 16])
  have "ram_end jsrf_env = 0x4000000" "map_end jsrf_env = 0x8000000" by (simp_all add: vm_eval)
  with reservations_tile_the_space(1) [OF _ _ good reserve_ops_run(1)] show ?thesis by simp
qed

section \<open>The protection ledger\<close>

lemma unat_drop_bit_12: "unat (drop_bit 12 (x :: u32)) = unat x div 4096"
  by (simp add: drop_bit_eq_div unat_div)

lemma page_of_low: "q < 32768 \<Longrightarrow> bridge_prot_page_index (of_nat (q * 4096)) = Some q"
proof -
  assume q: "q < 32768"
  let ?x = "of_nat (q * 4096) :: u32"
  have x: "unat ?x = q * 4096" using q by (intro unat_of_nat_u32) simp
  then have "unat ?x < 0x80000000" using q by simp
  then have "?x < XBOX_CONTIG_BASE" by (simp add: XBOX_CONTIG_BASE_def word_less_nat_alt)
  moreover have pg: "unat (drop_bit 12 ?x) = q" by (simp add: unat_drop_bit_12 x del: of_nat_mult)
  moreover have "drop_bit 12 ?x < BRIDGE_PROT_PAGES"
    using q unfolding word_less_nat_alt pg by (simp add: BRIDGE_PROT_PAGES_def)
  moreover have "\<not> ?x \<ge> XBOX_CONTIG_BASE" using calculation(1) by (simp add: not_le)
  ultimately show ?thesis unfolding bridge_prot_page_index_def Let_def by (simp del: of_nat_mult)
qed

lemma prot_fold:
  "fold (\<lambda>k. prot_page p (f k)) ks t j =
     (if \<exists>k \<in> set ks. bridge_prot_page_index (of_nat (f k)) = Some j then ucast p else t j)"
proof (induction ks arbitrary: t)
  case (Cons k ks)
  then show ?case by (auto simp: prot_page_def split: option.split)
qed simp

text \<open>
  A protection recorded over a range of guest RAM reads back at every page the range touches,
  through the RAM address and through the physical mirror alike, and every other page answers as
  before.
\<close>

theorem protection_reads_back:
  assumes "n \<noteq> 0" "unat va + unat n \<le> 2 ^ 27" "p \<noteq> 0" "unat p < 2 ^ 16"
    and "bridge_prot_page_index a = Some q"
  shows "bridge_prot_get a (bridge_prot_set va n p v) =
    (if unat va div 4096 \<le> q \<and> q * 4096 < unat va + unat n then p else bridge_prot_get a v)"
proof -
  let ?first = "unat va div 4096 * 4096"
  let ?N = "(unat va + unat n + 4095) div 4096 - unat va div 4096"
  have npos: "0 < unat n" using assms(1) by (simp add: unat_gt_0)
  have pages: "unat BRIDGE_PROT_PAGES * 4096 = 2 ^ 27" by (simp add: BRIDGE_PROT_PAGES_def)
  have last: "(unat va + unat n + 4095) div 4096 \<le> 32768"
  proof -
    have "unat va + unat n + 4095 \<le> 134221823" using assms(2) by simp
    from div_le_mono [OF this, of 4096] show ?thesis by simp
  qed
  have span: "(unat va + unat n + 4095) div 4096 * 4096 - ?first = ?N * 4096" by (simp add: diff_mult_distrib)
  have N: "\<not> 32768 < ?N" using last by linarith
  have w: "g_guest_page_protect (bridge_prot_set va n p v) =
      fold (\<lambda>k. prot_page p (?first + k * 4096)) [0..<?N] (g_guest_page_protect v)"
    using assms(1,3) N pages span by (simp add: bridge_prot_set_def Let_def not_less)
  have idx: "bridge_prot_page_index (of_nat (?first + k * 4096)) = Some (unat va div 4096 + k)" if "k < ?N" for k
    using page_of_low [of "unat va div 4096 + k"] that last by (simp add: add_mult_distrib)
  have hit: "(\<exists>k \<in> set [0..<?N]. bridge_prot_page_index (of_nat (?first + k * 4096)) = Some q) \<longleftrightarrow>
      unat va div 4096 \<le> q \<and> q * 4096 < unat va + unat n"
  proof -
    have "(\<exists>k \<in> set [0..<?N]. bridge_prot_page_index (of_nat (?first + k * 4096)) = Some q) \<longleftrightarrow>
        (\<exists>k < ?N. unat va div 4096 + k = q)" using idx by auto
    also have "\<dots> \<longleftrightarrow> unat va div 4096 \<le> q \<and> q < (unat va + unat n + 4095) div 4096"
      by (auto intro: exI [of _ "q - unat va div 4096"])
    also have "q < (unat va + unat n + 4095) div 4096 \<longleftrightarrow> q * 4096 < unat va + unat n"
      by (simp add: less_eq_div_iff_mult_less_eq Suc_le_eq [symmetric])
    finally show ?thesis .
  qed
  have pw: "ucast (ucast p :: u16) = p"
    proof -
    have "unat (take_bit 16 p) = take_bit 16 (unat p)" by (rule unsigned_take_bit_eq)
    then have "take_bit 16 p = p" using assms(4) by (simp add: word_unat_eq_iff take_bit_nat_eq_self)
    moreover have "(ucast (ucast p :: u16) :: u32) = take_bit 16 p"
      by (rule bit_word_eqI) (auto simp: bit_simps)
    ultimately show ?thesis by simp
  qed
  have "g_guest_page_protect (bridge_prot_set va n p v) q =
      (if unat va div 4096 \<le> q \<and> q * 4096 < unat va + unat n then ucast p else g_guest_page_protect v q)"
    unfolding w prot_fold hit ..
  then show ?thesis
    using assms(3) pw unfolding bridge_prot_get_def assms(5) option.case Let_def by simp
qed

theorem protection_witness:
  "bridge_prot_get 0x80002234 (bridge_prot_set 0x1800 0x1000 2 (vm_statics m True)) = 2"
proof -
  have "bridge_prot_page_index 0x80002234 = Some 2"
    by (simp add: bridge_prot_page_index_def XBOX_CONTIG_BASE_def XBOX_CONTIG_SIZE_def BRIDGE_PROT_PAGES_def)
  from protection_reads_back [OF _ _ _ _ this, of "0x1000" "0x1800" 2] show ?thesis by simp
qed

section \<open>Thread stacks\<close>

text \<open>
  Ending a thread gives its stack back: after a stack is allocated and freed by the top the
  allocation returned, the live blocks and the number of stacks in use are what they were. Of two
  slots with one top the first would answer, so the top is taken not to be registered yet.
\<close>

theorem thread_stack_round_trip:
  assumes "vm_inv c v" "\<not> heap_no_free c" "heap_request c (stack_bytes n) 4096"
    and "xbox_AllocThreadStack c n v = (tp, v')" "tp \<noteq> 0"
    and "list_all (\<lambda>(t, k). t \<noteq> tp) (g_thread_stack_sizes v)" "list_ex (\<lambda>(t, k). t = 0) (g_thread_stack_sizes v)"
  shows "vm_live (xbox_FreeThreadStack c tp v') = vm_live v"
    "g_thread_stacks_used (xbox_FreeThreadStack c tp v') = g_thread_stacks_used v"
proof -
  let ?n = "stack_bytes n"
  obtain i where i: "find_from (\<lambda>(t, k). t = 0) 0 (g_thread_stack_sizes v) = Some i"
    using assms(7) find_from_None [of "\<lambda>(t, k). t = (0::u32)" 0 "g_thread_stack_sizes v"]
    by (cases "find_from (\<lambda>(t, k). t = 0) 0 (g_thread_stack_sizes v)") (auto simp: list_ex_iff)
  then obtain pre z post where slots: "g_thread_stack_sizes v = pre @ z # post" "i = length pre"
    unfolding find_from_Some by auto
  obtain base w where a: "vm_alloc c ?n 4096 v = (base, w)" by (cases "vm_alloc c ?n 4096 v")
  have same: "g_thread_stack_sizes w = g_thread_stack_sizes v" "g_thread_stacks_used w = g_thread_stacks_used v"
    using a by (auto simp: vm_alloc_def split: prod.splits)
  have nz: "base \<noteq> 0" and tp: "tp = base + ?n - 16" and v': "v' = w\<lparr>g_thread_stacks_used := g_thread_stacks_used v + 1,
      g_thread_stack_sizes := pre @ (tp, ?n) # post\<rparr>"
    using assms(4,5) a i same slots
    by (auto simp: xbox_AllocThreadStack_def Let_def list_update_append split: if_splits)
  have "g_thread_stack_sizes v' = pre @ (tp, ?n) # post \<and> i = 0 + length pre
      \<and> (case (tp, ?n) of (t, k) \<Rightarrow> t = tp) \<and> (\<forall>x \<in> set pre. \<not> (case x of (t, k) \<Rightarrow> t = tp))"
    using assms(6) by (auto simp: v' slots list_all_iff)
  then have "find_from (\<lambda>(t, k). t = tp) 0 (g_thread_stack_sizes v') = Some i"
    unfolding find_from_Some by blast
  moreover have "g_thread_stack_sizes v' ! i = (tp, ?n)" by (simp add: v' slots)
  moreover have "tp + 16 - ?n = base" by (simp add: tp)
  ultimately have f: "xbox_FreeThreadStack c tp v' =
     (let v = vm_free c base (v'\<lparr>g_thread_stack_sizes := (g_thread_stack_sizes v')[i := (0, ?n)]\<rparr>)
      in v\<lparr>g_thread_stacks_used := g_thread_stacks_used v - 1\<rparr>)"
    using assms(5) by (simp add: xbox_FreeThreadStack_def)
  have lay: "vm_layout c" using assms(1) by (simp add: vm_inv_def)
  have can: "heap_canonical_va c base = base"
    using canonical_low [OF lay vm_alloc_served(2) [OF assms(1,3) a nz]] .
  show "vm_live (xbox_FreeThreadStack c tp v') = vm_live v"
    using free_undoes_alloc [OF assms(1,2,3) a nz can nz] unfolding f by (simp add: Let_def vm_free_def vm_live_def v')
  show "g_thread_stacks_used (xbox_FreeThreadStack c tp v') = g_thread_stacks_used v"
    unfolding f by (simp add: Let_def vm_free_def v')
qed

theorem thread_stack_witness:
  "vm_live (xbox_FreeThreadStack jsrf_env 0x98FFF0 (snd (xbox_AllocThreadStack jsrf_env 100 (vm_statics (\<lambda>_. 7) True)))) = {}"
proof -
  have inv: "vm_inv jsrf_env (vm_statics (\<lambda>_. 7) True)" by (rule vm_statics_inv [OF jsrf_layout])
  have n: "stack_bytes 100 = 0x10000"
    by (simp add: stack_bytes_def XBOX_THREAD_STACK_MIN_def XBOX_THREAD_STACK_SIZE_def Let_def)
  have req: "heap_request jsrf_env (stack_bytes 100) 4096"
    by (simp add: n heap_request_def pow2_values least_align_def least_size_def vm_eval)
  have r: "fst (xbox_AllocThreadStack jsrf_env 100 (vm_statics (\<lambda>_. 7) True)) = 0x98FFF0"
    by (simp add: xbox_AllocThreadStack_def n heap_eval XBOX_MAX_THREAD_STACKS_def)
  have "vm_live (vm_statics (\<lambda>_. 7) True) = {}" by (simp add: vm_live_def heap_eval ledger_eval)
  moreover have "list_all (\<lambda>(t, k). t \<noteq> 0x98FFF0) (g_thread_stack_sizes (vm_statics (\<lambda>_. 7) True))"
    "list_ex (\<lambda>(t, k). t = 0) (g_thread_stack_sizes (vm_statics (\<lambda>_. 7) True))"
    by (simp_all add: vm_statics_def list_all_iff list_ex_iff)
  ultimately show ?thesis
    using thread_stack_round_trip(1) [OF inv _ req surjective_pairing] unfolding r by (simp add: vm_eval)
qed

end
