(* ===== verification/Spec2Isabelle.thy ===== *)
theory Spec2Isabelle
  imports X86_Flags X86_Rotates X86_Mmx X86_Xmm Kernel_Crypto Nv2a_Pusher Nv2a_Texture_Decode Gpu_Own Usb_Ohci Nv2a_Vsh D3d8_Ff_Combiner Kernel_Path Mmio_Decode Frame_Pool D3d8_Dxt Hc_Properties Debt_Watch Pb_Scan Vm_Properties
begin

text \<open>
  A verification development beside the Jet Set Radio Future static recompilation: the
  runtime a title's translated x86 code runs on. (Header under construction.)
\<close>

end
